(* ===== verification/Prelude.thy ===== *)
theory Prelude
  imports Main "HOL-Library.Word"
begin

text \<open>
  Shared vocabulary of the development: the machine types of the C++ sources, the wrap-around
  arithmetic of \<open>size_t\<close>, the big-endian byte encodings that the frame codec, the ring buffer
  and the message store all use, association lists for \<open>std::unordered_map\<close>, and the generic
  lemmas on them that the component theories rely on.
\<close>

unbundle bit_operations_syntax

named_theorems size_arith \<open>size_t arithmetic that does not wrap under a bound\<close>
named_theorems bytes_simps \<open>round trips and lengths of byte encodings\<close>
named_theorems alist_simps \<open>look-ups after updates of association lists\<close>

type_synonym byte = "8 word"
type_synonym u16 = "16 word"
type_synonym u32 = "32 word"
type_synonym u64 = "64 word"

text \<open>\<^verbatim>\<open>common/types.h\<close>: the aliases of the code base.\<close>

type_synonym TopicName = string
type_synonym SubscriberId = string
type_synonym MessageId = u64
type_synonym Payload = "byte list"
type_synonym ConnectionId = u64

text \<open>A reading of \<open>std::chrono::steady_clock\<close>, in nanoseconds.\<close>

type_synonym time_point = int

definition kDefaultRingBufferSize :: u32 where
  "kDefaultRingBufferSize = 1024 * 1024"

definition kMaxPayloadSize :: u32 where
  "kMaxPayloadSize = 16 * 1024 * 1024"

lemma unat_kMaxPayloadSize [simp]: "unat kMaxPayloadSize = 16777216"
  by (simp add: kMaxPayloadSize_def)

subsection \<open>Arithmetic of \<open>size_t\<close>\<close>

text \<open>
  A \<open>size_t\<close> is a 64-bit unsigned integer. Its values are kept as \<open>nat\<close> because they
  index lists; every addition and subtraction of the sources is written with the wrap-around.
\<close>

definition size_max :: nat where
  "size_max = 2 ^ 64"

definition size_add :: "nat \<Rightarrow> nat \<Rightarrow> nat" where
  "size_add a b = (a + b) mod size_max"

definition size_sub :: "nat \<Rightarrow> nat \<Rightarrow> nat" where
  "size_sub a b = (a + (size_max - b mod size_max)) mod size_max"

lemma size_add_exact [size_arith]: "a + b < size_max \<Longrightarrow> size_add a b = a + b"
  by (simp add: size_add_def)

lemma size_sub_exact [size_arith]:
  assumes "b \<le> a" and "a < size_max"
  shows "size_sub a b = a - b"
proof -
  have "a + (size_max - b) = (a - b) + size_max" and "b mod size_max = b"
    using assms by simp_all
  then have "size_sub a b = (a - b + size_max) mod size_max"
    unfolding size_sub_def by metis
  also have "\<dots> = a - b"
    unfolding mod_add_self2 using assms by simp
  finally show ?thesis .
qed

lemma size_add_wraps: "size_add (size_max - 1) 1 = 0"
  by (simp add: size_add_def size_max_def)

lemma size_sub_wraps: "size_sub 0 1 = size_max - 1"
  by (simp add: size_sub_def size_max_def)

subsection \<open>Positions on a ring\<close>

text \<open>Within a window of at most \<open>c\<close> positions, positions modulo \<open>c\<close> are distinct.\<close>

lemma mod_window_inj:
  fixes a b c h :: nat
  assumes "(h + a) mod c = (h + b) mod c" and "a < c" and "b < c"
  shows "a = b"
proof -
  have "a mod c = b mod c"
    using assms(1) by (simp add: nat_mod_eq_iff)
  then show ?thesis
    using assms by simp
qed

lemma mod_window_distance:
  fixes h n c :: nat
  assumes "h < c" and "n < c"
  shows "((h + n) mod c + c - h) mod c = n"
proof (cases "h + n < c")
  case True
  then show ?thesis using assms by simp
next
  case False
  then have "(h + n) mod c = h + n - c"
    using assms by (simp add: mod_if)
  then show ?thesis
    using assms False by simp
qed

lemma mod_window_room:
  fixes h n c :: nat
  assumes "h < c" and "n < c"
  shows "(h + c - (h + n) mod c - 1) mod c = c - 1 - n"
proof (cases "h + n < c")
  case True
  then have "h + c - (h + n) mod c - 1 = c - 1 - n"
    by simp
  then show ?thesis using assms by simp
next
  case False
  then have "(h + n) mod c = h + n - c"
    using assms by (simp add: mod_if)
  then have "h + c - (h + n) mod c - 1 = (c - 1 - n) + c"
    using assms False by simp
  moreover have "((c - 1 - n) + c) mod c = c - 1 - n"
    unfolding mod_add_self2 using assms by simp
  ultimately show ?thesis
    by metis
qed

subsection \<open>Big-endian bytes\<close>

text \<open>
  The sources write an \<open>n\<close>-byte integer most significant byte first, each byte as
  \<^verbatim>\<open>static_cast<uint8_t>((x >> (8 * i)) & 0xFF)\<close>, and read it back with
  \<^verbatim>\<open>x = (x << 8) | byte\<close>.
\<close>

definition byte_of :: "nat \<Rightarrow> 'a::len word \<Rightarrow> byte" where
  "byte_of i x = ucast (drop_bit (8 * i) x AND 0xFF)"

definition be_bytes :: "nat \<Rightarrow> 'a::len word \<Rightarrow> byte list" where
  "be_bytes n x = map (\<lambda>i. byte_of i x) (rev [0..<n])"

fun be_read :: "'a::len word \<Rightarrow> byte list \<Rightarrow> 'a word" where
  "be_read acc [] = acc"
| "be_read acc (b # bs) = be_read (push_bit 8 acc OR ucast b) bs"

lemma length_be_bytes [simp, bytes_simps]: "length (be_bytes n x) = n"
  by (simp add: be_bytes_def)

lemma be_bytes_0 [simp]: "be_bytes 0 x = []"
  by (simp add: be_bytes_def)

lemma be_bytes_Suc: "be_bytes (Suc n) x = byte_of n x # be_bytes n x"
  by (simp add: be_bytes_def)

lemma be_bytes_4: "be_bytes 4 x = [byte_of 3 x, byte_of 2 x, byte_of 1 x, byte_of 0 x]"
  by (simp add: be_bytes_Suc numeral_eq_Suc)

lemma be_read_append: "be_read acc (bs @ cs) = be_read (be_read acc bs) cs"
  by (induction bs arbitrary: acc) simp_all

lemma bit_0xFF: "bit (0xFF :: 'a::len word) k \<longleftrightarrow> k < LENGTH('a) \<and> k < 8"
proof -
  have "(0xFF :: 'a word) = mask 8"
    by (simp add: mask_eq_exp_minus_1)
  then show ?thesis
    by (simp only: bit_mask_iff) simp
qed

lemma bit_byteD: "bit (b :: byte) k \<Longrightarrow> k < 8"
  using bit_imp_le_length [of b k] by simp

lemma bit_wordD: "bit (x :: 'a::len word) (m + k) \<Longrightarrow> k < LENGTH('a)"
  using bit_imp_le_length [of x "m + k"] by simp

lemma bit_byte_of: "bit (byte_of i x) k \<longleftrightarrow> k < 8 \<and> bit x (8 * i + k)"
proof -
  have "bit (byte_of i x) k \<longleftrightarrow> k < 8 \<and> bit (drop_bit (8 * i) x AND 0xFF) k"
    unfolding byte_of_def bit_ucast_iff by simp
  also have "\<dots> \<longleftrightarrow> k < 8 \<and> bit x (8 * i + k)"
    unfolding bit_and_iff bit_drop_bit_eq o_def bit_0xFF by (auto dest: bit_wordD)
  finally show ?thesis .
qed

lemma be_read_be_bytes_acc:
  fixes x acc :: "'a::len word"
  shows "be_read acc (be_bytes n x) = push_bit (8 * n) acc OR take_bit (8 * n) x"
proof (induction n arbitrary: acc)
  case 0
  then show ?case by simp
next
  case (Suc n)
  have "push_bit (8 * n) (push_bit 8 acc OR ucast (byte_of n x)) OR take_bit (8 * n) x =
        push_bit (8 * Suc n) acc OR take_bit (8 * Suc n) x"
  proof (rule bit_word_eqI)
    fix k assume "k < LENGTH('a)"
    then show "bit (push_bit (8 * n) (push_bit 8 acc OR ucast (byte_of n x)) OR take_bit (8 * n) x) k
        = bit (push_bit (8 * Suc n) acc OR take_bit (8 * Suc n) x) k"
      by (auto simp: bit_simps bit_byte_of algebra_simps)
  qed
  then show ?case
    by (simp add: be_bytes_Suc Suc.IH)
qed

lemma be_read_be_bytes [simp, bytes_simps]:
  fixes x :: "'a::len word"
  assumes "LENGTH('a) \<le> 8 * n"
  shows "be_read 0 (be_bytes n x) = x"
  using assms by (simp add: be_read_be_bytes_acc take_bit_word_eq_self)

lemma be_bytes_snoc: "be_bytes (Suc n) x = be_bytes n (drop_bit 8 x) @ [byte_of 0 x]"
proof (induction n)
  case 0
  then show ?case by (simp add: be_bytes_Suc)
next
  case (Suc n)
  have "byte_of n (drop_bit 8 x) = byte_of (Suc n) x"
    by (rule bit_word_eqI) (auto simp: bit_byte_of bit_simps algebra_simps)
  then show ?case
    using Suc.IH by (simp add: be_bytes_Suc)
qed

lemma be_bytes_drop_step:
  fixes a :: "'a::len word" and b :: byte
  assumes "8 * Suc n \<le> LENGTH('a)"
  shows "be_bytes n (drop_bit 8 (push_bit 8 a OR ucast b)) = be_bytes n a"
proof -
  have "byte_of i (drop_bit 8 (push_bit 8 a OR ucast b)) = byte_of i a" if "i < n" for i
    using that assms
    by (intro bit_word_eqI) (auto simp: bit_byte_of bit_simps dest!: bit_byteD)
  then show ?thesis
    by (simp add: be_bytes_def)
qed

lemma byte_of_0_step:
  fixes a :: "'a::len word"
  assumes "8 \<le> LENGTH('a)"
  shows "byte_of 0 (push_bit 8 a OR ucast b) = b"
  using assms by (intro bit_word_eqI) (auto simp: bit_byte_of bit_simps)

lemma be_bytes_be_read [bytes_simps]:
  fixes acc :: "'a::len word"
  assumes "8 * length bs \<le> LENGTH('a)"
  shows "be_bytes (length bs) (be_read acc bs) = bs"
  using assms
proof (induction bs rule: rev_induct)
  case Nil
  then show ?case by simp
next
  case (snoc b bs)
  then have "be_bytes (length bs) (be_read acc bs) = bs"
    by simp
  with snoc.prems show ?case
    by (simp add: be_read_append be_bytes_snoc be_bytes_drop_step byte_of_0_step
        del: drop_bit_or)
qed

subsection \<open>Step relations and their invariants\<close>

text \<open>
  The states a transition system can reach, and the rule by which the components lift an
  invariant of single steps to all of them.
\<close>

inductive reach :: "('s \<Rightarrow> bool) \<Rightarrow> ('s \<Rightarrow> 's \<Rightarrow> bool) \<Rightarrow> 's \<Rightarrow> bool"
  for init step where
  reach_init: "init s \<Longrightarrow> reach init step s"
| reach_step: "reach init step s \<Longrightarrow> step s t \<Longrightarrow> reach init step t"

locale step_invariant =
  fixes init :: "'s \<Rightarrow> bool" and step :: "'s \<Rightarrow> 's \<Rightarrow> bool" and inv :: "'s \<Rightarrow> bool"
  assumes init_inv: "init s \<Longrightarrow> inv s"
    and step_inv: "step s t \<Longrightarrow> inv s \<Longrightarrow> inv t"
begin

lemma reach_inv: "reach init step s \<Longrightarrow> inv s"
proof (induction rule: reach.induct)
  case (reach_init s)
  then show ?case by (rule init_inv)
next
  case (reach_step s t)
  then show ?case by (blast intro: step_inv)
qed

end

end
