(* ===== verification/Ring_Buffer.thy ===== *)
theory Ring_Buffer
  imports Prelude
begin

text \<open>
  \<^verbatim>\<open>ring_buffer/spsc_ring_buffer.h\<close> and \<^verbatim>\<open>.cpp\<close>: the byte ring behind every topic, one
  call at a time (the interleaving of the two threads is the subject of
  \<^verbatim>\<open>Ring_Concurrent\<close>). A message is stored as a four-byte big-endian length and its
  bytes; one cell always stays free so that full and empty differ. The lemmas show that the
  ring is a bounded first-in first-out queue of byte strings, as the locale
  \<open>bounded_queue\<close> states it, and what happens to entries above the size that Pop accepts.
\<close>

subsection \<open>The class and its operations\<close>

record SpscRingBuffer =
  rb_capacity :: nat
  rb_buffer :: "byte list"
  rb_head :: nat
  rb_tail :: nat

text \<open>
  The constructor adds one cell, in \<open>size_t\<close> arithmetic. \<^verbatim>\<open>std::make_unique<uint8_t[]>\<close>
  throws above \<open>PTRDIFF_MAX\<close> bytes (\<open>None\<close>) and zero-initialises the cells otherwise.
\<close>

definition ptrdiff_max :: nat where
  "ptrdiff_max = 2 ^ 63 - 1"

definition rb_new :: "nat \<Rightarrow> SpscRingBuffer option" where
  "rb_new capacity =
     (let c = size_add capacity 1 in
      if c > ptrdiff_max then None
      else Some \<lparr>rb_capacity = c, rb_buffer = replicate c 0, rb_head = 0, rb_tail = 0\<rparr>)"

text \<open>The write loop \<^verbatim>\<open>buffer_[(base + i) % capacity_] = data[i]\<close> and the read loop.\<close>

fun ring_write :: "nat \<Rightarrow> nat \<Rightarrow> nat \<Rightarrow> byte list \<Rightarrow> byte list \<Rightarrow> byte list" where
  "ring_write cap base i [] buf = buf"
| "ring_write cap base i (b # bs) buf =
     ring_write cap base (i + 1) bs (buf[size_add base i mod cap := b])"

definition ring_read :: "nat \<Rightarrow> nat \<Rightarrow> nat \<Rightarrow> byte list \<Rightarrow> byte list" where
  "ring_read cap base len buf = map (\<lambda>i. buf ! (size_add base i mod cap)) [0..<len]"

definition rb_Push :: "SpscRingBuffer \<Rightarrow> byte list \<Rightarrow> bool \<times> SpscRingBuffer" where
  "rb_Push rb data =
     (let cap = rb_capacity rb; len = length data in
      if len = 0 \<or> len > size_sub cap 1 then (False, rb)
      else
        let tail = rb_tail rb;
            head = rb_head rb;
            total_len = size_add 4 len;
            writable = size_sub (size_sub (size_add head cap) tail) 1 mod cap
        in if writable < total_len then (False, rb)
           else
             let len_be = (of_nat len :: u32);
                 header = map (\<lambda>i. ucast (drop_bit (24 - i * 8) len_be AND 0xFF)) [0..<4];
                 buf1 = ring_write cap tail 0 header (rb_buffer rb);
                 buf2 = ring_write cap (size_add tail 4) 0 data buf1
             in (True, rb\<lparr>rb_buffer := buf2, rb_tail := size_add tail total_len mod cap\<rparr>))"

definition rb_Pop :: "SpscRingBuffer \<Rightarrow> byte list option \<times> SpscRingBuffer" where
  "rb_Pop rb =
     (let cap = rb_capacity rb; head = rb_head rb; tail = rb_tail rb in
      if head = tail then (None, rb)
      else
        let len = be_read (0 :: u32) (ring_read cap head 4 (rb_buffer rb)) in
        if len = 0 \<or> len > kMaxPayloadSize then (None, rb)
        else
          let data = ring_read cap (size_add head 4) (unat len) (rb_buffer rb)
          in (Some data, rb\<lparr>rb_head := size_add (size_add head 4) (unat len) mod cap\<rparr>))"

definition rb_GetReadableSize :: "SpscRingBuffer \<Rightarrow> nat" where
  "rb_GetReadableSize rb =
     size_sub (size_add (rb_tail rb) (rb_capacity rb)) (rb_head rb) mod rb_capacity rb"

definition rb_GetWritableSize :: "SpscRingBuffer \<Rightarrow> nat" where
  "rb_GetWritableSize rb =
     size_sub (size_sub (size_add (rb_head rb) (rb_capacity rb)) (rb_tail rb)) 1 mod rb_capacity rb"

definition rb_Size :: "SpscRingBuffer \<Rightarrow> nat" where
  "rb_Size rb = rb_GetReadableSize rb"

definition rb_Empty :: "SpscRingBuffer \<Rightarrow> bool" where
  "rb_Empty rb \<longleftrightarrow> rb_head rb = rb_tail rb"

definition rb_Full :: "SpscRingBuffer \<Rightarrow> bool" where
  "rb_Full rb \<longleftrightarrow> size_add (rb_tail rb) 1 mod rb_capacity rb = rb_head rb"

subsection \<open>What the ring stands for\<close>

text \<open>
  \<open>rb_entry m\<close> is the stored form of a message; \<open>rb_cells rb ms\<close> says that the ring holds
  exactly the entries of \<open>ms\<close>, oldest first; \<open>rb_valid m\<close> is the size range that Pop
  accepts, and \<open>rb_rep rb ms\<close> adds that all stored messages are in it.
\<close>

definition rb_entry :: "byte list \<Rightarrow> byte list" where
  "rb_entry m = be_bytes 4 (of_nat (length m) :: u32) @ m"

definition rb_entries :: "byte list list \<Rightarrow> byte list" where
  "rb_entries ms = concat (map rb_entry ms)"

definition rb_valid :: "byte list \<Rightarrow> bool" where
  "rb_valid m \<longleftrightarrow> 0 < length m \<and> length m \<le> unat kMaxPayloadSize"

definition rb_inv :: "SpscRingBuffer \<Rightarrow> bool" where
  "rb_inv rb \<longleftrightarrow> 0 < rb_capacity rb \<and> rb_capacity rb \<le> ptrdiff_max \<and>
     length (rb_buffer rb) = rb_capacity rb \<and>
     rb_head rb < rb_capacity rb \<and> rb_tail rb < rb_capacity rb"

definition ring_holds :: "nat \<Rightarrow> byte list \<Rightarrow> nat \<Rightarrow> byte list \<Rightarrow> bool" where
  "ring_holds cap buf pos bs \<longleftrightarrow> (\<forall>i < length bs. buf ! ((pos + i) mod cap) = bs ! i)"

definition rb_cells :: "SpscRingBuffer \<Rightarrow> byte list list \<Rightarrow> bool" where
  "rb_cells rb ms \<longleftrightarrow> rb_inv rb \<and>
     length (rb_entries ms) < rb_capacity rb \<and>
     rb_tail rb = (rb_head rb + length (rb_entries ms)) mod rb_capacity rb \<and>
     ring_holds (rb_capacity rb) (rb_buffer rb) (rb_head rb) (rb_entries ms)"

definition rb_rep :: "SpscRingBuffer \<Rightarrow> byte list list \<Rightarrow> bool" where
  "rb_rep rb ms \<longleftrightarrow> rb_cells rb ms \<and> list_all rb_valid ms"

text \<open>There is room for a message when its entry fits into the free cells but one.\<close>

definition rb_room :: "SpscRingBuffer \<Rightarrow> byte list \<Rightarrow> bool" where
  "rb_room rb m \<longleftrightarrow> m \<noteq> [] \<and> length (rb_entry m) \<le> rb_GetWritableSize rb"

lemma length_rb_entry [simp]: "length (rb_entry m) = 4 + length m"
  by (simp add: rb_entry_def)

lemma rb_entries_Nil [simp]: "rb_entries [] = []"
  by (simp add: rb_entries_def)

lemma rb_entries_Cons [simp]: "rb_entries (m # ms) = rb_entry m @ rb_entries ms"
  by (simp add: rb_entries_def)

lemma rb_entries_append [simp]: "rb_entries (ms @ ns) = rb_entries ms @ rb_entries ns"
  by (simp add: rb_entries_def)

lemma rb_header_eq:
  "map (\<lambda>i. ucast (drop_bit (24 - i * 8) x AND 0xFF)) [0..<4] = be_bytes 4 (x :: u32)"
  by (simp add: be_bytes_4 byte_of_def upt_rec)

lemma rb_header_read:
  "length m < 2 ^ 32 \<Longrightarrow>
     be_read (0 :: u32) (be_bytes 4 (of_nat (length m) :: u32)) = of_nat (length m)"
  by simp

lemma rb_valid_unat:
  assumes "rb_valid m"
  shows "unat (of_nat (length m) :: u32) = length m"
  using assms by (simp add: rb_valid_def unat_of_nat)

subsection \<open>The read and write loops\<close>

lemma length_ring_write [simp]: "length (ring_write cap base i bs buf) = length buf"
  by (induction bs arbitrary: i buf) simp_all

lemma length_ring_read [simp]: "length (ring_read cap base n buf) = n"
  by (simp add: ring_read_def)

text \<open>A write leaves every cell outside its window alone and fills every cell inside.\<close>

lemma ring_write_other:
  assumes "base + i + length bs < size_max"
    and "\<And>k. k < length bs \<Longrightarrow> (base + i + k) mod cap \<noteq> j"
  shows "ring_write cap base i bs buf ! j = buf ! j"
  using assms
proof (induction bs arbitrary: i buf)
  case Nil
  then show ?case by simp
next
  case (Cons b bs)
  have "(base + Suc i + k) mod cap \<noteq> j" if "k < length bs" for k
    using Cons.prems(2) [of "Suc k"] that by simp
  moreover have "(base + i) mod cap \<noteq> j"
    using Cons.prems(2) [of 0] by simp
  ultimately show ?case
    using Cons.prems(1) Cons.IH [of "Suc i"] by (simp add: size_arith)
qed

lemma ring_write_inside:
  assumes "base + i + length bs < size_max" and "length bs \<le> cap" and "length buf = cap"
    and "k < length bs"
  shows "ring_write cap base i bs buf ! ((base + i + k) mod cap) = bs ! k"
  using assms
proof (induction bs arbitrary: i buf k)
  case Nil
  then show ?case by simp
next
  case (Cons b bs)
  show ?case
  proof (cases k)
    case 0
    have "(base + Suc i + m) mod cap \<noteq> (base + i) mod cap" if "m < length bs" for m
      using mod_window_inj [of "base + i" "Suc m" cap 0] that Cons.prems(2) by auto
    moreover have "(base + i) mod cap < length buf"
      using Cons.prems(2,3) by simp
    ultimately show ?thesis
      using 0 Cons.prems(1) ring_write_other [of base "Suc i" bs cap "(base + i) mod cap"]
      by (simp add: size_arith)
  next
    case (Suc m)
    then show ?thesis
      using Cons.prems Cons.IH [of "Suc i" "buf[size_add base i mod cap := b]" m] by simp
  qed
qed

lemma ring_read_holds:
  assumes "ring_holds cap buf pos bs" and "pos + length bs < size_max" and "n \<le> length bs"
  shows "ring_read cap pos n buf = take n bs"
  using assms by (intro nth_equalityI) (simp_all add: ring_read_def ring_holds_def size_arith)

lemma ring_holds_append:
  "ring_holds cap buf pos (bs @ cs) \<longleftrightarrow>
     ring_holds cap buf pos bs \<and> ring_holds cap buf (pos + length bs) cs"
proof
  assume h: "ring_holds cap buf pos (bs @ cs)"
  then have "buf ! ((pos + length bs + i) mod cap) = cs ! i" if "i < length cs" for i
    using that unfolding ring_holds_def by (auto simp: nth_append algebra_simps dest: spec [of _ "length bs + i"])
  moreover have "buf ! ((pos + i) mod cap) = bs ! i" if "i < length bs" for i
    using h that unfolding ring_holds_def by (auto simp: nth_append dest: spec [of _ i])
  ultimately show "ring_holds cap buf pos bs \<and> ring_holds cap buf (pos + length bs) cs"
    by (simp add: ring_holds_def)
next
  assume h: "ring_holds cap buf pos bs \<and> ring_holds cap buf (pos + length bs) cs"
  show "ring_holds cap buf pos (bs @ cs)"
    unfolding ring_holds_def
  proof (intro allI impI)
    fix i assume i: "i < length (bs @ cs)"
    show "buf ! ((pos + i) mod cap) = (bs @ cs) ! i"
    proof (cases "i < length bs")
      case True
      then show ?thesis using h by (simp add: ring_holds_def nth_append)
    next
      case False
      then obtain k where "i = length bs + k"
        using le_Suc_ex not_less by blast
      then show ?thesis using h i by (simp add: ring_holds_def add.assoc)
    qed
  qed
qed

lemma ring_holds_mod [simp]: "ring_holds cap buf (pos mod cap) bs = ring_holds cap buf pos bs"
  by (simp add: ring_holds_def mod_add_left_eq)

lemma ring_holds_map:
  "ring_holds cap buf pos bs \<longleftrightarrow> map (\<lambda>i. buf ! ((pos + i) mod cap)) [0..<length bs] = bs"
  unfolding ring_holds_def list_eq_iff_nth_eq [of "map _ _"] by simp

text \<open>Writing behind the occupied window keeps what it holds and adds what is written.\<close>

lemma ring_write_holds:
  assumes "ring_holds cap buf pos bs" and "length buf = cap" and "pos < cap"
    and "pos + length bs + length cs < size_max" and "length bs + length cs \<le> cap"
  shows "ring_holds cap (ring_write cap ((pos + length bs) mod cap) 0 cs buf) pos (bs @ cs)"
proof -
  let ?base = "(pos + length bs) mod cap"
  have bound: "?base + 0 + length cs < size_max"
    using mod_less_eq_dividend [of "pos + length bs" cap] assms(4) by linarith
  have "ring_write cap ?base 0 cs buf ! ((pos + i) mod cap) = bs ! i" if i: "i < length bs" for i
  proof -
    have "(?base + 0 + k) mod cap \<noteq> (pos + i) mod cap" if "k < length cs" for k
    proof
      assume "(?base + 0 + k) mod cap = (pos + i) mod cap"
      then have "(pos + (length bs + k)) mod cap = (pos + i) mod cap"
        by (simp only: mod_add_left_eq add_0_right add.assoc)
      then have "length bs + k = i"
        by (rule mod_window_inj) (use i that assms(5) in auto)
      then show False using i by simp
    qed
    then have "ring_write cap ?base 0 cs buf ! ((pos + i) mod cap) = buf ! ((pos + i) mod cap)"
      by (intro ring_write_other bound) auto
    then show ?thesis
      using assms(1) i by (simp add: ring_holds_def)
  qed
  moreover have "ring_write cap ?base 0 cs buf ! ((pos + length bs + i) mod cap) = cs ! i"
    if "i < length cs" for i
    using ring_write_inside [OF bound, of cap buf i] that assms(2,5)
    by (simp add: mod_add_left_eq)
  ultimately show ?thesis
    unfolding ring_holds_append by (simp add: ring_holds_def)
qed

subsection \<open>Push and Pop on a ring that holds messages\<close>

lemma rb_invD:
  assumes "rb_inv rb"
  shows "0 < rb_capacity rb" and "rb_capacity rb \<le> ptrdiff_max"
    and "length (rb_buffer rb) = rb_capacity rb"
    and "rb_head rb < rb_capacity rb" and "rb_tail rb < rb_capacity rb"
    and "rb_capacity rb + rb_capacity rb < size_max"
  using assms by (simp_all add: rb_inv_def ptrdiff_max_def size_max_def)

lemma rb_cellsD:
  assumes "rb_cells rb ms"
  shows "rb_inv rb" and "length (rb_entries ms) < rb_capacity rb"
    and "rb_tail rb = (rb_head rb + length (rb_entries ms)) mod rb_capacity rb"
    and "ring_holds (rb_capacity rb) (rb_buffer rb) (rb_head rb) (rb_entries ms)"
  using assms by (simp_all add: rb_cells_def)

lemma rb_repD:
  assumes "rb_rep rb ms"
  shows "rb_cells rb ms" and "list_all rb_valid ms" and "rb_inv rb"
  using assms by (simp_all add: rb_rep_def rb_cells_def)

lemma rb_writable_inv:
  assumes "rb_inv rb"
  shows "rb_GetWritableSize rb = (rb_head rb + rb_capacity rb - rb_tail rb - 1) mod rb_capacity rb"
proof -
  note inv = rb_invD [OF assms]
  have "size_add (rb_head rb) (rb_capacity rb) = rb_head rb + rb_capacity rb"
    using inv by (intro size_add_exact) simp
  moreover have "size_sub (rb_head rb + rb_capacity rb) (rb_tail rb) = rb_head rb + rb_capacity rb - rb_tail rb"
    using inv by (intro size_sub_exact) simp_all
  moreover have "size_sub (rb_head rb + rb_capacity rb - rb_tail rb) 1 = rb_head rb + rb_capacity rb - rb_tail rb - 1"
    using inv by (intro size_sub_exact) auto
  ultimately show ?thesis
    unfolding rb_GetWritableSize_def by metis
qed

lemma rb_writable:
  assumes "rb_cells rb ms"
  shows "rb_GetWritableSize rb = rb_capacity rb - 1 - length (rb_entries ms)"
  unfolding rb_writable_inv [OF rb_cellsD(1) [OF assms]] rb_cellsD(3) [OF assms]
  by (rule mod_window_room) (rule rb_invD [OF rb_cellsD(1)] rb_cellsD assms)+

lemma rb_readable:
  assumes "rb_cells rb ms"
  shows "rb_GetReadableSize rb = length (rb_entries ms)"
proof -
  have b: "rb_capacity rb + rb_capacity rb < size_max"
    using assms by (simp add: rb_cells_def rb_invD)
  have "rb_GetReadableSize rb = (rb_tail rb + rb_capacity rb - rb_head rb) mod rb_capacity rb"
    using assms b by (simp add: rb_GetReadableSize_def rb_cells_def rb_inv_def size_arith)
  then show ?thesis
    using assms mod_window_distance [of "rb_head rb" "rb_capacity rb" "length (rb_entries ms)"]
    by (simp add: rb_cells_def rb_inv_def)
qed

text \<open>On an invariant ring the guards of Push amount to \<open>rb_room\<close>.\<close>

lemma rb_Push_unfold:
  assumes "rb_inv rb"
  shows "rb_Push rb m =
    (if rb_room rb m
     then (True, rb\<lparr>rb_buffer :=
              ring_write (rb_capacity rb) (rb_tail rb + 4) 0 m
                (ring_write (rb_capacity rb) (rb_tail rb) 0
                   (be_bytes 4 (of_nat (length m) :: u32)) (rb_buffer rb)),
            rb_tail := (rb_tail rb + length (rb_entry m)) mod rb_capacity rb\<rparr>)
     else (False, rb))"
proof -
  have b: "rb_capacity rb + rb_capacity rb < size_max"
    using assms by (rule rb_invD)
  have w: "rb_GetWritableSize rb < rb_capacity rb"
    using assms by (simp add: rb_GetWritableSize_def rb_inv_def)
  have c: "size_sub (rb_capacity rb) 1 = rb_capacity rb - 1"
    using assms b by (simp add: size_sub_exact rb_inv_def)
  show ?thesis
  proof (cases "m = [] \<or> length m > rb_capacity rb - 1")
    case True
    then show ?thesis
      using w c by (auto simp: rb_Push_def rb_room_def)
  next
    case False
    then have "4 + length m < size_max" and "rb_tail rb + 4 < size_max"
      using assms b by (auto simp: rb_inv_def ptrdiff_max_def size_max_def)
    moreover have "rb_tail rb + (4 + length m) < size_max" if "4 + length m \<le> rb_GetWritableSize rb"
      using that w b assms by (simp add: rb_inv_def)
    ultimately show ?thesis
      using False c
      unfolding rb_Push_def rb_room_def Let_def rb_header_eq rb_GetWritableSize_def [symmetric]
      by (simp add: size_add_exact)
  qed
qed

lemma ring_write_base_mod:
  "base + i + length bs < size_max \<Longrightarrow>
     ring_write cap (base mod cap) i bs buf = ring_write cap base i bs buf"
proof (induction bs arbitrary: i buf)
  case Nil
  then show ?case by simp
next
  case (Cons b bs)
  have "base mod cap + i < size_max"
    using Cons.prems mod_less_eq_dividend [of base cap] unfolding list.size by linarith
  then show ?case
    using Cons.prems Cons.IH [of "Suc i"] by (simp add: size_add_exact mod_add_left_eq)
qed

lemma rb_room_space:
  assumes "rb_cells rb ms" and "rb_room rb m"
  shows "length (rb_entries ms) + length (rb_entry m) < rb_capacity rb"
proof -
  have "length (rb_entry m) \<le> rb_capacity rb - 1 - length (rb_entries ms)"
    using assms rb_writable [OF assms(1)] by (simp add: rb_room_def)
  then show ?thesis
    using rb_cellsD(2) [OF assms(1)] by simp
qed

lemma rb_Push_reject: "rb_inv rb \<Longrightarrow> \<not> rb_room rb m \<Longrightarrow> rb_Push rb m = (False, rb)"
  by (simp add: rb_Push_unfold)

text \<open>
  The cells that Push fills: the occupied window, followed by the new entry, whatever its size.
\<close>

lemma rb_Push_cells:
  assumes rep: "rb_cells rb ms" and room: "rb_room rb m"
  obtains rb' where "rb_Push rb m = (True, rb')" and "rb_inv rb'"
    and "rb_head rb' = rb_head rb" and "rb_capacity rb' = rb_capacity rb"
    and "rb_tail rb' = (rb_head rb + length (rb_entries ms @ rb_entry m)) mod rb_capacity rb"
    and "ring_holds (rb_capacity rb) (rb_buffer rb') (rb_head rb) (rb_entries ms @ rb_entry m)"
proof -
  note inv = rb_cellsD(1) [OF rep] and cells = rb_cellsD(4) [OF rep] and tail = rb_cellsD(3) [OF rep]
  note bounds = rb_invD [OF inv]
  let ?c = "rb_capacity rb" and ?h = "rb_head rb" and ?es = "rb_entries ms"
  let ?hdr = "be_bytes 4 (of_nat (length m) :: u32)"
  let ?b1 = "ring_write ?c (rb_tail rb) 0 ?hdr (rb_buffer rb)"
  let ?b2 = "ring_write ?c (rb_tail rb + 4) 0 m ?b1"
  have space: "length ?es + (4 + length m) < ?c"
    using rb_room_space [OF rep room] by simp
  have "ring_holds ?c ?b1 ?h (?es @ ?hdr)"
    unfolding tail using cells bounds space by (intro ring_write_holds) auto
  then have "ring_holds ?c (ring_write ?c ((?h + length (?es @ ?hdr)) mod ?c) 0 m ?b1) ?h ((?es @ ?hdr) @ m)"
    using bounds space by (intro ring_write_holds) auto
  moreover have "ring_write ?c ((?h + length (?es @ ?hdr)) mod ?c) 0 m ?b1 = ?b2"
  proof -
    have "(?h + length (?es @ ?hdr)) mod ?c = (rb_tail rb + 4) mod ?c"
      unfolding tail by (simp add: mod_add_left_eq add.assoc)
    then show ?thesis
      using ring_write_base_mod [of "rb_tail rb + 4" 0 m ?c ?b1] bounds space by simp
  qed
  ultimately have "ring_holds ?c ?b2 ?h (?es @ rb_entry m)"
    by (simp add: rb_entry_def)
  moreover have "(rb_tail rb + length (rb_entry m)) mod ?c = (?h + length (?es @ rb_entry m)) mod ?c"
    unfolding tail by (simp add: mod_add_left_eq add.assoc)
  ultimately show ?thesis
    using that [of "rb\<lparr>rb_buffer := ?b2, rb_tail := (rb_tail rb + length (rb_entry m)) mod ?c\<rparr>"]
      inv room rb_Push_unfold [OF inv, of m]
    by (simp add: rb_inv_def)
qed

lemma rb_Push_keeps_cells:
  assumes "rb_cells rb ms" and "rb_room rb m"
  shows "fst (rb_Push rb m) \<and> rb_cells (snd (rb_Push rb m)) (ms @ [m])"
proof -
  obtain rb' where "rb_Push rb m = (True, rb')" and "rb_inv rb'"
    and "rb_head rb' = rb_head rb" and "rb_capacity rb' = rb_capacity rb"
    and "rb_tail rb' = (rb_head rb + length (rb_entries ms @ rb_entry m)) mod rb_capacity rb"
    and "ring_holds (rb_capacity rb) (rb_buffer rb') (rb_head rb) (rb_entries ms @ rb_entry m)"
    using rb_Push_cells [OF assms] .
  then show ?thesis
    using rb_room_space [OF assms] by (simp add: rb_cells_def)
qed

lemma rb_Push_accept:
  assumes "rb_rep rb ms" and "rb_valid m" and "rb_room rb m"
  shows "fst (rb_Push rb m) \<and> rb_rep (snd (rb_Push rb m)) (ms @ [m])"
  using assms rb_Push_keeps_cells [of rb ms m] by (simp add: rb_rep_def)

lemma rb_cells_empty_iff:
  assumes "rb_cells rb ms"
  shows "rb_head rb = rb_tail rb \<longleftrightarrow> ms = []"
proof
  assume "rb_head rb = rb_tail rb"
  then have "(rb_head rb + length (rb_entries ms)) mod rb_capacity rb = (rb_head rb + 0) mod rb_capacity rb"
    using rb_cellsD(3) [OF assms] rb_invD(4) [OF rb_cellsD(1) [OF assms]] by simp
  then have "length (rb_entries ms) = 0"
    by (rule mod_window_inj) (use rb_cellsD [OF assms] in auto)
  then show "ms = []"
    by (cases ms) simp_all
next
  assume "ms = []"
  then show "rb_head rb = rb_tail rb"
    using rb_cellsD(3) [OF assms] rb_invD(4) [OF rb_cellsD(1) [OF assms]] by simp
qed

lemma rb_Pop_empty: "rb_rep rb [] \<Longrightarrow> rb_Pop rb = (None, rb)"
  by (simp add: rb_Pop_def rb_cells_empty_iff [OF rb_repD(1)])

text \<open>The first entry of a ring is read back whole: its length, then its bytes.\<close>

lemma rb_Pop_reads:
  assumes "rb_inv rb" and "ring_holds (rb_capacity rb) (rb_buffer rb) (rb_head rb) (rb_entry m @ bs)"
    and "length (rb_entry m @ bs) < rb_capacity rb"
  shows "ring_read (rb_capacity rb) (rb_head rb) 4 (rb_buffer rb) = be_bytes 4 (of_nat (length m) :: u32)"
    and "ring_read (rb_capacity rb) (rb_head rb + 4) (length m) (rb_buffer rb) = m"
proof -
  note bounds = rb_invD [OF assms(1)]
  have "ring_holds (rb_capacity rb) (rb_buffer rb) (rb_head rb) (be_bytes 4 (of_nat (length m) :: u32) @ m @ bs)"
    using assms(2) by (simp add: rb_entry_def)
  then have "ring_holds (rb_capacity rb) (rb_buffer rb) (rb_head rb) (be_bytes 4 (of_nat (length m) :: u32))"
    and "ring_holds (rb_capacity rb) (rb_buffer rb) (rb_head rb + 4) m"
    by (simp_all add: ring_holds_append)
  then show "ring_read (rb_capacity rb) (rb_head rb) 4 (rb_buffer rb) = be_bytes 4 (of_nat (length m) :: u32)"
    and "ring_read (rb_capacity rb) (rb_head rb + 4) (length m) (rb_buffer rb) = m"
    using assms(3) bounds ring_read_holds [of "rb_capacity rb" "rb_buffer rb" "rb_head rb" _ 4]
      ring_read_holds [of "rb_capacity rb" "rb_buffer rb" "rb_head rb + 4" m "length m"]
    by simp_all
qed

lemma rb_Pop_cells:
  assumes rep: "rb_cells rb (m # ms)" and valid: "rb_valid m"
  shows "fst (rb_Pop rb) = Some m \<and> rb_cells (snd (rb_Pop rb)) ms"
proof -
  note cellsD = rb_cellsD [OF rep]
  note bounds = rb_invD [OF cellsD(1)]
  let ?c = "rb_capacity rb" and ?h = "rb_head rb"
  have cells: "ring_holds ?c (rb_buffer rb) ?h (rb_entry m @ rb_entries ms)"
    and space: "length (rb_entry m @ rb_entries ms) < ?c"
    using cellsD by simp_all
  note reads = rb_Pop_reads [OF cellsD(1) cells space]
  have len: "unat (of_nat (length m) :: u32) = length m" and "(of_nat (length m) :: u32) \<noteq> 0"
    and "\<not> kMaxPayloadSize < (of_nat (length m) :: u32)"
    using valid rb_valid_unat [OF valid]
    by (auto simp: rb_valid_def word_less_nat_alt simp flip: unat_eq_zero)
  moreover have "size_add ?h 4 = ?h + 4" and "size_add (?h + 4) (length m) = ?h + 4 + length m"
    using bounds space by (auto intro!: size_add_exact)
  moreover have "?h \<noteq> rb_tail rb"
    using rb_cells_empty_iff [OF rep] by simp
  ultimately have pop: "rb_Pop rb = (Some m, rb\<lparr>rb_head := (?h + 4 + length m) mod ?c\<rparr>)"
    by (simp add: rb_Pop_def Let_def reads)
  have "ring_holds ?c (rb_buffer rb) (?h + length (rb_entry m)) (rb_entries ms)"
    using cells by (simp add: ring_holds_append)
  moreover have "rb_tail rb = ((?h + 4 + length m) mod ?c + length (rb_entries ms)) mod ?c"
    using cellsD(3) by (simp add: mod_add_left_eq add.assoc)
  ultimately have "rb_cells (rb\<lparr>rb_head := (?h + 4 + length m) mod ?c\<rparr>) ms"
    using bounds space by (simp add: rb_cells_def rb_inv_def add.assoc)
  with pop show ?thesis by simp
qed

lemma rb_Pop_Cons: "rb_rep rb (m # ms) \<Longrightarrow> fst (rb_Pop rb) = Some m \<and> rb_rep (snd (rb_Pop rb)) ms"
  using rb_Pop_cells [of rb m ms] by (simp add: rb_rep_def)

text \<open>An entry above \<open>kMaxPayloadSize\<close> at the head of the ring blocks every Pop.\<close>

lemma rb_Pop_oversize:
  assumes cells: "rb_cells rb (m # ms)" and "unat kMaxPayloadSize < length m" and "length m < 2 ^ 32"
  shows "rb_Pop rb = (None, rb)"
proof -
  note cellsD = rb_cellsD [OF cells]
  have "ring_holds (rb_capacity rb) (rb_buffer rb) (rb_head rb) (rb_entry m @ rb_entries ms)"
    and "length (rb_entry m @ rb_entries ms) < rb_capacity rb"
    using cellsD by simp_all
  note reads = rb_Pop_reads [OF cellsD(1) this]
  have "unat (of_nat (length m) :: u32) = length m"
    using assms(3) by (simp add: unat_of_nat)
  then have "kMaxPayloadSize < (of_nat (length m) :: u32)"
    using assms(2) by (simp add: word_less_nat_alt)
  then show ?thesis
    by (simp add: rb_Pop_def Let_def reads)
qed

subsection \<open>The interface: a bounded first-in first-out queue\<close>

text \<open>
  \<open>bq_run\<close> performs a sequence of calls, \<open>Some x\<close> for a push of \<open>x\<close> and \<open>None\<close> for
  a pop, and collects the accepted and the returned messages. \<open>pop_loop\<close> is the loop
  \<^verbatim>\<open>while (true) { x = Pop(); if (!x) break; ... }\<close> of the clients; on a damaged ring it need
  not end, so its result is an option.
\<close>

fun bq_run :: "('q \<Rightarrow> 'a \<Rightarrow> bool \<times> 'q) \<Rightarrow> ('q \<Rightarrow> 'a option \<times> 'q) \<Rightarrow> 'q \<Rightarrow> 'a option list
    \<Rightarrow> 'a list \<times> 'a list \<times> 'q" where
  "bq_run push pop q [] = ([], [], q)"
| "bq_run push pop q (Some x # ops) =
     (let (ok, q') = push q x; (acc, out, q'') = bq_run push pop q' ops
      in (if ok then x # acc else acc, out, q''))"
| "bq_run push pop q (None # ops) =
     (let (r, q') = pop q; (acc, out, q'') = bq_run push pop q' ops
      in (acc, (case r of None \<Rightarrow> out | Some y \<Rightarrow> y # out), q''))"

partial_function (option) pop_loop ::
    "('q \<Rightarrow> 'a option \<times> 'q) \<Rightarrow> ('a \<Rightarrow> 's \<Rightarrow> 's) \<Rightarrow> 'q \<Rightarrow> 's \<Rightarrow> ('q \<times> 's) option" where
  "pop_loop pop f q s =
     (case pop q of
        (None, q') \<Rightarrow> Some (q', s)
      | (Some x, q') \<Rightarrow> pop_loop pop f q' (f x s))"

locale bounded_queue =
  fixes rep :: "'q \<Rightarrow> 'a list \<Rightarrow> bool"
    and valid :: "'a \<Rightarrow> bool"
    and room :: "'q \<Rightarrow> 'a \<Rightarrow> bool"
    and push :: "'q \<Rightarrow> 'a \<Rightarrow> bool \<times> 'q"
    and pop :: "'q \<Rightarrow> 'a option \<times> 'q"
  assumes push_accept: "rep q xs \<Longrightarrow> valid x \<Longrightarrow> room q x \<Longrightarrow>
      fst (push q x) \<and> rep (snd (push q x)) (xs @ [x])"
    and push_reject: "rep q xs \<Longrightarrow> \<not> room q x \<Longrightarrow> push q x = (False, q)"
    and pop_empty: "rep q [] \<Longrightarrow> pop q = (None, q)"
    and pop_Cons: "rep q (x # xs) \<Longrightarrow> fst (pop q) = Some x \<and> rep (snd (pop q)) xs"
begin

lemma push_cases:
  assumes "rep q xs" and "valid x"
  obtains q' where "push q x = (True, q')" and "rep q' (xs @ [x])" and "room q x"
  | "push q x = (False, q)" and "\<not> room q x"
  using assms push_accept push_reject by (cases "room q x") (auto simp: prod_eq_iff)

lemma pop_cases:
  assumes "rep q xs"
  obtains "xs = []" and "pop q = (None, q)"
  | x ys q' where "xs = x # ys" and "pop q = (Some x, q')" and "rep q' ys"
proof (cases xs)
  case Nil
  with assms that(1) show ?thesis by (simp add: pop_empty)
next
  case (Cons x ys)
  with assms that(2) show ?thesis using pop_Cons [of q x ys] by (simp add: prod_eq_iff)
qed

lemma run_fifo:
  assumes "rep q xs" and "\<And>x. Some x \<in> set ops \<Longrightarrow> valid x"
    and "bq_run push pop q ops = (acc, out, q')"
  shows "\<exists>ys. xs @ acc = out @ ys \<and> rep q' ys"
  using assms
proof (induction ops arbitrary: q xs acc out)
  case Nil
  then show ?case by simp
next
  case (Cons op ops)
  show ?case
  proof (cases op)
    case (Some x)
    obtain q1 acc' where step: "push q x = (fst (push q x), q1)"
      and rest: "bq_run push pop q1 ops = (acc', out, q')"
      and acc: "acc = (if fst (push q x) then x # acc' else acc')"
      using Cons.prems(3) Some by (auto split: prod.splits)
    from Cons.prems(1,2) Some have "rep q xs" and "valid x" by simp_all
    then show ?thesis
    proof (cases rule: push_cases)
      case (1 q2)
      with step rest acc show ?thesis
        using Cons.IH [of q1 "xs @ [x]" acc' out] Cons.prems(2) by simp
    next
      case 2
      with step rest acc Cons.prems(1,2) show ?thesis
        using Cons.IH [of q1 xs acc' out] by simp
    qed
  next
    case None
    from Cons.prems(1) show ?thesis
    proof (cases rule: pop_cases)
      case 1
      with Cons.prems None show ?thesis
        using Cons.IH [of q xs acc out] by (auto split: prod.splits)
    next
      case (2 x ys q1)
      then obtain out' where "out = x # out'" and "bq_run push pop q1 ops = (acc, out', q')"
        using Cons.prems(3) None by (auto split: prod.splits)
      then show ?thesis
        using Cons.IH [of q1 ys acc out'] Cons.prems(2) 2 by auto
    qed
  qed
qed

lemma pop_loop_drains:
  assumes "rep q xs"
  shows "\<exists>q'. pop_loop pop f q s = Some (q', fold f xs s) \<and> rep q' []"
  using assms
proof (induction xs arbitrary: q s)
  case Nil
  then show ?case by (simp add: pop_loop.simps pop_empty)
next
  case (Cons x xs)
  then obtain q' where "pop q = (Some x, q')" and "rep q' xs"
    using pop_Cons [of q x xs] by (cases "pop q") auto
  then show ?case
    using Cons.IH [of q' "f x s"] by (simp add: pop_loop.simps [of pop f q])
qed

end

interpretation rbq: bounded_queue rb_rep rb_valid rb_room rb_Push rb_Pop
proof (unfold_locales, goal_cases)
  case (1 q xs x)
  then show ?case by (rule rb_Push_accept)
next
  case (2 q xs x)
  then show ?case by (simp add: rb_Push_reject rb_repD(3))
next
  case (3 q)
  then show ?case by (rule rb_Pop_empty)
next
  case (4 q x xs)
  then show ?case by (rule rb_Pop_Cons)
qed

subsection \<open>Properties\<close>

lemma rb_new_rep:
  assumes "capacity < ptrdiff_max"
  shows "\<exists>rb. rb_new capacity = Some rb \<and> rb_rep rb [] \<and> rb_capacity rb = capacity + 1"
proof -
  have "size_add capacity 1 = capacity + 1"
    using assms by (intro size_add_exact) (simp add: ptrdiff_max_def size_max_def)
  then show ?thesis
    using assms by (simp add: rb_new_def rb_rep_def rb_cells_def rb_inv_def ring_holds_def)
qed

text \<open>
  C31: A freshly constructed ring, of any capacity below the largest \<open>ptrdiff_t\<close>, is a first-in first-out queue of byte strings: for every
  sequence of Push and Pop calls whose pushed messages have between 1 and \<open>kMaxPayloadSize\<close>
  bytes, the messages returned by Pop, followed by the messages still stored, are exactly the
  messages that Push accepted, in the order in which it accepted them.
\<close>

theorem ring_buffer_fifo:
  assumes "rb_new capacity = Some rb" and "capacity < ptrdiff_max"
    and "\<forall>m. Some m \<in> set ops \<longrightarrow> rb_valid m"
    and "bq_run rb_Push rb_Pop rb ops = (accepted, popped, rb')"
  shows "\<exists>stored. accepted = popped @ stored \<and> rb_rep rb' stored"
proof -
  have "rb_rep rb []"
    using rb_new_rep [OF assms(2)] assms(1) by auto
  then show ?thesis
    using rbq.run_fifo [of rb "[]" ops accepted popped rb'] assms(3,4) by simp
qed

text \<open>The equations by which the simplifier runs the ring on concrete inputs.\<close>

lemmas rb_exec = rb_Push_def rb_Pop_def ring_read_def size_add_def size_sub_def size_max_def
  kMaxPayloadSize_def Let_def upt_conv_Cons

theorem ring_buffer_fifo_witness:
  "\<exists>rb rb'. rb_new 8 = Some rb \<and>
     bq_run rb_Push rb_Pop rb [Some [7, 8], None, Some [5, 6], Some [1]] = ([[7, 8], [5, 6]], [[7, 8]], rb') \<and>
     (\<exists>stored. [[7, 8], [5, 6]] = [[7, 8]] @ stored \<and> rb_rep rb' stored)"
proof -
  let ?ops = "[Some [7, 8], None, Some [5, 6], Some [1]] :: byte list option list"
  let ?rb = "\<lparr>rb_capacity = 9, rb_buffer = [0, 0, 0, 0, 0, 0, 0, 0, 0], rb_head = 0, rb_tail = 0\<rparr>"
  let ?rb' = "\<lparr>rb_capacity = 9, rb_buffer = [2, 5, 6, 2, 7, 8, 0, 0, 0], rb_head = 6, rb_tail = 3\<rparr>"
  have new: "rb_new 8 = Some ?rb"
    by (simp add: rb_new_def size_add_def size_max_def ptrdiff_max_def) (simp add: numeral_eq_Suc)
  have run: "bq_run rb_Push rb_Pop ?rb ?ops = ([[7, 8], [5, 6]], [[7, 8]], ?rb')"
    by (simp add: rb_exec)
  have "\<exists>stored. [[7, 8], [5, 6]] = [[7, 8]] @ stored \<and> rb_rep ?rb' stored"
    by (rule ring_buffer_fifo [OF new _ _ run]) (auto simp: rb_valid_def ptrdiff_max_def)
  with new run show ?thesis by blast
qed

text \<open>
  Backpressure is exact. On a ring that holds the messages \<open>ms\<close>, Push accepts a message
  exactly when it is not empty and the stored entries plus the new one (each message costs four
  bytes of header) leave one cell free; a refused Push changes nothing. Size, Empty and Full
  report the occupied bytes accordingly.
\<close>

theorem ring_buffer_backpressure:
  assumes "rb_rep rb ms"
  shows "(fst (rb_Push rb m) \<longleftrightarrow>
            m \<noteq> [] \<and> (\<Sum>x\<leftarrow>ms. 4 + length x) + 4 + length m < rb_capacity rb) \<and>
         (\<not> fst (rb_Push rb m) \<longrightarrow> snd (rb_Push rb m) = rb) \<and>
         rb_Size rb = (\<Sum>x\<leftarrow>ms. 4 + length x) \<and>
         rb_Size rb + rb_GetWritableSize rb = rb_capacity rb - 1 \<and>
         (rb_Empty rb \<longleftrightarrow> ms = []) \<and>
         (rb_Full rb \<longleftrightarrow> rb_GetWritableSize rb = 0)"
proof -
  note cells = rb_repD(1) [OF assms]
  note inv = rb_cellsD(1) [OF cells] and bounds = rb_invD [OF rb_cellsD(1) [OF cells]]
  let ?n = "length (rb_entries ms)" and ?c = "rb_capacity rb"
  have n: "(\<Sum>x\<leftarrow>ms. 4 + length x) = ?n"
    by (induction ms) simp_all
  have w: "rb_GetWritableSize rb = ?c - 1 - ?n" and "?n < ?c"
    using rb_writable [OF cells] rb_cellsD(2) [OF cells] by simp_all
  have full: "rb_Full rb \<longleftrightarrow> rb_GetWritableSize rb = 0"
  proof -
    have "size_add (rb_tail rb) 1 = rb_tail rb + 1"
      using bounds by (intro size_add_exact) linarith
    then have "rb_Full rb \<longleftrightarrow> (rb_tail rb + 1) mod ?c = rb_head rb"
      unfolding rb_Full_def by metis
    then have "rb_Full rb \<longleftrightarrow> (rb_head rb + (?n + 1)) mod ?c = (rb_head rb + 0) mod ?c"
      using bounds rb_cellsD(3) [OF cells] by (simp add: mod_simps)
    also have "\<dots> \<longleftrightarrow> ?n + 1 = ?c"
    proof
      assume eq: "(rb_head rb + (?n + 1)) mod ?c = (rb_head rb + 0) mod ?c"
      show "?n + 1 = ?c"
        using mod_window_inj [OF eq] \<open>?n < ?c\<close> bounds(1) by (cases "?n + 1 < ?c") auto
    next
      assume "?n + 1 = ?c"
      then show "(rb_head rb + (?n + 1)) mod ?c = (rb_head rb + 0) mod ?c"
        by simp
    qed
    finally show ?thesis
      using w \<open>?n < ?c\<close> by auto
  qed
  show ?thesis
    using full w \<open>?n < ?c\<close> rb_readable [OF cells] rb_cells_empty_iff [OF cells]
    by (auto simp: n rb_Push_unfold [OF inv] rb_room_def rb_Size_def rb_Empty_def)
qed

theorem ring_buffer_backpressure_witness:
  "rb_rep \<lparr>rb_capacity = 9, rb_buffer = [0, 0, 0, 1, 5, 0, 0, 0, 0], rb_head = 0, rb_tail = 5\<rparr> [[5]] \<and>
   \<not> fst (rb_Push \<lparr>rb_capacity = 9, rb_buffer = [0, 0, 0, 1, 5, 0, 0, 0, 0], rb_head = 0, rb_tail = 5\<rparr> [6])"
proof -
  let ?rb = "\<lparr>rb_capacity = 9, rb_buffer = [0, 0, 0, 1, 5, 0, 0, 0, 0], rb_head = 0, rb_tail = 5\<rparr>"
  have "rb_rep ?rb [[5]]"
    by (simp add: rb_rep_def rb_cells_def rb_inv_def ring_holds_map rb_valid_def ptrdiff_max_def
        rb_entry_def be_bytes_4 byte_of_def upt_conv_Cons)
  with ring_buffer_backpressure [OF this, of "[6]"] show ?thesis by simp
qed

lemma fold_snoc: "fold (\<lambda>x xs. xs @ [x]) ys xs = xs @ ys"
  by (induction ys arbitrary: xs) simp_all

lemma rb_pop_loop_cells:
  assumes "rb_cells rb (ms @ [m])" and "list_all rb_valid ms"
    and "unat kMaxPayloadSize < length m" and "length m < 2 ^ 32"
  shows "\<exists>rb'. pop_loop rb_Pop f rb s = Some (rb', fold f ms s) \<and> rb_cells rb' [m]"
  using assms
proof (induction ms arbitrary: rb s)
  case Nil
  then show ?case by (simp add: pop_loop.simps [of rb_Pop f rb] rb_Pop_oversize)
next
  case (Cons x ms)
  then obtain rb' where "rb_Pop rb = (Some x, rb')" and "rb_cells rb' (ms @ [m])"
    using rb_Pop_cells [of rb x "ms @ [m]"] by (cases "rb_Pop rb") auto
  then show ?case
    using Cons.IH [of rb' "f x s"] Cons.prems by (simp add: pop_loop.simps [of rb_Pop f rb])
qed

lemma rb_oversize_never_pops:
  assumes "rb_cells rb (m # ms)" and "unat kMaxPayloadSize < length m" and "length m < 2 ^ 32"
  shows "fst (snd (bq_run rb_Push rb_Pop rb ops)) = []"
  using assms
proof (induction ops arbitrary: rb ms)
  case Nil
  then show ?case by simp
next
  case (Cons op ops)
  show ?case
  proof (cases op)
    case None
    then show ?thesis
      using Cons rb_Pop_oversize [OF Cons.prems] by (auto split: prod.splits)
  next
    case (Some x)
    have "\<exists>ms'. rb_cells (snd (rb_Push rb x)) (m # ms')"
      using Cons.prems(1) rb_Push_keeps_cells [of rb "m # ms" x]
        rb_Push_reject [OF rb_cellsD(1) [OF Cons.prems(1)], of x]
      by (cases "rb_room rb x") auto
    then show ?thesis
      using Cons.IH Cons.prems(2,3) Some by (fastforce split: prod.splits)
  qed
qed

text \<open>
  A message longer than \<open>kMaxPayloadSize\<close> that Push accepts (possible only when the ring is
  larger than 16 MiB) blocks the ring for good: the messages stored before it are still
  delivered, but then Pop returns nothing although the ring is not empty, and no later sequence
  of calls ever returns a message again.
\<close>

theorem ring_buffer_oversize_blocks:
  assumes "rb_rep rb ms" and "unat kMaxPayloadSize < length m" and "length m < 2 ^ 32"
    and "rb_room rb m"
  shows "fst (rb_Push rb m) \<and>
    (\<exists>rb'. pop_loop rb_Pop (\<lambda>x xs. xs @ [x]) (snd (rb_Push rb m)) [] = Some (rb', ms) \<and>
       \<not> rb_Empty rb' \<and> rb_Pop rb' = (None, rb') \<and>
       (\<forall>ops. fst (snd (bq_run rb_Push rb_Pop rb' ops)) = []))"
proof -
  have push: "fst (rb_Push rb m)" and "rb_cells (snd (rb_Push rb m)) (ms @ [m])"
    using rb_Push_keeps_cells [OF rb_repD(1) [OF assms(1)] assms(4)] by simp_all
  then obtain rb' where "pop_loop rb_Pop (\<lambda>x xs. xs @ [x]) (snd (rb_Push rb m)) [] = Some (rb', ms)"
    and left: "rb_cells rb' [m]"
    using rb_pop_loop_cells [OF _ rb_repD(2) [OF assms(1)] assms(2,3), of _ "\<lambda>x xs. xs @ [x]" "[]"]
    by (auto simp: fold_snoc)
  moreover have "\<not> rb_Empty rb'"
    using rb_cells_empty_iff [OF left] by (simp add: rb_Empty_def)
  ultimately show ?thesis
    using push rb_Pop_oversize [OF left assms(2,3)] rb_oversize_never_pops [OF left assms(2,3)]
    by blast
qed

theorem ring_buffer_oversize_blocks_witness:
  "\<exists>rb. rb_new 33554432 = Some rb \<and> rb_rep rb [] \<and>
     fst (rb_Push rb (replicate 16777217 0)) \<and>
     (\<exists>rb'. pop_loop rb_Pop (\<lambda>x xs. xs @ [x]) (snd (rb_Push rb (replicate 16777217 0))) [] = Some (rb', []) \<and>
        \<not> rb_Empty rb')"
proof -
  obtain rb where rb: "rb_new 33554432 = Some rb" "rb_rep rb []" "rb_capacity rb = 33554433"
    using rb_new_rep [of 33554432] by (auto simp: ptrdiff_max_def)
  have "rb_room rb (replicate 16777217 0)"
    using rb rb_writable [OF rb_repD(1) [OF rb(2)]] by (simp add: rb_room_def)
  then show ?thesis
    using rb ring_buffer_oversize_blocks [OF rb(2), of "replicate 16777217 0"] by auto
qed

end
