(* ===== verification/Ring_Concurrent.thy ===== *)
theory Ring_Concurrent
  imports Ring_Buffer
begin

text \<open>
  The two threads of \<^verbatim>\<open>ring_buffer/spsc_ring_buffer.cpp\<close>: one producer inside Push and one
  consumer inside Pop, interleaved at every access to shared memory. Each atomic load or store
  of \<open>head_\<close> and \<open>tail_\<close> and each byte read or written is one step; a value that a thread has
  loaded stays in its program counter, so it may be out of date when it is used. The acquire
  and release orderings of the source make the byte accesses ordered by the index accesses,
  which is what an interleaving of the steps describes; that no byte is ever accessed by both
  threads at once is proved below. The ghost fields record which calls have returned what.
\<close>

subsection \<open>Program counters and steps\<close>

text \<open>
  \<open>PWrite m t i\<close>: Push has passed its guards for the message \<open>m\<close>, loaded \<open>tail_ = t\<close>, and
  written \<open>i\<close> of the \<open>4 + len\<close> bytes of the entry. \<open>CLen h got\<close>: Pop has loaded
  \<open>head_ = h\<close>, seen that the ring is not empty and read the header bytes \<open>got\<close>;
  \<open>CData h len got\<close>: it has accepted the length and read the payload bytes \<open>got\<close>.
\<close>

datatype producer = PIdle | PWrite "byte list" nat nat

datatype consumer = CIdle | CLen nat "byte list" | CData nat u32 "byte list"

record spsc =
  ring :: SpscRingBuffer
  prod :: producer
  cons :: consumer
  pushed :: "byte list list"
  popped :: "byte list list"

text \<open>The guards of Push, on the loaded values of the two indices.\<close>

definition push_guard :: "nat \<Rightarrow> nat \<Rightarrow> nat \<Rightarrow> byte list \<Rightarrow> bool" where
  "push_guard cap head tail data \<longleftrightarrow>
     \<not> (length data = 0 \<or> length data > size_sub cap 1) \<and>
     \<not> size_sub (size_sub (size_add head cap) tail) 1 mod cap < size_add 4 (length data)"

inductive producer_step :: "spsc \<Rightarrow> spsc \<Rightarrow> bool" where
  push_refuse: "prod s = PIdle \<Longrightarrow>
     \<not> push_guard (rb_capacity (ring s)) (rb_head (ring s)) (rb_tail (ring s)) m \<Longrightarrow>
     producer_step s s"
| push_start: "prod s = PIdle \<Longrightarrow>
     push_guard (rb_capacity (ring s)) (rb_head (ring s)) (rb_tail (ring s)) m \<Longrightarrow>
     producer_step s (s\<lparr>prod := PWrite m (rb_tail (ring s)) 0\<rparr>)"
| push_byte: "prod s = PWrite m t i \<Longrightarrow> i < 4 + length m \<Longrightarrow>
     rb' = ring s\<lparr>rb_buffer :=
       (rb_buffer (ring s))[size_add t i mod rb_capacity (ring s) := rb_entry m ! i]\<rparr> \<Longrightarrow>
     producer_step s (s\<lparr>ring := rb', prod := PWrite m t (Suc i)\<rparr>)"
| push_commit: "prod s = PWrite m t i \<Longrightarrow> i = 4 + length m \<Longrightarrow>
     rb' = ring s\<lparr>rb_tail := size_add t (size_add 4 (length m)) mod rb_capacity (ring s)\<rparr> \<Longrightarrow>
     producer_step s (s\<lparr>ring := rb', prod := PIdle, pushed := pushed s @ [m]\<rparr>)"

inductive consumer_step :: "spsc \<Rightarrow> spsc \<Rightarrow> bool" where
  pop_none: "cons s = CIdle \<Longrightarrow> rb_head (ring s) = rb_tail (ring s) \<Longrightarrow> consumer_step s s"
| pop_start: "cons s = CIdle \<Longrightarrow> rb_head (ring s) \<noteq> rb_tail (ring s) \<Longrightarrow>
     consumer_step s (s\<lparr>cons := CLen (rb_head (ring s)) []\<rparr>)"
| pop_len_byte: "cons s = CLen h got \<Longrightarrow> length got < 4 \<Longrightarrow>
     b = rb_buffer (ring s) ! (size_add h (length got) mod rb_capacity (ring s)) \<Longrightarrow>
     consumer_step s (s\<lparr>cons := CLen h (got @ [b])\<rparr>)"
| pop_corrupt: "cons s = CLen h got \<Longrightarrow> length got = 4 \<Longrightarrow> len = be_read 0 got \<Longrightarrow>
     len = 0 \<or> len > kMaxPayloadSize \<Longrightarrow>
     consumer_step s (s\<lparr>cons := CIdle\<rparr>)"
| pop_len: "cons s = CLen h got \<Longrightarrow> length got = 4 \<Longrightarrow> len = be_read 0 got \<Longrightarrow>
     \<not> (len = 0 \<or> len > kMaxPayloadSize) \<Longrightarrow>
     consumer_step s (s\<lparr>cons := CData h len []\<rparr>)"
| pop_byte: "cons s = CData h len got \<Longrightarrow> length got < unat len \<Longrightarrow>
     b = rb_buffer (ring s) ! (size_add (size_add h 4) (length got) mod rb_capacity (ring s)) \<Longrightarrow>
     consumer_step s (s\<lparr>cons := CData h len (got @ [b])\<rparr>)"
| pop_commit: "cons s = CData h len got \<Longrightarrow> length got = unat len \<Longrightarrow>
     rb' = ring s\<lparr>rb_head := size_add (size_add h 4) (unat len) mod rb_capacity (ring s)\<rparr> \<Longrightarrow>
     consumer_step s (s\<lparr>ring := rb', cons := CIdle, popped := popped s @ [got]\<rparr>)"

definition spsc_step :: "spsc \<Rightarrow> spsc \<Rightarrow> bool" where
  "spsc_step s t \<longleftrightarrow> producer_step s t \<or> consumer_step s t"

definition spsc_init :: "nat \<Rightarrow> spsc \<Rightarrow> bool" where
  "spsc_init capacity s \<longleftrightarrow> rb_new capacity = Some (ring s) \<and> prod s = PIdle \<and> cons s = CIdle \<and>
     pushed s = [] \<and> popped s = []"

subsection \<open>The invariant\<close>

text \<open>
  \<open>written p\<close> are the bytes that a Push in progress has already placed behind the published
  entries; \<open>prod_ok\<close> and \<open>cons_ok\<close> say what the two program counters know about the ring
  that holds the messages \<open>ms\<close>.
\<close>

fun written :: "producer \<Rightarrow> byte list" where
  "written PIdle = []"
| "written (PWrite m t i) = take i (rb_entry m)"

fun prod_ok :: "SpscRingBuffer \<Rightarrow> byte list list \<Rightarrow> producer \<Rightarrow> bool" where
  "prod_ok rb ms PIdle = True"
| "prod_ok rb ms (PWrite m t i) \<longleftrightarrow>
     t = rb_tail rb \<and> m \<noteq> [] \<and> i \<le> 4 + length m \<and>
     length (rb_entries ms) + (4 + length m) < rb_capacity rb"

fun cons_ok :: "SpscRingBuffer \<Rightarrow> byte list list \<Rightarrow> consumer \<Rightarrow> bool" where
  "cons_ok rb ms CIdle = True"
| "cons_ok rb ms (CLen h got) \<longleftrightarrow>
     h = rb_head rb \<and> ms \<noteq> [] \<and> length got \<le> 4 \<and> got = take (length got) (rb_entry (hd ms))"
| "cons_ok rb ms (CData h len got) \<longleftrightarrow>
     h = rb_head rb \<and> ms \<noteq> [] \<and> unat len = length (hd ms) \<and>
     length got \<le> length (hd ms) \<and> got = take (length got) (hd ms)"

definition spsc_ok :: "spsc \<Rightarrow> byte list list \<Rightarrow> bool" where
  "spsc_ok s ms \<longleftrightarrow> rb_cells (ring s) ms \<and> list_all (\<lambda>m. m \<noteq> []) ms \<and>
     pushed s = popped s @ ms \<and> rb_capacity (ring s) \<le> 2 ^ 32 + 4 \<and>
     prod_ok (ring s) ms (prod s) \<and> cons_ok (ring s) ms (cons s) \<and>
     ring_holds (rb_capacity (ring s)) (rb_buffer (ring s)) (rb_head (ring s))
       (rb_entries ms @ written (prod s))"

definition spsc_inv :: "spsc \<Rightarrow> bool" where
  "spsc_inv s \<longleftrightarrow> (\<exists>ms. spsc_ok s ms)"

lemma push_guard_room:
  assumes "rb_inv rb"
  shows "push_guard (rb_capacity rb) (rb_head rb) (rb_tail rb) m \<longleftrightarrow> rb_room rb m"
proof -
  have "push_guard (rb_capacity rb) (rb_head rb) (rb_tail rb) m \<longleftrightarrow> fst (rb_Push rb m)"
    by (simp add: push_guard_def rb_Push_def Let_def)
  then show ?thesis
    by (simp add: rb_Push_unfold [OF assms])
qed

lemma ring_holds_write_next:
  assumes "ring_holds cap buf pos bs" and "length bs < cap" and "length buf = cap"
  shows "ring_holds cap (buf[(pos + length bs) mod cap := b]) pos (bs @ [b])"
proof -
  have "(pos + length bs) mod cap \<noteq> (pos + i) mod cap" if "i < length bs" for i
    using mod_window_inj [of pos i cap "length bs"] that assms(2) by auto
  moreover have "(pos + length bs) mod cap < cap"
    using assms(2) by (intro mod_less_divisor) simp
  ultimately show ?thesis
    using assms(1,3) by (auto simp: ring_holds_def nth_append less_Suc_eq)
qed

lemma spsc_okD:
  assumes "spsc_ok s ms"
  shows "list_all (\<lambda>m. m \<noteq> []) ms" and "pushed s = popped s @ ms"
    and "rb_capacity (ring s) \<le> 2 ^ 32 + 4"
    and "prod_ok (ring s) ms (prod s)" and "cons_ok (ring s) ms (cons s)"
    and "ring_holds (rb_capacity (ring s)) (rb_buffer (ring s)) (rb_head (ring s))
           (rb_entries ms @ written (prod s))"
    and "rb_inv (ring s)" and "rb_cells (ring s) ms"
  using assms by (simp_all add: spsc_ok_def rb_cells_def)

lemma length_rb_entries_member: "m \<in> set ms \<Longrightarrow> 4 + length m \<le> length (rb_entries ms)"
  by (induction ms) auto

lemma spsc_ok_valid:
  assumes ok: "spsc_ok s ms" and "rb_capacity (ring s) \<le> unat kMaxPayloadSize + 5"
  shows "list_all rb_valid ms"
proof -
  have "length m \<le> unat kMaxPayloadSize" if "m \<in> set ms" for m
    using length_rb_entries_member [OF that] rb_cellsD(2) [OF spsc_okD(8) [OF ok]] assms(2) by simp
  then show ?thesis
    using spsc_okD(1) [OF ok] by (auto simp: list_all_iff rb_valid_def)
qed

lemma push_start_ok:
  assumes ok: "spsc_ok s ms" and "prod s = PIdle"
    and "push_guard (rb_capacity (ring s)) (rb_head (ring s)) (rb_tail (ring s)) m"
  shows "spsc_ok (s\<lparr>prod := PWrite m (rb_tail (ring s)) 0\<rparr>) ms"
proof -
  have room: "rb_room (ring s) m"
    using assms(3) push_guard_room [OF spsc_okD(7) [OF ok]] by simp
  have space: "length (rb_entries ms) + (4 + length m) < rb_capacity (ring s)"
    using rb_room_space [OF spsc_okD(8) [OF ok] room] by simp
  have "m \<noteq> []"
    using room by (auto simp: rb_room_def)
  then show ?thesis
    using ok space by (simp add: spsc_ok_def) (simp add: ring_holds_append)
qed

lemma push_byte_ok:
  assumes ok: "spsc_ok s ms" and pc: "prod s = PWrite m t i" and i: "i < 4 + length m"
  shows "spsc_ok (s\<lparr>ring := ring s\<lparr>rb_buffer :=
      (rb_buffer (ring s))[size_add t i mod rb_capacity (ring s) := rb_entry m ! i]\<rparr>,
      prod := PWrite m t (Suc i)\<rparr>) ms"
proof -
  let ?rb = "ring s" and ?es = "rb_entries ms"
  note bounds = rb_invD [OF spsc_okD(7) [OF ok]]
  have p: "t = rb_tail ?rb" "m \<noteq> []" "length ?es + (4 + length m) < rb_capacity ?rb"
    using spsc_okD(4) [OF ok] pc by simp_all
  have "size_add t i = rb_tail ?rb + i"
    unfolding p(1) using bounds p(3) i by (intro size_add_exact) linarith
  then have pos: "size_add t i mod rb_capacity ?rb = (rb_head ?rb + length (?es @ take i (rb_entry m))) mod rb_capacity ?rb"
    using rb_cellsD(3) [OF spsc_okD(8) [OF ok]] i by (simp add: mod_add_left_eq add.assoc)
  have "ring_holds (rb_capacity ?rb)
      ((rb_buffer ?rb)[size_add t i mod rb_capacity ?rb := rb_entry m ! i]) (rb_head ?rb)
      ((?es @ take i (rb_entry m)) @ [rb_entry m ! i])"
    unfolding pos using spsc_okD(6) [OF ok] pc p(3) i bounds(3)
    by (intro ring_holds_write_next) auto
  then have holds: "ring_holds (rb_capacity ?rb)
      ((rb_buffer ?rb)[size_add t i mod rb_capacity ?rb := rb_entry m ! i]) (rb_head ?rb)
      (?es @ take (Suc i) (rb_entry m))"
    using i by (simp add: take_Suc_conv_app_nth)
  moreover from this have "ring_holds (rb_capacity ?rb)
      ((rb_buffer ?rb)[size_add t i mod rb_capacity ?rb := rb_entry m ! i]) (rb_head ?rb) ?es"
    by (simp add: ring_holds_append)
  moreover have "cons_ok (ring s\<lparr>rb_buffer := buf\<rparr>) ms c = cons_ok (ring s) ms c" for buf c
    by (cases c) simp_all
  ultimately show ?thesis
    using ok p i by (simp add: spsc_ok_def rb_cells_def rb_inv_def)
qed

lemma push_commit_ok:
  assumes ok: "spsc_ok s ms" and pc: "prod s = PWrite m t i" and i: "i = 4 + length m"
  shows "spsc_ok (s\<lparr>ring := ring s\<lparr>rb_tail := size_add t (size_add 4 (length m)) mod rb_capacity (ring s)\<rparr>,
      prod := PIdle, pushed := pushed s @ [m]\<rparr>) (ms @ [m])"
proof -
  let ?rb = "ring s"
  note bounds = rb_invD [OF spsc_okD(7) [OF ok]]
  have p: "t = rb_tail ?rb" "m \<noteq> []" "length (rb_entries ms) + (4 + length m) < rb_capacity ?rb"
    using spsc_okD(4) [OF ok] pc by simp_all
  have "size_add 4 (length m) = 4 + length m"
    using bounds p(3) by (intro size_add_exact) linarith
  moreover have "size_add t (4 + length m) = rb_tail ?rb + (4 + length m)"
    unfolding p(1) using bounds p(3) by (intro size_add_exact) linarith
  ultimately have tail: "size_add t (size_add 4 (length m)) mod rb_capacity ?rb =
      (rb_head ?rb + length (rb_entries (ms @ [m]))) mod rb_capacity ?rb"
    using rb_cellsD(3) [OF spsc_okD(8) [OF ok]] by (simp add: mod_add_left_eq add.assoc)
  have "ring_holds (rb_capacity ?rb) (rb_buffer ?rb) (rb_head ?rb) (rb_entries (ms @ [m]))"
    using spsc_okD(6) [OF ok] pc i by simp
  moreover have "cons_ok (ring s\<lparr>rb_tail := x\<rparr>) (ms @ [m]) c" if "cons_ok (ring s) ms c" for x c
    using that by (cases c) simp_all
  ultimately show ?thesis
    unfolding tail using ok p bounds
    by (simp add: spsc_ok_def rb_cells_def rb_inv_def)
qed

text \<open>Whatever the consumer reads inside the published window belongs to the oldest entry.\<close>

lemma consumer_reads:
  assumes ok: "spsc_ok s ms" and "ms \<noteq> []" and "k < length (rb_entry (hd ms))"
  shows "rb_buffer (ring s) ! ((rb_head (ring s) + k) mod rb_capacity (ring s)) = rb_entry (hd ms) ! k"
    and "rb_head (ring s) + k < size_max"
proof -
  obtain m ms' where ms: "ms = m # ms'"
    using assms(2) by (cases ms) auto
  have "ring_holds (rb_capacity (ring s)) (rb_buffer (ring s)) (rb_head (ring s)) (rb_entry m)"
    using spsc_okD(6) [OF ok] ms by (simp add: ring_holds_append)
  then show "rb_buffer (ring s) ! ((rb_head (ring s) + k) mod rb_capacity (ring s)) = rb_entry (hd ms) ! k"
    using assms(3) ms by (simp add: ring_holds_def)
  show "rb_head (ring s) + k < size_max"
    using rb_invD [OF spsc_okD(7) [OF ok]] rb_cellsD(2) [OF spsc_okD(8) [OF ok]] assms(3) ms by simp
qed

lemma pop_start_ok:
  assumes ok: "spsc_ok s ms" and "rb_head (ring s) \<noteq> rb_tail (ring s)"
  shows "spsc_ok (s\<lparr>cons := CLen (rb_head (ring s)) []\<rparr>) ms"
  using ok assms(2) rb_cells_empty_iff [OF spsc_okD(8) [OF ok]] by (simp add: spsc_ok_def)

lemma pop_len_byte_ok:
  assumes ok: "spsc_ok s ms" and pc: "cons s = CLen h got" and len: "length got < 4"
  shows "spsc_ok (s\<lparr>cons := CLen h
     (got @ [rb_buffer (ring s) ! (size_add h (length got) mod rb_capacity (ring s))])\<rparr>) ms"
proof -
  have c: "h = rb_head (ring s)" "ms \<noteq> []" "got = take (length got) (rb_entry (hd ms))"
    using spsc_okD(5) [OF ok] pc by simp_all
  have "rb_buffer (ring s) ! (size_add h (length got) mod rb_capacity (ring s)) = rb_entry (hd ms) ! length got"
    using consumer_reads [OF ok c(2), of "length got"] len c(1) by (simp add: size_add_exact)
  then have "got @ [rb_buffer (ring s) ! (size_add h (length got) mod rb_capacity (ring s))]
      = take (Suc (length got)) (rb_entry (hd ms))"
    using c(3) len by (simp add: take_Suc_conv_app_nth)
  then show ?thesis
    using ok c len by (simp add: spsc_ok_def)
qed

text \<open>After four bytes the consumer knows the length of the oldest message.\<close>

lemma consumer_len:
  assumes ok: "spsc_ok s ms" and pc: "cons s = CLen h got" and len: "length got = 4"
  shows "unat (be_read 0 got :: u32) = length (hd ms)" and "hd ms \<noteq> []"
proof -
  obtain m ms' where ms: "ms = m # ms'" and got: "got = take 4 (rb_entry m)"
    using spsc_okD(5) [OF ok] pc len by (cases ms) simp_all
  then show "hd ms \<noteq> []"
    using spsc_okD(1) [OF ok] by simp
  have "4 + length m < 2 ^ 32 + 4"
    using rb_cellsD(2) [OF spsc_okD(8) [OF ok]] spsc_okD(3) [OF ok] ms by simp
  then have "unat (of_nat (length m) :: u32) = length m"
    by (simp add: unat_of_nat)
  then show "unat (be_read 0 got :: u32) = length (hd ms)"
    using ms got by (simp add: rb_entry_def)
qed

lemma pop_byte_ok:
  assumes ok: "spsc_ok s ms" and pc: "cons s = CData h len got" and l: "length got < unat len"
  shows "spsc_ok (s\<lparr>cons := CData h len
     (got @ [rb_buffer (ring s) ! (size_add (size_add h 4) (length got) mod rb_capacity (ring s))])\<rparr>) ms"
proof -
  have c: "h = rb_head (ring s)" "ms \<noteq> []" "unat len = length (hd ms)" "got = take (length got) (hd ms)"
    using spsc_okD(5) [OF ok] pc by simp_all
  have k: "4 + length got < length (rb_entry (hd ms))"
    using l c(3) by simp
  note read = consumer_reads [OF ok c(2) k]
  have "rb_buffer (ring s) ! (size_add (size_add h 4) (length got) mod rb_capacity (ring s)) = hd ms ! length got"
    using read c(1) by (simp add: size_add_exact rb_entry_def nth_append add.assoc)
  then have "got @ [rb_buffer (ring s) ! (size_add (size_add h 4) (length got) mod rb_capacity (ring s))]
      = take (Suc (length got)) (hd ms)"
    using c(3,4) l by (simp add: take_Suc_conv_app_nth)
  then show ?thesis
    using ok c l by (simp add: spsc_ok_def)
qed

lemma pop_commit_ok:
  assumes ok: "spsc_ok s ms" and pc: "cons s = CData h len got" and l: "length got = unat len"
  shows "spsc_ok (s\<lparr>ring := ring s\<lparr>rb_head := size_add (size_add h 4) (unat len) mod rb_capacity (ring s)\<rparr>,
      cons := CIdle, popped := popped s @ [got]\<rparr>) (tl ms)"
proof -
  let ?rb = "ring s"
  note bounds = rb_invD [OF spsc_okD(7) [OF ok]]
  obtain m ms' where ms: "ms = m # ms'" and c: "h = rb_head ?rb" "unat len = length m" "got = m"
    using spsc_okD(5) [OF ok] pc l by (cases ms) simp_all
  have space: "4 + length m + length (rb_entries ms') < rb_capacity ?rb"
    using rb_cellsD(2) [OF spsc_okD(8) [OF ok]] ms by simp
  have "size_add h 4 = rb_head ?rb + 4"
    unfolding c(1) using bounds space by (intro size_add_exact) linarith
  moreover have "size_add (rb_head ?rb + 4) (unat len) = rb_head ?rb + (4 + length m)"
    unfolding c(2) using bounds space size_add_exact [of "rb_head ?rb + 4" "length m"] by simp
  ultimately have head: "size_add (size_add h 4) (unat len) = rb_head ?rb + (4 + length m)"
    by metis
  have "ring_holds (rb_capacity ?rb) (rb_buffer ?rb) (rb_head ?rb + (4 + length m))
      (rb_entries ms' @ written (prod s))"
    using spsc_okD(6) [OF ok] ms by (simp add: ring_holds_append)
  moreover from this have "ring_holds (rb_capacity ?rb) (rb_buffer ?rb) (rb_head ?rb + (4 + length m))
      (rb_entries ms')"
    by (simp add: ring_holds_append)
  moreover have "rb_tail ?rb = ((rb_head ?rb + (4 + length m)) mod rb_capacity ?rb + length (rb_entries ms')) mod rb_capacity ?rb"
    using rb_cellsD(3) [OF spsc_okD(8) [OF ok]] ms by (simp add: mod_add_left_eq add.assoc)
  moreover have "prod_ok (ring s\<lparr>rb_head := x\<rparr>) ms' p" if "prod_ok (ring s) ms p" for x p
    using that ms by (cases p) simp_all
  ultimately show ?thesis
    unfolding head using ok ms c space bounds
    by (simp add: spsc_ok_def rb_cells_def rb_inv_def)
qed

lemma producer_step_inv: "producer_step s t \<Longrightarrow> spsc_inv s \<Longrightarrow> spsc_inv t"
proof (induction rule: producer_step.induct)
  case (push_refuse s m)
  then show ?case by simp
next
  case (push_start s m)
  then show ?case by (auto simp: spsc_inv_def intro: push_start_ok)
next
  case (push_byte s m t i rb')
  then show ?case by (auto simp: spsc_inv_def intro: push_byte_ok)
next
  case (push_commit s m t i rb')
  then show ?case by (auto simp: spsc_inv_def intro: push_commit_ok)
qed

lemma consumer_step_inv: "consumer_step s t \<Longrightarrow> spsc_inv s \<Longrightarrow> spsc_inv t"
proof (induction rule: consumer_step.induct)
  case (pop_none s)
  then show ?case by simp
next
  case (pop_start s)
  then show ?case by (auto simp: spsc_inv_def intro: pop_start_ok)
next
  case (pop_len_byte s h got b)
  then show ?case by (auto simp: spsc_inv_def intro: pop_len_byte_ok)
next
  case (pop_corrupt s h got len)
  then show ?case by (auto simp: spsc_inv_def spsc_ok_def)
next
  case (pop_len s h got len)
  then obtain ms where ok: "spsc_ok s ms" by (auto simp: spsc_inv_def)
  then have "spsc_ok (s\<lparr>cons := CData h len []\<rparr>) ms"
    using pop_len consumer_len(1) [OF ok pop_len(1,2)] by (simp add: spsc_ok_def)
  then show ?case by (auto simp: spsc_inv_def)
next
  case (pop_byte s h len got b)
  then show ?case by (auto simp: spsc_inv_def intro: pop_byte_ok)
next
  case (pop_commit s h len got rb')
  then show ?case by (auto simp: spsc_inv_def intro: pop_commit_ok)
qed

lemma spsc_init_inv:
  assumes "spsc_init capacity s" and "capacity \<le> 2 ^ 32 + 3"
  shows "spsc_inv s"
proof -
  have "capacity < ptrdiff_max"
    using assms(2) by (simp add: ptrdiff_max_def)
  then have "rb_rep (ring s) [] \<and> rb_capacity (ring s) = capacity + 1"
    using rb_new_rep [of capacity] assms(1) by (auto simp: spsc_init_def)
  then have "spsc_ok s []"
    using assms by (simp add: spsc_ok_def spsc_init_def ring_holds_def rb_rep_def)
  then show ?thesis by (auto simp: spsc_inv_def)
qed

text \<open>
  The interpretation covers every capacity at which the length of an accepted message fits into
  the four header bytes: up to 4 GiB and three bytes (the default is 1 MiB). In a larger ring
  Push stores the length of a message of 4 GiB or more modulo 2 to the 32, and Pop would then
  take bytes of the message for the next header. Between 16 MiB and this bound the ring may also
  hold a message that Pop refuses for its size; it then stays where it is, at the head.
\<close>

definition spsc_start :: "spsc \<Rightarrow> bool" where
  "spsc_start s \<longleftrightarrow> (\<exists>capacity \<le> 2 ^ 32 + 3. spsc_init capacity s)"

interpretation spsc_si: step_invariant spsc_start spsc_step spsc_inv
proof (unfold_locales, goal_cases)
  case (1 s)
  then show ?case by (auto simp: spsc_start_def intro: spsc_init_inv)
next
  case (2 s t)
  then show ?case
    by (auto simp: spsc_step_def intro: producer_step_inv consumer_step_inv)
qed

subsection \<open>Properties\<close>

lemma spsc_reach_ok:
  assumes "reach spsc_start spsc_step s"
  obtains ms where "spsc_ok s ms"
  using spsc_si.reach_inv [OF assms] by (auto simp: spsc_inv_def)

text \<open>
  An executable scheduler: the next step of the producer (which calls Push with the message
  \<open>m\<close> when it is idle) and of the consumer. It is used to reach concrete states.
\<close>

fun producer_next :: "byte list \<Rightarrow> spsc \<Rightarrow> spsc" where
  "producer_next m s = (case prod s of
     PIdle \<Rightarrow>
       if push_guard (rb_capacity (ring s)) (rb_head (ring s)) (rb_tail (ring s)) m
       then s\<lparr>prod := PWrite m (rb_tail (ring s)) 0\<rparr> else s
   | PWrite m' t i \<Rightarrow>
       if i < 4 + length m' then
         s\<lparr>ring := ring s\<lparr>rb_buffer :=
              (rb_buffer (ring s))[size_add t i mod rb_capacity (ring s) := rb_entry m' ! i]\<rparr>,
           prod := PWrite m' t (Suc i)\<rparr>
       else if i = 4 + length m' then
         s\<lparr>ring := ring s\<lparr>rb_tail := size_add t (size_add 4 (length m')) mod rb_capacity (ring s)\<rparr>,
           prod := PIdle, pushed := pushed s @ [m']\<rparr>
       else s)"

fun consumer_next :: "spsc \<Rightarrow> spsc" where
  "consumer_next s = (case cons s of
     CIdle \<Rightarrow>
       if rb_head (ring s) = rb_tail (ring s) then s
       else s\<lparr>cons := CLen (rb_head (ring s)) []\<rparr>
   | CLen h got \<Rightarrow>
       if length got < 4 then
         s\<lparr>cons := CLen h (got @ [rb_buffer (ring s) ! (size_add h (length got) mod rb_capacity (ring s))])\<rparr>
       else if length got = 4 then
         (if be_read 0 got = (0 :: u32) \<or> be_read 0 got > kMaxPayloadSize then s\<lparr>cons := CIdle\<rparr>
          else s\<lparr>cons := CData h (be_read 0 got) []\<rparr>)
       else s
   | CData h len got \<Rightarrow>
       if length got < unat len then
         s\<lparr>cons := CData h len
            (got @ [rb_buffer (ring s) ! (size_add (size_add h 4) (length got) mod rb_capacity (ring s))])\<rparr>
       else if length got = unat len then
         s\<lparr>ring := ring s\<lparr>rb_head := size_add (size_add h 4) (unat len) mod rb_capacity (ring s)\<rparr>,
           cons := CIdle, popped := popped s @ [got]\<rparr>
       else s)"

lemma producer_next_step: "producer_next m s = s \<or> producer_step s (producer_next m s)"
  by (auto split: producer.splits intro: push_start push_byte push_commit)

lemma consumer_next_step: "consumer_next s = s \<or> consumer_step s (consumer_next s)"
  by (auto split: consumer.splits
      intro: pop_start pop_len_byte pop_corrupt pop_len pop_byte pop_commit)

lemma reach_next:
  assumes "reach spsc_start spsc_step s"
  shows "reach spsc_start spsc_step (producer_next m s)"
    and "reach spsc_start spsc_step (consumer_next s)"
proof -
  show "reach spsc_start spsc_step (producer_next m s)"
    using producer_next_step [of m s]
  proof
    assume "producer_next m s = s"
    then show ?thesis using assms by (simp only:)
  next
    assume "producer_step s (producer_next m s)"
    then show ?thesis
      by (intro reach_step [OF assms]) (simp only: spsc_step_def simp_thms)
  qed
  show "reach spsc_start spsc_step (consumer_next s)"
    using consumer_next_step [of s]
  proof
    assume "consumer_next s = s"
    then show ?thesis using assms by (simp only:)
  next
    assume "consumer_step s (consumer_next s)"
    then show ?thesis
      by (intro reach_step [OF assms]) (simp only: spsc_step_def simp_thms)
  qed
qed

text \<open>A schedule: \<open>Some m\<close> is a turn of the producer, \<open>None\<close> one of the consumer.\<close>

fun spsc_run :: "byte list option list \<Rightarrow> spsc \<Rightarrow> spsc" where
  "spsc_run [] s = s"
| "spsc_run (Some m # ts) s = spsc_run ts (producer_next m s)"
| "spsc_run (None # ts) s = spsc_run ts (consumer_next s)"

lemma reach_run: "reach spsc_start spsc_step s \<Longrightarrow> reach spsc_start spsc_step (spsc_run ts s)"
proof (induction ts s rule: spsc_run.induct)
  case (1 s)
  then show ?case by simp
next
  case (2 m ts s)
  then show ?case using reach_next(1) [of s m] unfolding spsc_run.simps by blast
next
  case (3 ts s)
  then show ?case using reach_next(2) [of s] unfolding spsc_run.simps by blast
qed

text \<open>
  A concrete state: one message is published, the consumer has read two bytes of its length,
  and the producer is one byte into the next entry.
\<close>

definition example_state :: spsc where
  "example_state =
     spsc_run [Some [5], Some [5], Some [5], Some [5], Some [5], Some [5], Some [5],
               None, Some [6], None, Some [6], None]
       \<lparr>ring = \<lparr>rb_capacity = 13, rb_buffer = [0, 0, 0, 0, 0, 0, 0, 0, 0, 0, 0, 0, 0],
          rb_head = 0, rb_tail = 0\<rparr>,
        prod = PIdle, cons = CIdle, pushed = [], popped = []\<rparr>"

lemma example_state_eq:
  "example_state =
     \<lparr>ring = \<lparr>rb_capacity = 13, rb_buffer = [0, 0, 0, 1, 5, 0, 0, 0, 0, 0, 0, 0, 0],
        rb_head = 0, rb_tail = 5\<rparr>,
      prod = PWrite [6] 5 1, cons = CLen 0 [0, 0], pushed = [[5]], popped = []\<rparr>"
  by (simp add: example_state_def push_guard_def size_add_def size_sub_def size_max_def
      rb_entry_def be_bytes_4 byte_of_def)

lemma example_reach: "reach spsc_start spsc_step example_state"
proof -
  have "rb_new 12 = Some \<lparr>rb_capacity = 13, rb_buffer = [0, 0, 0, 0, 0, 0, 0, 0, 0, 0, 0, 0, 0],
      rb_head = 0, rb_tail = 0\<rparr>"
    by (simp add: rb_new_def size_add_def size_max_def ptrdiff_max_def) (simp add: numeral_eq_Suc)
  then have "spsc_start \<lparr>ring = \<lparr>rb_capacity = 13, rb_buffer = [0, 0, 0, 0, 0, 0, 0, 0, 0, 0, 0, 0, 0],
      rb_head = 0, rb_tail = 0\<rparr>, prod = PIdle, cons = CIdle, pushed = [], popped = []\<rparr>"
    unfolding spsc_start_def spsc_init_def by (intro exI [of _ 12]) simp
  then show ?thesis
    unfolding example_state_def by (intro reach_run reach_init)
qed

text \<open>
  C17: For a ring of any capacity up to 2^32 + 3 bytes (the largest for which every length that
  Push accepts fits into its four-byte header) and whatever way the memory accesses of one
  producer and one consumer interleave, the messages that Pop has returned are a prefix of the
  messages whose Push has returned true, in the same order and with the same bytes, and the ring
  holds exactly the rest: nothing is lost, duplicated, reordered or torn. In a ring of at most
  16 MiB (kMaxPayloadSize + 5 cells) all that it holds is also of a size that Pop accepts; a
  larger one may hold a message that Pop refuses and that then stays at the head.
\<close>

theorem spsc_fifo:
  assumes "reach spsc_start spsc_step s"
  shows "\<exists>stored. pushed s = popped s @ stored \<and> rb_cells (ring s) stored \<and>
    (rb_capacity (ring s) \<le> unat kMaxPayloadSize + 5 \<longrightarrow> list_all rb_valid stored)"
proof -
  obtain ms where ok: "spsc_ok s ms"
    using assms by (rule spsc_reach_ok)
  then show ?thesis
    using spsc_okD(2,8) [OF ok] spsc_ok_valid [OF ok] by blast
qed

theorem spsc_fifo_witness:
  "reach spsc_start spsc_step example_state \<and> pushed example_state = [[5]] \<and>
   (\<exists>stored. pushed example_state = popped example_state @ stored \<and>
      rb_cells (ring example_state) stored \<and>
      (rb_capacity (ring example_state) \<le> unat kMaxPayloadSize + 5 \<longrightarrow> list_all rb_valid stored))"
proof -
  have "pushed example_state = [[5]]"
    by (simp add: example_state_eq)
  then show ?thesis
    using spsc_fifo [OF example_reach] example_reach by blast
qed

text \<open>The cell that the producer writes next and the cell that the consumer reads next.\<close>

fun producer_cell :: "spsc \<Rightarrow> nat option" where
  "producer_cell s = (case prod s of
     PIdle \<Rightarrow> None
   | PWrite m t i \<Rightarrow> if i < 4 + length m then Some (size_add t i mod rb_capacity (ring s)) else None)"

fun consumer_cell :: "spsc \<Rightarrow> nat option" where
  "consumer_cell s = (case cons s of
     CIdle \<Rightarrow> None
   | CLen h got \<Rightarrow>
       if length got < 4 then Some (size_add h (length got) mod rb_capacity (ring s)) else None
   | CData h len got \<Rightarrow>
       if length got < unat len
       then Some (size_add (size_add h 4) (length got) mod rb_capacity (ring s)) else None)"

lemma producer_cell_pos:
  assumes ok: "spsc_ok s ms" and "producer_cell s = Some a"
  obtains k where "length (rb_entries ms) \<le> k" and "k < rb_capacity (ring s)"
    and "a = (rb_head (ring s) + k) mod rb_capacity (ring s)"
proof -
  obtain m t i where pc: "prod s = PWrite m t i" "i < 4 + length m"
    and a: "a = size_add t i mod rb_capacity (ring s)"
    using assms(2) by (auto split: producer.splits if_splits)
  have p: "t = rb_tail (ring s)" "length (rb_entries ms) + (4 + length m) < rb_capacity (ring s)"
    using spsc_okD(4) [OF ok] pc by simp_all
  have "size_add t i = rb_tail (ring s) + i"
    unfolding p(1) using rb_invD [OF spsc_okD(7) [OF ok]] p(2) pc(2) by (intro size_add_exact) linarith
  then have "a = (rb_head (ring s) + (length (rb_entries ms) + i)) mod rb_capacity (ring s)"
    using a rb_cellsD(3) [OF spsc_okD(8) [OF ok]] by (simp add: mod_add_left_eq add.assoc)
  then show ?thesis
    using that [of "length (rb_entries ms) + i"] p(2) pc(2) by simp
qed

lemma consumer_cell_pos:
  assumes ok: "spsc_ok s ms" and cell: "consumer_cell s = Some b"
  obtains k where "k < length (rb_entries ms)"
    and "b = (rb_head (ring s) + k) mod rb_capacity (ring s)"
proof -
  obtain k where k: "ms \<noteq> []" "k < length (rb_entry (hd ms))"
    and b: "rb_head (ring s) + k < size_max \<Longrightarrow> b = (rb_head (ring s) + k) mod rb_capacity (ring s)"
  proof (cases "cons s")
    case CIdle
    then show ?thesis using cell by simp
  next
    case (CLen h got)
    then show ?thesis
      using that [of "length got"] spsc_okD(5) [OF ok] cell
      by (auto simp: size_add_exact split: if_splits)
  next
    case (CData h len got)
    then show ?thesis
      using that [of "4 + length got"] spsc_okD(5) [OF ok] cell
      by (auto simp: size_add_exact add.assoc split: if_splits)
  qed
  moreover have "length (rb_entry (hd ms)) \<le> length (rb_entries ms)"
    using k(1) by (cases ms) simp_all
  ultimately show ?thesis
    using that [of k] consumer_reads(2) [OF ok k] by linarith
qed

text \<open>
  C40: A ring of any capacity up to 2^32 + 3 bytes (the largest for which every length that Push
  accepts fits into its four-byte header) is free of data races: at no point of any interleaving
  of one producer and one consumer is the cell that the producer is about to write the cell that
  the consumer is about to read, and both are inside the buffer.
\<close>

theorem spsc_race_free:
  assumes "reach spsc_start spsc_step s"
    and "producer_cell s = Some a" and "consumer_cell s = Some b"
  shows "a \<noteq> b \<and> a < length (rb_buffer (ring s)) \<and> b < length (rb_buffer (ring s))"
proof -
  obtain ms where ok: "spsc_ok s ms"
    using assms(1) by (rule spsc_reach_ok)
  obtain j where j: "length (rb_entries ms) \<le> j" "j < rb_capacity (ring s)"
    and a: "a = (rb_head (ring s) + j) mod rb_capacity (ring s)"
    using ok assms(2) by (rule producer_cell_pos)
  obtain k where k: "k < length (rb_entries ms)"
    and b: "b = (rb_head (ring s) + k) mod rb_capacity (ring s)"
    using ok assms(3) by (rule consumer_cell_pos)
  show ?thesis
    using a b j k mod_window_inj [of "rb_head (ring s)" j "rb_capacity (ring s)" k]
      rb_invD [OF spsc_okD(7) [OF ok]] by auto
qed

theorem spsc_race_free_witness:
  "producer_cell example_state = Some 6 \<and> consumer_cell example_state = Some 2 \<and> (6 :: nat) \<noteq> 2"
proof -
  have "producer_cell example_state = Some 6" and "consumer_cell example_state = Some 2"
    by (simp_all add: example_state_eq size_add_def size_max_def)
  then show ?thesis
    using spsc_race_free [OF example_reach] by blast
qed

text \<open>Steps that are left to a call in progress, at most.\<close>

fun producer_work :: "producer \<Rightarrow> nat" where
  "producer_work PIdle = 0"
| "producer_work (PWrite m t i) = 5 + length m - i"

fun consumer_work :: "consumer \<Rightarrow> nat" where
  "consumer_work CIdle = 0"
| "consumer_work (CLen h got) = unat kMaxPayloadSize + 7 - length got"
| "consumer_work (CData h len got) = unat len + 1 - length got"

lemma producer_enabled: "prod_ok rb ms (prod s) \<Longrightarrow> \<exists>t. producer_step s t"
proof (cases "prod s")
  case PIdle
  then show ?thesis
    by (cases "push_guard (rb_capacity (ring s)) (rb_head (ring s)) (rb_tail (ring s)) []")
       (auto intro: producer_step.intros)
next
  case (PWrite m t i)
  assume "prod_ok rb ms (prod s)"
  then show ?thesis
    using PWrite by (cases "i < 4 + length m") (auto intro: push_byte push_commit)
qed

lemma consumer_enabled:
  assumes ok: "spsc_ok s ms"
  shows "\<exists>t. consumer_step s t"
proof (cases "cons s")
  case CIdle
  then show ?thesis
    by (cases "rb_head (ring s) = rb_tail (ring s)") (auto intro: pop_none pop_start)
next
  case (CLen h got)
  then have "length got \<le> 4" using spsc_okD(5) [OF ok] by simp
  then show ?thesis
    using CLen by (cases "length got < 4") (auto intro: pop_len_byte pop_corrupt pop_len)
next
  case (CData h len got)
  then have "length got \<le> unat len" using spsc_okD(5) [OF ok] by simp
  then show ?thesis
    using CData by (cases "length got < unat len") (auto intro: pop_byte pop_commit)
qed

lemma consumer_work_decreases:
  assumes "consumer_step s t" and "cons s \<noteq> CIdle"
  shows "consumer_work (cons t) < consumer_work (cons s)"
  using assms
proof (induction rule: consumer_step.induct)
  case (pop_len s h got len)
  then have "unat len \<le> unat kMaxPayloadSize"
    by (simp add: word_less_nat_alt)
  with pop_len show ?case by simp
qed simp_all

text \<open>
  Push and Pop are wait-free and Pop never meets a damaged length: in every reachable state
  each thread has a step to take whatever the other one does, every step inside a call brings
  that call closer to its end, and a header that Pop has read is not zero and, in a ring of at
  most 16 MiB, not above \<open>kMaxPayloadSize\<close>.
\<close>

theorem spsc_wait_free:
  assumes "reach spsc_start spsc_step s"
  shows "(\<exists>t. producer_step s t) \<and> (\<exists>t. consumer_step s t) \<and>
    (\<forall>t. producer_step s t \<and> prod s \<noteq> PIdle \<longrightarrow> producer_work (prod t) < producer_work (prod s)) \<and>
    (\<forall>t. consumer_step s t \<and> cons s \<noteq> CIdle \<longrightarrow> consumer_work (cons t) < consumer_work (cons s)) \<and>
    (\<forall>h got. cons s = CLen h got \<and> length got = 4 \<longrightarrow>
       0 < (be_read 0 got :: u32) \<and>
       (rb_capacity (ring s) \<le> unat kMaxPayloadSize + 5 \<longrightarrow> be_read 0 got \<le> kMaxPayloadSize))"
proof -
  obtain ms where ok: "spsc_ok s ms"
    using assms by (rule spsc_reach_ok)
  have "producer_work (prod t) < producer_work (prod s)" if "producer_step s t" "prod s \<noteq> PIdle" for t
    using that spsc_okD(4) [OF ok] by (induction rule: producer_step.induct) auto
  moreover have "0 < (be_read 0 got :: u32)"
    if "cons s = CLen h got" "length got = 4" for h got
    using consumer_len [OF ok that] by (simp add: word_less_nat_alt)
  moreover have "be_read 0 got \<le> kMaxPayloadSize"
    if "cons s = CLen h got" "length got = 4" "rb_capacity (ring s) \<le> unat kMaxPayloadSize + 5" for h got
    using consumer_len [OF ok that(1,2)] spsc_ok_valid [OF ok that(3)] spsc_okD(5) [OF ok] that(1)
    by (cases ms) (simp_all add: rb_valid_def word_le_nat_alt)
  ultimately show ?thesis
    using producer_enabled [OF spsc_okD(4) [OF ok]] consumer_enabled [OF ok] consumer_work_decreases
    by blast
qed

theorem spsc_wait_free_witness:
  "reach spsc_start spsc_step example_state \<and>
   (\<exists>t. producer_step example_state t) \<and> (\<exists>t. consumer_step example_state t)"
  using spsc_wait_free [OF example_reach] example_reach by blast

end
