(* ===== verification/Frame_Codec.thy ===== *)
theory Frame_Codec
  imports Prelude
begin

text \<open>
  \<^verbatim>\<open>protocol/frame_protocol.h\<close> and \<^verbatim>\<open>protocol/frame_codec.cpp\<close>: the frame format of the
  wire protocol and its one-shot encoder and decoder. \<open>FrameMessageType\<close> is an enum over
  \<open>uint8_t\<close> into which any byte is cast, so it is a byte with named values. The lemmas give
  the round trips in both directions and the agreement of the two encoders.
\<close>

subsection \<open>Frames\<close>

definition kFrameMagic :: u32 where
  "kFrameMagic = 0xDEADBEEF"

definition kFrameVersion :: byte where
  "kFrameVersion = 0x01"

definition kFrameHeaderSize :: nat where
  "kFrameHeaderSize = 10"

type_synonym FrameMessageType = byte

definition FMT_Unknown :: FrameMessageType where "FMT_Unknown = 0"
definition FMT_Publish :: FrameMessageType where "FMT_Publish = 1"
definition FMT_Subscribe :: FrameMessageType where "FMT_Subscribe = 2"
definition FMT_Unsubscribe :: FrameMessageType where "FMT_Unsubscribe = 3"
definition FMT_Pull :: FrameMessageType where "FMT_Pull = 4"
definition FMT_Ack :: FrameMessageType where "FMT_Ack = 5"
definition FMT_Response :: FrameMessageType where "FMT_Response = 6"
definition FMT_Push :: FrameMessageType where "FMT_Push = 7"
definition FMT_BatchPublish :: FrameMessageType where "FMT_BatchPublish = 9"
definition FMT_BatchPush :: FrameMessageType where "FMT_BatchPush = 10"
definition FMT_Ping :: FrameMessageType where "FMT_Ping = 11"
definition FMT_Pong :: FrameMessageType where "FMT_Pong = 12"
definition FMT_Admin :: FrameMessageType where "FMT_Admin = 13"

lemmas FMT_defs = FMT_Unknown_def FMT_Publish_def FMT_Subscribe_def FMT_Unsubscribe_def
  FMT_Pull_def FMT_Ack_def FMT_Response_def FMT_Push_def FMT_BatchPublish_def
  FMT_BatchPush_def FMT_Ping_def FMT_Pong_def FMT_Admin_def

record Frame =
  magic :: u32
  version :: byte
  msg_type :: FrameMessageType
  frame_length :: u32
  payload :: "byte list"

text \<open>\<^verbatim>\<open>Frame{}\<close>: the default member initialisers.\<close>

definition default_Frame :: Frame where
  "default_Frame = \<lparr>magic = kFrameMagic, version = kFrameVersion, msg_type = FMT_Unknown,
     frame_length = 0, payload = []\<rparr>"

subsection \<open>The codec\<close>

definition Encode :: "Frame \<Rightarrow> byte list" where
  "Encode frame =
     (let len = (of_nat (length (payload frame)) :: u32) in
      [ucast (drop_bit 24 (magic frame) AND 0xFF),
       ucast (drop_bit 16 (magic frame) AND 0xFF),
       ucast (drop_bit 8 (magic frame) AND 0xFF),
       ucast (magic frame AND 0xFF),
       version frame,
       msg_type frame,
       ucast (drop_bit 24 len AND 0xFF),
       ucast (drop_bit 16 len AND 0xFF),
       ucast (drop_bit 8 len AND 0xFF),
       ucast (len AND 0xFF)]
      @ payload frame)"

text \<open>
  The caller's buffer is a list of \<open>buffer_size\<close> bytes; the result is the number of bytes
  written and the buffer after the writes.
\<close>

definition EncodeHeaderToBuffer :: "Frame \<Rightarrow> byte list \<Rightarrow> nat \<times> byte list" where
  "EncodeHeaderToBuffer frame buffer =
     (if length buffer < kFrameHeaderSize then (0, buffer)
      else
        let len = (of_nat (length (payload frame)) :: u32);
            b0 = buffer[0 := ucast (drop_bit 24 (magic frame) AND 0xFF)];
            b1 = b0[1 := ucast (drop_bit 16 (magic frame) AND 0xFF)];
            b2 = b1[2 := ucast (drop_bit 8 (magic frame) AND 0xFF)];
            b3 = b2[3 := ucast (magic frame AND 0xFF)];
            b4 = b3[4 := version frame];
            b5 = b4[5 := msg_type frame];
            b6 = b5[6 := ucast (drop_bit 24 len AND 0xFF)];
            b7 = b6[7 := ucast (drop_bit 16 len AND 0xFF)];
            b8 = b7[8 := ucast (drop_bit 8 len AND 0xFF)];
            b9 = b8[9 := ucast (len AND 0xFF)]
        in (10, b9))"

text \<open>The big-endian word at position \<open>i\<close> of a buffer.\<close>

definition word_at :: "byte list \<Rightarrow> nat \<Rightarrow> u32" where
  "word_at buffer i =
     push_bit 24 (ucast (buffer ! i)) OR push_bit 16 (ucast (buffer ! (i + 1))) OR
     push_bit 8 (ucast (buffer ! (i + 2))) OR ucast (buffer ! (i + 3))"

definition TryDecode :: "byte list \<Rightarrow> Frame option \<times> nat" where
  "TryDecode buffer =
     (if length buffer < kFrameHeaderSize then (None, 0)
      else
        let mg = word_at buffer 0 in
        if mg \<noteq> kFrameMagic then (None, 0)
        else
          let ver = buffer ! 4 in
          if ver \<noteq> kFrameVersion then (None, 0)
          else
            let mt = buffer ! 5;
                len = word_at buffer 6
            in if len > kMaxPayloadSize then (None, 0)
               else if length buffer < size_add kFrameHeaderSize (unat len) then (None, 0)
               else
                 (Some \<lparr>magic = mg, version = ver, msg_type = mt, frame_length = len,
                    payload = take (unat len) (drop kFrameHeaderSize buffer)\<rparr>,
                  size_add kFrameHeaderSize (unat len)))"

definition HasCompleteFrame :: "byte list \<Rightarrow> bool" where
  "HasCompleteFrame buffer =
     (if length buffer < kFrameHeaderSize then False
      else length buffer \<ge> size_add kFrameHeaderSize (unat (word_at buffer 6)))"

definition PeekPayloadLength :: "byte list \<Rightarrow> u32 option" where
  "PeekPayloadLength buffer =
     (if length buffer < kFrameHeaderSize then None else Some (word_at buffer 6))"

subsection \<open>Header bytes\<close>

definition frame_header :: "Frame \<Rightarrow> byte list" where
  "frame_header f = be_bytes 4 (magic f) @ [version f, msg_type f]
     @ be_bytes 4 (of_nat (length (payload f)) :: u32)"

text \<open>
  \<open>wf_frame\<close>: what a sender must respect for its frame to be accepted; \<open>decoded\<close> is the frame
  as a receiver sees it, with the length field filled in.
\<close>

definition wf_frame :: "Frame \<Rightarrow> bool" where
  "wf_frame f \<longleftrightarrow> magic f = kFrameMagic \<and> version f = kFrameVersion \<and>
     length (payload f) \<le> unat kMaxPayloadSize"

definition decoded :: "Frame \<Rightarrow> Frame" where
  "decoded f = f\<lparr>frame_length := of_nat (length (payload f))\<rparr>"

lemma Encode_header: "Encode f = frame_header f @ payload f"
  by (simp add: Encode_def frame_header_def be_bytes_4 byte_of_def Let_def)

lemma length_frame_header [simp]: "length (frame_header f) = kFrameHeaderSize"
  by (simp add: frame_header_def kFrameHeaderSize_def)

lemma length_Encode: "length (Encode f) = kFrameHeaderSize + length (payload f)"
  by (simp add: Encode_header)

lemma word_at_be_read:
  "word_at buffer i = be_read 0 [buffer ! i, buffer ! (i + 1), buffer ! (i + 2), buffer ! (i + 3)]"
  by (simp add: word_at_def push_bit_or or.assoc)

lemma take_4_nth:
  assumes "i + 4 \<le> length xs"
  shows "take 4 (drop i xs) = [xs ! i, xs ! (i + 1), xs ! (i + 2), xs ! (i + 3)]"
  using assms by (simp add: numeral_eq_Suc Cons_nth_drop_Suc [symmetric])

lemma word_at_take: "i + 4 \<le> length buffer \<Longrightarrow> word_at buffer i = be_read 0 (take 4 (drop i buffer))"
  by (simp only: word_at_be_read take_4_nth)

lemma word_at_append: "i + 4 \<le> length xs \<Longrightarrow> word_at (xs @ ys) i = word_at xs i"
  by (simp add: word_at_take)

lemma word_at_drop: "i + j + 4 \<le> length xs \<Longrightarrow> word_at (drop i xs) j = word_at xs (i + j)"
  by (simp add: word_at_take add.commute)

lemma word_at_header:
  "word_at (frame_header f @ bs) 0 = magic f"
  "word_at (frame_header f @ bs) 6 = of_nat (length (payload f))"
  by (simp_all add: word_at_take frame_header_def)

lemma nth_header:
  "(frame_header f @ bs) ! 4 = version f" "(frame_header f @ bs) ! 5 = msg_type f"
  by (simp_all add: frame_header_def be_bytes_4)

text \<open>The first ten bytes of a buffer are the header of the frame they announce.\<close>

lemma header_of_bytes:
  assumes "10 \<le> length buffer"
  shows "take 10 buffer =
    be_bytes 4 (word_at buffer 0) @ [buffer ! 4, buffer ! 5] @ be_bytes 4 (word_at buffer 6)"
proof -
  have b: "be_bytes 4 (be_read (0 :: u32) (take 4 (drop i buffer))) = take 4 (drop i buffer)"
    if "i + 4 \<le> length buffer" for i
    using be_bytes_be_read [of "take 4 (drop i buffer)" "0 :: u32"] that by simp
  have "take 10 buffer = take 4 (drop 0 buffer) @ [buffer ! 4, buffer ! 5] @ take 4 (drop 6 buffer)"
    using assms by (intro nth_equalityI) (auto simp: nth_append nth_Cons' numeral_eq_Suc less_Suc_eq)
  then show ?thesis
    using assms b [of 0] b [of 6] by (simp add: word_at_take)
qed

text \<open>A buffer that starts with a legal header and holds the announced payload starts with a frame.\<close>

definition frame_at :: "byte list \<Rightarrow> Frame" where
  "frame_at buffer = \<lparr>magic = kFrameMagic, version = kFrameVersion, msg_type = buffer ! 5,
     frame_length = word_at buffer 6, payload = take (unat (word_at buffer 6)) (drop 10 buffer)\<rparr>"

lemma frame_at_Encode:
  assumes magic: "word_at buffer 0 = kFrameMagic" and version: "buffer ! 4 = kFrameVersion"
    and legal: "\<not> kMaxPayloadSize < word_at buffer 6"
    and complete: "10 + unat (word_at buffer 6) \<le> length buffer"
  shows "wf_frame (frame_at buffer)" and "decoded (frame_at buffer) = frame_at buffer"
    and "length (Encode (frame_at buffer)) = 10 + unat (word_at buffer 6)"
    and "take (10 + unat (word_at buffer 6)) buffer = Encode (frame_at buffer)"
proof -
  have len: "length (payload (frame_at buffer)) = unat (word_at buffer 6)"
    using complete by (simp add: frame_at_def)
  then show "wf_frame (frame_at buffer)" and "decoded (frame_at buffer) = frame_at buffer"
    using legal by (simp_all add: wf_frame_def decoded_def word_less_nat_alt frame_at_def)
  show "length (Encode (frame_at buffer)) = 10 + unat (word_at buffer 6)"
    using len by (simp add: length_Encode kFrameHeaderSize_def)
  have "take 10 buffer = frame_header (frame_at buffer)"
    using header_of_bytes [of buffer] complete magic version len
    by (simp add: frame_header_def frame_at_def)
  then show "take (10 + unat (word_at buffer 6)) buffer = Encode (frame_at buffer)"
    by (simp add: take_add Encode_header frame_at_def)
qed

subsection \<open>Properties\<close>

lemma unat_payload_length:
  "length (payload f) \<le> unat kMaxPayloadSize \<Longrightarrow>
     unat (of_nat (length (payload f)) :: u32) = length (payload f)"
  by (simp add: unat_of_nat)

lemma frame_fits: "10 + unat (len :: u32) < size_max"
proof -
  have "unat len < 2 ^ LENGTH(32)"
    by (rule unsigned_less)
  then show ?thesis
    by (simp add: size_max_def)
qed

lemma frame_size [size_arith]: "size_add 10 (unat (len :: u32)) = 10 + unat len"
  by (rule size_add_exact) (rule frame_fits)

text \<open>
  Decoding undoes encoding: from a buffer that starts with an encoded frame whose magic, version
  and payload size are legal, whatever bytes follow, \<open>TryDecode\<close> returns that frame with its
  length field set and reports exactly the bytes of that frame as consumed.
\<close>

theorem TryDecode_Encode:
  assumes "wf_frame f"
  shows "TryDecode (Encode f @ rest) = (Some (decoded f), length (Encode f))"
proof -
  have len: "unat (of_nat (length (payload f)) :: u32) = length (payload f)"
    using assms by (simp add: wf_frame_def unat_of_nat)
  then have "\<not> kMaxPayloadSize < (of_nat (length (payload f)) :: u32)"
    using assms by (simp add: wf_frame_def word_less_nat_alt)
  moreover have "size_add 10 (length (payload f)) = 10 + length (payload f)"
    using assms by (intro size_add_exact) (simp add: wf_frame_def size_max_def)
  ultimately show ?thesis
    using assms len
    by (simp add: TryDecode_def Encode_header word_at_header nth_header Let_def
        wf_frame_def decoded_def kFrameHeaderSize_def)
qed

theorem TryDecode_Encode_witness:
  "wf_frame \<lparr>magic = kFrameMagic, version = 1, msg_type = FMT_Ping, frame_length = 0, payload = [1, 2]\<rparr> \<and>
   TryDecode (Encode \<lparr>magic = kFrameMagic, version = 1, msg_type = FMT_Ping, frame_length = 0, payload = [1, 2]\<rparr> @ [9])
     = (Some \<lparr>magic = kFrameMagic, version = 1, msg_type = FMT_Ping, frame_length = 2, payload = [1, 2]\<rparr>, 12)"
proof -
  let ?f = "\<lparr>magic = kFrameMagic, version = 1, msg_type = FMT_Ping, frame_length = 0, payload = [1, 2]\<rparr>"
  have "wf_frame ?f"
    by (simp add: wf_frame_def kFrameVersion_def)
  with TryDecode_Encode [OF this, of "[9]"] show ?thesis
    by (simp add: decoded_def length_Encode kFrameHeaderSize_def)
qed

text \<open>
  Conversely, whatever \<open>TryDecode\<close> accepts is a legal frame that stands at the start of the
  buffer: re-encoding it gives exactly the consumed bytes. If it accepts nothing it consumes
  nothing.
\<close>

theorem TryDecode_sound:
  "case TryDecode buffer of
     (Some f, n) \<Rightarrow> wf_frame f \<and> decoded f = f \<and> n = length (Encode f) \<and> n \<le> length buffer \<and>
        take n buffer = Encode f
   | (None, n) \<Rightarrow> n = 0"
proof (cases "TryDecode buffer")
  case (Pair r n)
  show ?thesis
  proof (cases r)
    case None
    then show ?thesis
      using Pair by (auto simp: TryDecode_def Let_def split: if_splits)
  next
    case (Some f)
    then have legal: "word_at buffer 0 = kFrameMagic" "buffer ! 4 = kFrameVersion"
      "\<not> kMaxPayloadSize < word_at buffer 6" "10 + unat (word_at buffer 6) \<le> length buffer"
      and fn: "f = frame_at buffer" "n = 10 + unat (word_at buffer 6)"
      using Pair
      by (auto simp: TryDecode_def Let_def kFrameHeaderSize_def frame_size frame_at_def split: if_splits)
    then show ?thesis
      using Pair Some frame_at_Encode [OF legal] by simp
  qed
qed

text \<open>
  The two encoders agree, and the two look-ahead functions agree with the decoder: for a buffer
  of at least ten bytes, \<open>EncodeHeaderToBuffer\<close> writes exactly the header bytes of \<open>Encode\<close> in
  front of whatever the buffer held; whenever \<open>TryDecode\<close> succeeds, \<open>HasCompleteFrame\<close> holds and
  \<open>PeekPayloadLength\<close> is the length of the decoded payload.
\<close>

theorem EncodeHeaderToBuffer_Encode:
  assumes "kFrameHeaderSize \<le> length buffer"
  shows "EncodeHeaderToBuffer f buffer =
           (kFrameHeaderSize, take kFrameHeaderSize (Encode f) @ drop kFrameHeaderSize buffer) \<and>
         (\<forall>g n. TryDecode buffer = (Some g, n) \<longrightarrow>
            HasCompleteFrame buffer \<and> PeekPayloadLength buffer = Some (of_nat (length (payload g))))"
proof
  obtain a b c d e g h i j k rest where "buffer = [a, b, c, d, e, g, h, i, j, k] @ rest"
    using assms by (auto simp: kFrameHeaderSize_def numeral_eq_Suc Suc_le_length_iff)
  then show "EncodeHeaderToBuffer f buffer =
      (kFrameHeaderSize, take kFrameHeaderSize (Encode f) @ drop kFrameHeaderSize buffer)"
    by (simp add: EncodeHeaderToBuffer_def Encode_def Let_def kFrameHeaderSize_def)
  show "\<forall>g n. TryDecode buffer = (Some g, n) \<longrightarrow>
      HasCompleteFrame buffer \<and> PeekPayloadLength buffer = Some (of_nat (length (payload g)))"
    by (auto simp: TryDecode_def HasCompleteFrame_def PeekPayloadLength_def Let_def
        kFrameHeaderSize_def frame_size min_absorb2 split: if_splits)
qed

theorem EncodeHeaderToBuffer_Encode_witness:
  "kFrameHeaderSize \<le> length (replicate 10 (0 :: byte)) \<and>
   EncodeHeaderToBuffer \<lparr>magic = kFrameMagic, version = 1, msg_type = 7, frame_length = 0, payload = [5]\<rparr>
     (replicate 10 0) = (10, [0xDE, 0xAD, 0xBE, 0xEF, 1, 7, 0, 0, 0, 1])"
proof -
  have "kFrameHeaderSize \<le> length (replicate 10 (0 :: byte))"
    by (simp add: kFrameHeaderSize_def)
  with EncodeHeaderToBuffer_Encode [OF this,
      of "\<lparr>magic = kFrameMagic, version = 1, msg_type = 7, frame_length = 0, payload = [5]\<rparr>"]
  show ?thesis
    by (simp add: kFrameHeaderSize_def Encode_def kFrameMagic_def Let_def)
qed

end
