(* ===== verification/Streaming_Codec.thy ===== *)
theory Streaming_Codec
  imports Frame_Codec
begin

text \<open>
  \<^verbatim>\<open>protocol/streaming_frame_codec.h\<close> and \<^verbatim>\<open>.cpp\<close>: the state machine that cuts a TCP byte
  stream into frames, skipping bytes until a magic word and resynchronising after a damaged
  header, and the loop of \<^verbatim>\<open>Connection::OnRead\<close> that empties it. The lemmas show that the
  result does not depend on how the stream is cut into reads, that encoded frames come out
  unchanged, that nothing is invented, and that the buffer stays bounded.
\<close>

subsection \<open>The state machine\<close>

datatype ParseState = WaitingMagic | WaitingHeader | WaitingPayload

record StreamingFrameCodec =
  sc_state :: ParseState
  sc_buffer :: "byte list"
  sc_partial :: Frame
  sc_payload_length :: nat

definition sc_init :: StreamingFrameCodec where
  "sc_init = \<lparr>sc_state = WaitingMagic, sc_buffer = [], sc_partial = default_Frame,
     sc_payload_length = 0\<rparr>"

definition AppendData :: "StreamingFrameCodec \<Rightarrow> byte list \<Rightarrow> StreamingFrameCodec" where
  "AppendData c data = c\<lparr>sc_buffer := sc_buffer c @ data\<rparr>"

definition GetBufferSize :: "StreamingFrameCodec \<Rightarrow> nat" where
  "GetBufferSize c = length (sc_buffer c)"

definition Reset :: "StreamingFrameCodec \<Rightarrow> StreamingFrameCodec" where
  "Reset c = c\<lparr>sc_state := WaitingMagic, sc_buffer := [], sc_partial := default_Frame,
     sc_payload_length := 0\<rparr>"

text \<open>The search loop of \<open>SyncMagic\<close>, from position \<open>i\<close>.\<close>

function sync_from :: "byte list \<Rightarrow> nat \<Rightarrow> nat option" where
  "sync_from buf i =
     (if i + 4 \<le> length buf
      then (if word_at buf i = kFrameMagic then Some i else sync_from buf (Suc i))
      else None)"
  by pat_completeness auto
termination
  by (relation "measure (\<lambda>(buf, i). length buf - i)") auto

declare sync_from.simps [simp del]

definition SyncMagic :: "StreamingFrameCodec \<Rightarrow> bool \<times> StreamingFrameCodec" where
  "SyncMagic c =
     (let buf = sc_buffer c in
      if length buf < 4 then (False, c)
      else case sync_from buf 0 of
          Some i \<Rightarrow> (True, if i > 0 then c\<lparr>sc_buffer := drop i buf\<rparr> else c)
        | None \<Rightarrow> (False, if length buf > 3 then c\<lparr>sc_buffer := drop (length buf - 3) buf\<rparr> else c))"

definition ParseHeader :: "StreamingFrameCodec \<Rightarrow> bool \<times> StreamingFrameCodec" where
  "ParseHeader c =
     (let buf = sc_buffer c in
      if length buf < kFrameHeaderSize then (False, c)
      else
        let ver = buf ! 4 in
        if ver \<noteq> kFrameVersion then
          (False, c\<lparr>sc_buffer := drop 1 buf, sc_state := WaitingMagic\<rparr>)
        else
          let mt = buf ! 5; len = word_at buf 6 in
          if len > kMaxPayloadSize then
            (False, c\<lparr>sc_buffer := drop 1 buf, sc_state := WaitingMagic\<rparr>)
          else
            (True, c\<lparr>sc_partial := (sc_partial c)\<lparr>magic := kFrameMagic, version := ver,
                       msg_type := mt, frame_length := len\<rparr>,
                     sc_payload_length := unat len\<rparr>))"

text \<open>
  \<open>payload_length_\<close> is only ever assigned from a \<open>uint32_t\<close>, so adding the header size to it
  does not wrap in \<open>size_t\<close>.
\<close>

definition ParsePayload :: "StreamingFrameCodec \<Rightarrow> Frame option \<times> StreamingFrameCodec" where
  "ParsePayload c =
     (let buf = sc_buffer c; total_needed = kFrameHeaderSize + sc_payload_length c in
      if length buf < total_needed then (None, c)
      else
        (Some ((sc_partial c)\<lparr>payload := take (sc_payload_length c) (drop kFrameHeaderSize buf)\<rparr>),
         c\<lparr>sc_buffer := drop total_needed buf, sc_partial := default_Frame,
           sc_payload_length := 0\<rparr>))"

text \<open>
  The loop of \<open>TryParseFrame\<close> ends: every return to the search for a magic word has dropped a
  byte.
\<close>

fun state_rank :: "ParseState \<Rightarrow> nat" where
  "state_rank WaitingMagic = 2"
| "state_rank WaitingHeader = 1"
| "state_rank WaitingPayload = 0"

lemma drop_is_suffix: "\<exists>g. xs = g @ drop n xs"
  by (metis append_take_drop_id)

lemma SyncMagic_buffer:
  assumes "SyncMagic c = (ok, c')"
  shows "\<exists>g. sc_buffer c = g @ sc_buffer c'" and "sc_state c' = sc_state c"
    and "sc_partial c' = sc_partial c" and "sc_payload_length c' = sc_payload_length c"
proof -
  show "\<exists>g. sc_buffer c = g @ sc_buffer c'"
    using assms
    by (auto simp: SyncMagic_def Let_def drop_is_suffix split: if_splits option.splits)
  show "sc_state c' = sc_state c" "sc_partial c' = sc_partial c"
    "sc_payload_length c' = sc_payload_length c"
    using assms by (auto simp: SyncMagic_def Let_def split: if_splits option.splits)
qed

lemma SyncMagic_length: "SyncMagic c = (ok, c') \<Longrightarrow> length (sc_buffer c') \<le> length (sc_buffer c)"
  using SyncMagic_buffer(1) [of c ok c'] by auto

function TryParseFrame :: "StreamingFrameCodec \<Rightarrow> Frame option \<times> StreamingFrameCodec" where
  "TryParseFrame c =
     (case sc_state c of
        WaitingMagic \<Rightarrow>
          (case SyncMagic c of
             (False, c') \<Rightarrow> (None, c')
           | (True, c') \<Rightarrow> TryParseFrame (c'\<lparr>sc_state := WaitingHeader\<rparr>))
      | WaitingHeader \<Rightarrow>
          (case ParseHeader c of
             (False, c') \<Rightarrow> if sc_state c' = WaitingMagic then TryParseFrame c' else (None, c')
           | (True, c') \<Rightarrow> TryParseFrame (c'\<lparr>sc_state := WaitingPayload\<rparr>))
      | WaitingPayload \<Rightarrow>
          (case ParsePayload c of
             (None, c') \<Rightarrow> (None, c')
           | (Some f, c') \<Rightarrow> (Some f, c'\<lparr>sc_state := WaitingMagic\<rparr>)))"
  by pat_completeness auto
termination
proof (relation "measure (\<lambda>c. 3 * length (sc_buffer c) + state_rank (sc_state c))", goal_cases)
  case 1
  then show ?case by simp
next
  case (2 c x c')
  then show ?case
    using SyncMagic_length [of c True c'] by simp
next
  case (3 c x c')
  then show ?case
    by (auto simp: ParseHeader_def Let_def kFrameHeaderSize_def split: if_splits)
next
  case (4 c x c')
  then show ?case
    by (auto simp: ParseHeader_def Let_def kFrameHeaderSize_def split: if_splits)
qed

declare TryParseFrame.simps [simp del]

text \<open>
  The header of the buffered bytes is rejected for its version or its length; the frame header
  that an accepted one stands for.
\<close>

definition bad_header :: "byte list \<Rightarrow> bool" where
  "bad_header buf \<longleftrightarrow> buf ! 4 \<noteq> kFrameVersion \<or> kMaxPayloadSize < word_at buf 6"

definition header_accepted :: "StreamingFrameCodec \<Rightarrow> StreamingFrameCodec" where
  "header_accepted c = c\<lparr>
     sc_partial := (sc_partial c)\<lparr>magic := kFrameMagic, version := kFrameVersion,
       msg_type := sc_buffer c ! 5, frame_length := word_at (sc_buffer c) 6\<rparr>,
     sc_payload_length := unat (word_at (sc_buffer c) 6),
     sc_state := WaitingPayload\<rparr>"

definition header_rejected :: "StreamingFrameCodec \<Rightarrow> StreamingFrameCodec" where
  "header_rejected c = c\<lparr>sc_buffer := drop 1 (sc_buffer c), sc_state := WaitingMagic\<rparr>"

lemma TryParseFrame_Magic:
  assumes "sc_state c = WaitingMagic"
  shows "TryParseFrame c = (case SyncMagic c of (ok, c') \<Rightarrow>
    if ok then TryParseFrame (c'\<lparr>sc_state := WaitingHeader\<rparr>) else (None, c'))"
  using assms by (auto simp: TryParseFrame.simps [of c] split: prod.splits bool.splits)

lemma TryParseFrame_Header:
  assumes "sc_state c = WaitingHeader"
  shows "TryParseFrame c =
    (if length (sc_buffer c) < 10 then (None, c)
     else if bad_header (sc_buffer c) then TryParseFrame (header_rejected c)
     else TryParseFrame (header_accepted c))"
  using assms
  by (auto simp: TryParseFrame.simps [of c] ParseHeader_def Let_def kFrameHeaderSize_def
      bad_header_def header_accepted_def header_rejected_def)

lemma TryParseFrame_Payload:
  assumes "sc_state c = WaitingPayload"
  shows "TryParseFrame c =
    (if length (sc_buffer c) < 10 + sc_payload_length c then (None, c)
     else (Some ((sc_partial c)\<lparr>payload := take (sc_payload_length c) (drop 10 (sc_buffer c))\<rparr>),
       \<lparr>sc_state = WaitingMagic, sc_buffer = drop (10 + sc_payload_length c) (sc_buffer c),
         sc_partial = default_Frame, sc_payload_length = 0\<rparr>))"
  using assms
  by (simp add: TryParseFrame.simps [of c] ParsePayload_def Let_def kFrameHeaderSize_def)

lemmas TryParseFrame_eqs = TryParseFrame_Magic TryParseFrame_Header TryParseFrame_Payload

text \<open>Induction along the loop, one case per way through its body.\<close>

lemma TryParseFrame_induct [case_names magic_none magic header_wait header_bad header_ok payload]:
  assumes magic_none: "\<And>c c'. sc_state c = WaitingMagic \<Longrightarrow> SyncMagic c = (False, c') \<Longrightarrow> P c"
    and magic: "\<And>c c'. sc_state c = WaitingMagic \<Longrightarrow> SyncMagic c = (True, c') \<Longrightarrow>
      P (c'\<lparr>sc_state := WaitingHeader\<rparr>) \<Longrightarrow> P c"
    and header_wait: "\<And>c. sc_state c = WaitingHeader \<Longrightarrow> length (sc_buffer c) < 10 \<Longrightarrow> P c"
    and header_bad: "\<And>c. sc_state c = WaitingHeader \<Longrightarrow> 10 \<le> length (sc_buffer c) \<Longrightarrow>
      bad_header (sc_buffer c) \<Longrightarrow> P (header_rejected c) \<Longrightarrow> P c"
    and header_ok: "\<And>c. sc_state c = WaitingHeader \<Longrightarrow> 10 \<le> length (sc_buffer c) \<Longrightarrow>
      \<not> bad_header (sc_buffer c) \<Longrightarrow> P (header_accepted c) \<Longrightarrow> P c"
    and payload: "\<And>c. sc_state c = WaitingPayload \<Longrightarrow> P c"
  shows "P c"
proof (induction "3 * length (sc_buffer c) + state_rank (sc_state c)" arbitrary: c rule: less_induct)
  case less
  show ?case
  proof (cases "sc_state c")
    case WaitingMagic
    obtain ok c' where sync: "SyncMagic c = (ok, c')" by fastforce
    have "P (c'\<lparr>sc_state := WaitingHeader\<rparr>)"
      by (rule less) (use WaitingMagic SyncMagic_length [OF sync] in simp)
    then show ?thesis
      using WaitingMagic sync magic_none magic by (cases ok) auto
  next
    case WaitingHeader
    show ?thesis
    proof (cases "length (sc_buffer c) < 10")
      case True
      with WaitingHeader show ?thesis by (rule header_wait)
    next
      case False
      then have "P (header_rejected c)" and "P (header_accepted c)"
        using WaitingHeader by (auto intro!: less simp: header_rejected_def header_accepted_def)
      then show ?thesis
        using WaitingHeader False header_bad header_ok by (cases "bad_header (sc_buffer c)") auto
    qed
  next
    case WaitingPayload
    then show ?thesis by (rule payload)
  qed
qed

lemma TryParseFrame_length:
  "TryParseFrame c = (Some f, c') \<Longrightarrow> length (sc_buffer c') < length (sc_buffer c)"
proof (induction c rule: TryParseFrame_induct)
  case (magic c c1)
  then show ?case using SyncMagic_length [of c True c1] by (simp add: TryParseFrame_Magic)
qed (auto simp: TryParseFrame_eqs header_rejected_def header_accepted_def split: if_splits)

text \<open>
  \<^verbatim>\<open>Connection::OnRead\<close> calls \<open>TryParseFrame\<close> until it returns no frame; \<open>feed\<close> is one read: the
  received bytes are appended and the codec is emptied.
\<close>

function sc_drain :: "StreamingFrameCodec \<Rightarrow> Frame list \<times> StreamingFrameCodec" where
  "sc_drain c =
     (case TryParseFrame c of
        (None, c') \<Rightarrow> ([], c')
      | (Some f, c') \<Rightarrow> (let (fs, c'') = sc_drain c' in (f # fs, c'')))"
  by pat_completeness auto
termination
  by (relation "measure (\<lambda>c. length (sc_buffer c))") (auto dest: TryParseFrame_length [OF sym])

declare sc_drain.simps [simp del]

definition feed :: "StreamingFrameCodec \<Rightarrow> byte list \<Rightarrow> Frame list \<times> StreamingFrameCodec" where
  "feed c data = sc_drain (AppendData c data)"

fun feed_all :: "StreamingFrameCodec \<Rightarrow> byte list list \<Rightarrow> Frame list \<times> StreamingFrameCodec" where
  "feed_all c [] = ([], c)"
| "feed_all c (d # ds) =
     (let (fs, c1) = feed c d; (gs, c2) = feed_all c1 ds in (fs @ gs, c2))"

subsection \<open>More bytes do not change what was parsed\<close>

lemma sync_from_Some:
  "sync_from buf i = Some j \<longleftrightarrow>
     i \<le> j \<and> j + 4 \<le> length buf \<and> word_at buf j = kFrameMagic \<and>
     (\<forall>k. i \<le> k \<and> k < j \<longrightarrow> word_at buf k \<noteq> kFrameMagic)"
proof (induction buf i rule: sync_from.induct)
  case (1 buf i)
  show ?case
  proof (cases "i + 4 \<le> length buf \<and> word_at buf i \<noteq> kFrameMagic")
    case True
    then have "sync_from buf i = sync_from buf (Suc i)"
      by (simp add: sync_from.simps [of buf i])
    then show ?thesis
      using "1.IH" True by (metis Suc_leI le_antisym nat_less_le Suc_leD not_less_eq_eq)
  next
    case False
    then show ?thesis
      by (subst sync_from.simps) (auto simp: order.order_iff_strict)
  qed
qed

lemma sync_from_None:
  "sync_from buf i = None \<longleftrightarrow> (\<forall>k. i \<le> k \<and> k + 4 \<le> length buf \<longrightarrow> word_at buf k \<noteq> kFrameMagic)"
proof (induction buf i rule: sync_from.induct)
  case (1 buf i)
  show ?case
  proof (cases "i + 4 \<le> length buf \<and> word_at buf i \<noteq> kFrameMagic")
    case True
    then have "sync_from buf i = sync_from buf (Suc i)"
      by (simp add: sync_from.simps [of buf i])
    then show ?thesis
      using "1.IH" True by (metis Suc_leD Suc_leI le_neq_implies_less)
  next
    case False
    then show ?thesis
      by (subst sync_from.simps) auto
  qed
qed

lemma sync_from_append: "sync_from buf 0 = Some i \<Longrightarrow> sync_from (buf @ ys) 0 = Some i"
  by (auto simp: sync_from_Some word_at_append)

text \<open>
  When no magic word was found, only the last three bytes can start one, so dropping the others
  loses nothing.
\<close>

lemma sync_from_keep3:
  assumes none: "sync_from buf 0 = None" and d: "d + 3 = length buf"
  shows "sync_from (buf @ ys) 0 = map_option (\<lambda>i. i + d) (sync_from (drop d buf @ ys) 0)"
proof -
  have shift: "word_at (drop d buf @ ys) i = word_at (buf @ ys) (d + i)" if "i + d + 4 \<le> length (buf @ ys)" for i
    using that d word_at_drop [of d i "buf @ ys"] by simp
  have early: "word_at (buf @ ys) k \<noteq> kFrameMagic" if "k < d" for k
    using none that d by (auto simp: sync_from_None word_at_append)
  show ?thesis
  proof (cases "sync_from (drop d buf @ ys) 0")
    case None
    have "word_at (buf @ ys) k \<noteq> kFrameMagic" if "k + 4 \<le> length (buf @ ys)" for k
    proof (cases "k < d")
      case False
      then show ?thesis
        using None shift [of "k - d"] that d by (auto simp: sync_from_None)
    qed (use early in simp)
    then have "sync_from (buf @ ys) 0 = None"
      by (simp add: sync_from_None)
    with None show ?thesis by simp
  next
    case (Some i)
    then have i: "i + d + 4 \<le> length (buf @ ys)" "word_at (drop d buf @ ys) i = kFrameMagic"
      and before: "\<And>k. k < i \<Longrightarrow> word_at (drop d buf @ ys) k \<noteq> kFrameMagic"
      using d by (auto simp: sync_from_Some)
    have "word_at (buf @ ys) k \<noteq> kFrameMagic" if "k < i + d" for k
      using early before [of "k - d"] shift [of "k - d"] that i(1) by (cases "k < d") auto
    then have "sync_from (buf @ ys) 0 = Some (i + d)"
      using i shift [of i] by (simp add: sync_from_Some add.commute)
    with Some show ?thesis by simp
  qed
qed

lemma SyncMagic_append:
  assumes "SyncMagic c = (True, c')"
  shows "SyncMagic (AppendData c ys) = (True, AppendData c' ys)"
proof -
  obtain i where len: "\<not> length (sc_buffer c) < 4" and i: "sync_from (sc_buffer c) 0 = Some i"
    and c': "c' = c\<lparr>sc_buffer := drop i (sc_buffer c)\<rparr>"
    using assms by (cases "sync_from (sc_buffer c) 0") (auto simp: SyncMagic_def Let_def split: if_splits)
  have "i \<le> length (sc_buffer c)"
    using i by (simp add: sync_from_Some)
  then show ?thesis
    using len c' sync_from_append [OF i, of ys] by (simp add: SyncMagic_def AppendData_def Let_def)
qed

lemma SyncMagic_again:
  assumes "SyncMagic c = (False, c')"
  shows "SyncMagic (AppendData c ys) = SyncMagic (AppendData c' ys)"
proof (cases "length (sc_buffer c) < 4")
  case True
  then have "c' = c" using assms by (simp add: SyncMagic_def)
  then show ?thesis by simp
next
  case False
  define d where "d = length (sc_buffer c) - 3"
  have d: "d + 3 = length (sc_buffer c)" using False by (simp add: d_def)
  have none: "sync_from (sc_buffer c) 0 = None" and c': "c' = c\<lparr>sc_buffer := drop d (sc_buffer c)\<rparr>"
    using assms False by (auto simp: SyncMagic_def Let_def d_def split: option.splits)
  note keep = sync_from_keep3 [OF none d, of ys]
  have last3: "drop (length (sc_buffer c @ ys) - 3) (sc_buffer c @ ys) =
      drop (length (drop d (sc_buffer c) @ ys) - 3) (drop d (sc_buffer c) @ ys)"
    by (simp add: d [symmetric] add.commute)
  show ?thesis
  proof (cases "ys = []")
    case True
    then show ?thesis
      using none c' d False by (auto simp: SyncMagic_def AppendData_def Let_def d_def)
  next
    case False
    then have "1 \<le> length ys" by (simp add: Suc_le_eq)
    then show ?thesis
      using keep last3 c' d
      by (cases "sync_from (drop d (sc_buffer c) @ ys) 0")
        (auto simp: SyncMagic_def AppendData_def Let_def add.commute)
  qed
qed

lemma AppendData_simps [simp]:
  "sc_state (AppendData c ys) = sc_state c" "sc_partial (AppendData c ys) = sc_partial c"
  "sc_payload_length (AppendData c ys) = sc_payload_length c"
  "sc_buffer (AppendData c ys) = sc_buffer c @ ys"
  by (simp_all add: AppendData_def)

lemma header_append:
  assumes "10 \<le> length (sc_buffer c)"
  shows "bad_header (sc_buffer c @ ys) = bad_header (sc_buffer c)"
    and "header_accepted (AppendData c ys) = AppendData (header_accepted c) ys"
    and "header_rejected (AppendData c ys) = AppendData (header_rejected c) ys"
  using assms
  by (simp_all add: bad_header_def header_accepted_def header_rejected_def AppendData_def
      word_at_append nth_append)

lemma AppendData_state: "AppendData c ys\<lparr>sc_state := x\<rparr> = AppendData (c\<lparr>sc_state := x\<rparr>) ys"
  by (simp add: AppendData_def)

lemma TryParseFrame_append:
  "TryParseFrame c = (Some f, c') \<Longrightarrow> TryParseFrame (AppendData c ys) = (Some f, AppendData c' ys)"
proof (induction c rule: TryParseFrame_induct)
  case (magic c c1)
  then show ?case
    using SyncMagic_append [of c c1 ys] by (simp add: TryParseFrame_Magic AppendData_state)
next
  case (payload c)
  then show ?case
    by (auto simp: TryParseFrame_Payload AppendData_def split: if_splits)
qed (auto simp: TryParseFrame_Magic TryParseFrame_Header header_append split: if_splits)

lemma TryParseFrame_resume:
  "TryParseFrame c = (None, c') \<Longrightarrow> TryParseFrame (AppendData c ys) = TryParseFrame (AppendData c' ys)"
proof (induction c rule: TryParseFrame_induct)
  case (magic_none c c1)
  then have "c1 = c'" by (simp add: TryParseFrame_Magic)
  with magic_none show ?case
    using SyncMagic_again [of c c1 ys] SyncMagic_buffer(2) [of c False c1]
    by (simp add: TryParseFrame_Magic)
next
  case (magic c c1)
  then show ?case
    using SyncMagic_append [of c c1 ys] by (simp add: TryParseFrame_Magic AppendData_state)
next
  case (payload c)
  then show ?case by (auto simp: TryParseFrame_Payload split: if_splits)
qed (auto simp: TryParseFrame_Header header_append split: if_splits)

lemma sc_drain_cong: "TryParseFrame c = TryParseFrame d \<Longrightarrow> sc_drain c = sc_drain d"
  by (simp add: sc_drain.simps [of c] sc_drain.simps [of d])

lemma sc_drain_append:
  "sc_drain (AppendData c ys) =
     (let (fs, c1) = sc_drain c; (gs, c2) = sc_drain (AppendData c1 ys) in (fs @ gs, c2))"
proof (induction c rule: sc_drain.induct)
  case (1 c)
  obtain r c' where tp: "TryParseFrame c = (r, c')" by fastforce
  show ?case
  proof (cases r)
    case None
    then have "sc_drain c = ([], c')"
      using tp by (simp add: sc_drain.simps [of c])
    moreover have "sc_drain (AppendData c ys) = sc_drain (AppendData c' ys)"
      using tp None by (intro sc_drain_cong TryParseFrame_resume) simp
    ultimately show ?thesis by simp
  next
    case (Some f)
    then have "sc_drain c = (let (fs, c1) = sc_drain c' in (f # fs, c1))"
      and "sc_drain (AppendData c ys) = (let (fs, c1) = sc_drain (AppendData c' ys) in (f # fs, c1))"
      using tp TryParseFrame_append [of c f c' ys]
      by (simp_all add: sc_drain.simps [of c] sc_drain.simps [of "AppendData c ys"])
    then show ?thesis
      using "1.IH" [OF tp [symmetric] Some] by (auto simp: Let_def split: prod.splits)
  qed
qed

lemma sc_drain_idle: "sc_drain c = (fs, c') \<Longrightarrow> sc_drain c' = ([], c')"
  using sc_drain_append [of c "[]"] by (auto simp: AppendData_def split: prod.splits)

lemma feed_append:
  "feed c (xs @ ys) = (let (fs, c1) = feed c xs; (gs, c2) = feed c1 ys in (fs @ gs, c2))"
  using sc_drain_append [of "AppendData c xs" ys] by (simp add: feed_def AppendData_def)

lemma feed_all_concat: "sc_drain c = ([], c) \<Longrightarrow> feed_all c ds = feed c (concat ds)"
proof (induction ds arbitrary: c)
  case Nil
  then show ?case by (simp add: feed_def AppendData_def)
next
  case (Cons d ds)
  obtain fs c1 where d: "feed c d = (fs, c1)" by fastforce
  then have "sc_drain c1 = ([], c1)"
    unfolding feed_def by (rule sc_drain_idle)
  then show ?case
    using Cons.IH [of c1] d by (simp add: feed_append [of c d])
qed

subsection \<open>Frames in a stream\<close>

definition magic_free :: "byte list \<Rightarrow> byte list \<Rightarrow> bool" where
  "magic_free g bs \<longleftrightarrow> (\<forall>k < length g. word_at (g @ bs) k \<noteq> kFrameMagic)"

definition at_frame_start :: "byte list \<Rightarrow> StreamingFrameCodec" where
  "at_frame_start buf = sc_init\<lparr>sc_buffer := buf\<rparr>"

lemma sc_init_simps [simp]:
  "sc_state sc_init = WaitingMagic" "sc_buffer sc_init = []" "sc_partial sc_init = default_Frame"
  "sc_payload_length sc_init = 0"
  by (simp_all add: sc_init_def)

lemma SyncMagic_frame:
  assumes "wf_frame f" and "magic_free g (Encode f @ rest)"
  shows "SyncMagic (at_frame_start (g @ Encode f @ rest)) = (True, at_frame_start (Encode f @ rest))"
proof -
  have "word_at (g @ Encode f @ rest) (length g) = kFrameMagic"
    using assms(1) word_at_drop [of "length g" 0 "g @ Encode f @ rest"]
    by (simp add: Encode_header word_at_header wf_frame_def kFrameHeaderSize_def)
  then have "sync_from (g @ Encode f @ rest) 0 = Some (length g)"
    using assms(2) by (simp add: sync_from_Some magic_free_def length_Encode kFrameHeaderSize_def)
  then show ?thesis
    by (simp add: SyncMagic_def at_frame_start_def length_Encode kFrameHeaderSize_def Let_def)
qed

lemma TryParseFrame_frame:
  assumes wf: "wf_frame f" and "magic_free g (Encode f @ rest)"
  shows "TryParseFrame (at_frame_start (g @ Encode f @ rest)) = (Some (decoded f), at_frame_start rest)"
proof -
  let ?h = "at_frame_start (Encode f @ rest)\<lparr>sc_state := WaitingHeader\<rparr>"
  have len: "unat (of_nat (length (payload f)) :: u32) = length (payload f)"
    using wf by (simp add: wf_frame_def unat_of_nat)
  have "TryParseFrame (at_frame_start (g @ Encode f @ rest)) = TryParseFrame ?h"
    using SyncMagic_frame [OF assms] by (simp add: TryParseFrame_Magic at_frame_start_def)
  also have "\<dots> = TryParseFrame (header_accepted ?h)"
    using wf len by (simp add: TryParseFrame_Header at_frame_start_def bad_header_def length_Encode
        kFrameHeaderSize_def Encode_header nth_header word_at_header wf_frame_def word_less_nat_alt)
  also have "\<dots> = (Some (decoded f), at_frame_start rest)"
    using wf len by (simp add: TryParseFrame_Payload header_accepted_def at_frame_start_def Encode_header
        length_Encode kFrameHeaderSize_def nth_header word_at_header decoded_def wf_frame_def
        default_Frame_def sc_init_def)
  finally show ?thesis .
qed

lemma sc_drain_frames:
  "list_all wf_frame fs \<Longrightarrow> sc_drain (at_frame_start (concat (map Encode fs))) = (map decoded fs, sc_init)"
proof (induction fs)
  case Nil
  then show ?case
    by (simp add: sc_drain.simps TryParseFrame_Magic SyncMagic_def at_frame_start_def)
next
  case (Cons f fs)
  then show ?case
    using TryParseFrame_frame [of f "[]" "concat (map Encode fs)"]
    by (simp add: sc_drain.simps [of "at_frame_start (Encode f @ _)"] magic_free_def)
qed

subsection \<open>What is buffered\<close>

text \<open>
  The invariant of the state machine: the buffer starts with the part of the frame that the state
  says was recognised, and the length the payload is waited for is the one in the header.
\<close>

definition sc_inv :: "StreamingFrameCodec \<Rightarrow> bool" where
  "sc_inv c = (case sc_state c of
       WaitingMagic \<Rightarrow> True
     | WaitingHeader \<Rightarrow> 4 \<le> length (sc_buffer c) \<and> word_at (sc_buffer c) 0 = kFrameMagic
     | WaitingPayload \<Rightarrow> 10 \<le> length (sc_buffer c) \<and> word_at (sc_buffer c) 0 = kFrameMagic \<and>
         \<not> bad_header (sc_buffer c) \<and> sc_payload_length c = unat (word_at (sc_buffer c) 6) \<and>
         sc_partial c = (sc_partial c)\<lparr>magic := kFrameMagic, version := kFrameVersion,
           msg_type := sc_buffer c ! 5, frame_length := word_at (sc_buffer c) 6\<rparr>)"

definition parsed_bytes :: "Frame option \<Rightarrow> byte list" where
  "parsed_bytes r = (case r of None \<Rightarrow> [] | Some f \<Rightarrow> Encode f)"

definition parse_post :: "StreamingFrameCodec \<Rightarrow> Frame option \<Rightarrow> StreamingFrameCodec \<Rightarrow> bool" where
  "parse_post c r c' \<longleftrightarrow> sc_inv c' \<and> (\<exists>g. sc_buffer c = g @ parsed_bytes r @ sc_buffer c') \<and>
     (case r of None \<Rightarrow> length (sc_buffer c') < kFrameHeaderSize + unat kMaxPayloadSize
      | Some f \<Rightarrow> wf_frame f \<and> decoded f = f)"

lemma parse_post_skip:
  assumes "sc_buffer c = g @ sc_buffer c1" and "parse_post c1 r c'"
  shows "parse_post c r c'"
  using assms unfolding parse_post_def by (metis append.assoc)

lemma SyncMagic_found:
  assumes "SyncMagic c = (True, c')"
  shows "4 \<le> length (sc_buffer c') \<and> word_at (sc_buffer c') 0 = kFrameMagic"
proof -
  obtain i where i: "sync_from (sc_buffer c) 0 = Some i" and c': "sc_buffer c' = drop i (sc_buffer c)"
    using assms by (cases "sync_from (sc_buffer c) 0") (auto simp: SyncMagic_def Let_def split: if_splits)
  then show ?thesis
    using word_at_drop [of i 0 "sc_buffer c"] by (auto simp: sync_from_Some)
qed

lemma SyncMagic_not_found: "SyncMagic c = (False, c') \<Longrightarrow> length (sc_buffer c') \<le> 3"
  by (auto simp: SyncMagic_def Let_def split: if_splits option.splits)

lemma ParsePayload_post:
  assumes inv: "sc_inv c" and state: "sc_state c = WaitingPayload" and "TryParseFrame c = (r, c')"
  shows "parse_post c r c'"
proof (cases "length (sc_buffer c) < 10 + sc_payload_length c")
  case True
  then have "length (sc_buffer c) < 10 + unat kMaxPayloadSize"
    using inv state unfolding sc_inv_def bad_header_def
    by (auto simp: word_less_nat_alt not_less intro: less_le_trans)
  with True show ?thesis
    using assms by (auto simp: TryParseFrame_Payload parse_post_def parsed_bytes_def kFrameHeaderSize_def)
next
  case False
  let ?b = "sc_buffer c"
  have legal: "word_at ?b 0 = kFrameMagic" "?b ! 4 = kFrameVersion"
    "\<not> kMaxPayloadSize < word_at ?b 6" "10 + unat (word_at ?b 6) \<le> length ?b"
    and n: "sc_payload_length c = unat (word_at ?b 6)"
    using inv state False by (auto simp: sc_inv_def bad_header_def)
  have "(sc_partial c)\<lparr>payload := take (sc_payload_length c) (drop 10 ?b)\<rparr> = frame_at ?b"
    using inv state n unfolding sc_inv_def frame_at_def
    by (cases "sc_partial c") (simp add: Frame.defs)
  then have rc: "r = Some (frame_at ?b)" "sc_buffer c' = drop (10 + unat (word_at ?b 6)) ?b" "sc_inv c'"
    using False assms n by (auto simp: TryParseFrame_Payload sc_inv_def)
  have "?b = [] @ Encode (frame_at ?b) @ sc_buffer c'"
    using frame_at_Encode(4) [OF legal] rc(2) by (metis append_Nil append_take_drop_id)
  then show ?thesis
    using rc frame_at_Encode(1,2) [OF legal] unfolding parse_post_def parsed_bytes_def by auto
qed

lemma TryParseFrame_post: "sc_inv c \<Longrightarrow> TryParseFrame c = (r, c') \<Longrightarrow> parse_post c r c'"
proof (induction c rule: TryParseFrame_induct)
  case (magic_none c c1)
  then show ?case
    using SyncMagic_buffer(1,2) [of c False c1] SyncMagic_not_found [of c c1]
    by (auto simp: TryParseFrame_Magic parse_post_def parsed_bytes_def sc_inv_def)
next
  case (magic c c1)
  obtain g where "sc_buffer c = g @ sc_buffer (c1\<lparr>sc_state := WaitingHeader\<rparr>)"
    using SyncMagic_buffer(1) [OF magic(2)] by auto
  moreover have "parse_post (c1\<lparr>sc_state := WaitingHeader\<rparr>) r c'"
    using magic SyncMagic_found [of c c1] by (simp add: sc_inv_def TryParseFrame_Magic)
  ultimately show ?case by (rule parse_post_skip)
next
  case (header_wait c)
  then show ?case
    by (auto simp: TryParseFrame_Header parse_post_def parsed_bytes_def kFrameHeaderSize_def)
next
  case (header_bad c)
  have "sc_buffer c = take 1 (sc_buffer c) @ sc_buffer (header_rejected c)"
    by (simp add: header_rejected_def)
  moreover have "parse_post (header_rejected c) r c'"
    using header_bad by (simp add: TryParseFrame_Header header_rejected_def sc_inv_def)
  ultimately show ?case by (rule parse_post_skip)
next
  case (header_ok c)
  have "sc_buffer c = [] @ sc_buffer (header_accepted c)"
    by (simp add: header_accepted_def)
  moreover have "parse_post (header_accepted c) r c'"
    using header_ok by (simp add: TryParseFrame_Header header_accepted_def sc_inv_def)
  ultimately show ?case by (rule parse_post_skip)
next
  case (payload c)
  then show ?case by (intro ParsePayload_post)
qed

text \<open>A stream as gaps, each followed by an encoded frame.\<close>

definition stream_of :: "(byte list \<times> Frame) list \<Rightarrow> byte list" where
  "stream_of gfs = concat (map (\<lambda>(g, f). g @ Encode f) gfs)"

lemma sc_drain_post:
  "sc_inv c \<Longrightarrow> sc_drain c = (fs, c') \<Longrightarrow>
     length (sc_buffer c') < kFrameHeaderSize + unat kMaxPayloadSize \<and>
     list_all (\<lambda>f. wf_frame f \<and> decoded f = f) fs \<and>
     (\<exists>gfs g. sc_buffer c = stream_of gfs @ g @ sc_buffer c' \<and> map snd gfs = fs)"
proof (induction c arbitrary: fs rule: sc_drain.induct)
  case (1 c)
  obtain r c1 where tp: "TryParseFrame c = (r, c1)" by fastforce
  have post: "parse_post c r c1"
    using "1.prems"(1) tp by (rule TryParseFrame_post)
  show ?case
  proof (cases r)
    case None
    then have "fs = []" "c' = c1"
      using "1.prems"(2) tp by (simp_all add: sc_drain.simps [of c])
    then show ?thesis
      using post None by (auto simp: parse_post_def parsed_bytes_def stream_of_def)
  next
    case (Some f)
    then obtain fs1 where fs: "sc_drain c1 = (fs1, c')" "fs = f # fs1"
      using "1.prems"(2) tp by (auto simp: sc_drain.simps [of c] split: prod.splits)
    obtain g0 where g0: "sc_buffer c = g0 @ Encode f @ sc_buffer c1"
      and f: "wf_frame f" "decoded f = f" "sc_inv c1"
      using post Some by (auto simp: parse_post_def parsed_bytes_def)
    obtain gfs g where "sc_buffer c1 = stream_of gfs @ g @ sc_buffer c'" "map snd gfs = fs1"
      and rest: "length (sc_buffer c') < kFrameHeaderSize + unat kMaxPayloadSize"
        "list_all (\<lambda>f. wf_frame f \<and> decoded f = f) fs1"
      using "1.IH" [OF tp [symmetric] Some f(3) fs(1)] by auto
    then have "sc_buffer c = stream_of ((g0, f) # gfs) @ g @ sc_buffer c' \<and> map snd ((g0, f) # gfs) = fs"
      using g0 fs(2) by (simp add: stream_of_def)
    moreover have "list_all (\<lambda>f. wf_frame f \<and> decoded f = f) fs"
      using rest f fs(2) by simp
    ultimately show ?thesis using rest(1) by blast
  qed
qed

lemma feed_all_init: "feed_all sc_init ds = sc_drain (at_frame_start (concat ds))"
proof -
  have "sc_drain sc_init = ([], sc_init)"
    by (simp add: sc_drain.simps TryParseFrame_Magic SyncMagic_def)
  then show ?thesis
    by (simp add: feed_all_concat feed_def AppendData_def at_frame_start_def)
qed

subsection \<open>Properties\<close>

text \<open>
  C29: How the network cuts the stream into reads does not matter: feeding the chunks one after
  the other, emptying the codec after each, gives the same frames and leaves the same state as
  receiving all the bytes at once, from every state in which a read leaves the codec.
\<close>

theorem feed_all_chunking:
  "feed_all (snd (feed c xs)) ds = feed (snd (feed c xs)) (concat ds)"
  by (intro feed_all_concat sc_drain_idle [of "AppendData c xs" "fst (feed c xs)"]) (simp add: feed_def)

text \<open>
  C20: Every legal frame that is sent is received, once and in order: when the received chunks
  are together the encodings of a list of legal frames, the codec returns exactly those frames
  and ends in its initial state.
\<close>

theorem streaming_delivery:
  assumes "list_all wf_frame fs" and "concat ds = concat (map Encode fs)"
  shows "feed_all sc_init ds = (map decoded fs, sc_init)"
  using assms by (simp add: feed_all_init sc_drain_frames)

theorem streaming_delivery_witness:
  "feed_all sc_init [[0xDE, 0xAD, 0xBE], [0xEF, 1, 7, 0, 0, 0], [1, 5, 0xDE], [0xAD, 0xBE, 0xEF, 1, 8, 0, 0, 0, 0]]
     = ([\<lparr>magic = 0xDEADBEEF, version = 1, msg_type = 7, frame_length = 1, payload = [5]\<rparr>,
         \<lparr>magic = 0xDEADBEEF, version = 1, msg_type = 8, frame_length = 0, payload = []\<rparr>], sc_init)"
  using streaming_delivery
    [of "[\<lparr>magic = 0xDEADBEEF, version = 1, msg_type = 7, frame_length = 0, payload = [5]\<rparr>,
          \<lparr>magic = 0xDEADBEEF, version = 1, msg_type = 8, frame_length = 0, payload = []\<rparr>]"
        "[[0xDE, 0xAD, 0xBE], [0xEF, 1, 7, 0, 0, 0], [1, 5, 0xDE], [0xAD, 0xBE, 0xEF, 1, 8, 0, 0, 0, 0]]"]
  by (simp add: wf_frame_def kFrameMagic_def kFrameVersion_def Encode_def decoded_def Let_def)

text \<open>
  Resynchronisation: bytes that do not contain a magic word before the next frame are
  skipped, and the frame behind them is returned with the buffer left at the first byte after it.
\<close>

theorem streaming_resync:
  assumes "wf_frame f" and "magic_free g (Encode f @ rest)"
  shows "TryParseFrame (at_frame_start (g @ Encode f @ rest)) = (Some (decoded f), at_frame_start rest)"
  using assms by (rule TryParseFrame_frame)

theorem streaming_resync_witness:
  "TryParseFrame (at_frame_start [0xDE, 0xAD, 0, 0xDE, 0xAD, 0xBE, 0xEF, 1, 7, 0, 0, 0, 1, 5, 3]) =
     (Some \<lparr>magic = 0xDEADBEEF, version = 1, msg_type = 7, frame_length = 1, payload = [5]\<rparr>,
      at_frame_start [3])"
proof -
  let ?f = "\<lparr>magic = 0xDEADBEEF, version = 1, msg_type = 7, frame_length = 0, payload = [5]\<rparr>"
  have e: "Encode ?f = [0xDE, 0xAD, 0xBE, 0xEF, 1, 7, 0, 0, 0, 1, 5]"
    by (simp add: Encode_def Let_def)
  have "wf_frame ?f"
    by (simp add: wf_frame_def kFrameMagic_def kFrameVersion_def)
  moreover have "magic_free [0xDE, 0xAD, 0] (Encode ?f @ [3])"
    unfolding e by code_simp
  ultimately show ?thesis
    using streaming_resync [of ?f "[0xDE, 0xAD, 0]" "[3]"] unfolding e by (simp add: decoded_def)
qed

text \<open>
  C30: Nothing is invented and memory is bounded: whatever bytes arrive, every frame the codec
  returns is legal and stands in the stream, the frames stand there one after the other with only
  skipped bytes between them, the bytes still buffered are the last of the stream, and after each
  read fewer bytes are buffered than the longest legal frame has.
\<close>

theorem streaming_sound:
  "case feed_all sc_init ds of (fs, c) \<Rightarrow>
     list_all (\<lambda>f. wf_frame f \<and> decoded f = f) fs \<and>
     (\<exists>gfs g. concat ds = stream_of gfs @ g @ sc_buffer c \<and> map snd gfs = fs) \<and>
     GetBufferSize c < kFrameHeaderSize + unat kMaxPayloadSize"
proof (cases "feed_all sc_init ds")
  case (Pair fs c)
  then have "sc_drain (at_frame_start (concat ds)) = (fs, c)"
    by (simp add: feed_all_init)
  then show ?thesis
    using sc_drain_post [of "at_frame_start (concat ds)" fs c] Pair
    by (simp add: sc_inv_def at_frame_start_def GetBufferSize_def)
qed

text \<open>
  The two decoders agree: a frame that \<open>FrameCodec::TryDecode\<close> finds at the start of a
  buffer is the frame the streaming codec returns first, and both leave the same bytes.
\<close>

theorem TryParseFrame_TryDecode:
  assumes "TryDecode buffer = (Some f, n)"
  shows "TryParseFrame (at_frame_start buffer) = (Some f, at_frame_start (drop n buffer))"
proof -
  have legal: "word_at buffer 0 = kFrameMagic" "buffer ! 4 = kFrameVersion"
    "\<not> kMaxPayloadSize < word_at buffer 6" "10 + unat (word_at buffer 6) \<le> length buffer"
    and fn: "f = frame_at buffer" "n = 10 + unat (word_at buffer 6)"
    using assms
    by (auto simp: TryDecode_def Let_def kFrameHeaderSize_def frame_size frame_at_def split: if_splits)
  have "buffer = Encode f @ drop n buffer"
    using frame_at_Encode(4) [OF legal] fn by (metis append_take_drop_id)
  then show ?thesis
    using TryParseFrame_frame [of f "[]" "drop n buffer"] frame_at_Encode(1,2) [OF legal] fn
    by (simp add: magic_free_def)
qed

theorem TryParseFrame_TryDecode_witness:
  "TryDecode [0xDE, 0xAD, 0xBE, 0xEF, 1, 7, 0, 0, 0, 1, 5, 3] =
     (Some \<lparr>magic = 0xDEADBEEF, version = 1, msg_type = 7, frame_length = 1, payload = [5]\<rparr>, 11) \<and>
   TryParseFrame (at_frame_start [0xDE, 0xAD, 0xBE, 0xEF, 1, 7, 0, 0, 0, 1, 5, 3]) =
     (Some \<lparr>magic = 0xDEADBEEF, version = 1, msg_type = 7, frame_length = 1, payload = [5]\<rparr>,
      at_frame_start [3])"
proof -
  have "TryDecode [0xDE, 0xAD, 0xBE, 0xEF, 1, 7, 0, 0, 0, 1, 5, 3] =
     (Some \<lparr>magic = 0xDEADBEEF, version = 1, msg_type = 7, frame_length = 1, payload = [5]\<rparr>, 11)"
    by (simp add: TryDecode_def word_at_def kFrameMagic_def kFrameVersion_def kFrameHeaderSize_def
        kMaxPayloadSize_def size_add_exact size_max_def Let_def)
  with TryParseFrame_TryDecode [OF this] show ?thesis by simp
qed

end
