(* ===== verification/Unordered_Map.thy ===== *)
theory Unordered_Map
  imports Prelude "HOL-Library.AList"
begin

text \<open>
  \<open>std::unordered_map\<close> as the sources use it: \<open>find\<close>, \<open>operator[]\<close>, assignment, \<open>erase\<close>, \<open>size\<close>
  and iteration. A map is the list of its entries in iteration order, with distinct keys; the
  standard leaves that order open and no property of the development depends on it. The locale
  \<open>key_value\<close> is the contract the components rely on.
\<close>

type_synonym ('k, 'v) umap = "('k \<times> 'v) list"

definition um_wf :: "('k, 'v) umap \<Rightarrow> bool" where
  "um_wf m \<longleftrightarrow> distinct (map fst m)"

definition um_find :: "('k, 'v) umap \<Rightarrow> 'k \<Rightarrow> 'v option" where
  "um_find m k = map_of m k"

definition um_put :: "'k \<Rightarrow> 'v \<Rightarrow> ('k, 'v) umap \<Rightarrow> ('k, 'v) umap" where
  "um_put k v m = AList.update k v m"

definition um_erase :: "'k \<Rightarrow> ('k, 'v) umap \<Rightarrow> ('k, 'v) umap" where
  "um_erase k m = AList.delete k m"

text \<open>\<open>m[k]\<close> on a map without the key \<open>k\<close> inserts the value-initialised \<open>d\<close>.\<close>

definition um_at :: "'v \<Rightarrow> ('k, 'v) umap \<Rightarrow> 'k \<Rightarrow> 'v" where
  "um_at d m k = (case um_find m k of None \<Rightarrow> d | Some v \<Rightarrow> v)"

definition um_has :: "('k, 'v) umap \<Rightarrow> 'k \<Rightarrow> bool" where
  "um_has m k \<longleftrightarrow> um_find m k \<noteq> None"

locale key_value =
  fixes wf :: "'m \<Rightarrow> bool"
    and find :: "'m \<Rightarrow> 'k \<Rightarrow> 'v option"
    and put :: "'k \<Rightarrow> 'v \<Rightarrow> 'm \<Rightarrow> 'm"
    and erase :: "'k \<Rightarrow> 'm \<Rightarrow> 'm"
  assumes find_put: "find (put k v m) k' = (if k' = k then Some v else find m k')"
    and find_erase: "find (erase k m) k' = (if k' = k then None else find m k')"
    and wf_put: "wf m \<Longrightarrow> wf (put k v m)"
    and wf_erase: "wf m \<Longrightarrow> wf (erase k m)"
begin

lemma find_put_all:
  "find (fold (\<lambda>(k, v). put k v) kvs m) k =
     (case map_of (rev kvs) k of None \<Rightarrow> find m k | Some v \<Rightarrow> Some v)"
proof (induction kvs arbitrary: m)
  case (Cons kv kvs)
  then show ?case
    by (cases kv) (auto simp: find_put map_add_def split: option.splits)
qed simp

lemma find_erase_all: "find (fold erase ks m) k = (if k \<in> set ks then None else find m k)"
  by (induction ks arbitrary: m) (auto simp: find_erase)

lemma wf_erase_all: "wf m \<Longrightarrow> wf (fold erase ks m)"
  by (induction ks arbitrary: m) (auto simp: wf_erase)

end

interpretation um: key_value um_wf um_find um_put um_erase
  by unfold_locales
    (auto simp: um_wf_def um_find_def um_put_def um_erase_def update_conv' delete_conv' distinct_update
      distinct_delete)

lemmas um_find_simps [alist_simps, simp] = um.find_put um.find_erase

lemma um_find_Nil [alist_simps, simp]: "um_find [] k = None"
  by (simp add: um_find_def)

lemma um_wf_Nil [simp]: "um_wf []"
  by (simp add: um_wf_def)

lemma um_find_Cons: "um_find ((k', v) # m) k = (if k' = k then Some v else um_find m k)"
  by (simp add: um_find_def)

lemma um_wf_Cons [simp]: "um_wf ((k, v) # m) \<longleftrightarrow> um_find m k = None \<and> um_wf m"
  by (auto simp: um_wf_def um_find_def map_of_eq_None_iff)

lemma um_find_None_iff: "um_find m k = None \<longleftrightarrow> k \<notin> fst ` set m"
  by (simp add: um_find_def map_of_eq_None_iff)

lemma um_find_Some_iff: "um_wf m \<Longrightarrow> um_find m k = Some v \<longleftrightarrow> (k, v) \<in> set m"
  by (simp add: um_wf_def um_find_def)

lemma um_find_SomeD: "um_find m k = Some v \<Longrightarrow> (k, v) \<in> set m"
  by (simp add: um_find_def map_of_SomeD)

lemma um_put_conv: "um_put k v ((k', v') # m) = (if k' = k then (k, v) # m else (k', v') # um_put k v m)"
  by (simp add: um_put_def)

lemma um_put_Nil: "um_put k v [] = [(k, v)]"
  by (simp add: um_put_def)

lemma um_erase_filter: "um_erase k m = filter (\<lambda>e. fst e \<noteq> k) m"
  by (auto simp: um_erase_def AList.delete_eq case_prod_unfold intro!: filter_cong)

lemma um_put_absent: "um_find m k = None \<Longrightarrow> um_put k v m = m @ [(k, v)]"
  by (induction m) (auto simp: um_put_conv um_put_Nil um_find_Cons split: if_splits)

lemma um_put_set: "um_wf m \<Longrightarrow> set (um_put k v m) = insert (k, v) {e \<in> set m. fst e \<noteq> k}"
proof (induction m)
  case (Cons e m)
  then show ?case
    by (cases e) (auto simp: um_put_conv um_find_None_iff)
qed (simp add: um_put_Nil)

lemma length_um_erase: "um_wf m \<Longrightarrow> um_find m k \<noteq> None \<Longrightarrow> length (um_erase k m) = length m - 1"
proof (induction m)
  case (Cons e m)
  obtain k' v where "e = (k', v)" by force
  moreover have "um_erase k m = m" if "um_find m k = None"
    using that by (auto simp: um_erase_filter um_find_None_iff filter_id_conv)
  ultimately show ?case
    using Cons by (cases m) (auto simp: um_erase_filter um_find_Cons split: if_splits)
qed simp

lemma um_at_Nil [simp]: "um_at d [] k = d"
  by (simp add: um_at_def)

lemma um_at_put [simp]: "um_at d (um_put k v m) k' = (if k' = k then v else um_at d m k')"
  by (simp add: um_at_def)

lemma um_has_put [simp]: "um_has (um_put k v m) k' \<longleftrightarrow> k' = k \<or> um_has m k'"
  by (simp add: um_has_def)

lemma um_has_erase [simp]: "um_has (um_erase k m) k' \<longleftrightarrow> k' \<noteq> k \<and> um_has m k'"
  by (simp add: um_has_def)

text \<open>
  A pass over a map that replaces or drops each value: what the loops of the sources that erase
  while they iterate amount to.
\<close>

fun um_prune :: "('v \<Rightarrow> 'v option) \<Rightarrow> ('k, 'v) umap \<Rightarrow> ('k, 'v) umap" where
  "um_prune f [] = []"
| "um_prune f ((k, v) # m) = (case f v of None \<Rightarrow> um_prune f m | Some v' \<Rightarrow> (k, v') # um_prune f m)"

lemma um_find_prune: "um_wf m \<Longrightarrow> um_find (um_prune f m) k = Option.bind (um_find m k) f"
  by (induction f m rule: um_prune.induct) (auto simp: um_find_Cons split: option.splits)

lemma um_wf_prune: "um_wf m \<Longrightarrow> um_wf (um_prune f m)"
  by (induction f m rule: um_prune.induct) (auto simp: um_find_prune split: option.splits)

lemma um_ex_find: "um_wf m \<Longrightarrow> (\<exists>e \<in> set m. P (fst e) (snd e)) \<longleftrightarrow> (\<exists>k v. um_find m k = Some v \<and> P k v)"
  by (force simp: um_find_Some_iff)

lemma length_filter_less_iff: "length (filter P xs) < length xs \<longleftrightarrow> (\<exists>x \<in> set xs. \<not> P x)"
  by (metis filter_True less_irrefl length_filter_less)

lemma length_filter_eq_iff: "length (filter P xs) = length xs \<longleftrightarrow> (\<forall>x \<in> set xs. P x)"
  using length_filter_less_iff [of P xs] length_filter_le [of P xs] by force

end
