(* ===== verification/Dedup_Window.thy ===== *)
theory Dedup_Window
  imports Unordered_Map "HOL-Library.Multiset"
begin

text \<open>
  \<^verbatim>\<open>common/dedup_window.h\<close> and \<^verbatim>\<open>.cpp\<close>: the table of the highest sequence number processed per
  producer. Every public function runs under \<open>mutex_\<close>, so an execution is a sequence of calls. A
  reading of \<open>steady_clock\<close> is an argument of the call that makes it. The locale
  \<open>duplicate_filter\<close> is what the broker relies on.
\<close>

subsection \<open>Model\<close>

record ProducerState =
  max_sequence :: u64
  last_active :: time_point

record DedupWindow =
  dw_producers :: "(string, ProducerState) umap"
  dw_max_producers :: nat

definition default_ProducerState :: ProducerState where
  "default_ProducerState = \<lparr>max_sequence = 0, last_active = 0\<rparr>"

definition dw_new :: "nat \<Rightarrow> DedupWindow" where
  "dw_new max_producers = \<lparr>dw_producers = [], dw_max_producers = max_producers\<rparr>"

definition IsDuplicate :: "DedupWindow \<Rightarrow> string \<Rightarrow> u64 \<Rightarrow> bool" where
  "IsDuplicate w producer_id sequence_id =
     (if producer_id = [] then False
      else case um_find (dw_producers w) producer_id of
          None \<Rightarrow> False
        | Some st \<Rightarrow> sequence_id \<le> max_sequence st)"

definition MarkProcessed :: "string \<Rightarrow> u64 \<Rightarrow> time_point \<Rightarrow> DedupWindow \<Rightarrow> DedupWindow" where
  "MarkProcessed producer_id sequence_id now w =
     (if producer_id = [] then w
      else
        let st = um_at default_ProducerState (dw_producers w) producer_id;
            st = (if sequence_id > max_sequence st then st\<lparr>max_sequence := sequence_id\<rparr> else st);
            st = st\<lparr>last_active := now\<rparr>
        in w\<lparr>dw_producers := um_put producer_id st (dw_producers w)\<rparr>)"

definition RemoveProducer :: "string \<Rightarrow> DedupWindow \<Rightarrow> DedupWindow" where
  "RemoveProducer producer_id w = w\<lparr>dw_producers := um_erase producer_id (dw_producers w)\<rparr>"

text \<open>
  \<open>std::sort\<close> may order entries of equal time in any way: it is the argument \<open>srt\<close>, of which
  \<open>is_std_sort\<close> says what the standard promises. \<open>sorted[i]\<close> for \<open>i < to_remove\<close> is a prefix, as
  \<open>to_remove\<close> is at most the number of entries.
\<close>

type_synonym sort_fn = "(string \<times> time_point) list \<Rightarrow> (string \<times> time_point) list"

definition is_std_sort :: "sort_fn \<Rightarrow> bool" where
  "is_std_sort srt \<longleftrightarrow> (\<forall>xs. mset (srt xs) = mset xs \<and> sorted (map snd (srt xs)))"

definition CleanupInactive :: "sort_fn \<Rightarrow> nat \<Rightarrow> DedupWindow \<Rightarrow> DedupWindow" where
  "CleanupInactive srt max_inactive w =
     (if length (dw_producers w) \<le> max_inactive then w
      else
        let sorted_ids = srt (map (\<lambda>(id, st). (id, last_active st)) (dw_producers w));
            to_remove = length (dw_producers w) - max_inactive
        in w\<lparr>dw_producers := fold um_erase (map fst (take to_remove sorted_ids)) (dw_producers w)\<rparr>)"

definition GetProducerCount :: "DedupWindow \<Rightarrow> nat" where
  "GetProducerCount w = length (dw_producers w)"

subsection \<open>The contract towards the broker\<close>

locale duplicate_filter =
  fixes dup :: "'w \<Rightarrow> string \<Rightarrow> u64 \<Rightarrow> bool"
    and mark :: "string \<Rightarrow> u64 \<Rightarrow> time_point \<Rightarrow> 'w \<Rightarrow> 'w"
  assumes anonymous: "\<not> dup w [] s"
    and dup_mark: "p \<noteq> [] \<Longrightarrow> dup (mark p s now w) q s' \<longleftrightarrow> (q = p \<and> s' \<le> s) \<or> dup w q s'"
    and dup_mark_anonymous: "dup (mark [] s now w) = dup w"
begin

definition marks :: "(string \<times> u64 \<times> time_point) list \<Rightarrow> 'w \<Rightarrow> 'w" where
  "marks ms w = fold (\<lambda>(p, s, now). mark p s now) ms w"

lemma dup_mark_iff: "dup (mark p s now w) q s' \<longleftrightarrow> (q = p \<and> q \<noteq> [] \<and> s' \<le> s) \<or> dup w q s'"
  by (cases "p = []") (auto simp: dup_mark dup_mark_anonymous)

lemma dup_marks:
  "dup (marks ms w) q s \<longleftrightarrow> (q \<noteq> [] \<and> (\<exists>s' now. (q, s', now) \<in> set ms \<and> s \<le> s')) \<or> dup w q s"
proof (induction ms arbitrary: w)
  case (Cons m ms)
  obtain p s' now where "m = (p, s', now)" by (cases m)
  then have "marks (m # ms) w = marks ms (mark p s' now w)"
    by (simp add: marks_def)
  then show ?case
    using Cons.IH [of "mark p s' now w"] \<open>m = _\<close> by (auto simp: dup_mark_iff)
qed (simp add: marks_def)

lemma dup_persists: "dup w q s \<Longrightarrow> dup (marks ms w) q s"
  by (simp add: dup_marks)

end

lemma um_at_default: "um_find m k = None \<Longrightarrow> um_at d m k = d"
  by (simp add: um_at_def)

interpretation dw: duplicate_filter IsDuplicate MarkProcessed
proof
  fix w :: DedupWindow and p q :: string and s s' :: u64 and now
  show "\<not> IsDuplicate w [] s" by (simp add: IsDuplicate_def)
  show "IsDuplicate (MarkProcessed [] s now w) = IsDuplicate w"
    by (simp add: MarkProcessed_def)
  assume "p \<noteq> []"
  then show "IsDuplicate (MarkProcessed p s now w) q s' \<longleftrightarrow> (q = p \<and> s' \<le> s) \<or> IsDuplicate w q s'"
    by (auto simp: IsDuplicate_def MarkProcessed_def Let_def um_at_def default_ProducerState_def
        word_gt_0 split: option.splits)
qed

subsection \<open>Operations of the window as a whole\<close>

datatype dedup_op = Mark string u64 time_point | Remove string | Cleanup nat

fun dw_exec :: "sort_fn \<Rightarrow> dedup_op \<Rightarrow> DedupWindow \<Rightarrow> DedupWindow" where
  "dw_exec srt (Mark p s now) w = MarkProcessed p s now w"
| "dw_exec srt (Remove p) w = RemoveProducer p w"
| "dw_exec srt (Cleanup n) w = CleanupInactive srt n w"

definition dw_wf :: "DedupWindow \<Rightarrow> bool" where
  "dw_wf w \<longleftrightarrow> um_wf (dw_producers w) \<and> um_find (dw_producers w) [] = None"

lemma find_CleanupInactive:
  "um_find (dw_producers (CleanupInactive srt n w)) p = um_find (dw_producers w) p \<or>
   um_find (dw_producers (CleanupInactive srt n w)) p = None"
  by (simp add: CleanupInactive_def Let_def um.find_erase_all)

lemma dw_wf_exec: "dw_wf w \<Longrightarrow> dw_wf (dw_exec srt x w)"
  by (cases x)
    (auto simp: dw_wf_def MarkProcessed_def RemoveProducer_def CleanupInactive_def Let_def um.wf_put
      um.wf_erase um.wf_erase_all um.find_erase_all)

text \<open>The highest mark of a producer that no later operation removed.\<close>

fun live_marks :: "dedup_op list \<Rightarrow> string \<Rightarrow> u64 set" where
  "live_marks [] p = {}"
| "live_marks (Mark q s now # xs) p = (if q = p \<and> (\<forall>x \<in> set xs. x \<noteq> Remove p) then {s} else {}) \<union> live_marks xs p"
| "live_marks (x # xs) p = live_marks xs p"

definition removed_in :: "dedup_op list \<Rightarrow> string \<Rightarrow> bool" where
  "removed_in xs p \<longleftrightarrow> Remove p \<in> set xs"

lemma IsDuplicate_Remove: "IsDuplicate (RemoveProducer p w) q s \<longleftrightarrow> q \<noteq> p \<and> IsDuplicate w q s"
  by (auto simp: IsDuplicate_def RemoveProducer_def)

lemma IsDuplicate_Cleanup: "IsDuplicate (CleanupInactive srt n w) q s \<Longrightarrow> IsDuplicate w q s"
  using find_CleanupInactive [of srt n w q] by (auto simp: IsDuplicate_def split: if_splits)

lemma fold_IsDuplicate:
  assumes "\<And>n. Cleanup n \<notin> set xs"
  shows "IsDuplicate (fold (dw_exec srt) xs w) p s \<longleftrightarrow>
    p \<noteq> [] \<and> ((\<exists>s' \<in> live_marks xs p. s \<le> s') \<or> (\<not> removed_in xs p \<and> IsDuplicate w p s))"
  using assms
proof (induction xs arbitrary: w)
  case Nil
  then show ?case by (auto simp: removed_in_def IsDuplicate_def)
next
  case (Cons x xs)
  then have IH: "IsDuplicate (fold (dw_exec srt) xs (dw_exec srt x w)) p s \<longleftrightarrow>
    p \<noteq> [] \<and> ((\<exists>s' \<in> live_marks xs p. s \<le> s') \<or> (\<not> removed_in xs p \<and> IsDuplicate (dw_exec srt x w) p s))"
    by simp
  show ?case
  proof (cases x)
    case (Mark q s' now)
    then show ?thesis
      using IH by (auto simp: dw.dup_mark_iff removed_in_def)
  next
    case (Remove q)
    then show ?thesis
      using IH by (auto simp: IsDuplicate_Remove removed_in_def)
  next
    case (Cleanup n)
    then show ?thesis using Cons.prems [of n] by simp
  qed
qed

lemma fold_IsDuplicate_sound:
  "IsDuplicate (fold (dw_exec srt) xs w) p s \<Longrightarrow>
     p \<noteq> [] \<and> ((\<exists>s' \<in> live_marks xs p. s \<le> s') \<or> (\<not> removed_in xs p \<and> IsDuplicate w p s))"
proof (induction xs arbitrary: w)
  case Nil
  then show ?case by (auto simp: removed_in_def IsDuplicate_def split: if_splits)
next
  case (Cons x xs)
  then have IH: "p \<noteq> [] \<and>
      ((\<exists>s' \<in> live_marks xs p. s \<le> s') \<or> (\<not> removed_in xs p \<and> IsDuplicate (dw_exec srt x w) p s))"
    by simp
  show ?case
  proof (cases x)
    case (Mark q s' now)
    then show ?thesis using IH by (auto simp: dw.dup_mark_iff removed_in_def)
  next
    case (Remove q)
    then show ?thesis using IH by (auto simp: IsDuplicate_Remove removed_in_def)
  next
    case (Cleanup n)
    then show ?thesis using IH IsDuplicate_Cleanup by (auto simp: removed_in_def)
  qed
qed

subsection \<open>Cleaning up\<close>

definition evicted :: "sort_fn \<Rightarrow> nat \<Rightarrow> DedupWindow \<Rightarrow> (string \<times> time_point) list" where
  "evicted srt n w = take (length (dw_producers w) - n)
     (srt (map (\<lambda>(id, st). (id, last_active st)) (dw_producers w)))"

definition retained :: "sort_fn \<Rightarrow> nat \<Rightarrow> DedupWindow \<Rightarrow> (string \<times> time_point) list" where
  "retained srt n w = drop (length (dw_producers w) - n)
     (srt (map (\<lambda>(id, st). (id, last_active st)) (dw_producers w)))"

lemma dw_producers_Cleanup:
  "dw_producers (CleanupInactive srt n w) =
     fold um_erase (map fst (evicted srt n w)) (dw_producers w)"
  by (simp add: CleanupInactive_def evicted_def Let_def)

lemma fold_um_erase_length:
  "um_wf m \<Longrightarrow> distinct ks \<Longrightarrow> set ks \<subseteq> fst ` set m \<Longrightarrow> length (fold um_erase ks m) = length m - length ks"
proof (induction ks arbitrary: m)
  case (Cons k ks)
  have "set ks \<subseteq> fst ` set (um_erase k m)"
    using Cons.prems by (force simp: um_erase_filter)
  then have "length (fold um_erase ks (um_erase k m)) = length (um_erase k m) - length ks"
    using Cons by (auto intro: um.wf_erase)
  moreover have "length (um_erase k m) = length m - 1"
    using Cons.prems by (intro length_um_erase) (auto simp: um_find_None_iff)
  ultimately show ?case by simp
qed simp

lemma std_sort_entries:
  assumes "is_std_sort srt" and "um_wf (dw_producers w)"
  defines "xs \<equiv> map (\<lambda>(id, st). (id, last_active st)) (dw_producers w)"
  shows "set (srt xs) = set xs" and "length (srt xs) = length xs" and "sorted (map snd (srt xs))"
    and "distinct (map fst (srt xs))"
proof -
  have m: "mset (srt xs) = mset xs" and "sorted (map snd (srt xs))"
    using assms(1) by (auto simp: is_std_sort_def)
  then show "set (srt xs) = set xs" and "length (srt xs) = length xs" "sorted (map snd (srt xs))"
    by (auto dest: mset_eq_setD mset_eq_length)
  have "mset (map fst (srt xs)) = mset (map fst xs)"
    using m by simp
  moreover have "distinct (map fst xs)"
    using assms(2) by (simp add: xs_def um_wf_def comp_def case_prod_unfold)
  ultimately show "distinct (map fst (srt xs))"
    by (metis mset_eq_imp_distinct_iff)
qed

lemma evicted_before_retained:
  assumes "is_std_sort srt" and "um_wf (dw_producers w)"
    and "(p, t) \<in> set (evicted srt n w)" and "(q, t') \<in> set (retained srt n w)"
  shows "t \<le> t'" and "p \<noteq> q"
proof -
  define xs where "xs = srt (map (\<lambda>(id, st). (id, last_active st)) (dw_producers w))"
  define d where "d = length (dw_producers w) - n"
  have split: "xs = evicted srt n w @ retained srt n w"
    by (simp add: xs_def evicted_def retained_def)
  have "sorted (map snd xs)" and "distinct (map fst xs)"
    using std_sort_entries [OF assms(1,2)] by (simp_all add: xs_def)
  then have "sorted (map snd (evicted srt n w) @ map snd (retained srt n w))"
    and "distinct (map fst (evicted srt n w) @ map fst (retained srt n w))"
    using split by (metis map_append)+
  then show "t \<le> t'" and "p \<noteq> q"
    using assms(3,4) by (force simp: sorted_append)+
qed

lemma evicted_retained_cover:
  assumes "is_std_sort srt" and "um_wf (dw_producers w)" and "um_find (dw_producers w) p = Some st"
  shows "(p, last_active st) \<in> set (evicted srt n w) \<union> set (retained srt n w)"
proof -
  have "(p, last_active st) \<in> set (map (\<lambda>(id, st). (id, last_active st)) (dw_producers w))"
    using um_find_SomeD [OF assms(3)] by force
  then have "(p, last_active st) \<in> set (srt (map (\<lambda>(id, st). (id, last_active st)) (dw_producers w)))"
    using std_sort_entries(1) [OF assms(1,2)] by simp
  then show ?thesis
    unfolding evicted_def retained_def by (metis append_take_drop_id set_append)
qed

lemma CleanupInactive_find:
  assumes "is_std_sort srt" and "um_wf (dw_producers w)"
  shows "um_find (dw_producers w) p = Some st \<Longrightarrow> um_find (dw_producers (CleanupInactive srt n w)) p = None
      \<Longrightarrow> (p, last_active st) \<in> set (evicted srt n w)"
    and "um_find (dw_producers (CleanupInactive srt n w)) p = Some st
      \<Longrightarrow> (p, last_active st) \<in> set (retained srt n w)"
proof -
  assume p: "um_find (dw_producers w) p = Some st"
    and "um_find (dw_producers (CleanupInactive srt n w)) p = None"
  then obtain t where t: "(p, t) \<in> set (evicted srt n w)"
    by (auto simp: dw_producers_Cleanup um.find_erase_all split: if_splits)
  then have "(p, last_active st) \<notin> set (retained srt n w)"
    using evicted_before_retained(2) [OF assms t] by blast
  then show "(p, last_active st) \<in> set (evicted srt n w)"
    using evicted_retained_cover [OF assms p, of n] by simp
next
  assume "um_find (dw_producers (CleanupInactive srt n w)) p = Some st"
  then have "um_find (dw_producers w) p = Some st" and "(p, last_active st) \<notin> set (evicted srt n w)"
    by (auto simp: dw_producers_Cleanup um.find_erase_all image_iff split: if_splits)
  then show "(p, last_active st) \<in> set (retained srt n w)"
    using evicted_retained_cover [OF assms, of p st n] by simp
qed

lemma CleanupInactive_count:
  assumes "is_std_sort srt" and "um_wf (dw_producers w)"
  shows "GetProducerCount (CleanupInactive srt n w) = min n (GetProducerCount w)"
proof -
  note entries = std_sort_entries [OF assms]
  have "set (evicted srt n w) \<subseteq> set (map (\<lambda>(id, st). (id, last_active st)) (dw_producers w))"
    using entries(1) by (auto simp: evicted_def dest: in_set_takeD)
  then have "fst ` set (evicted srt n w) \<subseteq> fst ` set (dw_producers w)"
    by force
  moreover have "distinct (map fst (evicted srt n w))"
    using entries(4) by (simp add: evicted_def take_map [symmetric])
  ultimately show ?thesis
    using fold_um_erase_length [OF assms(2), of "map fst (evicted srt n w)"] entries(2)
    by (simp add: GetProducerCount_def dw_producers_Cleanup evicted_def)
qed

subsection \<open>Properties\<close>

text \<open>
  C38: The window answers exactly: after any sequence of calls on a new window, a sequence number
  is reported as a duplicate only for a named producer for which some call marked a number at least
  as large that no later call removed; and if no clean-up ran, every such number is reported.
\<close>

theorem dedup_exact:
  "(IsDuplicate (fold (dw_exec srt) xs (dw_new k)) p s \<longrightarrow> p \<noteq> [] \<and> (\<exists>s' \<in> live_marks xs p. s \<le> s')) \<and>
    ((\<forall>n. Cleanup n \<notin> set xs) \<and> p \<noteq> [] \<and> (\<exists>s' \<in> live_marks xs p. s \<le> s') \<longrightarrow>
       IsDuplicate (fold (dw_exec srt) xs (dw_new k)) p s)"
proof (intro conjI impI)
  assume "IsDuplicate (fold (dw_exec srt) xs (dw_new k)) p s"
  then have "p \<noteq> [] \<and> ((\<exists>s' \<in> live_marks xs p. s \<le> s') \<or> \<not> removed_in xs p \<and> IsDuplicate (dw_new k) p s)"
    by (rule fold_IsDuplicate_sound)
  moreover have "\<not> IsDuplicate (dw_new k) p s"
    by (simp add: IsDuplicate_def dw_new_def)
  ultimately show "p \<noteq> []" "\<exists>s' \<in> live_marks xs p. s \<le> s'" by blast+
next
  assume "(\<forall>n. Cleanup n \<notin> set xs) \<and> p \<noteq> [] \<and> (\<exists>s' \<in> live_marks xs p. s \<le> s')"
  then show "IsDuplicate (fold (dw_exec srt) xs (dw_new k)) p s"
    using fold_IsDuplicate [of xs srt "dw_new k" p s] by simp
qed

theorem dedup_exact_witness:
  "IsDuplicate (fold (dw_exec id) [Mark ''p'' 5 0, Remove ''p'', Mark ''p'' 3 1] (dw_new 10)) ''p'' 3 \<and>
   \<not> IsDuplicate (fold (dw_exec id) [Mark ''p'' 5 0, Remove ''p'', Mark ''p'' 3 1] (dw_new 10)) ''p'' 4"
  using dedup_exact [of id "[Mark ''p'' 5 0, Remove ''p'', Mark ''p'' 3 1]" 10 "''p''" 3]
    dedup_exact [of id "[Mark ''p'' 5 0, Remove ''p'', Mark ''p'' 3 1]" 10 "''p''" 4]
  by simp

text \<open>
  The clean-up keeps the most recently active producers: it leaves the smaller of the bound
  and the number of producers there were, keeps the state of every survivor, and no removed
  producer was active later than a survivor.
\<close>

theorem CleanupInactive_lru:
  assumes "is_std_sort srt" and "dw_wf w"
  shows "GetProducerCount (CleanupInactive srt n w) = min n (GetProducerCount w) \<and>
    (\<forall>p. um_has (dw_producers (CleanupInactive srt n w)) p \<longrightarrow>
       um_find (dw_producers (CleanupInactive srt n w)) p = um_find (dw_producers w) p) \<and>
    (\<forall>p q st st'. um_find (dw_producers w) p = Some st \<and>
       um_find (dw_producers (CleanupInactive srt n w)) p = None \<and>
       um_find (dw_producers (CleanupInactive srt n w)) q = Some st' \<longrightarrow>
       last_active st \<le> last_active st')"
proof -
  have wf: "um_wf (dw_producers w)" using assms(2) by (simp add: dw_wf_def)
  have "last_active st \<le> last_active st'"
    if "um_find (dw_producers w) p = Some st" "um_find (dw_producers (CleanupInactive srt n w)) p = None"
      "um_find (dw_producers (CleanupInactive srt n w)) q = Some st'" for p q st st'
    using CleanupInactive_find [OF assms(1) wf] that
    by (intro evicted_before_retained(1) [OF assms(1) wf]) blast+
  then show ?thesis
    using CleanupInactive_count [OF assms(1) wf] find_CleanupInactive unfolding um_has_def by metis
qed

theorem CleanupInactive_lru_witness:
  "CleanupInactive (sort_key snd) 1
     (fold (dw_exec (sort_key snd)) [Mark ''a'' 1 20, Mark ''b'' 2 10] (dw_new 10)) =
   dw_new 10\<lparr>dw_producers := [(''a'', \<lparr>max_sequence = 1, last_active = 20\<rparr>)]\<rparr> \<and>
   GetProducerCount (CleanupInactive (sort_key snd) 1
     (fold (dw_exec (sort_key snd)) [Mark ''a'' 1 20, Mark ''b'' 2 10] (dw_new 10))) = 1"
proof -
  let ?w = "fold (dw_exec (sort_key snd)) [Mark ''a'' 1 20, Mark ''b'' 2 10] (dw_new 10)"
  have "is_std_sort (sort_key snd)"
    by (simp add: is_std_sort_def)
  moreover have "dw_wf ?w"
    unfolding fold.simps comp_def id_def by (intro dw_wf_exec) (simp add: dw_wf_def dw_new_def)
  ultimately have "GetProducerCount (CleanupInactive (sort_key snd) 1 ?w) = min 1 (GetProducerCount ?w)"
    using CleanupInactive_lru by blast
  moreover have "GetProducerCount ?w = 2"
    by (simp add: GetProducerCount_def MarkProcessed_def Let_def dw_new_def um_put_conv um_put_Nil)
  moreover have "CleanupInactive (sort_key snd) 1 ?w =
      dw_new 10\<lparr>dw_producers := [(''a'', \<lparr>max_sequence = 1, last_active = 20\<rparr>)]\<rparr>"
    by (simp add: CleanupInactive_def MarkProcessed_def Let_def dw_new_def um_put_conv um_put_Nil
        um_at_def um_find_def default_ProducerState_def um_erase_filter)
  ultimately show ?thesis by simp
qed

end
