(* ===== verification/Rate_Limiter.thy ===== *)
theory Rate_Limiter
  imports Prelude Complex_Main
begin

text \<open>
  \<^verbatim>\<open>common/rate_limiter.h\<close>: the token bucket that limits how fast a connection may publish. Its
  level is a \<open>double\<close>: a value of the model is a real number and every floating-point operation
  applies the rounding \<open>rnd\<close> to its exact result. What IEEE 754 promises of \<open>rnd\<close> is
  \<open>is_rounding\<close>, with the unit round-off as \<open>u\<close>; a 32-bit integer converts exactly.
\<close>

subsection \<open>Model\<close>

record TokenBucket =
  rate_per_second :: u32
  burst_size :: u32
  tokens :: real
  last_refill_time :: time_point

definition dbl :: "u32 \<Rightarrow> real" where
  "dbl k = real (unat k)"

definition tb_new :: "u32 \<Rightarrow> u32 \<Rightarrow> time_point \<Rightarrow> TokenBucket" where
  "tb_new rate burst now =
     \<lparr>rate_per_second = rate, burst_size = burst, tokens = dbl burst, last_refill_time = now\<rparr>"

definition elapsed_seconds :: "(real \<Rightarrow> real) \<Rightarrow> int \<Rightarrow> real" where
  "elapsed_seconds rnd ns = rnd (rnd (of_int ns) / 1000000000)"

definition Refill :: "(real \<Rightarrow> real) \<Rightarrow> time_point \<Rightarrow> TokenBucket \<Rightarrow> TokenBucket" where
  "Refill rnd now b =
     (let elapsed = elapsed_seconds rnd (now - last_refill_time b);
          level = rnd (tokens b + rnd (elapsed * dbl (rate_per_second b)))
      in b\<lparr>last_refill_time := now,
           tokens := (if level > dbl (burst_size b) then dbl (burst_size b) else level)\<rparr>)"

definition Acquire :: "(real \<Rightarrow> real) \<Rightarrow> time_point \<Rightarrow> u32 \<Rightarrow> TokenBucket \<Rightarrow> bool \<times> TokenBucket" where
  "Acquire rnd now k b =
     (let b' = Refill rnd now b in
      if tokens b' \<ge> dbl k then (True, b'\<lparr>tokens := rnd (tokens b' - dbl k)\<rparr>) else (False, b'))"

definition SetRate :: "(real \<Rightarrow> real) \<Rightarrow> time_point \<Rightarrow> u32 \<Rightarrow> u32 \<Rightarrow> TokenBucket \<Rightarrow> TokenBucket" where
  "SetRate rnd now rate burst b =
     (let b' = (Refill rnd now b)\<lparr>rate_per_second := rate, burst_size := burst\<rparr> in
      if tokens b' > dbl burst then b'\<lparr>tokens := dbl burst\<rparr> else b')"

subsection \<open>Rounding and the invariant\<close>

definition is_rounding :: "(real \<Rightarrow> real) \<Rightarrow> real \<Rightarrow> bool" where
  "is_rounding rnd u \<longleftrightarrow> 0 \<le> u \<and> u < 1 \<and> mono rnd \<and> (\<forall>k. rnd (dbl k) = dbl k) \<and>
     (\<forall>x \<ge> 0. (1 - u) * x \<le> rnd x \<and> rnd x \<le> (1 + u) * x)"

definition bucket_ok :: "TokenBucket \<Rightarrow> bool" where
  "bucket_ok b \<longleftrightarrow> 0 \<le> tokens b \<and> tokens b \<le> dbl (burst_size b)"

lemma dbl_0: "dbl 0 = 0"
  by (simp add: dbl_def)

lemma dbl_nonneg [simp]: "0 \<le> dbl k"
  unfolding dbl_def by (rule of_nat_0_le_iff)

lemma is_roundingD:
  assumes "is_rounding rnd u"
  shows "0 \<le> u" and "u < 1" and "x \<le> y \<Longrightarrow> rnd x \<le> rnd y" and "rnd (dbl k) = dbl k" and "rnd 0 = 0"
    and "0 \<le> x \<Longrightarrow> 0 \<le> rnd x" and "0 \<le> x \<Longrightarrow> (1 - u) * x \<le> rnd x" and "0 \<le> x \<Longrightarrow> rnd x \<le> (1 + u) * x"
proof -
  show zero: "rnd 0 = 0"
    using assms dbl_0 unfolding is_rounding_def by metis
  show mono: "x \<le> y \<Longrightarrow> rnd x \<le> rnd y" for x y
    using assms by (auto simp: is_rounding_def mono_def)
  show "0 \<le> x \<Longrightarrow> 0 \<le> rnd x"
    using mono [of 0 x] zero by simp
qed (use assms in \<open>auto simp: is_rounding_def\<close>)

lemma elapsed_bounds:
  assumes "is_rounding rnd u" and "0 \<le> ns"
  shows "0 \<le> elapsed_seconds rnd ns"
    and "(1 - u) ^ 2 * (of_int ns / 1000000000) \<le> elapsed_seconds rnd ns"
    and "elapsed_seconds rnd ns \<le> (1 + u) ^ 2 * (of_int ns / 1000000000)"
proof -
  note r = is_roundingD [OF assms(1)]
  let ?x = "rnd (of_int ns)"
  have x: "0 \<le> ?x" "(1 - u) * of_int ns \<le> ?x" "?x \<le> (1 + u) * of_int ns"
    using r(6-8) [of "of_int ns"] assms(2) by auto
  then show "0 \<le> elapsed_seconds rnd ns"
    unfolding elapsed_seconds_def by (intro r) auto
  have "(1 - u) * (1 - u) * (of_int ns / 1000000000) \<le> (1 - u) * (?x / 1000000000)"
    using x(2) r(2) by (simp add: mult.assoc)
  also have "\<dots> \<le> elapsed_seconds rnd ns"
    unfolding elapsed_seconds_def using x(1) by (intro r(7)) auto
  finally show "(1 - u) ^ 2 * (of_int ns / 1000000000) \<le> elapsed_seconds rnd ns"
    by (simp add: power2_eq_square)
  have "elapsed_seconds rnd ns \<le> (1 + u) * (?x / 1000000000)"
    unfolding elapsed_seconds_def using x(1) by (intro r(8)) auto
  also have "\<dots> \<le> (1 + u) * (1 + u) * (of_int ns / 1000000000)"
    using x(3) r(1) by (simp add: mult.assoc)
  finally show "elapsed_seconds rnd ns \<le> (1 + u) ^ 2 * (of_int ns / 1000000000)"
    by (simp add: power2_eq_square)
qed

definition refill_amount :: "(real \<Rightarrow> real) \<Rightarrow> time_point \<Rightarrow> TokenBucket \<Rightarrow> real" where
  "refill_amount rnd now b =
     rnd (elapsed_seconds rnd (now - last_refill_time b) * dbl (rate_per_second b))"

lemma tokens_Refill:
  "tokens (Refill rnd now b) = min (dbl (burst_size b)) (rnd (tokens b + refill_amount rnd now b))"
  by (simp add: Refill_def refill_amount_def Let_def)

lemma Refill_simps [simp]:
  "rate_per_second (Refill rnd now b) = rate_per_second b"
  "burst_size (Refill rnd now b) = burst_size b"
  "last_refill_time (Refill rnd now b) = now"
  by (simp_all add: Refill_def Let_def)

lemma refill_amount_bounds:
  assumes "is_rounding rnd u" and "last_refill_time b \<le> now"
  defines "exact \<equiv> of_int (now - last_refill_time b) / 1000000000 * dbl (rate_per_second b)"
  shows "0 \<le> refill_amount rnd now b" and "refill_amount rnd now b \<le> (1 + u) ^ 3 * exact"
    and "dbl k \<le> (1 - u) ^ 2 * exact \<Longrightarrow> dbl k \<le> refill_amount rnd now b"
proof -
  note r = is_roundingD [OF assms(1)]
  let ?e = "elapsed_seconds rnd (now - last_refill_time b)"
  let ?r = "dbl (rate_per_second b)"
  have e: "0 \<le> ?e" "(1 - u) ^ 2 * (of_int (now - last_refill_time b) / 1000000000) \<le> ?e"
    "?e \<le> (1 + u) ^ 2 * (of_int (now - last_refill_time b) / 1000000000)"
    using elapsed_bounds [OF assms(1), of "now - last_refill_time b"] assms(2) by simp_all
  show "0 \<le> refill_amount rnd now b"
    unfolding refill_amount_def using e(1) by (intro r) auto
  have "refill_amount rnd now b \<le> (1 + u) * (?e * ?r)"
    unfolding refill_amount_def using e(1) by (intro r) auto
  also have "\<dots> \<le> (1 + u) * ((1 + u) ^ 2 * (of_int (now - last_refill_time b) / 1000000000) * ?r)"
    using r(1) by (intro mult_left_mono mult_right_mono e(3)) auto
  finally show "refill_amount rnd now b \<le> (1 + u) ^ 3 * exact"
    by (simp add: exact_def power3_eq_cube power2_eq_square mult.assoc)
  assume "dbl k \<le> (1 - u) ^ 2 * exact"
  also have "\<dots> \<le> ?e * ?r"
    using mult_right_mono [OF e(2), of ?r] by (simp add: exact_def mult.assoc)
  finally have "rnd (dbl k) \<le> refill_amount rnd now b"
    unfolding refill_amount_def by (rule r)
  then show "dbl k \<le> refill_amount rnd now b" by (simp add: r(4))
qed

lemma bucket_ok_Refill:
  assumes "is_rounding rnd u" and "last_refill_time b \<le> now" and "bucket_ok b"
  shows "bucket_ok (Refill rnd now b)"
proof -
  have "0 \<le> rnd (tokens b + refill_amount rnd now b)"
    using refill_amount_bounds(1) [OF assms(1,2)] assms(3)
    by (intro is_roundingD(6) [OF assms(1)]) (simp add: bucket_ok_def)
  then show ?thesis
    by (simp add: bucket_ok_def tokens_Refill)
qed

lemma bucket_ok_Acquire:
  assumes "is_rounding rnd u" and "last_refill_time b \<le> now" and "bucket_ok b"
  shows "bucket_ok (snd (Acquire rnd now k b))"
proof -
  note r = is_roundingD [OF assms(1)]
  have ok: "bucket_ok (Refill rnd now b)"
    using assms by (rule bucket_ok_Refill)
  let ?t = "tokens (Refill rnd now b)"
  have "?t - dbl k \<le> dbl (burst_size b)"
    using ok dbl_nonneg [of k] unfolding bucket_ok_def Refill_simps by linarith
  then have "rnd (?t - dbl k) \<le> rnd (dbl (burst_size b))"
    by (rule r)
  then have "rnd (?t - dbl k) \<le> dbl (burst_size b)"
    by (simp add: r(4))
  moreover have "dbl k \<le> ?t \<Longrightarrow> 0 \<le> rnd (?t - dbl k)"
    by (intro r(6)) simp
  ultimately show ?thesis
    using ok by (simp add: bucket_ok_def Acquire_def Let_def)
qed

lemma bucket_ok_SetRate:
  assumes "is_rounding rnd u" and "last_refill_time b \<le> now" and "bucket_ok b"
  shows "bucket_ok (SetRate rnd now rate burst b)"
  using bucket_ok_Refill [OF assms] by (auto simp: bucket_ok_def SetRate_def Let_def)

subsection \<open>Requests in sequence\<close>

text \<open>Requests with their times; the sum of what was granted and the bucket afterwards.\<close>

fun acquire_all :: "(real \<Rightarrow> real) \<Rightarrow> (time_point \<times> u32) list \<Rightarrow> TokenBucket \<Rightarrow> nat \<times> TokenBucket" where
  "acquire_all rnd [] b = (0, b)"
| "acquire_all rnd ((now, k) # rs) b =
     (let (ok, b1) = Acquire rnd now k b; (n, b2) = acquire_all rnd rs b1
      in ((if ok then unat k else 0) + n, b2))"

fun times_from :: "time_point \<Rightarrow> (time_point \<times> u32) list \<Rightarrow> bool" where
  "times_from t [] = True"
| "times_from t ((now, k) # rs) = (t \<le> now \<and> times_from now rs)"

lemma Acquire_simps [simp]:
  "rate_per_second (snd (Acquire rnd now k b)) = rate_per_second b"
  "burst_size (snd (Acquire rnd now k b)) = burst_size b"
  "last_refill_time (snd (Acquire rnd now k b)) = now"
  by (simp_all add: Acquire_def Let_def)

lemma Refill_level:
  assumes "is_rounding rnd u" and "last_refill_time b \<le> now" and "bucket_ok b"
  shows "tokens (Refill rnd now b) \<le>
    tokens b + refill_amount rnd now b + u * dbl (burst_size b)"
proof -
  note r = is_roundingD [OF assms(1)]
  let ?y = "tokens b + refill_amount rnd now b"
  have y: "0 \<le> ?y"
    using refill_amount_bounds(1) [OF assms(1,2)] assms(3) by (simp add: bucket_ok_def)
  show ?thesis
  proof (cases "?y \<le> dbl (burst_size b)")
    case True
    have "rnd ?y \<le> ?y + u * ?y"
      using r(8) [OF y] by (simp add: algebra_simps)
    also have "\<dots> \<le> ?y + u * dbl (burst_size b)"
      using True r(1) by (intro add_left_mono mult_left_mono) auto
    finally show ?thesis by (simp add: tokens_Refill min.coboundedI2)
  next
    case False
    have "0 \<le> u * dbl (burst_size b)" using r(1) by simp
    with False show ?thesis by (simp add: tokens_Refill min.coboundedI1)
  qed
qed

lemma Acquire_level:
  assumes "is_rounding rnd u" and "last_refill_time b \<le> now" and "bucket_ok b"
    and "Acquire rnd now k b = (ok, b')"
  shows "(if ok then dbl k else 0) + tokens b' \<le>
    tokens b + refill_amount rnd now b + 2 * u * dbl (burst_size b)"
proof -
  note r = is_roundingD [OF assms(1)]
  have full: "bucket_ok (Refill rnd now b)" by (rule bucket_ok_Refill) fact+
  let ?t = "tokens (Refill rnd now b)"
  have u: "0 \<le> u * dbl (burst_size b)" using r(1) by simp
  have "dbl k + rnd (?t - dbl k) \<le> ?t + u * dbl (burst_size b)" if "dbl k \<le> ?t"
  proof -
    have "rnd (?t - dbl k) \<le> ?t - dbl k + u * (?t - dbl k)"
      using r(8) [of "?t - dbl k"] that by (simp add: algebra_simps)
    moreover have "?t - dbl k \<le> dbl (burst_size b)"
      using full dbl_nonneg [of k] unfolding bucket_ok_def Refill_simps by linarith
    then have "u * (?t - dbl k) \<le> u * dbl (burst_size b)"
      using r(1) by (rule mult_left_mono)
    ultimately show ?thesis by linarith
  qed
  then show ?thesis
    using assms(4) Refill_level [OF assms(1-3)] u
    by (auto simp: Acquire_def Let_def split: if_splits)
qed

lemma acquire_all_level:
  assumes "is_rounding rnd u"
  shows "bucket_ok b \<Longrightarrow> times_from (last_refill_time b) rs \<Longrightarrow> acquire_all rnd rs b = (n, b') \<Longrightarrow>
    bucket_ok b' \<and> last_refill_time b \<le> last_refill_time b' \<and>
    real n + tokens b' \<le> tokens b +
      (1 + u) ^ 3 * (of_int (last_refill_time b' - last_refill_time b) / 1000000000 * dbl (rate_per_second b)) +
      2 * u * dbl (burst_size b) * real (length rs)"
proof (induction rs arbitrary: b n)
  case Nil
  then show ?case by simp
next
  case (Cons r rs)
  obtain now k where rk: "r = (now, k)" by (cases r)
  obtain ok b1 where a: "Acquire rnd now k b = (ok, b1)" by fastforce
  obtain m where m: "acquire_all rnd rs b1 = (m, b')" and n: "n = (if ok then unat k else 0) + m"
    using Cons.prems(3) a by (auto simp: rk Let_def split: prod.splits)
  have now: "last_refill_time b \<le> now" "times_from now rs"
    using Cons.prems(2) by (simp_all add: rk)
  have b1: "bucket_ok b1" "last_refill_time b1 = now" "rate_per_second b1 = rate_per_second b"
    "burst_size b1 = burst_size b"
    using bucket_ok_Acquire [OF assms now(1) Cons.prems(1), of k] Acquire_simps [of rnd now k b] a
    by simp_all
  have one: "(if ok then dbl k else 0) + tokens b1 \<le> tokens b +
      (1 + u) ^ 3 * (of_int (now - last_refill_time b) / 1000000000 * dbl (rate_per_second b)) +
      2 * u * dbl (burst_size b)"
    using Acquire_level [OF assms now(1) Cons.prems(1) a] refill_amount_bounds(2) [OF assms now(1)]
    by linarith
  have rest: "bucket_ok b' \<and> now \<le> last_refill_time b' \<and> real m + tokens b' \<le> tokens b1 +
      (1 + u) ^ 3 * (of_int (last_refill_time b' - now) / 1000000000 * dbl (rate_per_second b)) +
      2 * u * dbl (burst_size b) * real (length rs)"
    using Cons.IH [OF b1(1) _ m] now(2) b1 by simp
  have "real n = (if ok then dbl k else 0) + real m"
    using n by (simp add: dbl_def)
  with one rest now(1) show ?case
    by (simp add: add_divide_distrib diff_divide_distrib algebra_simps)
qed

subsection \<open>Properties\<close>

text \<open>
  C39: The limiter limits: over any sequence of requests at non-decreasing times on a new bucket,
  the tokens granted are at most the burst size plus what the rate yields in the time that passed,
  up to the relative error of the floating-point operations, and the level stays between zero and
  the burst size.
\<close>

theorem token_bucket_bound:
  assumes "is_rounding rnd u" and "times_from t0 rs"
  shows "case acquire_all rnd rs (tb_new rate burst t0) of (granted, b) \<Rightarrow>
    bucket_ok b \<and>
    real granted \<le> dbl burst +
      (1 + u) ^ 3 * (of_int (last_refill_time b - t0) / 1000000000 * dbl rate) +
      2 * u * dbl burst * real (length rs)"
proof -
  obtain n b where r: "acquire_all rnd rs (tb_new rate burst t0) = (n, b)" by fastforce
  have "bucket_ok (tb_new rate burst t0)"
    by (simp add: bucket_ok_def tb_new_def)
  from acquire_all_level [OF assms(1) this _ r] assms(2)
  show ?thesis
    unfolding r by (simp add: tb_new_def bucket_ok_def)
qed

lemma is_rounding_id: "is_rounding (\<lambda>x. x) 0"
  by (simp add: is_rounding_def mono_def)

theorem token_bucket_bound_witness:
  "acquire_all (\<lambda>x. x) [(0, 2), (0, 1), (500000000, 1)] (tb_new 2 2 0) =
     (3, \<lparr>rate_per_second = 2, burst_size = 2, tokens = 0, last_refill_time = 500000000\<rparr>) \<and>
   bucket_ok \<lparr>rate_per_second = 2, burst_size = 2, tokens = 0, last_refill_time = 500000000\<rparr> \<and>
   real 3 \<le> dbl 2 + of_int 500000000 / 1000000000 * dbl 2"
proof -
  have "times_from 0 [(0, 2), (0, 1), (500000000, 1)]" by simp
  from token_bucket_bound [OF is_rounding_id this, of 2 2]
  have "case acquire_all (\<lambda>x. x) [(0, 2), (0, 1), (500000000, 1)] (tb_new 2 2 0) of (granted, b) \<Rightarrow>
      bucket_ok b \<and> real granted \<le> dbl 2 + of_int (last_refill_time b) / 1000000000 * dbl 2"
    by (simp add: case_prod_unfold)
  moreover have run: "acquire_all (\<lambda>x. x) [(0, 2), (0, 1), (500000000, 1)] (tb_new 2 2 0) =
     (3, \<lparr>rate_per_second = 2, burst_size = 2, tokens = 0, last_refill_time = 500000000\<rparr>)"
    by (simp add: Acquire_def Refill_def tb_new_def elapsed_seconds_def dbl_def Let_def)
  ultimately show ?thesis by simp
qed

text \<open>
  The limiter does not starve: a request that fits the bucket is granted as soon as the rate
  has yielded that many tokens since the last call, whatever the level was, with the same
  allowance for rounding.
\<close>

theorem token_bucket_grants:
  assumes "is_rounding rnd u" and "last_refill_time b \<le> now" and "bucket_ok b"
    and "k \<le> burst_size b"
    and "dbl k \<le> (1 - u) ^ 2 * (of_int (now - last_refill_time b) / 1000000000 * dbl (rate_per_second b))"
  shows "fst (Acquire rnd now k b)"
proof -
  note r = is_roundingD [OF assms(1)]
  have "dbl k \<le> tokens b + refill_amount rnd now b"
    using refill_amount_bounds(3) [OF assms(1,2,5)] assms(3) by (simp add: bucket_ok_def)
  then have "rnd (dbl k) \<le> rnd (tokens b + refill_amount rnd now b)"
    by (rule r)
  moreover have "dbl k \<le> dbl (burst_size b)"
    using assms(4) unfolding dbl_def word_le_nat_alt by (simp only: of_nat_le_iff)
  ultimately show ?thesis
    by (simp add: Acquire_def Let_def tokens_Refill r(4))
qed

theorem token_bucket_grants_witness:
  "fst (Acquire (\<lambda>x. x) 1000000000 5
     \<lparr>rate_per_second = 5, burst_size = 8, tokens = 0, last_refill_time = 0\<rparr>)"
  by (rule token_bucket_grants [OF is_rounding_id]) (simp_all add: bucket_ok_def dbl_def)

end
