(* ===== verification/Config.thy ===== *)
theory Config
  imports Unordered_Map
begin

text \<open>
  \<^verbatim>\<open>common/config.h\<close>: the configuration of the broker and of single topics with their defaults, and
  the \<open>ConfigManager\<close> of \<^verbatim>\<open>config.cpp\<close> that overrides the global values per topic. Reading and
  writing the configuration file is in \<open>Config_File\<close>.
\<close>

record TopicConfig =
  tc_ring_buffer_size :: nat
  tc_default_ttl_ms :: u32
  tc_compression_enabled :: bool

definition default_TopicConfig :: TopicConfig where
  "default_TopicConfig = \<lparr>tc_ring_buffer_size = 0, tc_default_ttl_ms = 0, tc_compression_enabled = False\<rparr>"

record BrokerConfig =
  port :: u16
  batch_publish_enabled :: bool
  batch_push_enabled :: bool
  max_batch_size :: u32
  heartbeat_enabled :: bool
  heartbeat_interval_ms :: u32
  heartbeat_timeout_ms :: u32
  heartbeat_check_interval_ms :: u32
  rate_limit_enabled :: bool
  global_publish_rate :: u32
  conn_publish_rate :: u32
  rate_limit_burst :: u32
  max_write_buffer_size :: u64
  ttl_enabled :: bool
  default_ttl_ms :: u32
  expiration_check_interval_ms :: u32
  compression_enabled :: bool
  compression_threshold_bytes :: u32
  zero_copy_enabled :: bool
  dedup_enabled :: bool
  dedup_window_size :: u64
  default_ring_buffer_size :: u64
  max_retry_count :: u32
  pending_timeout_ms :: u32
  retry_interval_ms :: u32

definition default_BrokerConfig :: BrokerConfig where
  "default_BrokerConfig = \<lparr>
     port = 9090,
     batch_publish_enabled = True, batch_push_enabled = True, max_batch_size = 100,
     heartbeat_enabled = True, heartbeat_interval_ms = 5000, heartbeat_timeout_ms = 15000,
     heartbeat_check_interval_ms = 5000,
     rate_limit_enabled = True, global_publish_rate = 10000, conn_publish_rate = 1000,
     rate_limit_burst = 100, max_write_buffer_size = 8 * 1024 * 1024,
     ttl_enabled = True, default_ttl_ms = 0, expiration_check_interval_ms = 10000,
     compression_enabled = False, compression_threshold_bytes = 1024,
     zero_copy_enabled = True,
     dedup_enabled = True, dedup_window_size = 100000,
     default_ring_buffer_size = 1024 * 1024, max_retry_count = 3, pending_timeout_ms = 5000,
     retry_interval_ms = 1000\<rparr>"

record ConfigManager =
  cm_global_config :: BrokerConfig
  cm_topic_configs :: "(string, TopicConfig) umap"

definition cm_new :: "BrokerConfig \<Rightarrow> ConfigManager" where
  "cm_new c = \<lparr>cm_global_config = c, cm_topic_configs = []\<rparr>"

definition cm_SetTopicConfig :: "string \<Rightarrow> TopicConfig \<Rightarrow> ConfigManager \<Rightarrow> ConfigManager" where
  "cm_SetTopicConfig topic c cm = cm\<lparr>cm_topic_configs := um_put topic c (cm_topic_configs cm)\<rparr>"

definition cm_GetTopicConfig :: "ConfigManager \<Rightarrow> string \<Rightarrow> TopicConfig" where
  "cm_GetTopicConfig cm topic =
     (case um_find (cm_topic_configs cm) topic of Some c \<Rightarrow> c | None \<Rightarrow> default_TopicConfig)"

definition cm_HasTopicConfig :: "ConfigManager \<Rightarrow> string \<Rightarrow> bool" where
  "cm_HasTopicConfig cm topic = um_has (cm_topic_configs cm) topic"

text \<open>
  Both holders of per-topic configurations, \<open>ConfigManager\<close> here and \<open>TopicManager\<close>, promise the
  same: what was set last for a topic is read back, and other topics keep what they had.
\<close>

locale topic_config_holder =
  fixes set_config :: "string \<Rightarrow> TopicConfig \<Rightarrow> 's \<Rightarrow> 's"
    and get_config :: "'s \<Rightarrow> string \<Rightarrow> TopicConfig"
    and has_config :: "'s \<Rightarrow> string \<Rightarrow> bool"
  assumes get_set: "get_config (set_config t c s) t' = (if t' = t then c else get_config s t')"
    and has_set: "has_config (set_config t c s) t' \<longleftrightarrow> t' = t \<or> has_config s t'"
    and get_unset: "\<not> has_config s t \<Longrightarrow> get_config s t = default_TopicConfig"
begin

lemma get_set_all:
  "get_config (fold (\<lambda>(t, c). set_config t c) tcs s) t =
     (case map_of (rev tcs) t of None \<Rightarrow> get_config s t | Some c \<Rightarrow> c)"
proof (induction tcs arbitrary: s)
  case (Cons tc tcs)
  then show ?case
    by (cases tc) (auto simp: get_set map_add_def split: option.splits)
qed simp

end

interpretation cm: topic_config_holder cm_SetTopicConfig cm_GetTopicConfig cm_HasTopicConfig
  by unfold_locales
    (auto simp: cm_SetTopicConfig_def cm_GetTopicConfig_def cm_HasTopicConfig_def um_has_def)

end
