(* ===== verification/Topic_Manager.thy ===== *)
theory Topic_Manager
  imports Config "HOL-Library.Multiset"
begin

text \<open>
  \<^verbatim>\<open>mq/topic.h\<close> and \<^verbatim>\<open>mq/topic_manager.h\<close>/\<^verbatim>\<open>.cpp\<close>: topics, broadcast subscribers, consumer groups with
  their round-robin pointer, and per-topic configurations. Every public function runs under
  \<open>mutex_\<close>, so an execution is a sequence of calls. The abstract specification is the list of
  subscriptions per topic and group (the empty group for broadcast); the lemmas show that every
  operation refines it. \<open>SubscriberInfo::callback\<close> is never read or set in the sources and left out.
\<close>

subsection \<open>Model\<close>

record SubscriberInfo =
  si_id :: SubscriberId
  si_conn_id :: ConnectionId

record TopicInfo =
  ti_name :: string
  ti_create_time :: u64
  ti_message_count :: u64

record ConsumerGroupMember =
  subscriber_id :: SubscriberId
  cm_conn_id :: ConnectionId

record ConsumerGroup =
  group_id :: string
  cg_topic_name :: string
  members :: "ConsumerGroupMember list"
  round_robin_index :: nat

record TopicManager =
  tm_topics :: "(string, TopicInfo) umap"
  tm_subscribers :: "(string, SubscriberInfo list) umap"
  tm_consumer_groups :: "(string, (string, ConsumerGroup) umap) umap"
  tm_topic_configs :: "(string, TopicConfig) umap"

definition tm_new :: TopicManager where
  "tm_new = \<lparr>tm_topics = [], tm_subscribers = [], tm_consumer_groups = [], tm_topic_configs = []\<rparr>"

definition RegisterTopic :: "TopicInfo \<Rightarrow> TopicManager \<Rightarrow> bool \<times> TopicManager" where
  "RegisterTopic topic tm =
     (if um_has (tm_topics tm) (ti_name topic) then (False, tm)
      else (True, tm\<lparr>tm_topics := um_put (ti_name topic) topic (tm_topics tm)\<rparr>))"

definition UnregisterTopic :: "string \<Rightarrow> TopicManager \<Rightarrow> bool \<times> TopicManager" where
  "UnregisterTopic topic_name tm =
     (True, tm\<lparr>tm_topics := um_erase topic_name (tm_topics tm),
               tm_subscribers := um_erase topic_name (tm_subscribers tm),
               tm_consumer_groups := um_erase topic_name (tm_consumer_groups tm)\<rparr>)"

definition GetTopic :: "TopicManager \<Rightarrow> string \<Rightarrow> TopicInfo option" where
  "GetTopic tm topic_name = um_find (tm_topics tm) topic_name"

definition GetAllTopics :: "TopicManager \<Rightarrow> TopicInfo list" where
  "GetAllTopics tm = map snd (tm_topics tm)"

definition Subscribe :: "string \<Rightarrow> SubscriberInfo \<Rightarrow> string \<Rightarrow> TopicManager \<Rightarrow> bool \<times> TopicManager" where
  "Subscribe topic_name subscriber gid tm0 =
     (let tm = (if um_has (tm_topics tm0) topic_name then tm0
                else tm0\<lparr>tm_topics := um_put topic_name
                  \<lparr>ti_name = topic_name, ti_create_time = 0, ti_message_count = 0\<rparr> (tm_topics tm0)\<rparr>)
      in if gid = [] then
           let subs = um_at [] (tm_subscribers tm) topic_name in
           if find (\<lambda>info. si_id info = si_id subscriber) subs \<noteq> None
           then (False, tm\<lparr>tm_subscribers := um_put topic_name subs (tm_subscribers tm)\<rparr>)
           else (True, tm\<lparr>tm_subscribers := um_put topic_name (subs @ [subscriber]) (tm_subscribers tm)\<rparr>)
         else
           let groups = um_at [] (tm_consumer_groups tm) topic_name;
               store = (\<lambda>gs. tm\<lparr>tm_consumer_groups := um_put topic_name gs (tm_consumer_groups tm)\<rparr>);
               member = \<lparr>subscriber_id = si_id subscriber, cm_conn_id = si_conn_id subscriber\<rparr>
           in case um_find groups gid of
                None \<Rightarrow> (True, store (um_put gid \<lparr>group_id = gid, cg_topic_name = topic_name,
                    members = [member], round_robin_index = 0\<rparr> groups))
              | Some grp \<Rightarrow>
                  if find (\<lambda>m. subscriber_id m = si_id subscriber) (members grp) \<noteq> None
                  then (False, store groups)
                  else (True, store (um_put gid (grp\<lparr>members := members grp @ [member]\<rparr>) groups)))"

text \<open>
  \<open>remove_if\<close> followed by \<open>erase\<close> is \<open>filter\<close>; the position \<open>remove_if\<close> returns is the end exactly
  when no element matches.
\<close>

definition Unsubscribe :: "string \<Rightarrow> SubscriberId \<Rightarrow> string \<Rightarrow> TopicManager \<Rightarrow> bool \<times> TopicManager" where
  "Unsubscribe topic_name sid gid tm =
     (if gid = [] then
        case um_find (tm_subscribers tm) topic_name of
          None \<Rightarrow> (False, tm)
        | Some subs \<Rightarrow>
            let rest = filter (\<lambda>info. si_id info \<noteq> sid) subs in
            if length rest = length subs then (False, tm)
            else (True, tm\<lparr>tm_subscribers := um_put topic_name rest (tm_subscribers tm)\<rparr>)
      else
        case um_find (tm_consumer_groups tm) topic_name of
          None \<Rightarrow> (False, tm)
        | Some groups \<Rightarrow>
            (case um_find groups gid of
               None \<Rightarrow> (False, tm)
             | Some grp \<Rightarrow>
                 let rest = filter (\<lambda>m. subscriber_id m \<noteq> sid) (members grp) in
                 if length rest = length (members grp) then (False, tm)
                 else
                   let groups' = (if rest = [] then um_erase gid groups
                                  else um_put gid (grp\<lparr>members := rest\<rparr>) groups)
                   in (True, tm\<lparr>tm_consumer_groups := um_put topic_name groups' (tm_consumer_groups tm)\<rparr>)))"

definition GetSubscribers :: "TopicManager \<Rightarrow> string \<Rightarrow> SubscriberInfo list" where
  "GetSubscribers tm topic_name =
     (case um_find (tm_subscribers tm) topic_name of Some subs \<Rightarrow> subs | None \<Rightarrow> [])"

definition GetConsumerGroups :: "TopicManager \<Rightarrow> string \<Rightarrow> ConsumerGroup list" where
  "GetConsumerGroups tm topic_name =
     (case um_find (tm_consumer_groups tm) topic_name of Some groups \<Rightarrow> map snd groups | None \<Rightarrow> [])"

definition GetConsumerGroup :: "TopicManager \<Rightarrow> string \<Rightarrow> string \<Rightarrow> ConsumerGroup option" where
  "GetConsumerGroup tm topic_name gid =
     (case um_find (tm_consumer_groups tm) topic_name of
        None \<Rightarrow> None
      | Some groups \<Rightarrow> um_find groups gid)"

definition SelectNextMember :: "string \<Rightarrow> string \<Rightarrow> TopicManager \<Rightarrow> SubscriberId \<times> TopicManager" where
  "SelectNextMember topic_name gid tm =
     (case um_find (tm_consumer_groups tm) topic_name of
        None \<Rightarrow> ([], tm)
      | Some groups \<Rightarrow>
          (case um_find groups gid of
             None \<Rightarrow> ([], tm)
           | Some grp \<Rightarrow>
               if members grp = [] then ([], tm)
               else
                 let idx = round_robin_index grp mod length (members grp);
                     grp' = grp\<lparr>round_robin_index :=
                       size_add (round_robin_index grp) 1 mod length (members grp)\<rparr>
                 in (subscriber_id (members grp ! idx),
                     tm\<lparr>tm_consumer_groups :=
                       um_put topic_name (um_put gid grp' groups) (tm_consumer_groups tm)\<rparr>)))"

definition HasTopic :: "TopicManager \<Rightarrow> string \<Rightarrow> bool" where
  "HasTopic tm topic_name = um_has (tm_topics tm) topic_name"

definition SetTopicConfig :: "string \<Rightarrow> TopicConfig \<Rightarrow> TopicManager \<Rightarrow> TopicManager" where
  "SetTopicConfig topic_name c tm = tm\<lparr>tm_topic_configs := um_put topic_name c (tm_topic_configs tm)\<rparr>"

definition GetTopicConfig :: "TopicManager \<Rightarrow> string \<Rightarrow> TopicConfig" where
  "GetTopicConfig tm topic_name =
     (case um_find (tm_topic_configs tm) topic_name of Some c \<Rightarrow> c | None \<Rightarrow> default_TopicConfig)"

definition HasTopicConfig :: "TopicManager \<Rightarrow> string \<Rightarrow> bool" where
  "HasTopicConfig tm topic_name = um_has (tm_topic_configs tm) topic_name"

text \<open>
  The loops of \<open>UnsubscribeByConnId\<close>, each erasing the entries that become empty while it iterates:
  over the broadcast subscribers, over the groups of one topic, over the topics. The first
  component is \<open>removed_any\<close>.
\<close>

fun purge_subscribers :: "ConnectionId \<Rightarrow> (string, SubscriberInfo list) umap
    \<Rightarrow> bool \<times> (string, SubscriberInfo list) umap" where
  "purge_subscribers conn_id [] = (False, [])"
| "purge_subscribers conn_id ((t, subs) # m) =
     (let subs' = filter (\<lambda>info. si_conn_id info \<noteq> conn_id) subs;
          (removed, m') = purge_subscribers conn_id m
      in (length subs' < length subs \<or> removed, if subs' = [] then m' else (t, subs') # m'))"

fun purge_groups :: "ConnectionId \<Rightarrow> (string, ConsumerGroup) umap
    \<Rightarrow> bool \<times> (string, ConsumerGroup) umap" where
  "purge_groups conn_id [] = (False, [])"
| "purge_groups conn_id ((g, grp) # m) =
     (let ms = filter (\<lambda>m. cm_conn_id m \<noteq> conn_id) (members grp);
          (removed, m') = purge_groups conn_id m
      in (length ms < length (members grp) \<or> removed,
          if ms = [] then m' else (g, grp\<lparr>members := ms\<rparr>) # m'))"

fun purge_topics :: "ConnectionId \<Rightarrow> (string, (string, ConsumerGroup) umap) umap
    \<Rightarrow> bool \<times> (string, (string, ConsumerGroup) umap) umap" where
  "purge_topics conn_id [] = (False, [])"
| "purge_topics conn_id ((t, groups) # m) =
     (let (removed, groups') = purge_groups conn_id groups;
          (removed', m') = purge_topics conn_id m
      in (removed \<or> removed', if groups' = [] then m' else (t, groups') # m'))"

definition UnsubscribeByConnId :: "ConnectionId \<Rightarrow> TopicManager \<Rightarrow> bool \<times> TopicManager" where
  "UnsubscribeByConnId conn_id tm =
     (let (r1, subs) = purge_subscribers conn_id (tm_subscribers tm);
          (r2, groups) = purge_topics conn_id (tm_consumer_groups tm)
      in (r1 \<or> r2, tm\<lparr>tm_subscribers := subs, tm_consumer_groups := groups\<rparr>))"

interpretation tmc: topic_config_holder SetTopicConfig GetTopicConfig HasTopicConfig
  by unfold_locales (auto simp: SetTopicConfig_def GetTopicConfig_def HasTopicConfig_def um_has_def)

subsection \<open>The abstract specification\<close>

text \<open>
  What the manager stands for: per topic and group, the subscribers with their connections in the
  order they subscribed.
\<close>

type_synonym subscriptions = "string \<Rightarrow> string \<Rightarrow> (SubscriberId \<times> ConnectionId) list"

definition view :: "TopicManager \<Rightarrow> subscriptions" where
  "view tm t g =
     (if g = [] then map (\<lambda>i. (si_id i, si_conn_id i)) (um_at [] (tm_subscribers tm) t)
      else case um_find (um_at [] (tm_consumer_groups tm) t) g of
          None \<Rightarrow> []
        | Some grp \<Rightarrow> map (\<lambda>m. (subscriber_id m, cm_conn_id m)) (members grp))"

definition spec_subscribe :: "string \<Rightarrow> SubscriberId \<Rightarrow> ConnectionId \<Rightarrow> string \<Rightarrow> subscriptions \<Rightarrow> bool \<times> subscriptions" where
  "spec_subscribe t s c g v =
     (if s \<in> fst ` set (v t g) then (False, v) else (True, v(t := (v t)(g := v t g @ [(s, c)]))))"

definition spec_unsubscribe :: "string \<Rightarrow> SubscriberId \<Rightarrow> string \<Rightarrow> subscriptions \<Rightarrow> bool \<times> subscriptions" where
  "spec_unsubscribe t s g v =
     (s \<in> fst ` set (v t g), v(t := (v t)(g := filter (\<lambda>e. fst e \<noteq> s) (v t g))))"

definition spec_drop :: "ConnectionId \<Rightarrow> subscriptions \<Rightarrow> subscriptions" where
  "spec_drop c v = (\<lambda>t g. filter (\<lambda>e. snd e \<noteq> c) (v t g))"

text \<open>
  The representation invariant: keys are distinct, groups are stored under their own name, have
  members and are never named by the empty string, no subscriber is listed twice, and whatever has
  subscribers is a registered topic.
\<close>

definition group_ok :: "string \<Rightarrow> string \<Rightarrow> ConsumerGroup \<Rightarrow> bool" where
  "group_ok t g grp \<longleftrightarrow> g \<noteq> [] \<and> group_id grp = g \<and> cg_topic_name grp = t \<and> members grp \<noteq> [] \<and>
     distinct (map subscriber_id (members grp))"

definition groups_ok :: "string \<Rightarrow> (string, ConsumerGroup) umap \<Rightarrow> bool" where
  "groups_ok t groups \<longleftrightarrow> um_wf groups \<and> (\<forall>g grp. um_find groups g = Some grp \<longrightarrow> group_ok t g grp)"

definition tm_inv :: "TopicManager \<Rightarrow> bool" where
  "tm_inv tm \<longleftrightarrow>
     um_wf (tm_topics tm) \<and> um_wf (tm_subscribers tm) \<and> um_wf (tm_consumer_groups tm) \<and>
     (\<forall>t info. um_find (tm_topics tm) t = Some info \<longrightarrow> ti_name info = t) \<and>
     (\<forall>t subs. um_find (tm_subscribers tm) t = Some subs \<longrightarrow>
        distinct (map si_id subs) \<and> um_has (tm_topics tm) t) \<and>
     (\<forall>t groups. um_find (tm_consumer_groups tm) t = Some groups \<longrightarrow>
        groups_ok t groups \<and> um_has (tm_topics tm) t)"

subsection \<open>Lemmas on the loops of \<open>UnsubscribeByConnId\<close>\<close>

definition keep_subs :: "ConnectionId \<Rightarrow> SubscriberInfo list \<Rightarrow> SubscriberInfo list option" where
  "keep_subs c subs = (let subs' = filter (\<lambda>i. si_conn_id i \<noteq> c) subs in if subs' = [] then None else Some subs')"

definition keep_group :: "ConnectionId \<Rightarrow> ConsumerGroup \<Rightarrow> ConsumerGroup option" where
  "keep_group c grp = (let ms = filter (\<lambda>m. cm_conn_id m \<noteq> c) (members grp)
     in if ms = [] then None else Some (grp\<lparr>members := ms\<rparr>))"

definition keep_groups :: "ConnectionId \<Rightarrow> (string, ConsumerGroup) umap \<Rightarrow> (string, ConsumerGroup) umap option" where
  "keep_groups c groups = (let gs = um_prune (keep_group c) groups in if gs = [] then None else Some gs)"

lemma purge_subscribers_prune:
  "purge_subscribers c m =
     (\<exists>e \<in> set m. \<exists>i \<in> set (snd e). si_conn_id i = c, um_prune (keep_subs c) m)"
  by (induction c m rule: purge_subscribers.induct)
    (auto simp: keep_subs_def Let_def length_filter_less_iff)

lemma purge_groups_prune:
  "purge_groups c m =
     (\<exists>e \<in> set m. \<exists>i \<in> set (members (snd e)). cm_conn_id i = c, um_prune (keep_group c) m)"
  by (induction c m rule: purge_groups.induct)
    (auto simp: keep_group_def Let_def length_filter_less_iff)

lemma purge_topics_prune:
  "purge_topics c m =
     (\<exists>e \<in> set m. \<exists>e' \<in> set (snd e). \<exists>i \<in> set (members (snd e')). cm_conn_id i = c,
      um_prune (keep_groups c) m)"
  by (induction c m rule: purge_topics.induct)
    (auto simp: keep_groups_def Let_def purge_groups_prune)

lemmas purge_prune = purge_subscribers_prune purge_groups_prune purge_topics_prune

subsection \<open>Every operation refines the specification\<close>

lemma view_topics [simp]: "view (tm\<lparr>tm_topics := x\<rparr>) = view tm"
  by (simp add: view_def fun_eq_iff)

lemma view_put_subs:
  "view (tm\<lparr>tm_subscribers := um_put t subs (tm_subscribers tm)\<rparr>) =
     (view tm)(t := (view tm t)([] := map (\<lambda>i. (si_id i, si_conn_id i)) subs))"
  by (auto simp: view_def fun_eq_iff)

lemma view_put_groups:
  "view (tm\<lparr>tm_consumer_groups := um_put t gs (tm_consumer_groups tm)\<rparr>) =
     (view tm)(t := (\<lambda>g. if g = [] then view tm t [] else
        case um_find gs g of None \<Rightarrow> [] | Some grp \<Rightarrow> map (\<lambda>m. (subscriber_id m, cm_conn_id m)) (members grp)))"
  by (auto simp: view_def fun_eq_iff)

lemma find_fst: "(\<exists>y. find (\<lambda>x. f x = k) xs = Some y) \<longleftrightarrow> k \<in> f ` set xs"
  by (auto simp: find_None_iff simp flip: not_None_eq)

lemma find_None_notin: "find (\<lambda>x. f x = k) xs = None \<longleftrightarrow> k \<notin> f ` set xs"
  by (auto simp: find_None_iff)

lemma view_nil: "view tm t [] = map (\<lambda>i. (si_id i, si_conn_id i)) (um_at [] (tm_subscribers tm) t)"
  by (simp add: view_def)

lemma Subscribe_view:
  "(fst (Subscribe t s g tm), view (snd (Subscribe t s g tm))) =
     spec_subscribe t (si_id s) (si_conn_id s) g (view tm)"
proof (cases "g = []")
  case True
  then show ?thesis
    by (auto simp: Subscribe_def spec_subscribe_def Let_def find_fst view_put_subs view_nil image_image
        fun_eq_iff)
next
  case False
  then show ?thesis
    by (auto simp: Subscribe_def spec_subscribe_def Let_def find_fst view_put_groups image_image
        fun_eq_iff view_def split: option.splits)
qed

lemma Unsubscribe_view:
  "(fst (Unsubscribe t s g tm), view (snd (Unsubscribe t s g tm))) = spec_unsubscribe t s g (view tm)"
proof (cases "g = []")
  case True
  then show ?thesis
    by (auto simp: Unsubscribe_def spec_unsubscribe_def Let_def length_filter_eq_iff view_put_subs
        view_nil um_at_def filter_map comp_def image_image fun_eq_iff split: option.splits)
next
  case False
  then show ?thesis
    by (auto simp: Unsubscribe_def spec_unsubscribe_def Let_def length_filter_eq_iff view_put_groups
        um_at_def filter_map comp_def image_image fun_eq_iff view_def split: option.splits)
qed

lemma tm_invD:
  assumes "tm_inv tm"
  shows "um_wf (tm_topics tm)" and "um_wf (tm_subscribers tm)" and "um_wf (tm_consumer_groups tm)"
    and "um_find (tm_topics tm) t = Some info \<Longrightarrow> ti_name info = t"
    and "um_find (tm_subscribers tm) t = Some subs \<Longrightarrow> distinct (map si_id subs) \<and> um_has (tm_topics tm) t"
    and "um_find (tm_consumer_groups tm) t = Some groups \<Longrightarrow> groups_ok t groups \<and> um_has (tm_topics tm) t"
  using assms by (auto simp: tm_inv_def)

lemma keep_groups_find:
  assumes "um_wf (tm_consumer_groups tm)" and "\<And>gs. um_find (tm_consumer_groups tm) t = Some gs \<Longrightarrow> um_wf gs"
  shows "um_find (um_at [] (um_prune (keep_groups c) (tm_consumer_groups tm)) t) g =
    Option.bind (um_find (um_at [] (tm_consumer_groups tm) t) g) (keep_group c)"
proof (cases "um_find (tm_consumer_groups tm) t")
  case None
  then show ?thesis by (simp add: um_at_def um_find_prune [OF assms(1)])
next
  case (Some gs)
  have "um_find (um_prune (keep_group c) gs) g = Option.bind (um_find gs g) (keep_group c)"
    using Some assms(2) by (intro um_find_prune)
  then show ?thesis
    using Some by (auto simp: um_at_def um_find_prune [OF assms(1)] keep_groups_def Let_def)
qed

lemma UnsubscribeByConnId_view:
  assumes "tm_inv tm"
  shows "view (snd (UnsubscribeByConnId c tm)) = spec_drop c (view tm)"
proof (intro ext)
  fix t g
  note inv = tm_invD [OF assms]
  have subs: "um_at [] (um_prune (keep_subs c) (tm_subscribers tm)) t =
      filter (\<lambda>i. si_conn_id i \<noteq> c) (um_at [] (tm_subscribers tm) t)"
    by (auto simp: um_at_def um_find_prune [OF inv(2)] keep_subs_def Let_def split: option.splits)
  have "um_find (um_at [] (um_prune (keep_groups c) (tm_consumer_groups tm)) t) g =
    Option.bind (um_find (um_at [] (tm_consumer_groups tm) t) g) (keep_group c)"
    using inv(3,6) by (intro keep_groups_find) (auto simp: groups_ok_def)
  then show "view (snd (UnsubscribeByConnId c tm)) t g = spec_drop c (view tm) t g"
    using subs by (auto simp: UnsubscribeByConnId_def purge_prune view_def spec_drop_def keep_group_def
        Let_def filter_map comp_def split: option.splits)
qed

lemma view_group_conn:
  assumes "tm_inv tm"
  shows "(\<exists>s. g \<noteq> [] \<and> (s, c) \<in> set (view tm t g)) \<longleftrightarrow>
    (\<exists>gs grp. um_find (tm_consumer_groups tm) t = Some gs \<and> um_find gs g = Some grp \<and>
      (\<exists>i \<in> set (members grp). cm_conn_id i = c))"
proof (cases "GetConsumerGroup tm t g")
  case None
  then show ?thesis by (auto simp: GetConsumerGroup_def view_def um_at_def split: option.splits)
next
  case (Some grp)
  then have "g \<noteq> []"
    using tm_invD(6) [OF assms, of t] by (auto simp: GetConsumerGroup_def groups_ok_def group_ok_def split: option.splits)
  with Some show ?thesis
    by (auto simp: GetConsumerGroup_def view_def um_at_def image_iff split: option.splits)
qed

lemma UnsubscribeByConnId_removed:
  assumes "tm_inv tm"
  shows "fst (UnsubscribeByConnId c tm) \<longleftrightarrow> (\<exists>t g s. (s, c) \<in> set (view tm t g))"
proof -
  note inv = tm_invD [OF assms]
  have "(\<exists>s. (s, c) \<in> set (view tm t [])) \<longleftrightarrow>
      (\<exists>subs. um_find (tm_subscribers tm) t = Some subs \<and> (\<exists>i \<in> set subs. si_conn_id i = c))" for t
    by (cases "um_find (tm_subscribers tm) t") (auto simp: view_nil um_at_def)
  then have "(\<exists>e \<in> set (tm_subscribers tm). \<exists>i \<in> set (snd e). si_conn_id i = c) \<longleftrightarrow>
      (\<exists>t s. (s, c) \<in> set (view tm t []))"
    using um_ex_find [OF inv(2), of "\<lambda>_ subs. \<exists>i \<in> set subs. si_conn_id i = c"] by simp
  moreover have "(\<exists>e \<in> set (tm_consumer_groups tm). \<exists>e' \<in> set (snd e). \<exists>i \<in> set (members (snd e')). cm_conn_id i = c)
      \<longleftrightarrow> (\<exists>t g s. g \<noteq> [] \<and> (s, c) \<in> set (view tm t g))" (is "?L \<longleftrightarrow> ?R")
  proof -
    have "?L \<longleftrightarrow> (\<exists>t gs. um_find (tm_consumer_groups tm) t = Some gs \<and>
        (\<exists>e' \<in> set gs. \<exists>i \<in> set (members (snd e')). cm_conn_id i = c))"
      using um_ex_find [OF inv(3), of "\<lambda>_ gs. \<exists>e' \<in> set gs. \<exists>i \<in> set (members (snd e')). cm_conn_id i = c"]
      by simp
    also have "\<dots> \<longleftrightarrow> (\<exists>t gs g grp. um_find (tm_consumer_groups tm) t = Some gs \<and>
        um_find gs g = Some grp \<and> (\<exists>i \<in> set (members grp). cm_conn_id i = c))"
      using inv(6) um_ex_find [where P = "\<lambda>_ grp. \<exists>i \<in> set (members grp). cm_conn_id i = c"]
      unfolding groups_ok_def by blast
    also have "\<dots> \<longleftrightarrow> ?R"
    proof -
      have "(\<exists>s. g \<noteq> [] \<and> (s, c) \<in> set (view tm t g)) \<longleftrightarrow>
        (\<exists>gs grp. um_find (tm_consumer_groups tm) t = Some gs \<and> um_find gs g = Some grp \<and>
          (\<exists>i \<in> set (members grp). cm_conn_id i = c))" for t g
        by (rule view_group_conn [OF assms])
      then show ?thesis by metis
    qed
    finally show ?thesis .
  qed
  moreover have "fst (UnsubscribeByConnId c tm) \<longleftrightarrow>
      (\<exists>e \<in> set (tm_subscribers tm). \<exists>i \<in> set (snd e). si_conn_id i = c) \<or>
      (\<exists>e \<in> set (tm_consumer_groups tm). \<exists>e' \<in> set (snd e). \<exists>i \<in> set (members (snd e')). cm_conn_id i = c)"
    by (simp add: UnsubscribeByConnId_def purge_prune)
  moreover have "(\<exists>t g s. (s, c) \<in> set (view tm t g)) \<longleftrightarrow>
      (\<exists>t s. (s, c) \<in> set (view tm t [])) \<or> (\<exists>t g s. g \<noteq> [] \<and> (s, c) \<in> set (view tm t g))"
    by metis
  ultimately show ?thesis by simp
qed

lemma UnregisterTopic_view: "view (snd (UnregisterTopic t tm)) = (view tm)(t := (\<lambda>_. []))"
  by (auto simp: UnregisterTopic_def view_def um_at_def fun_eq_iff)

subsection \<open>The invariant is kept\<close>

lemma tm_inv_new: "tm_inv tm_new"
  by (simp add: tm_inv_def tm_new_def)

lemma tm_inv_RegisterTopic: "tm_inv tm \<Longrightarrow> tm_inv (snd (RegisterTopic x tm))"
  by (auto simp: RegisterTopic_def tm_inv_def um.wf_put)

lemma tm_inv_UnregisterTopic: "tm_inv tm \<Longrightarrow> tm_inv (snd (UnregisterTopic t tm))"
  by (auto simp: UnregisterTopic_def tm_inv_def um.wf_erase)

lemma tm_inv_SetTopicConfig: "tm_inv tm \<Longrightarrow> tm_inv (SetTopicConfig t c tm)"
  by (simp add: SetTopicConfig_def tm_inv_def)

lemma tm_inv_put_subs:
  assumes "tm_inv tm" and "um_has (tm_topics tm) t" and "distinct (map si_id subs)"
  shows "tm_inv (tm\<lparr>tm_subscribers := um_put t subs (tm_subscribers tm)\<rparr>)"
  using assms by (auto simp: tm_inv_def um.wf_put)

lemma tm_inv_put_groups:
  assumes "tm_inv tm" and "um_has (tm_topics tm) t" and "groups_ok t gs"
  shows "tm_inv (tm\<lparr>tm_consumer_groups := um_put t gs (tm_consumer_groups tm)\<rparr>)"
  using assms by (auto simp: tm_inv_def um.wf_put)

lemma groups_ok_put: "groups_ok t gs \<Longrightarrow> group_ok t g grp \<Longrightarrow> groups_ok t (um_put g grp gs)"
  by (auto simp: groups_ok_def um.wf_put)

lemma groups_ok_erase: "groups_ok t gs \<Longrightarrow> groups_ok t (um_erase g gs)"
  by (auto simp: groups_ok_def um.wf_erase)

lemma groups_ok_at: "tm_inv tm \<Longrightarrow> groups_ok t (um_at [] (tm_consumer_groups tm) t)"
  using tm_invD(6) [of tm t] by (auto simp: um_at_def groups_ok_def split: option.splits)

lemma distinct_subs_at: "tm_inv tm \<Longrightarrow> distinct (map si_id (um_at [] (tm_subscribers tm) t))"
  using tm_invD(5) [of tm t] by (auto simp: um_at_def split: option.splits)

lemma tm_inv_Subscribe:
  assumes "tm_inv tm"
  shows "tm_inv (snd (Subscribe t s g tm))"
proof -
  define tm1 where "tm1 = (if um_has (tm_topics tm) t then tm
     else tm\<lparr>tm_topics := um_put t \<lparr>ti_name = t, ti_create_time = 0, ti_message_count = 0\<rparr> (tm_topics tm)\<rparr>)"
  have inv: "tm_inv tm1" and t: "um_has (tm_topics tm1) t"
    using assms by (auto simp: tm1_def tm_inv_def um.wf_put)
  show ?thesis
  proof (cases "g = []")
    case True
    then show ?thesis
      using distinct_subs_at [OF inv, of t] unfolding Subscribe_def Let_def tm1_def [symmetric]
      by (auto simp: find_fst find_None_notin intro!: tm_inv_put_subs inv t)
  next
    case False
    note gs = groups_ok_at [OF inv, of t]
    then have "group_ok t g grp" if "um_find (um_at [] (tm_consumer_groups tm1) t) g = Some grp" for grp
      using that by (simp add: groups_ok_def)
    then show ?thesis
      using False gs unfolding Subscribe_def Let_def tm1_def [symmetric]
      by (auto simp: find_fst find_None_notin group_ok_def split: option.splits
          intro!: tm_inv_put_groups groups_ok_put inv t)
  qed
qed

lemma tm_inv_update_group:
  assumes "tm_inv tm" and "um_find (tm_consumer_groups tm) t = Some gs" and "um_find gs g = Some grp"
  shows "(group_ok t g grp \<Longrightarrow> group_ok t g grp') \<Longrightarrow>
      tm_inv (tm\<lparr>tm_consumer_groups := um_put t (um_put g grp' gs) (tm_consumer_groups tm)\<rparr>)"
    and "tm_inv (tm\<lparr>tm_consumer_groups := um_put t (um_erase g gs) (tm_consumer_groups tm)\<rparr>)"
proof -
  have gs: "groups_ok t gs" "um_has (tm_topics tm) t"
    using tm_invD(6) [OF assms(1,2)] by simp_all
  then have "group_ok t g grp"
    using assms(3) by (simp add: groups_ok_def)
  then show "(group_ok t g grp \<Longrightarrow> group_ok t g grp') \<Longrightarrow>
      tm_inv (tm\<lparr>tm_consumer_groups := um_put t (um_put g grp' gs) (tm_consumer_groups tm)\<rparr>)"
    using gs by (intro tm_inv_put_groups groups_ok_put assms(1)) simp_all
  show "tm_inv (tm\<lparr>tm_consumer_groups := um_put t (um_erase g gs) (tm_consumer_groups tm)\<rparr>)"
    using gs by (intro tm_inv_put_groups groups_ok_erase assms(1))
qed

lemma tm_inv_Unsubscribe:
  assumes "tm_inv tm"
  shows "tm_inv (snd (Unsubscribe t s g tm))"
proof (cases "g = []")
  case True
  then show ?thesis
    using assms tm_invD(5) [OF assms, of t]
    by (auto simp: Unsubscribe_def Let_def distinct_map_filter split: option.splits intro!: tm_inv_put_subs)
next
  case False
  then show ?thesis
    using assms
    by (auto simp: Unsubscribe_def Let_def group_ok_def distinct_map_filter split: option.splits
        intro: tm_inv_update_group)
qed

lemma tm_inv_SelectNextMember:
  assumes "tm_inv tm"
  shows "tm_inv (snd (SelectNextMember t g tm))"
  using assms
  by (auto simp: SelectNextMember_def Let_def group_ok_def split: option.splits
      intro: tm_inv_update_group)

lemma groups_ok_keep:
  assumes "groups_ok t gs" and "keep_groups c gs = Some gs'"
  shows "groups_ok t gs'"
proof -
  have gs': "gs' = um_prune (keep_group c) gs" and wf: "um_wf gs"
    using assms by (auto simp: keep_groups_def groups_ok_def Let_def split: if_splits)
  have "group_ok t g grp'" if "um_find gs g = Some grp" "keep_group c grp = Some grp'" for g grp grp'
  proof -
    have "group_ok t g grp" using assms(1) that(1) by (simp add: groups_ok_def)
    then show ?thesis
      using that(2) by (auto simp: keep_group_def group_ok_def Let_def distinct_map_filter split: if_splits)
  qed
  then show ?thesis
    using wf unfolding gs' groups_ok_def by (auto simp: um_find_prune um_wf_prune bind_eq_Some_conv)
qed

lemma tm_inv_UnsubscribeByConnId:
  assumes "tm_inv tm"
  shows "tm_inv (snd (UnsubscribeByConnId c tm))"
proof -
  note inv = tm_invD [OF assms]
  have "distinct (map si_id subs')" if "um_find (tm_subscribers tm) t = Some subs" "keep_subs c subs = Some subs'" for t subs subs'
    using inv(5) [OF that(1)] that(2) by (auto simp: keep_subs_def Let_def distinct_map_filter split: if_splits)
  moreover have "groups_ok t gs'" if "um_find (tm_consumer_groups tm) t = Some gs" "keep_groups c gs = Some gs'" for t gs gs'
    using inv(6) [OF that(1)] that(2) by (blast intro: groups_ok_keep)
  ultimately show ?thesis
    using inv unfolding tm_inv_def UnsubscribeByConnId_def purge_prune
    by (auto simp: Let_def um_find_prune um_wf_prune bind_eq_Some_conv)
qed

subsection \<open>The contract towards the broker\<close>

locale subscription_registry =
  fixes wf :: "'s \<Rightarrow> bool"
    and vw :: "'s \<Rightarrow> subscriptions"
    and subscribe :: "string \<Rightarrow> SubscriberInfo \<Rightarrow> string \<Rightarrow> 's \<Rightarrow> bool \<times> 's"
    and unsubscribe :: "string \<Rightarrow> SubscriberId \<Rightarrow> string \<Rightarrow> 's \<Rightarrow> bool \<times> 's"
    and drop_conn :: "ConnectionId \<Rightarrow> 's \<Rightarrow> bool \<times> 's"
  assumes subscribe_spec: "wf s \<Longrightarrow>
      (fst (subscribe t i g s), vw (snd (subscribe t i g s))) = spec_subscribe t (si_id i) (si_conn_id i) g (vw s)"
    and unsubscribe_spec: "wf s \<Longrightarrow>
      (fst (unsubscribe t k g s), vw (snd (unsubscribe t k g s))) = spec_unsubscribe t k g (vw s)"
    and drop_spec: "wf s \<Longrightarrow> vw (snd (drop_conn c s)) = spec_drop c (vw s)"
    and wf_subscribe: "wf s \<Longrightarrow> wf (snd (subscribe t i g s))"
    and wf_unsubscribe: "wf s \<Longrightarrow> wf (snd (unsubscribe t k g s))"
    and wf_drop: "wf s \<Longrightarrow> wf (snd (drop_conn c s))"
begin

lemma subscribed:
  "wf s \<Longrightarrow> si_id i \<in> fst ` set (vw (snd (subscribe t i g s)) t g)"
  using subscribe_spec [of s t i g] by (auto simp: spec_subscribe_def split: if_splits)

lemma subscribe_twice:
  assumes "wf s" and "si_id j = si_id i"
  shows "\<not> fst (subscribe t j g (snd (subscribe t i g s)))"
  using subscribed [OF assms(1), of i t g] assms(2) subscribe_spec [OF wf_subscribe [OF assms(1)], of t j g t i g]
  by (auto simp: spec_subscribe_def split: if_splits)

lemma unsubscribe_undoes:
  assumes "wf s" and "fst (subscribe t i g s)"
  shows "vw (snd (unsubscribe t (si_id i) g (snd (subscribe t i g s)))) = vw s"
proof -
  have v: "vw (snd (subscribe t i g s)) = (vw s)(t := (vw s t)(g := vw s t g @ [(si_id i, si_conn_id i)]))"
    and new: "si_id i \<notin> fst ` set (vw s t g)"
    using subscribe_spec [OF assms(1), of t i g] assms(2) by (auto simp: spec_subscribe_def split: if_splits)
  have "filter (\<lambda>e. fst e \<noteq> si_id i) (vw s t g) = vw s t g"
    using new by (force intro: filter_True)
  then show ?thesis
    using unsubscribe_spec [OF wf_subscribe [OF assms(1)], of t "si_id i" g t i g] v
    by (auto simp: spec_unsubscribe_def fun_eq_iff)
qed

lemma dropped: "wf s \<Longrightarrow> (k, c) \<notin> set (vw (snd (drop_conn c s)) t g)"
  by (simp add: drop_spec spec_drop_def)

end

interpretation reg: subscription_registry tm_inv view Subscribe Unsubscribe UnsubscribeByConnId
  by unfold_locales
    (simp_all add: Subscribe_view Unsubscribe_view UnsubscribeByConnId_view tm_inv_Subscribe
      tm_inv_Unsubscribe tm_inv_UnsubscribeByConnId)

subsection \<open>Sequences of calls\<close>

datatype tm_op =
    OpRegister TopicInfo
  | OpUnregister string
  | OpSubscribe string SubscriberInfo string
  | OpUnsubscribe string SubscriberId string
  | OpSelect string string
  | OpDrop ConnectionId
  | OpConfig string TopicConfig

fun tm_exec :: "tm_op \<Rightarrow> TopicManager \<Rightarrow> TopicManager" where
  "tm_exec (OpRegister x) tm = snd (RegisterTopic x tm)"
| "tm_exec (OpUnregister t) tm = snd (UnregisterTopic t tm)"
| "tm_exec (OpSubscribe t s g) tm = snd (Subscribe t s g tm)"
| "tm_exec (OpUnsubscribe t s g) tm = snd (Unsubscribe t s g tm)"
| "tm_exec (OpSelect t g) tm = snd (SelectNextMember t g tm)"
| "tm_exec (OpDrop c) tm = snd (UnsubscribeByConnId c tm)"
| "tm_exec (OpConfig t c) tm = SetTopicConfig t c tm"

fun spec_exec :: "tm_op \<Rightarrow> subscriptions \<Rightarrow> subscriptions" where
  "spec_exec (OpUnregister t) v = v(t := (\<lambda>_. []))"
| "spec_exec (OpSubscribe t s g) v = snd (spec_subscribe t (si_id s) (si_conn_id s) g v)"
| "spec_exec (OpUnsubscribe t s g) v = snd (spec_unsubscribe t s g v)"
| "spec_exec (OpDrop c) v = spec_drop c v"
| "spec_exec _ v = v"

lemma view_SelectNextMember: "view (snd (SelectNextMember t g tm)) = view tm"
  by (auto simp: SelectNextMember_def Let_def view_put_groups fun_eq_iff view_def um_at_def
      split: option.splits)

lemma view_exec: "tm_inv tm \<Longrightarrow> view (tm_exec x tm) = spec_exec x (view tm)"
proof (cases x)
  case (OpSubscribe t s g)
  then show ?thesis using Subscribe_view [of t s g tm] by (simp add: prod_eq_iff)
next
  case (OpUnsubscribe t s g)
  then show ?thesis using Unsubscribe_view [of t s g tm] by (simp add: prod_eq_iff)
next
  case (OpRegister y)
  then show ?thesis by (simp add: RegisterTopic_def)
next
  case (OpConfig t c)
  then show ?thesis by (simp add: SetTopicConfig_def view_def fun_eq_iff)
qed (simp_all add: UnregisterTopic_view view_SelectNextMember UnsubscribeByConnId_view)

lemma tm_inv_exec: "tm_inv tm \<Longrightarrow> tm_inv (tm_exec x tm)"
  by (cases x) (simp_all add: tm_inv_RegisterTopic tm_inv_UnregisterTopic tm_inv_Subscribe
      tm_inv_Unsubscribe tm_inv_SelectNextMember tm_inv_UnsubscribeByConnId tm_inv_SetTopicConfig)

lemma tm_run: "tm_inv tm \<Longrightarrow> tm_inv (fold tm_exec xs tm) \<and> view (fold tm_exec xs tm) = fold spec_exec xs (view tm)"
  by (induction xs arbitrary: tm) (simp_all add: tm_inv_exec view_exec)

lemma view_new: "view tm_new = (\<lambda>_ _. [])"
  by (simp add: view_def tm_new_def um_at_def fun_eq_iff)

subsection \<open>Round robin\<close>

fun select_times :: "nat \<Rightarrow> string \<Rightarrow> string \<Rightarrow> TopicManager \<Rightarrow> SubscriberId list \<times> TopicManager" where
  "select_times 0 t g tm = ([], tm)"
| "select_times (Suc n) t g tm =
     (let (s, tm1) = SelectNextMember t g tm; (ss, tm2) = select_times n t g tm1 in (s # ss, tm2))"

lemma SelectNextMember_step:
  assumes "GetConsumerGroup tm t g = Some grp" and "members grp \<noteq> []"
    and "round_robin_index grp + 1 < size_max"
  shows "fst (SelectNextMember t g tm) = subscriber_id (members grp ! (round_robin_index grp mod length (members grp)))"
    and "GetConsumerGroup (snd (SelectNextMember t g tm)) t g =
      Some (grp\<lparr>round_robin_index := (round_robin_index grp + 1) mod length (members grp)\<rparr>)"
proof -
  obtain gs where gs: "um_find (tm_consumer_groups tm) t = Some gs" "um_find gs g = Some grp"
    using assms(1) by (auto simp: GetConsumerGroup_def split: option.splits)
  have "size_add (round_robin_index grp) 1 = round_robin_index grp + 1"
    using assms(3) by (rule size_add_exact)
  then show "fst (SelectNextMember t g tm) = subscriber_id (members grp ! (round_robin_index grp mod length (members grp)))"
    and "GetConsumerGroup (snd (SelectNextMember t g tm)) t g =
      Some (grp\<lparr>round_robin_index := (round_robin_index grp + 1) mod length (members grp)\<rparr>)"
    using gs assms(2) by (simp_all add: SelectNextMember_def GetConsumerGroup_def Let_def)
qed

lemma select_times_cycle:
  assumes "GetConsumerGroup tm t g = Some grp" and "members grp \<noteq> []" and "length (members grp) < size_max"
    and "round_robin_index grp + 1 < size_max"
  shows "fst (select_times k t g tm) =
    map (\<lambda>i. subscriber_id (members grp ! ((round_robin_index grp + i) mod length (members grp)))) [0..<k]"
  using assms
proof (induction k arbitrary: tm grp)
  case (Suc k)
  let ?n = "length (members grp)"
  let ?grp = "grp\<lparr>round_robin_index := (round_robin_index grp + 1) mod ?n\<rparr>"
  note step = SelectNextMember_step [OF Suc.prems(1,2,4)]
  have "(round_robin_index grp + 1) mod ?n + 1 \<le> ?n"
    using Suc.prems(2) by (metis Suc_eq_plus1 Suc_leI length_greater_0_conv mod_less_divisor)
  then have "fst (select_times k t g (snd (SelectNextMember t g tm))) =
      map (\<lambda>i. subscriber_id (members grp ! ((round_robin_index ?grp + i) mod ?n))) [0..<k]"
    using Suc.IH [OF step(2)] Suc.prems by simp
  also have "\<dots> = map (\<lambda>i. subscriber_id (members grp ! ((round_robin_index grp + i) mod ?n))) [1..<Suc k]"
    unfolding One_nat_def map_Suc_upt [symmetric] map_map comp_def by (simp add: mod_add_left_eq)
  finally show ?case
    using step(1) upt_conv_Cons [of 0 "Suc k"] by (simp add: case_prod_unfold Let_def)
qed simp

lemma map_rotate_mset:
  assumes "xs \<noteq> []"
  shows "mset (map (\<lambda>i. xs ! ((r + i) mod length xs)) [0..<length xs]) = mset xs"
proof -
  have "map (\<lambda>i. xs ! ((r + i) mod length xs)) [0..<length xs] = rotate r xs"
    by (rule nth_equalityI) (simp_all add: nth_rotate)
  also have "mset (rotate r xs) = mset xs"
    unfolding rotate_drop_take by (metis add.commute append_take_drop_id mset_append)
  finally show ?thesis .
qed

subsection \<open>Properties\<close>

text \<open>
  C15: The manager implements the table of subscriptions: after any sequence of calls on a new
  manager its representation invariant holds (in particular groups are never empty, nobody is
  subscribed twice and everything with subscribers is a registered topic), and what it holds is
  what the abstract table holds after the same sequence.
\<close>

theorem topic_manager_refines:
  "tm_inv (fold tm_exec xs tm_new) \<and> view (fold tm_exec xs tm_new) = fold spec_exec xs (\<lambda>_ _. [])"
  using tm_run [OF tm_inv_new, of xs] by (simp add: view_new)

text \<open>
  The results that subscribing and unsubscribing return are right: after any sequence of
  calls, subscribing succeeds if and only if the subscriber is not in that list yet, unsubscribing
  if and only if it is, and unsubscribing a new subscription gives back the table as it was.
\<close>

theorem subscribe_results:
  "let tm = fold tm_exec xs tm_new; (ok, tm') = Subscribe t s g tm in
     (ok \<longleftrightarrow> si_id s \<notin> fst ` set (view tm t g)) \<and>
     si_id s \<in> fst ` set (view tm' t g) \<and>
     (fst (Unsubscribe t (si_id s) g tm) \<longleftrightarrow> si_id s \<in> fst ` set (view tm t g)) \<and>
     (ok \<longrightarrow> view (snd (Unsubscribe t (si_id s) g tm')) = view tm)"
proof -
  let ?tm = "fold tm_exec xs tm_new"
  have inv: "tm_inv ?tm" using tm_run [OF tm_inv_new, of xs] by simp
  have "fst (Subscribe t s g ?tm) \<longleftrightarrow> si_id s \<notin> fst ` set (view ?tm t g)"
    using Subscribe_view [of t s g ?tm] by (simp add: spec_subscribe_def split: if_splits)
  moreover have "fst (Unsubscribe t (si_id s) g ?tm) \<longleftrightarrow> si_id s \<in> fst ` set (view ?tm t g)"
    using Unsubscribe_view [of t "si_id s" g ?tm] by (simp add: spec_unsubscribe_def prod_eq_iff)
  ultimately show ?thesis
    using reg.subscribed [OF inv, of s t g] reg.unsubscribe_undoes [OF inv, of t s g]
    by (simp add: Let_def case_prod_unfold)
qed

theorem subscribe_results_witness:
  "view (snd (Unsubscribe ''t'' ''a'' ''g'' (snd (Subscribe ''t'' \<lparr>si_id = ''a'', si_conn_id = 4\<rparr> ''g''
     (fold tm_exec [OpSubscribe ''t'' \<lparr>si_id = ''b'', si_conn_id = 3\<rparr> ''g''] tm_new))))) ''t'' ''g'' = [(''b'', 3)]"
  using subscribe_results [of "[OpSubscribe ''t'' \<lparr>si_id = ''b'', si_conn_id = 3\<rparr> ''g'']" "''t''"
      "\<lparr>si_id = ''a'', si_conn_id = 4\<rparr>" "''g''"]
  by (simp add: Let_def case_prod_unfold Subscribe_def tm_new_def um_has_def um_at_def um_put_Nil
      um_put_conv um_find_Cons view_def)

text \<open>
  Closing a connection removes it everywhere: after any sequence of calls, \<open>UnsubscribeByConnId\<close>
  returns true if and only if the connection had a subscription, afterwards no list of any topic or
  group contains the connection, and the subscriptions of the other connections are kept in order.
\<close>

theorem connection_purged:
  "case UnsubscribeByConnId c (fold tm_exec xs tm_new) of (removed, tm') \<Rightarrow>
     (removed \<longleftrightarrow> (\<exists>t g s. (s, c) \<in> set (view (fold tm_exec xs tm_new) t g))) \<and>
     (\<forall>t g s. (s, c) \<notin> set (view tm' t g)) \<and>
     (\<forall>t g. view tm' t g = filter (\<lambda>e. snd e \<noteq> c) (view (fold tm_exec xs tm_new) t g))"
proof -
  have inv: "tm_inv (fold tm_exec xs tm_new)" using tm_run [OF tm_inv_new, of xs] by simp
  show ?thesis
    using UnsubscribeByConnId_removed [OF inv, of c] reg.dropped [OF inv, of _ c]
      UnsubscribeByConnId_view [OF inv, of c]
    by (auto simp: case_prod_unfold spec_drop_def)
qed

text \<open>
  Round robin is fair: selecting repeatedly walks through the members of the group in their
  order, starting at the stored index and wrapping round, so that as many selections as there are
  members choose each member exactly once; selecting changes no subscription.
\<close>

theorem round_robin_fair:
  assumes "GetConsumerGroup tm t g = Some grp" and "members grp \<noteq> []"
    and "length (members grp) < size_max" and "round_robin_index grp + 1 < size_max"
  shows "fst (select_times k t g tm) =
      map (\<lambda>i. subscriber_id (members grp ! ((round_robin_index grp + i) mod length (members grp)))) [0..<k] \<and>
    mset (fst (select_times (length (members grp)) t g tm)) = mset (map subscriber_id (members grp)) \<and>
    view (snd (SelectNextMember t g tm)) = view tm"
proof (intro conjI)
  show cyc: "fst (select_times k t g tm) =
      map (\<lambda>i. subscriber_id (members grp ! ((round_robin_index grp + i) mod length (members grp)))) [0..<k]" for k
    using assms by (rule select_times_cycle)
  have "fst (select_times (length (members grp)) t g tm) =
      map subscriber_id (map (\<lambda>i. members grp ! ((round_robin_index grp + i) mod length (members grp)))
        [0..<length (members grp)])"
    by (simp add: cyc)
  then show "mset (fst (select_times (length (members grp)) t g tm)) = mset (map subscriber_id (members grp))"
    using map_rotate_mset [OF assms(2), of "round_robin_index grp"] by (metis mset_map)
  show "view (snd (SelectNextMember t g tm)) = view tm"
    by (rule view_SelectNextMember)
qed

theorem round_robin_fair_witness:
  "fst (select_times 3 ''t'' ''g'' (fold tm_exec
     [OpSubscribe ''t'' \<lparr>si_id = ''a'', si_conn_id = 1\<rparr> ''g'',
      OpSubscribe ''t'' \<lparr>si_id = ''b'', si_conn_id = 2\<rparr> ''g''] tm_new)) = [''a'', ''b'', ''a'']"
proof -
  let ?tm = "fold tm_exec [OpSubscribe ''t'' \<lparr>si_id = ''a'', si_conn_id = 1\<rparr> ''g'',
      OpSubscribe ''t'' \<lparr>si_id = ''b'', si_conn_id = 2\<rparr> ''g''] tm_new"
  let ?grp = "\<lparr>group_id = ''g'', cg_topic_name = ''t'',
      members = [\<lparr>subscriber_id = ''a'', cm_conn_id = 1\<rparr>, \<lparr>subscriber_id = ''b'', cm_conn_id = 2\<rparr>],
      round_robin_index = 0\<rparr>"
  have "GetConsumerGroup ?tm ''t'' ''g'' = Some ?grp"
    by (simp add: GetConsumerGroup_def Subscribe_def tm_new_def um_has_def um_at_def um_put_Nil
        um_put_conv um_find_Cons Let_def)
  from round_robin_fair [OF this, of 3]
  have "fst (select_times 3 ''t'' ''g'' ?tm) = map (\<lambda>i. subscriber_id (members ?grp ! (i mod Suc (Suc 0)))) [0..<3]"
    by (simp add: size_max_def)
  also have "[0..<3] = [0, 1, 2 :: nat]"
    by (simp add: upt_rec)
  finally show ?thesis by (simp flip: numeral_2_eq_2)
qed

end
