(* ===== verification/Message_Store.thy ===== *)
theory Message_Store
  imports Ring_Buffer Unordered_Map
begin

text \<open>
  \<^verbatim>\<open>storage/message_store.h\<close> and \<^verbatim>\<open>storage/memory_message_store.h\<close>/\<^verbatim>\<open>.cpp\<close>: the in-memory message
  store. A published message is serialised into the ring buffer of its topic; a pull drains the
  ring into the message log, hands out log messages from the consumer's offset on and then messages
  of the retry queue, and remembers them as pending; an acknowledgement removes them; the two
  background scans move timed-out messages to the retry queue or the dead-letter queue and drop
  expired ones. This theory holds the operations; \<open>Message_Store_Facts\<close> and \<open>Message_Store_Props\<close>
  prove what they do.

  Each operation is the whole call; \<open>Store_Concurrent\<close> shows when an execution by several threads is a
  sequence of whole calls. The readings of the two clocks are arguments: milliseconds of \<open>system_clock\<close> as \<open>u64\<close>, and \<open>steady_clock\<close> in
  nanoseconds. A result \<open>None\<close> of \<open>CreateTopic\<close> and \<open>Publish\<close> is the exception that allocating the
  ring throws; a result \<open>None\<close> of \<open>Pull\<close> would be a drain loop that does not end.
\<close>

subsection \<open>Data\<close>

record StoredMessage =
  sm_id :: MessageId
  sm_topic_name :: TopicName
  sm_payload :: Payload
  timestamp :: u64
  retry_count :: u32
  expires_at :: u64

record PendingMessage =
  pm_msg :: StoredMessage
  pull_time :: time_point

type_synonym pending_map = "(MessageId, PendingMessage) umap"

record TopicData =
  td_topic_name :: TopicName
  ring_buffer :: SpscRingBuffer
  message_log :: "StoredMessage list"
  retry_queue :: "StoredMessage list"
  subscriber_offsets :: "(string, MessageId) umap"
  group_offsets :: "(string, MessageId) umap"
  pending_acks :: "(string, pending_map) umap"
  next_msg_id :: MessageId

record MemoryMessageStore =
  ms_topics :: "(TopicName, TopicData) umap"
  dlq_storage :: "(TopicName, StoredMessage list) umap"
  ms_default_buffer_size :: nat
  ms_max_retry_count :: u32
  ms_pending_timeout_ms :: u32

definition ms_new :: "nat \<Rightarrow> u32 \<Rightarrow> u32 \<Rightarrow> MemoryMessageStore" where
  "ms_new default_buffer_size max_retries pending_timeout =
     \<lparr>ms_topics = [], dlq_storage = [], ms_default_buffer_size = default_buffer_size,
      ms_max_retry_count = max_retries, ms_pending_timeout_ms = pending_timeout\<rparr>"

definition MakeDlqName :: "TopicName \<Rightarrow> TopicName" where
  "MakeDlqName topic = ''__dlq.'' @ topic"

definition MakeConsumerKey :: "bool \<Rightarrow> string \<Rightarrow> string" where
  "MakeConsumerKey is_group cid = (if is_group then ''grp:'' @ cid else ''sub:'' @ cid)"

definition IsMessageExpired :: "u64 \<Rightarrow> StoredMessage \<Rightarrow> bool" where
  "IsMessageExpired now_ms msg = (if expires_at msg = 0 then False else now_ms > expires_at msg)"

text \<open>The test that the loops write out themselves.\<close>

definition expired :: "u64 \<Rightarrow> StoredMessage \<Rightarrow> bool" where
  "expired now_ms msg \<longleftrightarrow> expires_at msg > 0 \<and> now_ms > expires_at msg"

subsection \<open>Topics\<close>

definition new_topic :: "nat \<Rightarrow> TopicName \<Rightarrow> TopicData option" where
  "new_topic buffer_size topic =
     (case rb_new buffer_size of
        None \<Rightarrow> None
      | Some rb \<Rightarrow> Some \<lparr>td_topic_name = topic, ring_buffer = rb, message_log = [], retry_queue = [],
          subscriber_offsets = [], group_offsets = [], pending_acks = [], next_msg_id = 1\<rparr>)"

definition CreateTopic :: "TopicName \<Rightarrow> MemoryMessageStore \<Rightarrow> (bool \<times> MemoryMessageStore) option" where
  "CreateTopic topic s =
     (if um_has (ms_topics s) topic then Some (False, s)
      else case new_topic (ms_default_buffer_size s) topic of
          None \<Rightarrow> None
        | Some td \<Rightarrow> Some (True, s\<lparr>ms_topics := um_put topic td (ms_topics s)\<rparr>))"

definition DeleteTopic :: "TopicName \<Rightarrow> MemoryMessageStore \<Rightarrow> bool \<times> MemoryMessageStore" where
  "DeleteTopic topic s =
     (if \<not> um_has (ms_topics s) topic then (False, s)
      else (True, s\<lparr>ms_topics := um_erase topic (ms_topics s),
                    dlq_storage := um_erase (MakeDlqName topic) (dlq_storage s)\<rparr>))"

definition ms_HasTopic :: "MemoryMessageStore \<Rightarrow> TopicName \<Rightarrow> bool" where
  "ms_HasTopic s topic = um_has (ms_topics s) topic"

subsection \<open>Publishing\<close>

definition serialize :: "MessageId \<Rightarrow> u64 \<Rightarrow> u64 \<Rightarrow> Payload \<Rightarrow> byte list" where
  "serialize mid ts expiry p =
     be_bytes 8 mid @ be_bytes 8 ts @ be_bytes 8 expiry @ be_bytes 4 (of_nat (length p) :: u32) @ p"

definition Publish :: "TopicName \<Rightarrow> Payload \<Rightarrow> u32 \<Rightarrow> u64 \<Rightarrow> u64 \<Rightarrow> MemoryMessageStore
    \<Rightarrow> ((bool \<times> MessageId) \<times> MemoryMessageStore) option" where
  "Publish topic p ttl_ms now_expiry now_ts s =
     (case (case um_find (ms_topics s) topic of
              None \<Rightarrow> new_topic (ms_default_buffer_size s) topic
            | Some td \<Rightarrow> Some td) of
        None \<Rightarrow> None
      | Some td \<Rightarrow>
          let out_msg_id = next_msg_id td;
              expiry = (if ttl_ms > 0 then now_expiry + ucast ttl_ms else 0);
              (ok, rb) = rb_Push (ring_buffer td) (serialize out_msg_id now_ts expiry p);
              td' = td\<lparr>next_msg_id := out_msg_id + 1, ring_buffer := rb\<rparr>
          in Some ((ok, out_msg_id), s\<lparr>ms_topics := um_put topic td' (ms_topics s)\<rparr>))"

subsection \<open>Draining the ring\<close>

definition parse_entry :: "byte list \<Rightarrow> StoredMessage option" where
  "parse_entry buf =
     (if length buf < 28 then None
      else
        let mid = be_read 0 (take 8 buf);
            ts = be_read 0 (take 8 (drop 8 buf));
            expiry = be_read 0 (take 8 (drop 16 buf));
            payload_size = be_read (0 :: u32) (take 4 (drop 24 buf))
        in if length buf < size_add 28 (unat payload_size) then None
           else Some \<lparr>sm_id = mid, sm_topic_name = [], sm_payload = take (unat payload_size) (drop 28 buf),
                  timestamp = ts, retry_count = 0, expires_at = expiry\<rparr>)"

definition drain_entry :: "byte list \<Rightarrow> StoredMessage list \<Rightarrow> StoredMessage list" where
  "drain_entry buf log = (case parse_entry buf of None \<Rightarrow> log | Some msg \<Rightarrow> log @ [msg])"

definition DrainRingBuffer :: "TopicData \<Rightarrow> TopicData option" where
  "DrainRingBuffer td =
     (case pop_loop rb_Pop drain_entry (ring_buffer td) (message_log td) of
        None \<Rightarrow> None
      | Some (rb, log) \<Rightarrow> Some (td\<lparr>ring_buffer := rb, message_log := log\<rparr>))"

subsection \<open>Pulling\<close>

text \<open>
  The two loops of \<open>Pull\<close>. \<open>clk k\<close> is the reading of \<open>steady_clock\<close> for the message at position \<open>k\<close>
  of the result.
\<close>

fun pull_log :: "nat \<Rightarrow> u64 \<Rightarrow> (nat \<Rightarrow> time_point) \<Rightarrow> string \<Rightarrow> StoredMessage list
    \<Rightarrow> MessageId \<times> (string, pending_map) umap \<times> StoredMessage list
    \<Rightarrow> MessageId \<times> (string, pending_map) umap \<times> StoredMessage list" where
  "pull_log max_messages now_ms clk key [] st = st"
| "pull_log max_messages now_ms clk key (msg # log) (offset, pa, result) =
     (if length result \<ge> max_messages then (offset, pa, result)
      else if sm_id msg \<ge> offset then
        if expired now_ms msg then
          pull_log max_messages now_ms clk key log (sm_id msg + 1, pa, result)
        else
          let pm = um_at [] pa key in
          if um_find pm (sm_id msg) = None then
            let pm' = um_put (sm_id msg) \<lparr>pm_msg = msg, pull_time = clk (length result)\<rparr> pm
            in pull_log max_messages now_ms clk key log (sm_id msg + 1, um_put key pm' pa, result @ [msg])
          else pull_log max_messages now_ms clk key log (offset, um_put key pm pa, result)
      else pull_log max_messages now_ms clk key log (offset, pa, result))"

fun pull_retry :: "nat \<Rightarrow> u64 \<Rightarrow> (nat \<Rightarrow> time_point) \<Rightarrow> string \<Rightarrow> StoredMessage list
    \<Rightarrow> (string, pending_map) umap \<times> StoredMessage list
    \<Rightarrow> StoredMessage list \<times> (string, pending_map) umap \<times> StoredMessage list" where
  "pull_retry max_messages now_ms clk key [] (pa, result) = ([], pa, result)"
| "pull_retry max_messages now_ms clk key (msg # queue) (pa, result) =
     (if length result \<ge> max_messages then (msg # queue, pa, result)
      else if expired now_ms msg then pull_retry max_messages now_ms clk key queue (pa, result)
      else
        let pm = um_at [] pa key in
        if um_find pm (sm_id msg) = None then
          let pm' = um_put (sm_id msg) \<lparr>pm_msg = msg, pull_time = clk (length result)\<rparr> pm
          in pull_retry max_messages now_ms clk key queue (um_put key pm' pa, result @ [msg])
        else
          let (queue', pa', result') = pull_retry max_messages now_ms clk key queue (um_put key pm pa, result)
          in (msg # queue', pa', result'))"

definition td_offset :: "bool \<Rightarrow> string \<Rightarrow> TopicData \<Rightarrow> MessageId" where
  "td_offset is_group key td =
     (let offset = um_at 0 (if is_group then group_offsets td else subscriber_offsets td) key
      in if offset = 0 then 1 else offset)"

definition set_offset :: "bool \<Rightarrow> string \<Rightarrow> MessageId \<Rightarrow> TopicData \<Rightarrow> TopicData" where
  "set_offset is_group key offset td =
     (if is_group then td\<lparr>group_offsets := um_put key offset (group_offsets td)\<rparr>
      else td\<lparr>subscriber_offsets := um_put key offset (subscriber_offsets td)\<rparr>)"

definition pull_topic :: "string \<Rightarrow> u32 \<Rightarrow> bool \<Rightarrow> u64 \<Rightarrow> (nat \<Rightarrow> time_point) \<Rightarrow> TopicData
    \<Rightarrow> StoredMessage list \<times> TopicData" where
  "pull_topic consumer_id max_messages is_group now_ms clk td =
     (let key = MakeConsumerKey is_group consumer_id;
          n = unat max_messages;
          (offset, pa, result) = pull_log n now_ms clk key (message_log td)
             (td_offset is_group key td, pending_acks td, []);
          (queue, pa', result') = pull_retry n now_ms clk key (retry_queue td) (pa, result)
      in (result', (set_offset is_group key offset td)\<lparr>pending_acks := pa', retry_queue := queue\<rparr>))"

definition Pull :: "TopicName \<Rightarrow> string \<Rightarrow> u32 \<Rightarrow> bool \<Rightarrow> u64 \<Rightarrow> (nat \<Rightarrow> time_point) \<Rightarrow> MemoryMessageStore
    \<Rightarrow> (StoredMessage list \<times> MemoryMessageStore) option" where
  "Pull topic consumer_id max_messages is_group now_ms clk s =
     (case um_find (ms_topics s) topic of
        None \<Rightarrow> Some ([], s)
      | Some td \<Rightarrow>
          (case DrainRingBuffer td of
             None \<Rightarrow> None
           | Some td1 \<Rightarrow>
               let (result, td2) = pull_topic consumer_id max_messages is_group now_ms clk td1
               in Some (result, s\<lparr>ms_topics := um_put topic td2 (ms_topics s)\<rparr>)))"

subsection \<open>Acknowledging, dead letters\<close>

definition Ack :: "TopicName \<Rightarrow> string \<Rightarrow> MessageId \<Rightarrow> bool \<Rightarrow> MemoryMessageStore \<Rightarrow> bool \<times> MemoryMessageStore" where
  "Ack topic consumer_id mid is_group s =
     (case um_find (ms_topics s) topic of
        None \<Rightarrow> (False, s)
      | Some td \<Rightarrow>
          let key = MakeConsumerKey is_group consumer_id;
              pm = um_at [] (pending_acks td) key;
              store = (\<lambda>pm'. s\<lparr>ms_topics :=
                um_put topic (td\<lparr>pending_acks := um_put key pm' (pending_acks td)\<rparr>) (ms_topics s)\<rparr>)
          in if um_find pm mid = None then (False, store pm) else (True, store (um_erase mid pm)))"

definition PullDlq :: "TopicName \<Rightarrow> u32 \<Rightarrow> MemoryMessageStore \<Rightarrow> StoredMessage list \<times> MemoryMessageStore" where
  "PullDlq topic max_messages s =
     (case um_find (dlq_storage s) (MakeDlqName topic) of
        None \<Rightarrow> ([], s)
      | Some dlq \<Rightarrow>
          let count = min (unat max_messages) (length dlq)
          in (take count dlq, s\<lparr>dlq_storage := um_put (MakeDlqName topic) (drop count dlq) (dlq_storage s)\<rparr>))"

subsection \<open>The background scans\<close>

text \<open>\<open>duration_cast<milliseconds>\<close> of nanoseconds rounds towards zero.\<close>

definition duration_ms :: "int \<Rightarrow> int" where
  "duration_ms ns = (if ns \<ge> 0 then ns div 1000000 else - ((- ns) div 1000000))"

definition timed_out :: "u32 \<Rightarrow> time_point \<Rightarrow> PendingMessage \<Rightarrow> bool" where
  "timed_out timeout_ms now p \<longleftrightarrow> duration_ms (now - pull_time p) \<ge> int (unat timeout_ms)"

text \<open>
  The inner loop of \<open>ProcessPendingRetries\<close> over one pending map: the retry queue, the dead letters
  of the topic and \<open>to_remove\<close> afterwards.
\<close>

fun retry_entries :: "u32 \<Rightarrow> u32 \<Rightarrow> time_point \<Rightarrow> u64 \<Rightarrow> pending_map
    \<Rightarrow> StoredMessage list \<times> StoredMessage list \<times> MessageId list
    \<Rightarrow> StoredMessage list \<times> StoredMessage list \<times> MessageId list" where
  "retry_entries max_retries timeout_ms now now_ms [] st = st"
| "retry_entries max_retries timeout_ms now now_ms ((mid, p) # pm) (rq, dlq, to_remove) =
     (if timed_out timeout_ms now p then
        if expired now_ms (pm_msg p) then
          retry_entries max_retries timeout_ms now now_ms pm (rq, dlq, to_remove @ [mid])
        else if retry_count (pm_msg p) \<ge> max_retries then
          retry_entries max_retries timeout_ms now now_ms pm (rq, dlq @ [pm_msg p], to_remove @ [mid])
        else
          let rq' = filter (\<lambda>m. sm_id m \<noteq> mid) rq @
                [(pm_msg p)\<lparr>retry_count := retry_count (pm_msg p) + 1\<rparr>]
          in retry_entries max_retries timeout_ms now now_ms pm (rq', dlq, to_remove @ [mid])
      else retry_entries max_retries timeout_ms now now_ms pm (rq, dlq, to_remove))"

text \<open>The outer loop over the consumers: the updated maps and \<open>empty_consumer_keys\<close> as well.\<close>

fun retry_consumers :: "u32 \<Rightarrow> u32 \<Rightarrow> time_point \<Rightarrow> u64 \<Rightarrow> (string, pending_map) umap
    \<Rightarrow> StoredMessage list \<times> StoredMessage list
    \<Rightarrow> (string, pending_map) umap \<times> string list \<times> StoredMessage list \<times> StoredMessage list" where
  "retry_consumers max_retries timeout_ms now now_ms [] (rq, dlq) = ([], [], rq, dlq)"
| "retry_consumers max_retries timeout_ms now now_ms ((key, pm) # pa) (rq, dlq) =
     (let (rq1, dlq1, to_remove) = retry_entries max_retries timeout_ms now now_ms pm (rq, dlq, []);
          pm' = fold um_erase to_remove pm;
          (pa', empty_keys, rq2, dlq2) = retry_consumers max_retries timeout_ms now now_ms pa (rq1, dlq1)
      in ((key, pm') # pa', if pm' = [] then key # empty_keys else empty_keys, rq2, dlq2))"

definition ProcessPendingRetries :: "time_point \<Rightarrow> u64 \<Rightarrow> TopicData \<Rightarrow> MemoryMessageStore
    \<Rightarrow> TopicData \<times> MemoryMessageStore" where
  "ProcessPendingRetries now now_ms td s =
     (let name = MakeDlqName (td_topic_name td);
          old = um_find (dlq_storage s) name;
          (pa, empty_keys, rq, dlq) = retry_consumers (ms_max_retry_count s) (ms_pending_timeout_ms s)
             now now_ms (pending_acks td) (retry_queue td, case old of None \<Rightarrow> [] | Some d \<Rightarrow> d);
          td' = td\<lparr>pending_acks := fold um_erase empty_keys pa, retry_queue := rq\<rparr>;
          s' = (if old = None \<and> dlq = [] then s else s\<lparr>dlq_storage := um_put name dlq (dlq_storage s)\<rparr>)
      in (td', s'))"

fun expire_consumers :: "u64 \<Rightarrow> (string, pending_map) umap \<Rightarrow> (string, pending_map) umap \<times> string list" where
  "expire_consumers now_ms [] = ([], [])"
| "expire_consumers now_ms ((key, pm) # pa) =
     (let to_remove = map fst (filter (\<lambda>(mid, p). expired now_ms (pm_msg p)) pm);
          pm' = fold um_erase to_remove pm;
          (pa', empty_keys) = expire_consumers now_ms pa
      in ((key, pm') # pa', if pm' = [] then key # empty_keys else empty_keys))"

definition ExpireTopicMessages :: "u64 \<Rightarrow> TopicData \<Rightarrow> TopicData" where
  "ExpireTopicMessages now_ms td =
     (let new_log = filter (\<lambda>m. expires_at m = 0 \<or> now_ms \<le> expires_at m) (message_log td);
          rq = filter (\<lambda>m. \<not> (expires_at m > 0 \<and> now_ms > expires_at m)) (retry_queue td);
          (pa, empty_keys) = expire_consumers now_ms (pending_acks td)
      in td\<lparr>message_log := new_log, retry_queue := rq, pending_acks := fold um_erase empty_keys pa\<rparr>)"

text \<open>
  One round of \<open>RetryLoop\<close> and of \<open>ExpirationLoop\<close>: every topic in turn, each with its own readings of
  the clocks.
\<close>

fun retry_round :: "(TopicName \<Rightarrow> time_point) \<Rightarrow> (TopicName \<Rightarrow> u64) \<Rightarrow> TopicName list \<Rightarrow> MemoryMessageStore
    \<Rightarrow> MemoryMessageStore" where
  "retry_round now now_ms [] s = s"
| "retry_round now now_ms (t # ts) s =
     (case um_find (ms_topics s) t of
        None \<Rightarrow> retry_round now now_ms ts s
      | Some td \<Rightarrow>
          let (td', s') = ProcessPendingRetries (now t) (now_ms t) td s
          in retry_round now now_ms ts (s'\<lparr>ms_topics := um_put t td' (ms_topics s')\<rparr>))"

definition RetryLoop_round :: "(TopicName \<Rightarrow> time_point) \<Rightarrow> (TopicName \<Rightarrow> u64) \<Rightarrow> MemoryMessageStore
    \<Rightarrow> MemoryMessageStore" where
  "RetryLoop_round now now_ms s = retry_round now now_ms (map fst (ms_topics s)) s"

definition ExpirationLoop_round :: "(TopicName \<Rightarrow> u64) \<Rightarrow> MemoryMessageStore \<Rightarrow> MemoryMessageStore" where
  "ExpirationLoop_round now_ms s =
     s\<lparr>ms_topics := map (\<lambda>(t, td). (t, ExpireTopicMessages (now_ms t) td)) (ms_topics s)\<rparr>"

end
