(* ===== verification/Message_Store_Facts.thy ===== *)
theory Message_Store_Facts
  imports Message_Store "HOL-Library.Sublist"
begin

text \<open>
  Lemmas on the operations of the message store: the byte format of the ring entries, what the
  drain, the two pull loops and the background scans compute, in closed form, and the invariant
  \<open>td_inv\<close> of a topic.
\<close>

subsection \<open>The format of ring entries\<close>

definition stored :: "MessageId \<Rightarrow> u64 \<Rightarrow> u64 \<Rightarrow> Payload \<Rightarrow> StoredMessage" where
  "stored mid ts expiry p = \<lparr>sm_id = mid, sm_topic_name = [], sm_payload = p, timestamp = ts,
     retry_count = 0, expires_at = expiry\<rparr>"

definition serialize_msg :: "StoredMessage \<Rightarrow> byte list" where
  "serialize_msg m = serialize (sm_id m) (timestamp m) (expires_at m) (sm_payload m)"

lemma length_serialize [simp]: "length (serialize mid ts expiry p) = 28 + length p"
  by (simp add: serialize_def)

lemma parse_serialize:
  assumes "length p < 2 ^ 32"
  shows "parse_entry (serialize mid ts expiry p) = Some (stored mid ts expiry p)"
proof -
  have "unat (of_nat (length p) :: u32) = length p"
    using assms by (simp add: unat_of_nat)
  moreover have "size_add 28 (length p) = 28 + length p"
    using assms by (intro size_add_exact) (simp add: size_max_def)
  ultimately show ?thesis
    by (simp add: parse_entry_def serialize_def stored_def Let_def)
qed

lemma drain_entry_serialize:
  assumes "length (sm_payload m) < 2 ^ 32" and "sm_topic_name m = []" and "retry_count m = 0"
  shows "drain_entry (serialize_msg m) log = log @ [m]"
  using assms by (simp add: drain_entry_def serialize_msg_def parse_serialize stored_def)

subsection \<open>What a topic holds\<close>

text \<open>
  \<open>td_ring td ms\<close>: the ring of the topic holds exactly the messages \<open>ms\<close>, oldest first. A ring of
  at most \<open>kMaxPayloadSize\<close> bytes cannot hold an entry that \<open>Pop\<close> would refuse.
\<close>

definition fresh_msg :: "StoredMessage \<Rightarrow> bool" where
  "fresh_msg m \<longleftrightarrow> sm_topic_name m = [] \<and> retry_count m = 0"

definition td_ring :: "TopicData \<Rightarrow> StoredMessage list \<Rightarrow> bool" where
  "td_ring td ms \<longleftrightarrow> rb_rep (ring_buffer td) (map serialize_msg ms) \<and> list_all fresh_msg ms \<and>
     rb_capacity (ring_buffer td) \<le> unat kMaxPayloadSize + 1"

definition td_stream :: "TopicData \<Rightarrow> StoredMessage list \<Rightarrow> StoredMessage list" where
  "td_stream td ms = message_log td @ ms"

lemma fold_drain:
  assumes "list_all (\<lambda>m. fresh_msg m \<and> length (sm_payload m) < 2 ^ 32) ms"
  shows "fold drain_entry (map serialize_msg ms) log = log @ ms"
  using assms by (induction ms arbitrary: log) (auto simp: drain_entry_serialize fresh_msg_def)

lemma td_ring_payload:
  assumes "td_ring td ms" and "m \<in> set ms"
  shows "length (sm_payload m) < 2 ^ 32"
proof -
  have "rb_valid (serialize_msg m)"
    using assms rb_repD(2) [of "ring_buffer td" "map serialize_msg ms"]
    by (auto simp: td_ring_def list_all_iff)
  then show ?thesis
    by (simp add: rb_valid_def serialize_msg_def)
qed

lemma rb_capacity_ops [simp]:
  "rb_capacity (snd (rb_Pop rb)) = rb_capacity rb" "rb_capacity (snd (rb_Push rb m)) = rb_capacity rb"
  by (simp_all add: rb_Pop_def rb_Push_def Let_def)

interpretation rbc: bounded_queue "\<lambda>rb ms. rb_rep rb ms \<and> rb_capacity rb = c" rb_valid rb_room rb_Push rb_Pop
  for c
  using rbq.push_accept rbq.push_reject rbq.pop_empty rbq.pop_Cons by unfold_locales auto

lemma DrainRingBuffer_ring:
  assumes "td_ring td ms"
  obtains rb where "DrainRingBuffer td = Some (td\<lparr>ring_buffer := rb, message_log := message_log td @ ms\<rparr>)"
    and "td_ring (td\<lparr>ring_buffer := rb, message_log := message_log td @ ms\<rparr>) []"
proof -
  have rep: "rb_rep (ring_buffer td) (map serialize_msg ms)"
    using assms by (simp add: td_ring_def)
  have "fold drain_entry (map serialize_msg ms) (message_log td) = message_log td @ ms"
    using assms td_ring_payload [OF assms] by (intro fold_drain) (auto simp: td_ring_def list_all_iff)
  then obtain rb where loop: "pop_loop rb_Pop drain_entry (ring_buffer td) (message_log td) =
      Some (rb, message_log td @ ms)" and "rb_rep rb []" and "rb_capacity rb = rb_capacity (ring_buffer td)"
    using rbc.pop_loop_drains [of "ring_buffer td" "map serialize_msg ms" "rb_capacity (ring_buffer td)"
        drain_entry "message_log td"] rep by auto
  then show ?thesis
    using that [of rb] assms by (simp add: DrainRingBuffer_def td_ring_def)
qed

lemma rb_room_valid:
  assumes "rb_inv rb" and "rb_capacity rb \<le> unat kMaxPayloadSize + 1" and "rb_room rb m"
  shows "rb_valid m"
proof -
  have "rb_GetWritableSize rb < rb_capacity rb"
    using assms(1) by (simp add: rb_GetWritableSize_def rb_inv_def)
  then show ?thesis
    using assms by (auto simp: rb_room_def rb_valid_def)
qed

lemma td_ring_push:
  assumes "td_ring td ms" and "fresh_msg m"
  obtains rb where "rb_Push (ring_buffer td) (serialize_msg m) = (True, rb)"
    and "td_ring (td\<lparr>ring_buffer := rb\<rparr>) (ms @ [m])" and "rb_room (ring_buffer td) (serialize_msg m)"
  | "rb_Push (ring_buffer td) (serialize_msg m) = (False, ring_buffer td)"
    and "\<not> rb_room (ring_buffer td) (serialize_msg m)"
proof (cases "rb_room (ring_buffer td) (serialize_msg m)")
  case True
  have rep: "rb_rep (ring_buffer td) (map serialize_msg ms)" and cap: "rb_capacity (ring_buffer td) \<le> unat kMaxPayloadSize + 1"
    using assms(1) by (simp_all add: td_ring_def)
  have valid: "rb_valid (serialize_msg m)"
    using rb_room_valid [OF rb_repD(3) [OF rep] cap True] .
  obtain rb where "rb_Push (ring_buffer td) (serialize_msg m) = (True, rb)"
    "rb_rep rb (map serialize_msg (ms @ [m]))" "rb_capacity rb = rb_capacity (ring_buffer td)"
    using rbc.push_accept [of "ring_buffer td" "map serialize_msg ms" _ "serialize_msg m"] rep valid True
    by (auto simp: prod_eq_iff)
  then show ?thesis
    using that(1) [of rb] True assms by (simp add: td_ring_def)
next
  case False
  then show ?thesis
    using that(2) assms(1) rbq.push_reject [of "ring_buffer td" "map serialize_msg ms"]
    by (simp add: td_ring_def)
qed

lemma new_topic_ring:
  assumes "new_topic n t = Some td" and "n \<le> unat kMaxPayloadSize"
  shows "td_ring td []"
proof -
  have "n < ptrdiff_max"
    using assms(2) by (simp add: ptrdiff_max_def)
  then obtain rb where "rb_new n = Some rb" "rb_rep rb []" "rb_capacity rb = n + 1"
    using rb_new_rep [of n] by blast
  then show ?thesis
    using assms by (auto simp: new_topic_def td_ring_def)
qed

lemma new_topic_total: "n \<le> unat kMaxPayloadSize \<Longrightarrow> \<exists>td. new_topic n t = Some td"
  using rb_new_rep [of n] by (force simp: new_topic_def ptrdiff_max_def)

subsection \<open>The pull loops\<close>

text \<open>
  Handing out a message: it becomes pending for the consumer. \<open>handed_out\<close> is the pending map after a
  list of messages was handed out, the first at position \<open>k\<close> of the result.
\<close>

fun handed_out :: "(nat \<Rightarrow> time_point) \<Rightarrow> nat \<Rightarrow> StoredMessage list \<Rightarrow> pending_map \<Rightarrow> pending_map" where
  "handed_out clk k [] pm = pm"
| "handed_out clk k (m # ms) pm =
     handed_out clk (Suc k) ms (um_put (sm_id m) \<lparr>pm_msg = m, pull_time = clk k\<rparr> pm)"

lemma um_wf_handed_out: "um_wf pm \<Longrightarrow> um_wf (handed_out clk k ms pm)"
  by (induction clk k ms pm rule: handed_out.induct) (simp_all add: um.wf_put)

lemma find_handed_out_other:
  "mid \<notin> sm_id ` set ms \<Longrightarrow> um_find (handed_out clk k ms pm) mid = um_find pm mid"
  by (induction clk k ms pm rule: handed_out.induct) auto

lemma find_handed_out:
  "distinct (map sm_id ms) \<Longrightarrow> m \<in> set ms \<Longrightarrow>
     \<exists>t. um_find (handed_out clk k ms pm) (sm_id m) = Some \<lparr>pm_msg = m, pull_time = t\<rparr>"
proof (induction clk k ms pm rule: handed_out.induct)
  case (2 clk k x ms pm)
  then show ?case
    by (cases "m = x") (auto simp: find_handed_out_other)
qed simp

text \<open>The messages of the log that the first loop hands out.\<close>

definition log_candidates :: "u64 \<Rightarrow> MessageId \<Rightarrow> pending_map \<Rightarrow> StoredMessage list \<Rightarrow> StoredMessage list" where
  "log_candidates now_ms offset pm log =
     filter (\<lambda>m. offset \<le> sm_id m \<and> \<not> expired now_ms m \<and> um_find pm (sm_id m) = None) log"

definition ids_increase :: "StoredMessage list \<Rightarrow> bool" where
  "ids_increase ms \<longleftrightarrow> sorted_wrt (\<lambda>a b. sm_id a < sm_id b) ms"

lemma ids_increase_Cons: "ids_increase (m # ms) \<longleftrightarrow> (\<forall>x \<in> set ms. sm_id m < sm_id x) \<and> ids_increase ms"
  by (simp add: ids_increase_def)

lemma ids_increase_append:
  "ids_increase (xs @ ys) \<longleftrightarrow>
     ids_increase xs \<and> ids_increase ys \<and> (\<forall>x \<in> set xs. \<forall>y \<in> set ys. sm_id x < sm_id y)"
  by (auto simp: ids_increase_def sorted_wrt_append)

lemma ids_increase_distinct: "ids_increase ms \<Longrightarrow> distinct (map sm_id ms)"
  by (induction ms) (auto simp: ids_increase_Cons)

lemma ids_increase_filter: "ids_increase ms \<Longrightarrow> ids_increase (filter P ms)"
  by (simp add: ids_increase_def sorted_wrt_filter)

lemma ids_increase_take: "ids_increase ms \<Longrightarrow> ids_increase (take n ms)"
  by (simp add: ids_increase_def sorted_wrt_take)

lemma log_candidates_Cons:
  "log_candidates now_ms offset pm (m # log) =
     (if offset \<le> sm_id m \<and> \<not> expired now_ms m \<and> um_find pm (sm_id m) = None
      then m # log_candidates now_ms offset pm log else log_candidates now_ms offset pm log)"
  by (simp add: log_candidates_def)

lemma log_candidates_cong:
  assumes "\<And>m. m \<in> set log \<Longrightarrow> (offset \<le> sm_id m \<longleftrightarrow> offset' \<le> sm_id m) \<and>
      um_find pm (sm_id m) = um_find pm' (sm_id m)"
  shows "log_candidates now_ms offset pm log = log_candidates now_ms offset' pm' log"
  using assms unfolding log_candidates_def by (intro filter_cong) auto

lemma word_Suc_le: "a < (b :: 'a::len word) \<Longrightarrow> a + 1 \<le> b"
  by (rule inc_le)

text \<open>The five ways one turn of the loop over the log can go.\<close>

lemma pull_log_turn:
  obtains (full) "n \<le> length result" | (old) "length result < n" "\<not> offset \<le> sm_id msg"
  | (gone) "length result < n" "offset \<le> sm_id msg" "expired now_ms msg"
  | (hand) "length result < n" "offset \<le> sm_id msg" "\<not> expired now_ms msg" "um_find pm (sm_id msg) = None"
  | (skip) "length result < n" "offset \<le> sm_id msg" "\<not> expired now_ms msg" "um_find pm (sm_id msg) \<noteq> None"
  by linarith

lemma pull_log_result:
  assumes "ids_increase log"
  shows "pull_log n now_ms clk key log (offset, pa, result) = (offset', pa', result') \<Longrightarrow>
    result' = result @ take (n - length result) (log_candidates now_ms offset (um_at [] pa key) log) \<and>
    um_at [] pa' key = handed_out clk (length result)
      (take (n - length result) (log_candidates now_ms offset (um_at [] pa key) log)) (um_at [] pa key)"
  using assms
proof (induction n now_ms clk key log "(offset, pa, result)" arbitrary: offset pa result
    rule: pull_log.induct)
  case (1 n now_ms clk key)
  then show ?case by (simp add: log_candidates_def)
next
  case (2 n now_ms clk key msg log offset pa result)
  have inc: "ids_increase log" and later: "\<And>m. m \<in> set log \<Longrightarrow> sm_id msg < sm_id m"
    using "2.prems"(2) by (auto simp: ids_increase_Cons)
  then have past: "sm_id msg + 1 \<le> sm_id m" if "m \<in> set log" for m
    using that word_Suc_le by blast
  let ?pm = "um_at [] pa key"
  have cand: "log_candidates now_ms (sm_id msg + 1) pm log = log_candidates now_ms offset ?pm log"
    if "offset \<le> sm_id msg" "\<And>m. m \<in> set log \<Longrightarrow> um_find pm (sm_id m) = um_find ?pm (sm_id m)" for pm
    using past later that by (intro log_candidates_cong) force
  show ?case
  proof (cases rule: pull_log_turn [where n = n and result = result and offset = offset and msg = msg and now_ms = now_ms and pm = ?pm])
    case full
    then show ?thesis using "2.prems"(1) by simp
  next
    case old
    then show ?thesis using "2.prems"(1) "2.hyps"(4) inc by (simp add: log_candidates_def)
  next
    case gone
    have c: "log_candidates now_ms offset ?pm (msg # log) = log_candidates now_ms (sm_id msg + 1) ?pm log"
      using gone cand by (simp add: log_candidates_def)
    show ?thesis
      unfolding c using gone "2.prems"(1) "2.hyps"(1) inc by simp
  next
    case hand
    let ?pm' = "um_put (sm_id msg) \<lparr>pm_msg = msg, pull_time = clk (length result)\<rparr> ?pm"
    have "um_find ?pm' (sm_id m) = um_find ?pm (sm_id m)" if "m \<in> set log" for m
      using later [OF that] by auto
    then have "log_candidates now_ms (sm_id msg + 1) ?pm' log = log_candidates now_ms offset ?pm log"
      by (intro cand hand)
    with hand have c: "log_candidates now_ms offset ?pm (msg # log) =
        msg # log_candidates now_ms (sm_id msg + 1) ?pm' log"
      by (simp add: log_candidates_Cons)
    have "n - length result = Suc (n - Suc (length result))"
      using hand(1) by simp
    then show ?thesis
      unfolding c using hand "2.prems"(1) "2.hyps"(2) [of ?pm ?pm'] inc by (simp add: Let_def)
  next
    case skip
    then have c: "log_candidates now_ms offset ?pm (msg # log) = log_candidates now_ms offset ?pm log"
      by (simp add: log_candidates_def)
    show ?thesis
      unfolding c using skip "2.prems"(1) "2.hyps"(3) [of ?pm] inc by (auto simp: Let_def)
  qed
qed

lemma pull_log_other:
  "pull_log n now_ms clk key log (offset, pa, result) = (offset', pa', result') \<Longrightarrow> k \<noteq> key \<Longrightarrow>
     um_find pa' k = um_find pa k"
  by (induction n now_ms clk key log "(offset, pa, result)" arbitrary: offset pa result
      rule: pull_log.induct) (auto simp: Let_def split: if_splits)

lemma pull_log_wf:
  "pull_log n now_ms clk key log (offset, pa, result) = (offset', pa', result') \<Longrightarrow> um_wf pa \<Longrightarrow> um_wf pa'"
  by (induction n now_ms clk key log "(offset, pa, result)" arbitrary: offset pa result
      rule: pull_log.induct) (auto simp: Let_def um.wf_put split: if_splits)

lemma less_inc:
  assumes "a < (b :: 'a::len word)"
  shows "a < a + 1"
proof -
  have "unat a + 1 \<le> unat b"
    using assms by (simp add: word_less_nat_alt)
  also have "unat b < 2 ^ LENGTH('a)"
    by (rule unsigned_less)
  finally have "unat (a + 1) = unat a + 1"
    by (simp add: unat_word_ariths)
  then show ?thesis
    by (simp add: word_less_nat_alt)
qed

text \<open>
  The offset only moves forward, past everything that was handed out, and what it passes was handed
  out, had expired, or was pending already.
\<close>

definition offset_moves :: "u64 \<Rightarrow> MessageId \<Rightarrow> MessageId \<Rightarrow> MessageId \<Rightarrow> pending_map \<Rightarrow> StoredMessage list
    \<Rightarrow> StoredMessage list \<Rightarrow> bool" where
  "offset_moves now_ms bound offset offset' pm log handed \<longleftrightarrow>
     offset \<le> offset' \<and> offset' \<le> bound \<and> (\<forall>m \<in> set handed. sm_id m < offset') \<and>
     (\<forall>m \<in> set log. offset \<le> sm_id m \<and> sm_id m < offset' \<longrightarrow>
        m \<in> set handed \<or> expired now_ms m \<or> um_find pm (sm_id m) \<noteq> None)"

lemma pull_log_offset:
  assumes "ids_increase log" and "\<And>m. m \<in> set log \<Longrightarrow> sm_id m < bound" and "offset \<le> bound"
    and "pull_log n now_ms clk key log (offset, pa, result) = (offset', pa', result')"
  shows "\<exists>handed. result' = result @ handed \<and> offset_moves now_ms bound offset offset' (um_at [] pa key) log handed"
  using assms
proof (induction n now_ms clk key log "(offset, pa, result)" arbitrary: offset pa result
    rule: pull_log.induct)
  case (1 n now_ms clk key)
  then show ?case by (auto simp: offset_moves_def)
next
  case (2 n now_ms clk key msg log offset pa result)
  let ?pm = "um_at [] pa key"
  have inc: "ids_increase log" and bnd: "\<And>m. m \<in> set log \<Longrightarrow> sm_id m < bound" "sm_id msg < bound"
    and later: "\<And>m. m \<in> set log \<Longrightarrow> sm_id msg < sm_id m"
    using "2.prems" by (auto simp: ids_increase_Cons)
  have next_id: "sm_id msg + 1 \<le> bound" "sm_id msg < sm_id msg + 1"
    using bnd(2) by (auto intro: inc_le less_inc)
  have past: "sm_id msg + 1 \<le> sm_id m" if "m \<in> set log" for m
    using later [OF that] by (rule inc_le)
  show ?case
  proof (cases rule: pull_log_turn [where n = n and result = result and offset = offset and msg = msg and now_ms = now_ms and pm = ?pm])
    case full
    then show ?thesis using "2.prems" by (auto simp: offset_moves_def)
  next
    case old
    then show ?thesis
      using "2.hyps"(4) [OF _ _ inc bnd(1)] "2.prems" by (auto simp: offset_moves_def)
  next
    case gone
    then obtain handed where "result' = result @ handed"
      and mv: "offset_moves now_ms bound (sm_id msg + 1) offset' ?pm log handed"
      using "2.hyps"(1) [OF _ _ _ inc bnd(1) next_id(1)] "2.prems"(4) by auto
    then show ?thesis
      using gone next_id past unfolding offset_moves_def by (auto intro: order.trans less_imp_le)
  next
    case hand
    let ?pm' = "um_put (sm_id msg) \<lparr>pm_msg = msg, pull_time = clk (length result)\<rparr> ?pm"
    obtain handed where r: "result' = result @ msg # handed"
      and mv: "offset_moves now_ms bound (sm_id msg + 1) offset' ?pm' log handed"
      using "2.hyps"(2) [OF _ _ _ refl _ refl inc bnd(1) next_id(1)] "2.prems"(4) hand by (auto simp: Let_def)
    have "sm_id m \<noteq> sm_id msg" if "m \<in> set log" for m
      using later [OF that] by simp
    then have "offset_moves now_ms bound offset offset' ?pm (msg # log) (msg # handed)"
      using mv hand next_id past unfolding offset_moves_def
      by (auto intro: order.trans less_imp_le less_le_trans)
    with r show ?thesis by blast
  next
    case skip
    then obtain handed where "result' = result @ handed" "offset_moves now_ms bound offset offset' ?pm log handed"
      using "2.hyps"(3) [OF _ _ _ refl _ inc bnd(1) "2.prems"(3)] "2.prems"(4) by (auto simp: Let_def)
    with skip show ?thesis by (auto simp: offset_moves_def)
  qed
qed

text \<open>The messages of the retry queue that the second loop hands out.\<close>

definition retry_candidates :: "u64 \<Rightarrow> pending_map \<Rightarrow> StoredMessage list \<Rightarrow> StoredMessage list" where
  "retry_candidates now_ms pm queue =
     filter (\<lambda>m. \<not> expired now_ms m \<and> um_find pm (sm_id m) = None) queue"

lemma retry_candidates_Cons:
  "retry_candidates now_ms pm (m # queue) =
     (if \<not> expired now_ms m \<and> um_find pm (sm_id m) = None
      then m # retry_candidates now_ms pm queue else retry_candidates now_ms pm queue)"
  by (simp add: retry_candidates_def)

lemma retry_candidates_cong:
  assumes "\<And>m. m \<in> set queue \<Longrightarrow> um_find pm (sm_id m) = um_find pm' (sm_id m)"
  shows "retry_candidates now_ms pm queue = retry_candidates now_ms pm' queue"
  using assms unfolding retry_candidates_def by (intro filter_cong) auto

definition retry_taken :: "u64 \<Rightarrow> StoredMessage list \<Rightarrow> StoredMessage list \<Rightarrow> StoredMessage list \<Rightarrow> bool" where
  "retry_taken now_ms queue handed queue' \<longleftrightarrow>
     subseq queue' queue \<and> set handed \<inter> set queue' = {} \<and>
     (\<forall>m \<in> set queue. m \<in> set queue' \<or> m \<in> set handed \<or> expired now_ms m)"

lemma retry_taken_Cons:
  assumes "retry_taken now_ms queue handed queue'" and "m \<notin> set queue"
  shows "m \<notin> set handed \<Longrightarrow> retry_taken now_ms (m # queue) handed (m # queue')"
    and "retry_taken now_ms (m # queue) (m # handed) queue'"
    and "expired now_ms m \<Longrightarrow> retry_taken now_ms (m # queue) handed queue'"
proof -
  have "set queue' \<subseteq> set queue"
    using assms(1) by (auto simp: retry_taken_def dest: list_emb_set)
  then have "m \<notin> set queue'" using assms(2) by blast
  then show "m \<notin> set handed \<Longrightarrow> retry_taken now_ms (m # queue) handed (m # queue')"
    and "retry_taken now_ms (m # queue) (m # handed) queue'"
    and "expired now_ms m \<Longrightarrow> retry_taken now_ms (m # queue) handed queue'"
    using assms(1) by (auto simp: retry_taken_def)
qed

lemma pull_retry_result:
  assumes "distinct (map sm_id queue)"
  shows "pull_retry n now_ms clk key queue (pa, result) = (queue', pa', result') \<Longrightarrow>
    (let handed = take (n - length result) (retry_candidates now_ms (um_at [] pa key) queue) in
       result' = result @ handed \<and>
       um_at [] pa' key = handed_out clk (length result) handed (um_at [] pa key) \<and>
       retry_taken now_ms queue handed queue')"
  using assms
proof (induction n now_ms clk key queue "(pa, result)" arbitrary: queue' pa result
    rule: pull_retry.induct)
  case (1 n now_ms clk key)
  then show ?case by (auto simp: retry_candidates_def retry_taken_def)
next
  case (2 n now_ms clk key msg queue pa result)
  let ?pm = "um_at [] pa key"
  have dist: "distinct (map sm_id queue)" and new: "sm_id msg \<notin> sm_id ` set queue" "msg \<notin> set queue"
    using "2.prems"(2) by auto
  have sub: "set (take k (retry_candidates now_ms pm queue)) \<subseteq> set queue" for k pm
    by (auto simp: retry_candidates_def dest: in_set_takeD)
  consider (full) "n \<le> length result" | (gone) "length result < n" "expired now_ms msg"
    | (hand) "length result < n" "\<not> expired now_ms msg" "um_find ?pm (sm_id msg) = None"
    | (skip) "length result < n" "\<not> expired now_ms msg" "um_find ?pm (sm_id msg) \<noteq> None"
    by linarith
  then show ?case
  proof cases
    case full
    then show ?thesis using "2.prems"(1) by (auto simp: retry_taken_def)
  next
    case gone
    then show ?thesis
      using "2.hyps"(1) [OF _ _ _ dist] "2.prems"(1) retry_taken_Cons(3) [OF _ new(2)]
      by (auto simp: retry_candidates_Cons Let_def)
  next
    case hand
    let ?pm' = "um_put (sm_id msg) \<lparr>pm_msg = msg, pull_time = clk (length result)\<rparr> ?pm"
    have "sm_id m \<noteq> sm_id msg" if "m \<in> set queue" for m
      using new(1) that by (metis imageI)
    then have "retry_candidates now_ms ?pm' queue = retry_candidates now_ms ?pm queue"
      by (intro retry_candidates_cong) simp
    moreover have "n - length result = Suc (n - Suc (length result))"
      using hand(1) by simp
    ultimately show ?thesis
      using "2.hyps"(2) [OF _ _ refl _ refl _ dist] "2.prems"(1) hand retry_taken_Cons(2) [OF _ new(2)]
      by (auto simp: retry_candidates_Cons Let_def)
  next
    case skip
    obtain q' where q': "pull_retry n now_ms clk key queue (um_put key ?pm pa, result) = (q', pa', result')"
      and queue': "queue' = msg # q'"
      using "2.prems"(1) skip by (auto simp: Let_def split: prod.splits)
    then show ?thesis
      using "2.hyps"(3) [OF _ _ refl _ q' dist] skip new(2) sub [of "n - length result" ?pm]
        retry_taken_Cons(1) [OF _ new(2)]
      by (auto simp: retry_candidates_Cons Let_def)
  qed
qed

lemma pull_retry_other:
  "pull_retry n now_ms clk key queue (pa, result) = (queue', pa', result') \<Longrightarrow> k \<noteq> key \<Longrightarrow>
     um_find pa' k = um_find pa k"
  by (induction n now_ms clk key queue "(pa, result)" arbitrary: queue' pa result
      rule: pull_retry.induct) (auto simp: Let_def split: if_splits prod.splits)

lemma pull_retry_wf:
  "pull_retry n now_ms clk key queue (pa, result) = (queue', pa', result') \<Longrightarrow> um_wf pa \<Longrightarrow> um_wf pa'"
  by (induction n now_ms clk key queue "(pa, result)" arbitrary: queue' pa result
      rule: pull_retry.induct) (auto simp: Let_def um.wf_put split: if_splits prod.splits)

subsection \<open>The invariant of a topic\<close>

definition pending_ok :: "u32 \<Rightarrow> MessageId \<Rightarrow> MessageId \<Rightarrow> PendingMessage \<Rightarrow> bool" where
  "pending_ok max_retries bound mid p \<longleftrightarrow>
     sm_id (pm_msg p) = mid \<and> mid < bound \<and> retry_count (pm_msg p) \<le> max_retries"

definition pm_ok :: "u32 \<Rightarrow> MessageId \<Rightarrow> pending_map \<Rightarrow> bool" where
  "pm_ok max_retries bound pm \<longleftrightarrow>
     um_wf pm \<and> (\<forall>mid p. um_find pm mid = Some p \<longrightarrow> pending_ok max_retries bound mid p)"

definition td_inv :: "u32 \<Rightarrow> TopicData \<Rightarrow> StoredMessage list \<Rightarrow> bool" where
  "td_inv max_retries td ms \<longleftrightarrow>
     td_ring td ms \<and> 1 \<le> next_msg_id td \<and>
     ids_increase (td_stream td ms) \<and> list_all fresh_msg (message_log td) \<and>
     (\<forall>m \<in> set (td_stream td ms). 1 \<le> sm_id m \<and> sm_id m < next_msg_id td) \<and>
     um_wf (pending_acks td) \<and>
     (\<forall>k pm. um_find (pending_acks td) k = Some pm \<longrightarrow> pm_ok max_retries (next_msg_id td) pm) \<and>
     distinct (map sm_id (retry_queue td)) \<and>
     (\<forall>m \<in> set (retry_queue td). sm_id m < next_msg_id td \<and> retry_count m \<le> max_retries) \<and>
     (\<forall>g k. td_offset g k td \<le> next_msg_id td)"

text \<open>Every message a topic holds, wherever it is.\<close>

definition td_messages :: "TopicData \<Rightarrow> StoredMessage list \<Rightarrow> StoredMessage set" where
  "td_messages td ms = set (td_stream td ms) \<union> set (retry_queue td) \<union>
     {pm_msg p | k mid p. um_find (um_at [] (pending_acks td) k) mid = Some p}"

text \<open>What a retry leaves of a message unchanged.\<close>

definition core :: "StoredMessage \<Rightarrow> MessageId \<times> Payload \<times> u64 \<times> u64" where
  "core m = (sm_id m, sm_payload m, timestamp m, expires_at m)"

lemma td_invD:
  assumes "td_inv max_retries td ms"
  shows "td_ring td ms" and "1 \<le> next_msg_id td" and "ids_increase (td_stream td ms)"
    and "list_all fresh_msg (message_log td)"
    and "m \<in> set (td_stream td ms) \<Longrightarrow> 1 \<le> sm_id m \<and> sm_id m < next_msg_id td"
    and "um_wf (pending_acks td)"
    and "um_find (pending_acks td) k = Some pm \<Longrightarrow> pm_ok max_retries (next_msg_id td) pm"
    and "distinct (map sm_id (retry_queue td))"
    and "m \<in> set (retry_queue td) \<Longrightarrow> sm_id m < next_msg_id td \<and> retry_count m \<le> max_retries"
    and "td_offset g k td \<le> next_msg_id td"
  using assms unfolding td_inv_def by blast+

lemma pm_ok_Nil [simp]: "pm_ok max_retries bound []"
  by (simp add: pm_ok_def)

lemma pm_ok_at: "td_inv max_retries td ms \<Longrightarrow> pm_ok max_retries (next_msg_id td) (um_at [] (pending_acks td) k)"
  using td_invD(7) [of max_retries td ms k] by (auto simp: um_at_def split: option.splits)

lemma pm_ok_handed_out:
  "pm_ok max_retries bound pm \<Longrightarrow>
     (\<And>m. m \<in> set ms \<Longrightarrow> sm_id m < bound \<and> retry_count m \<le> max_retries) \<Longrightarrow>
     pm_ok max_retries bound (handed_out clk k ms pm)"
proof (induction clk k ms pm rule: handed_out.induct)
  case (2 clk k m ms pm)
  have "pm_ok max_retries bound (um_put (sm_id m) \<lparr>pm_msg = m, pull_time = clk k\<rparr> pm)"
    using 2(2) 2(3) [of m] by (auto simp: pm_ok_def um.wf_put pending_ok_def)
  then show ?case using 2 by simp
qed simp

lemma handed_out_messages:
  "um_find (handed_out clk k ms pm) mid = Some p \<Longrightarrow> um_find pm mid = Some p \<or> pm_msg p \<in> set ms"
  by (induction clk k ms pm rule: handed_out.induct) (auto split: if_splits)

subsubsection \<open>Pulling\<close>

lemma handed_out_append:
  "handed_out clk k (xs @ ys) pm = handed_out clk (k + length xs) ys (handed_out clk k xs pm)"
  by (induction clk k xs pm rule: handed_out.induct) simp_all

text \<open>The two loops together, on a topic whose ring is empty.\<close>

definition pulled_log :: "nat \<Rightarrow> u64 \<Rightarrow> bool \<Rightarrow> string \<Rightarrow> TopicData \<Rightarrow> StoredMessage list" where
  "pulled_log n now_ms g key td =
     take n (log_candidates now_ms (td_offset g key td) (um_at [] (pending_acks td) key) (message_log td))"

definition pulled_retry :: "nat \<Rightarrow> u64 \<Rightarrow> bool \<Rightarrow> string \<Rightarrow> TopicData \<Rightarrow> StoredMessage list" where
  "pulled_retry n now_ms g key td =
     filter (\<lambda>m. sm_id m \<notin> sm_id ` set (pulled_log n now_ms g key td))
       (retry_candidates now_ms (um_at [] (pending_acks td) key) (retry_queue td))"

lemma set_offset_simps [simp]:
  "td_topic_name (set_offset g k off td) = td_topic_name td"
  "ring_buffer (set_offset g k off td) = ring_buffer td"
  "message_log (set_offset g k off td) = message_log td"
  "retry_queue (set_offset g k off td) = retry_queue td"
  "pending_acks (set_offset g k off td) = pending_acks td"
  "next_msg_id (set_offset g k off td) = next_msg_id td"
  by (simp_all add: set_offset_def)

lemma td_offset_set:
  "td_offset g' k' (set_offset g k off td) =
     (if g' = g \<and> k' = k then (if off = 0 then 1 else off) else td_offset g' k' td)"
  by (simp add: td_offset_def set_offset_def Let_def)

lemma td_offset_pos [simp]: "1 \<le> td_offset g k td"
  by (simp add: td_offset_def Let_def word_le_nat_alt unat_gt_0 Suc_le_eq)

lemma td_offset_update [simp]:
  "td_offset g k (td\<lparr>pending_acks := pa\<rparr>) = td_offset g k td"
  "td_offset g k (td\<lparr>retry_queue := rq\<rparr>) = td_offset g k td"
  "td_offset g k (td\<lparr>ring_buffer := rb\<rparr>) = td_offset g k td"
  "td_offset g k (td\<lparr>message_log := lg\<rparr>) = td_offset g k td"
  "td_offset g k (td\<lparr>next_msg_id := i\<rparr>) = td_offset g k td"
  by (simp_all add: td_offset_def)

lemma handed_out_None:
  "um_find (handed_out clk k ms pm) mid = None \<longleftrightarrow> mid \<notin> sm_id ` set ms \<and> um_find pm mid = None"
  by (induction clk k ms pm rule: handed_out.induct) auto

lemma pulled_log_in: "m \<in> set (pulled_log n now_ms g key td) \<Longrightarrow>
    m \<in> set (message_log td) \<and> td_offset g key td \<le> sm_id m \<and> \<not> expired now_ms m \<and>
    um_find (um_at [] (pending_acks td) key) (sm_id m) = None"
  by (auto simp: pulled_log_def log_candidates_def dest!: in_set_takeD)

lemma pulled_retry_in: "m \<in> set (pulled_retry n now_ms g key td) \<Longrightarrow>
    m \<in> set (retry_queue td) \<and> \<not> expired now_ms m \<and>
    um_find (um_at [] (pending_acks td) key) (sm_id m) = None"
  by (auto simp: pulled_retry_def retry_candidates_def)

definition pulled :: "nat \<Rightarrow> u64 \<Rightarrow> bool \<Rightarrow> string \<Rightarrow> TopicData \<Rightarrow> StoredMessage list" where
  "pulled n now_ms g key td = take n (pulled_log n now_ms g key td @ pulled_retry n now_ms g key td)"

lemma pulled_in: "m \<in> set (pulled n now_ms g key td) \<Longrightarrow>
    (m \<in> set (message_log td) \<or> m \<in> set (retry_queue td)) \<and> \<not> expired now_ms m \<and>
    um_find (um_at [] (pending_acks td) key) (sm_id m) = None"
  unfolding pulled_def by (auto dest!: in_set_takeD dest: pulled_log_in pulled_retry_in)

definition pull_post :: "nat \<Rightarrow> u64 \<Rightarrow> (nat \<Rightarrow> time_point) \<Rightarrow> bool \<Rightarrow> string \<Rightarrow> TopicData \<Rightarrow> TopicData \<Rightarrow> bool" where
  "pull_post n now_ms clk g key td td' \<longleftrightarrow>
     td_topic_name td' = td_topic_name td \<and> ring_buffer td' = ring_buffer td \<and>
     message_log td' = message_log td \<and> next_msg_id td' = next_msg_id td \<and>
     um_wf (pending_acks td') \<and>
     um_at [] (pending_acks td') key =
       handed_out clk 0 (pulled n now_ms g key td) (um_at [] (pending_acks td) key) \<and>
     (\<forall>k. k \<noteq> key \<longrightarrow> um_find (pending_acks td') k = um_find (pending_acks td) k) \<and>
     retry_taken now_ms (retry_queue td)
       (take (n - length (pulled_log n now_ms g key td)) (pulled_retry n now_ms g key td)) (retry_queue td') \<and>
     (\<forall>g' k. (g', k) \<noteq> (g, key) \<longrightarrow> td_offset g' k td' = td_offset g' k td) \<and>
     offset_moves now_ms (next_msg_id td) (td_offset g key td) (td_offset g key td')
       (um_at [] (pending_acks td) key) (message_log td) (pulled_log n now_ms g key td)"

lemma pull_topic_post:
  assumes inv: "td_inv max_retries td []"
  shows "pull_topic cid n g now_ms clk td = (result, td') \<Longrightarrow>
    result = pulled (unat n) now_ms g (MakeConsumerKey g cid) td \<and>
    pull_post (unat n) now_ms clk g (MakeConsumerKey g cid) td td'"
proof -
  define key where "key = MakeConsumerKey g cid"
  define pm where "pm = um_at [] (pending_acks td) key"
  let ?n = "unat n"
  let ?L = "pulled_log ?n now_ms g key td"
  let ?R = "take (?n - length ?L) (pulled_retry ?n now_ms g key td)"
  assume pull: "pull_topic cid n g now_ms clk td = (result, td')"
  obtain off pa1 r1 where log: "pull_log ?n now_ms clk key (message_log td)
      (td_offset g key td, pending_acks td, []) = (off, pa1, r1)"
    by (metis surj_pair)
  obtain q pa2 r2 where retry: "pull_retry ?n now_ms clk key (retry_queue td) (pa1, r1) = (q, pa2, r2)"
    by (metis surj_pair)
  have res: "result = r2" and td': "td' = (set_offset g key off td)\<lparr>pending_acks := pa2, retry_queue := q\<rparr>"
    using pull by (simp_all add: pull_topic_def key_def [symmetric] log retry Let_def)
  note invD = td_invD [OF inv]
  have inc: "ids_increase (message_log td)" and bnd: "\<And>m. m \<in> set (message_log td) \<Longrightarrow> sm_id m < next_msg_id td"
    using invD(3,5) by (simp_all add: td_stream_def)
  have r1: "r1 = ?L" "um_at [] pa1 key = handed_out clk 0 ?L pm"
    using pull_log_result [OF inc log] by (simp_all add: pulled_log_def pm_def)
  have mv: "offset_moves now_ms (next_msg_id td) (td_offset g key td) off pm (message_log td) ?L"
    using pull_log_offset [OF inc bnd invD(10) log] r1 by (auto simp: pm_def)
  have "retry_candidates now_ms (handed_out clk 0 ?L pm) (retry_queue td) = pulled_retry ?n now_ms g key td"
    by (auto simp: retry_candidates_def pulled_retry_def handed_out_None pm_def intro!: filter_cong)
  then have r2: "r2 = ?L @ ?R" "um_at [] pa2 key = handed_out clk (length ?L) ?R (handed_out clk 0 ?L pm)"
    and taken: "retry_taken now_ms (retry_queue td) ?R q"
    using pull_retry_result [OF invD(8) retry] r1 by (simp_all add: Let_def)
  have "length ?L \<le> ?n"
    by (simp add: pulled_log_def)
  then have LR: "?L @ ?R = pulled ?n now_ms g key td"
    by (simp add: pulled_def)
  have "off \<noteq> 0"
    using mv td_offset_pos [of g key td] by (auto simp: offset_moves_def word_le_nat_alt)
  moreover have "um_wf pa2"
    using pull_retry_wf [OF retry] pull_log_wf [OF log] invD(6) by blast
  moreover have "um_find pa2 k = um_find (pending_acks td) k" if "k \<noteq> key" for k
    using pull_retry_other [OF retry that] pull_log_other [OF log that] by simp
  moreover have "um_at [] pa2 key = handed_out clk 0 (pulled ?n now_ms g key td) pm"
    unfolding LR [symmetric] using r2(2) by (simp add: handed_out_append)
  ultimately show ?thesis
    using res r2(1) LR mv taken td'
    by (simp add: pull_post_def td_offset_set key_def [symmetric] pm_def [symmetric])
qed

subsection \<open>The background scans in closed form\<close>

lemma erase_marked:
  assumes "um_wf m"
  shows "fold um_erase (map fst (filter (\<lambda>e. P (snd e)) m)) m = filter (\<lambda>e. \<not> P (snd e)) m"
proof -
  have "fold um_erase ks xs = filter (\<lambda>e. fst e \<notin> set ks) xs" for ks and xs :: "('a \<times> 'b) list"
    by (induction ks arbitrary: xs) (auto simp: um_erase_filter intro!: filter_cong)
  moreover have "fst e \<in> fst ` {x \<in> set m. P (snd x)} \<longleftrightarrow> P (snd e)" if "e \<in> set m" for e
    using assms that unfolding um_wf_def
    by (cases e) (auto simp: image_iff dest: eq_key_imp_eq_value)
  then have "filter (\<lambda>e. fst e \<notin> set (map fst (filter (\<lambda>e. P (snd e)) m))) m = filter (\<lambda>e. \<not> P (snd e)) m"
    by (intro filter_cong refl) simp
  ultimately show ?thesis by simp
qed

text \<open>What stays of the pending maps when the entries with \<open>P\<close> are removed.\<close>

definition keep_pending :: "(PendingMessage \<Rightarrow> bool) \<Rightarrow> pending_map \<Rightarrow> pending_map option" where
  "keep_pending P pm = (let pm' = filter (\<lambda>e. \<not> P (snd e)) pm in if pm' = [] then None else Some pm')"

definition retry_due :: "u32 \<Rightarrow> u32 \<Rightarrow> time_point \<Rightarrow> u64 \<Rightarrow> PendingMessage \<Rightarrow> bool" where
  "retry_due max_retries timeout_ms now now_ms p \<longleftrightarrow> timed_out timeout_ms now p \<and>
     \<not> expired now_ms (pm_msg p) \<and> retry_count (pm_msg p) < max_retries"

definition dead_due :: "u32 \<Rightarrow> u32 \<Rightarrow> time_point \<Rightarrow> u64 \<Rightarrow> PendingMessage \<Rightarrow> bool" where
  "dead_due max_retries timeout_ms now now_ms p \<longleftrightarrow> timed_out timeout_ms now p \<and>
     \<not> expired now_ms (pm_msg p) \<and> max_retries \<le> retry_count (pm_msg p)"

definition bump :: "StoredMessage \<Rightarrow> StoredMessage" where
  "bump m = m\<lparr>retry_count := retry_count m + 1\<rparr>"

definition requeue :: "MessageId \<times> PendingMessage \<Rightarrow> StoredMessage list \<Rightarrow> StoredMessage list" where
  "requeue e rq = filter (\<lambda>m. sm_id m \<noteq> fst e) rq @ [bump (pm_msg (snd e))]"

lemma retry_entries_eq:
  "retry_entries mr tmo now now_ms pm (rq, dlq, tr) =
     (fold requeue (filter (\<lambda>e. retry_due mr tmo now now_ms (snd e)) pm) rq,
      dlq @ map (pm_msg \<circ> snd) (filter (\<lambda>e. dead_due mr tmo now now_ms (snd e)) pm),
      tr @ map fst (filter (\<lambda>e. timed_out tmo now (snd e)) pm))"
  by (induction mr tmo now now_ms pm "(rq, dlq, tr)" arbitrary: rq dlq tr rule: retry_entries.induct)
    (auto simp: retry_due_def dead_due_def requeue_def bump_def Let_def)

definition all_pending :: "(string, pending_map) umap \<Rightarrow> (MessageId \<times> PendingMessage) list" where
  "all_pending pa = concat (map snd pa)"

lemma retry_consumers_eq:
  assumes "list_all (um_wf \<circ> snd) pa"
  shows "retry_consumers mr tmo now now_ms pa (rq, dlq) =
     (map (\<lambda>e. (fst e, filter (\<lambda>x. \<not> timed_out tmo now (snd x)) (snd e))) pa,
      map fst (filter (\<lambda>e. filter (\<lambda>x. \<not> timed_out tmo now (snd x)) (snd e) = []) pa),
      fold requeue (filter (\<lambda>e. retry_due mr tmo now now_ms (snd e)) (all_pending pa)) rq,
      dlq @ map (pm_msg \<circ> snd) (filter (\<lambda>e. dead_due mr tmo now now_ms (snd e)) (all_pending pa)))"
  using assms
proof (induction pa arbitrary: rq dlq)
  case (Cons e pa)
  then show ?case
    by (cases e) (simp add: retry_entries_eq erase_marked all_pending_def Let_def)
qed (simp add: all_pending_def)

lemma prune_pending:
  assumes "um_wf pa"
  shows "fold um_erase (map fst (filter (\<lambda>e. filter (\<lambda>x. \<not> P (snd x)) (snd e) = []) pa))
      (map (\<lambda>e. (fst e, filter (\<lambda>x. \<not> P (snd x)) (snd e))) pa) = um_prune (keep_pending P) pa"
proof -
  let ?pa = "map (\<lambda>e. (fst e, filter (\<lambda>x. \<not> P (snd x)) (snd e))) pa"
  have "um_wf ?pa"
    using assms by (simp add: um_wf_def comp_def)
  then have "fold um_erase (map fst (filter (\<lambda>e. snd e = []) ?pa)) ?pa = filter (\<lambda>e. snd e \<noteq> []) ?pa"
    by (rule erase_marked)
  also have "filter (\<lambda>e. snd e \<noteq> []) ?pa = um_prune (keep_pending P) pa"
    by (induction pa) (auto simp: keep_pending_def Let_def)
  finally show ?thesis
    by (simp add: filter_map comp_def)
qed

lemma expire_consumers_eq:
  assumes "list_all (um_wf \<circ> snd) pa"
  shows "expire_consumers now_ms pa =
     (map (\<lambda>e. (fst e, filter (\<lambda>x. \<not> expired now_ms (pm_msg (snd x))) (snd e))) pa,
      map fst (filter (\<lambda>e. filter (\<lambda>x. \<not> expired now_ms (pm_msg (snd x))) (snd e) = []) pa))"
  using assms
proof (induction pa)
  case (Cons e pa)
  then show ?case
    using erase_marked [of "snd e" "\<lambda>p. expired now_ms (pm_msg p)"]
    by (cases e) (simp add: case_prod_unfold)
qed simp

text \<open>The dead letters of a topic.\<close>

definition dlq_of :: "MemoryMessageStore \<Rightarrow> TopicName \<Rightarrow> StoredMessage list" where
  "dlq_of s name = um_at [] (dlq_storage s) name"

lemma td_inv_pending_wf: "td_inv mr td ms \<Longrightarrow> list_all (um_wf \<circ> snd) (pending_acks td)"
  using td_invD(6,7) [of mr td ms] um_find_Some_iff [of "pending_acks td"]
  by (fastforce simp: list_all_iff pm_ok_def)

lemma ProcessPendingRetries_eq:
  assumes "td_inv mr td ms" and "ProcessPendingRetries now now_ms td s = (td', s')"
  shows "td' = td\<lparr>pending_acks := um_prune (keep_pending (timed_out (ms_pending_timeout_ms s) now)) (pending_acks td),
      retry_queue := fold requeue (filter (\<lambda>e. retry_due (ms_max_retry_count s) (ms_pending_timeout_ms s)
        now now_ms (snd e)) (all_pending (pending_acks td))) (retry_queue td)\<rparr>"
    and "dlq_of s' name = (if name = MakeDlqName (td_topic_name td)
      then dlq_of s name @ map (pm_msg \<circ> snd) (filter (\<lambda>e. dead_due (ms_max_retry_count s)
        (ms_pending_timeout_ms s) now now_ms (snd e)) (all_pending (pending_acks td)))
      else dlq_of s name)"
    and "s' = s\<lparr>dlq_storage := dlq_storage s'\<rparr>"
proof -
  note wf = td_inv_pending_wf [OF assms(1)] and prune = prune_pending [OF td_invD(6) [OF assms(1)]]
  show "td' = td\<lparr>pending_acks := um_prune (keep_pending (timed_out (ms_pending_timeout_ms s) now)) (pending_acks td),
      retry_queue := fold requeue (filter (\<lambda>e. retry_due (ms_max_retry_count s) (ms_pending_timeout_ms s)
        now now_ms (snd e)) (all_pending (pending_acks td))) (retry_queue td)\<rparr>"
    using assms(2) by (simp add: ProcessPendingRetries_def retry_consumers_eq [OF wf] prune Let_def)
  show "dlq_of s' name = (if name = MakeDlqName (td_topic_name td)
      then dlq_of s name @ map (pm_msg \<circ> snd) (filter (\<lambda>e. dead_due (ms_max_retry_count s)
        (ms_pending_timeout_ms s) now now_ms (snd e)) (all_pending (pending_acks td)))
      else dlq_of s name)"
    using assms(2)
    by (cases "um_find (dlq_storage s) (MakeDlqName (td_topic_name td))")
      (auto simp: ProcessPendingRetries_def retry_consumers_eq [OF wf] Let_def dlq_of_def um_at_def
        simp del: append_is_Nil_conv split: if_splits)
  show "s' = s\<lparr>dlq_storage := dlq_storage s'\<rparr>"
    using assms(2) by (auto simp: ProcessPendingRetries_def retry_consumers_eq [OF wf] Let_def)
qed

lemma ExpireTopicMessages_eq:
  assumes "td_inv mr td ms"
  shows "ExpireTopicMessages now_ms td = td\<lparr>
      message_log := filter (\<lambda>m. \<not> expired now_ms m) (message_log td),
      retry_queue := filter (\<lambda>m. \<not> expired now_ms m) (retry_queue td),
      pending_acks := um_prune (keep_pending (\<lambda>p. expired now_ms (pm_msg p))) (pending_acks td)\<rparr>"
proof -
  have "(expires_at m = 0 \<or> now_ms \<le> expires_at m) = (\<not> expired now_ms m)" for m
    by (auto simp: expired_def word_gt_0)
  then show ?thesis
    unfolding ExpireTopicMessages_def expire_consumers_eq [OF td_inv_pending_wf [OF assms]] Let_def
    using prune_pending [OF td_invD(6) [OF assms], of "\<lambda>p. expired now_ms (pm_msg p)"]
    by (simp add: expired_def)
qed

end
