(* ===== verification/Message_Store_Inv.thy ===== *)
theory Message_Store_Inv
  imports Message_Store_Facts
begin

text \<open>
  Every operation of the message store keeps the invariant of its topic, and no operation other
  than \<open>Publish\<close> brings a message into a topic that was not there before: what a topic holds, in
  the ring, the log, the retry queue or as pending, goes back to a message that was published with
  that identifier, payload and expiry.
\<close>

subsection \<open>One topic\<close>

lemma td_ring_cong: "ring_buffer td' = ring_buffer td \<Longrightarrow> td_ring td' ms = td_ring td ms"
  by (simp add: td_ring_def)

lemma td_inv_new:
  assumes "new_topic n t = Some td" and "n \<le> unat kMaxPayloadSize"
  shows "td_inv mr td []" and "td_messages td [] = {}"
proof -
  have r: "td_ring td []" by (rule new_topic_ring [OF assms])
  have td: "message_log td = []" "retry_queue td = []" "pending_acks td = []" "next_msg_id td = 1"
    "subscriber_offsets td = []" "group_offsets td = []"
    using assms(1) by (auto simp: new_topic_def split: option.splits)
  then show "td_inv mr td []"
    using r by (simp add: td_inv_def td_stream_def ids_increase_def td_offset_def um_at_def)
  show "td_messages td [] = {}"
    using td by (simp add: td_messages_def td_stream_def)
qed

definition published :: "TopicData \<Rightarrow> u64 \<Rightarrow> u64 \<Rightarrow> Payload \<Rightarrow> StoredMessage" where
  "published td ts expiry p = stored (next_msg_id td) ts expiry p"

lemma pm_ok_mono: "pm_ok mr b pm \<Longrightarrow> b \<le> b' \<Longrightarrow> pm_ok mr b' pm"
  by (auto simp: pm_ok_def pending_ok_def intro: less_le_trans)

lemma td_inv_push:
  assumes inv: "td_inv mr td ms" and "next_msg_id td \<noteq> - 1"
    and push: "rb_Push (ring_buffer td) (serialize (next_msg_id td) ts expiry p) = (ok, rb)"
  defines "td' \<equiv> td\<lparr>next_msg_id := next_msg_id td + 1, ring_buffer := rb\<rparr>"
  defines "ms' \<equiv> (if ok then ms @ [published td ts expiry p] else ms)"
  shows "td_inv mr td' ms'"
    and "td_messages td' ms' = td_messages td ms \<union> (if ok then {published td ts expiry p} else {})"
    and "ok \<longleftrightarrow> rb_room (ring_buffer td) (serialize (next_msg_id td) ts expiry p)"
proof -
  let ?m = "published td ts expiry p"
  note invD = td_invD [OF inv]
  have fresh: "fresh_msg ?m" and ser: "serialize_msg ?m = serialize (next_msg_id td) ts expiry p"
    and mid: "sm_id ?m = next_msg_id td"
    by (simp_all add: published_def stored_def fresh_msg_def serialize_msg_def)
  have ring: "td_ring td' ms' \<and> (ok \<longleftrightarrow> rb_room (ring_buffer td) (serialize_msg ?m))"
    using td_ring_push [OF invD(1) fresh]
  proof cases
    case (1 rb')
    then have "ok" "rb' = rb" using push ser by simp_all
    then show ?thesis
      using 1 td_ring_cong [of td' "td\<lparr>ring_buffer := rb\<rparr>"] by (simp add: td'_def ms'_def)
  next
    case 2
    then have "\<not> ok" "rb = ring_buffer td" using push ser by simp_all
    then show ?thesis
      using 2 invD(1) td_ring_cong [of td' td] by (simp add: td'_def ms'_def)
  qed
  then show "ok \<longleftrightarrow> rb_room (ring_buffer td) (serialize (next_msg_id td) ts expiry p)"
    using ser by simp
  have lt: "next_msg_id td < next_msg_id td + 1"
    using assms(2) by (intro less_inc [of _ "- 1"]) (simp add: word_order.not_eq_extremum)
  then have le: "next_msg_id td \<le> next_msg_id td + 1" by simp
  have inc: "ids_increase (td_stream td' ms')"
    using invD(3) invD(5) by (auto simp: td_stream_def td'_def ms'_def ids_increase_append mid)
      (auto simp: ids_increase_def)
  have "1 \<le> sm_id m \<and> sm_id m < next_msg_id td + 1" if "m \<in> set (td_stream td' ms')" for m
    using that invD(5) [of m] invD(2) lt mid by (auto simp: td_stream_def td'_def ms'_def split: if_splits)
  moreover have "pm_ok mr (next_msg_id td + 1) pm" if "um_find (pending_acks td) k = Some pm" for k pm
    using pm_ok_mono [OF invD(7) [OF that] le] .
  moreover have "1 \<le> next_msg_id td + 1"
    using invD(2) le by (rule order.trans)
  moreover have "td_offset g k td' \<le> next_msg_id td + 1" for g k
    using invD(10) [of g k] le by (simp add: td'_def order.trans)
  moreover have "sm_id m < next_msg_id td + 1" if "m \<in> set (retry_queue td)" for m
    using invD(9) [OF that] lt by (blast intro: less_trans)
  ultimately show "td_inv mr td' ms'"
    using ring inc invD(4,6,8,9) unfolding td_inv_def by (simp add: td'_def)
  show "td_messages td' ms' = td_messages td ms \<union> (if ok then {?m} else {})"
    by (auto simp: td_messages_def td_stream_def td'_def ms'_def)
qed

lemma td_inv_drain:
  assumes inv: "td_inv mr td ms"
  obtains td' where "DrainRingBuffer td = Some td'" and "td_inv mr td' []"
    and "message_log td' = td_stream td ms" and "td' = td\<lparr>ring_buffer := ring_buffer td', message_log := message_log td'\<rparr>"
    and "td_messages td' [] = td_messages td ms"
proof -
  note invD = td_invD [OF inv]
  obtain rb where d: "DrainRingBuffer td = Some (td\<lparr>ring_buffer := rb, message_log := message_log td @ ms\<rparr>)"
    and r: "td_ring (td\<lparr>ring_buffer := rb, message_log := message_log td @ ms\<rparr>) []"
    using DrainRingBuffer_ring [OF invD(1)] .
  let ?td = "td\<lparr>ring_buffer := rb, message_log := message_log td @ ms\<rparr>"
  have "list_all fresh_msg ms"
    using invD(1) by (simp add: td_ring_def)
  then have "td_inv mr ?td []"
    using inv r by (simp add: td_inv_def td_stream_def)
  then show ?thesis
    using that [OF d] by (simp add: td_stream_def td_messages_def)
qed

lemma messages_of: "set (message_log td) \<union> set ms \<union> set (retry_queue td) \<subseteq> td_messages td ms"
  by (auto simp: td_messages_def td_stream_def)

lemma subseq_distinct: "subseq xs ys \<Longrightarrow> distinct ys \<Longrightarrow> distinct xs"
  by (auto simp: subseq_conv_nths)

lemma pulled_fresh:
  assumes inv: "td_inv mr td []" and m: "m \<in> set (pulled k now_ms g key td)"
  shows "sm_id m < next_msg_id td \<and> retry_count m \<le> mr"
proof (cases "m \<in> set (message_log td)")
  case True
  then show ?thesis
    using td_invD(4) [OF inv] td_invD(5) [OF inv, of m] by (auto simp: td_stream_def list_all_iff fresh_msg_def)
next
  case False
  then show ?thesis using pulled_in [OF m] td_invD(9) [OF inv, of m] by blast
qed

lemma pulled_messages: "set (pulled k now_ms g key td) \<subseteq> td_messages td []"
  by (auto simp: td_messages_def td_stream_def dest!: pulled_in)

lemma handed_out_pm_ok:
  assumes inv: "td_inv mr td []" and "um_find pa' k = Some pm"
    and "\<And>k. k \<noteq> key \<Longrightarrow> um_find pa' k = um_find (pending_acks td) k"
    and "um_at [] pa' key = handed_out clk 0 (pulled j now_ms g key td) (um_at [] (pending_acks td) key)"
  shows "pm_ok mr (next_msg_id td) pm"
proof (cases "k = key")
  case True
  then have "pm = handed_out clk 0 (pulled j now_ms g key td) (um_at [] (pending_acks td) key)"
    using assms(2,4) by (simp add: um_at_def)
  then show ?thesis using pm_ok_handed_out [OF pm_ok_at [OF inv]] pulled_fresh [OF inv] by simp
next
  case False
  then show ?thesis using assms(2,3) td_invD(7) [OF inv] by simp
qed

lemma handed_out_pending_messages:
  assumes "um_find (um_at [] pa' k) mid = Some p"
    and "\<And>k. k \<noteq> key \<Longrightarrow> um_find pa' k = um_find (pending_acks td) k"
    and "um_at [] pa' key = handed_out clk 0 (pulled j now_ms g key td) (um_at [] (pending_acks td) key)"
  shows "pm_msg p \<in> td_messages td []"
proof (cases "k = key")
  case True
  then have "um_find (um_at [] (pending_acks td) key) mid = Some p \<or> pm_msg p \<in> set (pulled j now_ms g key td)"
    using assms(1,3) handed_out_messages by metis
  then show ?thesis
    using pulled_messages by (fastforce simp: td_messages_def)
next
  case False
  then have "um_at [] pa' k = um_at [] (pending_acks td) k"
    using assms(2) by (simp add: um_at_def)
  then show ?thesis using assms(1) by (auto simp: td_messages_def)
qed

lemma td_inv_pull:
  assumes inv: "td_inv mr td []" and pull: "pull_topic cid n g now_ms clk td = (result, td')"
  shows "td_inv mr td' []" and "td_messages td' [] \<subseteq> td_messages td []" and "set result \<subseteq> td_messages td []"
proof -
  define key where "key = MakeConsumerKey g cid"
  let ?P = "pulled (unat n) now_ms g key td" and ?pm = "um_at [] (pending_acks td) key"
  note invD = td_invD [OF inv]
  have result: "result = ?P" and post: "pull_post (unat n) now_ms clk g key td td'"
    using pull_topic_post [OF inv pull] by (simp_all add: key_def)
  have same: "message_log td' = message_log td" "next_msg_id td' = next_msg_id td" "um_wf (pending_acks td')"
    "ring_buffer td' = ring_buffer td"
    and other: "\<And>k. k \<noteq> key \<Longrightarrow> um_find (pending_acks td') k = um_find (pending_acks td) k"
    and at_key: "um_at [] (pending_acks td') key = handed_out clk 0 ?P ?pm"
    and sub: "subseq (retry_queue td') (retry_queue td)"
    and offs: "\<And>g' k. (g', k) \<noteq> (g, key) \<Longrightarrow> td_offset g' k td' = td_offset g' k td"
    and off: "td_offset g key td' \<le> next_msg_id td"
    using post by (auto simp: pull_post_def retry_taken_def offset_moves_def)
  have "pm_ok mr (next_msg_id td) pm" if "um_find (pending_acks td') k = Some pm" for k pm
    by (rule handed_out_pm_ok [OF inv that other at_key])
  moreover have "distinct (map sm_id (retry_queue td'))"
    using sub invD(8) by (metis subseq_map subseq_distinct)
  moreover have "set (retry_queue td') \<subseteq> set (retry_queue td)"
    using sub by (auto dest: list_emb_set)
  moreover have "td_offset g' k td' \<le> next_msg_id td" for g' k
    using offs [of g' k] off invD(10) [of g' k] by (cases "(g', k) = (g, key)") auto
  ultimately show "td_inv mr td' []"
    using inv same td_ring_cong [of td' td] unfolding td_inv_def td_stream_def by auto
  show "set result \<subseteq> td_messages td []"
    unfolding result by (rule pulled_messages)
  have "pm_msg p \<in> td_messages td []" if "um_find (um_at [] (pending_acks td') k) mid = Some p" for k mid p
    by (rule handed_out_pending_messages [OF that other at_key])
  then show "td_messages td' [] \<subseteq> td_messages td []"
    using same(1) \<open>set (retry_queue td') \<subseteq> _\<close> messages_of [of td "[]"]
    unfolding td_messages_def [of td'] td_stream_def by auto
qed

lemma pulled_retry_count:
  assumes inv: "td_inv mr td []" and pull: "pull_topic cid n g now_ms clk td = (result, td')"
    and "m \<in> set result"
  shows "retry_count m \<le> mr"
proof -
  have "m \<in> set (message_log td) \<or> m \<in> set (retry_queue td)"
    using pull_topic_post [OF inv pull] pulled_in assms(3) by blast
  then show ?thesis
    using td_invD(4,9) [OF inv] by (auto simp: list_all_iff fresh_msg_def)
qed

lemma td_inv_ack:
  assumes inv: "td_inv mr td ms" and pm_def: "pm = um_at [] (pending_acks td) key"
  shows "td_inv mr (td\<lparr>pending_acks := um_put key pm (pending_acks td)\<rparr>) ms"
    and "td_inv mr (td\<lparr>pending_acks := um_put key (um_erase mid pm) (pending_acks td)\<rparr>) ms"
    and "td_messages (td\<lparr>pending_acks := um_put key pm (pending_acks td)\<rparr>) ms = td_messages td ms"
    and "td_messages (td\<lparr>pending_acks := um_put key (um_erase mid pm) (pending_acks td)\<rparr>) ms \<subseteq> td_messages td ms"
proof -
  have ok: "pm_ok mr (next_msg_id td) pm"
    unfolding pm_def by (rule pm_ok_at [OF inv])
  then have ok': "pm_ok mr (next_msg_id td) (um_erase mid pm)"
    by (auto simp: pm_ok_def um.wf_erase split: if_splits)
  have "td_inv mr (td\<lparr>pending_acks := um_put key x (pending_acks td)\<rparr>) ms" if "pm_ok mr (next_msg_id td) x" for x
    using inv that unfolding td_inv_def by (auto simp: um.wf_put td_stream_def td_ring_def)
  with ok ok' show "td_inv mr (td\<lparr>pending_acks := um_put key pm (pending_acks td)\<rparr>) ms"
    and "td_inv mr (td\<lparr>pending_acks := um_put key (um_erase mid pm) (pending_acks td)\<rparr>) ms"
    by blast+
  show "td_messages (td\<lparr>pending_acks := um_put key pm (pending_acks td)\<rparr>) ms = td_messages td ms"
    unfolding td_messages_def td_stream_def pm_def by (simp cong: if_cong) (metis (lifting))
  show "td_messages (td\<lparr>pending_acks := um_put key (um_erase mid pm) (pending_acks td)\<rparr>) ms \<subseteq> td_messages td ms"
    unfolding td_messages_def td_stream_def pm_def by (auto split: if_splits)
qed

text \<open>Removing entries from the pending maps.\<close>

lemma um_find_filter: "um_wf m \<Longrightarrow> um_find (filter (\<lambda>e. \<not> P (snd e)) m) k =
    (case um_find m k of None \<Rightarrow> None | Some v \<Rightarrow> if P v then None else Some v)"
  by (induction m) (auto simp: um_find_Cons split: option.splits if_splits)

lemma um_wf_filter: "um_wf m \<Longrightarrow> um_wf (filter Q m)"
  by (simp add: um_wf_def distinct_map_filter)

lemma keep_pending_find:
  assumes "um_wf pa" and "\<And>k pm. um_find pa k = Some pm \<Longrightarrow> um_wf pm"
  shows "um_find (um_at [] (um_prune (keep_pending P) pa) k) mid =
    (case um_find (um_at [] pa k) mid of None \<Rightarrow> None | Some p \<Rightarrow> if P p then None else Some p)"
proof (cases "um_find pa k")
  case None
  then show ?thesis by (simp add: um_at_def um_find_prune [OF assms(1)])
next
  case (Some pm)
  let ?pm' = "filter (\<lambda>e. \<not> P (snd e)) pm"
  have "um_at [] (um_prune (keep_pending P) pa) k = ?pm'"
    using Some by (simp add: um_at_def um_find_prune [OF assms(1)] keep_pending_def Let_def)
  then show ?thesis
    using um_find_filter [OF assms(2) [OF Some], of P mid] Some by (simp add: um_at_def)
qed

lemma pm_ok_keep: "pm_ok mr b pm \<Longrightarrow> keep_pending P pm = Some pm' \<Longrightarrow> pm_ok mr b pm'"
  by (auto simp: pm_ok_def keep_pending_def Let_def um_wf_filter um_find_filter split: if_splits option.splits)

lemma prune_pm_ok:
  assumes "td_inv mr td ms" and "um_find (um_prune (keep_pending P) (pending_acks td)) k = Some pm"
  shows "pm_ok mr (next_msg_id td) pm"
  using assms(2) td_invD(7) [OF assms(1), of k]
  by (auto simp: um_find_prune [OF td_invD(6) [OF assms(1)]] bind_eq_Some_conv intro: pm_ok_keep)

lemma pruned_at:
  assumes "td_inv mr td ms"
  shows "um_find (um_at [] (um_prune (keep_pending P) (pending_acks td)) k) mid = Some p \<longleftrightarrow>
    um_find (um_at [] (pending_acks td) k) mid = Some p \<and> \<not> P p"
proof -
  have "um_wf pm'" if "um_find (pending_acks td) k' = Some pm'" for k' pm'
    using td_invD(7) [OF assms that] by (simp add: pm_ok_def)
  then show ?thesis
    using keep_pending_find [OF td_invD(6) [OF assms], where P = P and k = k and mid = mid]
    by (auto split: option.splits)
qed

lemma pending_message:
  "um_find (um_at [] (pending_acks td) k) mid = Some p \<Longrightarrow> pm_msg p \<in> td_messages td ms"
  by (auto simp: td_messages_def)

lemma all_pending_in:
  assumes "td_inv mr td ms" and "e \<in> set (all_pending (pending_acks td))"
  shows "\<exists>k. um_find (um_at [] (pending_acks td) k) (fst e) = Some (snd e)"
    and "pm_msg (snd e) \<in> td_messages td ms" and "pending_ok mr (next_msg_id td) (fst e) (snd e)"
proof -
  obtain k pm where k: "(k, pm) \<in> set (pending_acks td)" and e: "e \<in> set pm"
    using assms(2) by (auto simp: all_pending_def)
  then have find: "um_find (pending_acks td) k = Some pm"
    using um_find_Some_iff [OF td_invD(6) [OF assms(1)]] by blast
  then have ok: "pm_ok mr (next_msg_id td) pm"
    using td_invD(7) [OF assms(1)] by blast
  then have "um_find pm (fst e) = Some (snd e)"
    using e um_find_Some_iff [of pm "fst e" "snd e"] by (simp add: pm_ok_def)
  then have at_k: "um_find (um_at [] (pending_acks td) k) (fst e) = Some (snd e)"
    using find by (simp add: um_at_def)
  then show "\<exists>k. um_find (um_at [] (pending_acks td) k) (fst e) = Some (snd e)" by blast
  show "pm_msg (snd e) \<in> td_messages td ms"
    using at_k by (rule pending_message)
  show "pending_ok mr (next_msg_id td) (fst e) (snd e)"
    using ok \<open>um_find pm (fst e) = Some (snd e)\<close> by (simp add: pm_ok_def)
qed

lemma in_all_pending:
  assumes "um_find (um_at [] pa k) mid = Some p"
  shows "(mid, p) \<in> set (all_pending pa)"
proof -
  obtain pm where "um_find pa k = Some pm" "um_find pm mid = Some p"
    using assms by (auto simp: um_at_def split: option.splits)
  then have "(k, pm) \<in> set pa" "(mid, p) \<in> set pm"
    by (auto dest: um_find_SomeD)
  then show ?thesis
    by (force simp: all_pending_def)
qed

text \<open>The retry queue after messages were put back.\<close>

lemma fold_requeue:
  assumes "\<And>e. e \<in> set es \<Longrightarrow> sm_id (pm_msg (snd e)) = fst e"
  shows "(distinct (map sm_id rq) \<longrightarrow> distinct (map sm_id (fold requeue es rq))) \<and>
    (\<forall>m \<in> set (fold requeue es rq). m \<in> set rq \<or> (\<exists>e \<in> set es. m = bump (pm_msg (snd e)))) \<and>
    sm_id ` set (fold requeue es rq) = sm_id ` set rq \<union> fst ` set es"
  using assms
proof (induction es arbitrary: rq)
  case (Cons e es)
  have e: "sm_id (bump (pm_msg (snd e))) = fst e"
    using Cons.prems by (simp add: bump_def)
  then have "distinct (map sm_id rq) \<Longrightarrow> distinct (map sm_id (requeue e rq))"
    and "sm_id ` set (requeue e rq) = insert (fst e) (sm_id ` set rq)"
    and "set (requeue e rq) \<subseteq> insert (bump (pm_msg (snd e))) (set rq)"
    by (auto simp: requeue_def distinct_map_filter)
  then show ?case
    using Cons.IH [of "requeue e rq"] Cons.prems by auto
qed simp

lemma td_inv_retry:
  assumes inv: "td_inv mr td ms" and mr: "ms_max_retry_count s = mr"
    and "ProcessPendingRetries now now_ms td s = (td', s')"
  shows "td_inv mr td' ms" and "core ` td_messages td' ms \<subseteq> core ` td_messages td ms"
    and "td_topic_name td' = td_topic_name td" and "next_msg_id td' = next_msg_id td"
    and "m \<in> set (dlq_of s' name) \<Longrightarrow> m \<in> set (dlq_of s name) \<or>
      (name = MakeDlqName (td_topic_name td) \<and> m \<in> td_messages td ms \<and> retry_count m = mr)"
proof -
  note invD = td_invD [OF inv]
  let ?due = "filter (\<lambda>e. retry_due mr (ms_pending_timeout_ms s) now now_ms (snd e)) (all_pending (pending_acks td))"
  let ?rq = "fold requeue ?due (retry_queue td)"
  let ?T = "timed_out (ms_pending_timeout_ms s) now"
  have td': "td' = td\<lparr>pending_acks := um_prune (keep_pending ?T) (pending_acks td), retry_queue := ?rq\<rparr>"
    using ProcessPendingRetries_eq(1) [OF inv assms(3)] mr by simp
  then show "td_topic_name td' = td_topic_name td" and "next_msg_id td' = next_msg_id td"
    by simp_all
  have due: "sm_id (pm_msg (snd e)) = fst e \<and> pm_msg (snd e) \<in> td_messages td ms \<and>
      fst e < next_msg_id td \<and> retry_count (pm_msg (snd e)) < mr" if "e \<in> set ?due" for e
    using that all_pending_in(2,3) [OF inv, of e] by (auto simp: pending_ok_def retry_due_def)
  have rq: "distinct (map sm_id ?rq)"
    and origin: "\<And>m. m \<in> set ?rq \<Longrightarrow> m \<in> set (retry_queue td) \<or> (\<exists>e \<in> set ?due. m = bump (pm_msg (snd e)))"
    using fold_requeue [of ?due "retry_queue td"] due invD(8) by blast+
  have "sm_id m < next_msg_id td \<and> retry_count m \<le> mr" if "m \<in> set ?rq" for m
    using origin [OF that]
  proof
    assume "\<exists>e \<in> set ?due. m = bump (pm_msg (snd e))"
    then obtain e where "e \<in> set ?due" "m = bump (pm_msg (snd e))" by blast
    with due [OF this(1)] show ?thesis by (simp add: bump_def inc_le)
  qed (rule invD(9))
  then show "td_inv mr td' ms"
    using inv rq prune_pm_ok [OF inv] um_wf_prune [OF invD(6)] td_ring_cong [of td' td]
    unfolding td_inv_def td' by (auto simp: td_stream_def)
  have bump: "core (bump m) = core m" for m
    by (simp add: core_def bump_def)
  have "core m \<in> core ` td_messages td ms" if "m \<in> set ?rq" for m
    using origin [OF that] due messages_of [of td ms] by (auto simp: bump)
  moreover have "pm_msg p \<in> td_messages td ms" if "um_find (um_at [] (pending_acks td') k) mid = Some p" for k mid p
    using that pruned_at [OF inv] pending_message by (auto simp: td')
  moreover have "set (td_stream td ms) \<subseteq> td_messages td ms"
    by (auto simp: td_messages_def)
  ultimately show "core ` td_messages td' ms \<subseteq> core ` td_messages td ms"
    unfolding td_messages_def [of td'] by (auto simp: td' td_stream_def)
  assume "m \<in> set (dlq_of s' name)"
  then show "m \<in> set (dlq_of s name) \<or>
      (name = MakeDlqName (td_topic_name td) \<and> m \<in> td_messages td ms \<and> retry_count m = mr)"
    using ProcessPendingRetries_eq(2) [OF inv assms(3), of name] all_pending_in(2,3) [OF inv] mr
    by (fastforce simp: pending_ok_def dead_due_def split: if_splits)
qed

lemma td_inv_expire:
  assumes inv: "td_inv mr td ms"
  shows "td_inv mr (ExpireTopicMessages now_ms td) ms"
    and "td_messages (ExpireTopicMessages now_ms td) ms \<subseteq> td_messages td ms"
    and "td_topic_name (ExpireTopicMessages now_ms td) = td_topic_name td"
    and "next_msg_id (ExpireTopicMessages now_ms td) = next_msg_id td"
proof -
  note invD = td_invD [OF inv] and eq = ExpireTopicMessages_eq [OF inv, of now_ms]
  have "ids_increase (filter (\<lambda>m. \<not> expired now_ms m) (message_log td) @ ms)"
    using invD(3) by (auto simp: td_stream_def ids_increase_append ids_increase_filter)
  then show "td_inv mr (ExpireTopicMessages now_ms td) ms"
    using inv prune_pm_ok [OF inv] um_wf_prune [OF invD(6)] unfolding eq td_inv_def
    by (auto simp: td_stream_def td_ring_def list_all_iff distinct_map_filter)
  have "pm_msg p \<in> td_messages td ms"
    if "um_find (um_at [] (um_prune (keep_pending P) (pending_acks td)) k) mid = Some p" for P k mid p
    using that pruned_at [OF inv] pending_message by blast
  then show "td_messages (ExpireTopicMessages now_ms td) ms \<subseteq> td_messages td ms"
    using messages_of [of td ms] unfolding td_messages_def [of "ExpireTopicMessages now_ms td"]
    by (auto simp: eq td_stream_def)
qed (simp_all add: ExpireTopicMessages_eq [OF inv])

subsection \<open>The whole store\<close>

text \<open>
  \<open>store_inv H n s\<close>: every topic is consistent, all messages the store holds for a topic \<open>t\<close> go back
  to \<open>H t\<close>, dead letters used up all their retries, and at most \<open>n\<close> identifiers were given out per
  topic.
\<close>

type_synonym history = "TopicName \<Rightarrow> (MessageId \<times> Payload \<times> u64 \<times> u64) set"

definition topic_inv :: "history \<Rightarrow> nat \<Rightarrow> u32 \<Rightarrow> TopicName \<Rightarrow> TopicData \<Rightarrow> bool" where
  "topic_inv H n mr t td \<longleftrightarrow> td_topic_name td = t \<and> unat (next_msg_id td) \<le> n + 1 \<and>
     (\<exists>ms. td_inv mr td ms \<and> core ` td_messages td ms \<subseteq> H t)"

definition dlq_inv :: "history \<Rightarrow> MemoryMessageStore \<Rightarrow> bool" where
  "dlq_inv H s \<longleftrightarrow> (\<forall>t. \<forall>m \<in> set (dlq_of s (MakeDlqName t)).
     core m \<in> H t \<and> retry_count m = ms_max_retry_count s)"

definition store_inv :: "history \<Rightarrow> nat \<Rightarrow> MemoryMessageStore \<Rightarrow> bool" where
  "store_inv H n s \<longleftrightarrow> um_wf (ms_topics s) \<and> ms_default_buffer_size s \<le> unat kMaxPayloadSize \<and>
     (\<forall>t td. um_find (ms_topics s) t = Some td \<longrightarrow> topic_inv H n (ms_max_retry_count s) t td) \<and>
     dlq_inv H s"

lemma store_invD:
  assumes "store_inv H n s"
  shows "um_wf (ms_topics s)" and "ms_default_buffer_size s \<le> unat kMaxPayloadSize"
    and "um_find (ms_topics s) t = Some td \<Longrightarrow> topic_inv H n (ms_max_retry_count s) t td" and "dlq_inv H s"
  using assms by (auto simp: store_inv_def)

lemma topic_inv_mono: "topic_inv H n mr t td \<Longrightarrow> H t \<subseteq> H' t \<Longrightarrow> n \<le> n' \<Longrightarrow> topic_inv H' n' mr t td"
  unfolding topic_inv_def by (meson add_le_mono1 order.trans subset_trans)

lemma dlq_inv_mono: "dlq_inv H s \<Longrightarrow> (\<And>t. H t \<subseteq> H' t) \<Longrightarrow> dlq_inv H' s"
  by (auto simp: dlq_inv_def)

lemma MakeDlqName_inj [simp]: "MakeDlqName t = MakeDlqName t' \<longleftrightarrow> t = t'"
  by (simp add: MakeDlqName_def)

text \<open>Replacing the data of one topic.\<close>

lemma store_inv_put:
  assumes "store_inv H n s" and "topic_inv H' n' (ms_max_retry_count s) t td"
    and "\<And>t. H t \<subseteq> H' t" and "n \<le> n'"
  shows "store_inv H' n' (s\<lparr>ms_topics := um_put t td (ms_topics s)\<rparr>)"
proof -
  have "topic_inv H' n' (ms_max_retry_count s) t' td'" if "um_find (ms_topics s) t' = Some td'" for t' td'
    using store_invD(3) [OF assms(1) that] assms(3,4) by (rule topic_inv_mono)
  then show ?thesis
    using assms(2) store_invD(1,2) [OF assms(1)] dlq_inv_mono [OF store_invD(4) [OF assms(1)] assms(3)]
    by (auto simp: store_inv_def um.wf_put dlq_inv_def dlq_of_def)
qed

lemma store_inv_new: "b \<le> unat kMaxPayloadSize \<Longrightarrow> store_inv (\<lambda>_. {}) 0 (ms_new b mr tmo)"
  by (simp add: store_inv_def ms_new_def dlq_inv_def dlq_of_def)

lemma store_inv_mono: "store_inv H n s \<Longrightarrow> (\<And>t. H t \<subseteq> H' t) \<Longrightarrow> n \<le> n' \<Longrightarrow> store_inv H' n' s"
  unfolding store_inv_def by (meson topic_inv_mono dlq_inv_mono)

subsection \<open>Executions\<close>

text \<open>
  One call, one background round, or the part of a background round that holds the mutex of one
  topic, with the messages it delivers (with the topic they were pulled from) and the messages it
  accepts.
\<close>

datatype store_op =
    SCreate TopicName
  | SDelete TopicName
  | SPublish TopicName Payload u32 u64 u64
  | SPull TopicName string u32 bool u64 "nat \<Rightarrow> time_point"
  | SAck TopicName string MessageId bool
  | SPullDlq TopicName u32
  | SRetry "TopicName \<Rightarrow> time_point" "TopicName \<Rightarrow> u64"
  | SExpire "TopicName \<Rightarrow> u64"
  | SRetryTopic TopicName time_point u64
  | SExpireTopic TopicName u64

definition expire_topic :: "TopicName \<Rightarrow> u64 \<Rightarrow> MemoryMessageStore \<Rightarrow> MemoryMessageStore" where
  "expire_topic t now_ms s =
     (case um_find (ms_topics s) t of
        None \<Rightarrow> s
      | Some td \<Rightarrow> s\<lparr>ms_topics := um_put t (ExpireTopicMessages now_ms td) (ms_topics s)\<rparr>)"

type_synonym store_events =
  "(TopicName \<times> StoredMessage) list \<times> (TopicName \<times> MessageId \<times> Payload \<times> u64 \<times> u64) list"

fun store_exec :: "store_op \<Rightarrow> MemoryMessageStore \<Rightarrow> (store_events \<times> MemoryMessageStore) option" where
  "store_exec (SCreate t) s = map_option (\<lambda>r. (([], []), snd r)) (CreateTopic t s)"
| "store_exec (SDelete t) s = Some (([], []), snd (DeleteTopic t s))"
| "store_exec (SPublish t p ttl_ms now_expiry now_ts) s =
     map_option (\<lambda>((ok, mid), s'). (([], if ok then
         [(t, mid, p, now_ts, if ttl_ms > 0 then now_expiry + ucast ttl_ms else 0)] else []), s'))
       (Publish t p ttl_ms now_expiry now_ts s)"
| "store_exec (SPull t c n g now_ms clk) s =
     map_option (\<lambda>(res, s'). ((map (Pair t) res, []), s')) (Pull t c n g now_ms clk s)"
| "store_exec (SAck t c mid g) s = Some (([], []), snd (Ack t c mid g s))"
| "store_exec (SPullDlq t n) s = (case PullDlq t n s of (res, s') \<Rightarrow> Some ((map (Pair t) res, []), s'))"
| "store_exec (SRetry now now_ms) s = Some (([], []), RetryLoop_round now now_ms s)"
| "store_exec (SExpire now_ms) s = Some (([], []), ExpirationLoop_round now_ms s)"
| "store_exec (SRetryTopic t now now_ms) s = Some (([], []), retry_round (\<lambda>_. now) (\<lambda>_. now_ms) [t] s)"
| "store_exec (SExpireTopic t now_ms) s = Some (([], []), expire_topic t now_ms s)"

fun store_run :: "store_op list \<Rightarrow> MemoryMessageStore \<Rightarrow> (store_events \<times> MemoryMessageStore) option" where
  "store_run [] s = Some (([], []), s)"
| "store_run (x # xs) s =
     (case store_exec x s of
        None \<Rightarrow> None
      | Some ((d, p), s1) \<Rightarrow>
          (case store_run xs s1 of
             None \<Rightarrow> None
           | Some ((d', p'), s2) \<Rightarrow> Some ((d @ d', p @ p'), s2)))"

definition extend :: "history \<Rightarrow> (TopicName \<times> MessageId \<times> Payload \<times> u64 \<times> u64) list \<Rightarrow> history" where
  "extend H ps = (\<lambda>t. H t \<union> {c. (t, c) \<in> set ps})"

lemma extend_Nil [simp]: "extend H [] = H"
  by (simp add: extend_def)

lemma extend_append: "extend H (ps @ qs) = extend (extend H ps) qs"
  by (auto simp: extend_def)

lemma extend_mono: "H t \<subseteq> extend H ps t"
  by (auto simp: extend_def)

text \<open>A step is good when it ends, keeps the invariant and delivers only what was published.\<close>

definition same_settings :: "MemoryMessageStore \<Rightarrow> MemoryMessageStore \<Rightarrow> bool" where
  "same_settings s s' \<longleftrightarrow> ms_max_retry_count s' = ms_max_retry_count s \<and>
     ms_pending_timeout_ms s' = ms_pending_timeout_ms s \<and>
     ms_default_buffer_size s' = ms_default_buffer_size s"

definition step_good :: "history \<Rightarrow> nat \<Rightarrow> MemoryMessageStore \<Rightarrow> store_events \<Rightarrow> MemoryMessageStore \<Rightarrow> bool" where
  "step_good H n s ev s' \<longleftrightarrow> store_inv (extend H (snd ev)) n s' \<and> same_settings s s' \<and>
     (\<forall>(t, m) \<in> set (fst ev). core m \<in> H t \<and> retry_count m \<le> ms_max_retry_count s)"

lemma max_id: "unat (i :: u64) \<le> n + 1 \<Longrightarrow> n + 2 < 2 ^ 64 \<Longrightarrow> i \<noteq> - 1 \<and> unat (i + 1) = unat i + 1"
proof -
  assume "unat i \<le> n + 1" "n + 2 < 2 ^ 64"
  then have "unat i + 1 < 2 ^ LENGTH(64)" by simp
  then have "unat (i + 1) = unat i + 1" by (simp add: unat_word_ariths)
  then show ?thesis by auto
qed

lemma topic_found_or_new:
  assumes inv: "store_inv H n s"
  obtains td where "(case um_find (ms_topics s) t of
      None \<Rightarrow> new_topic (ms_default_buffer_size s) t | Some td \<Rightarrow> Some td) = Some td"
    and "topic_inv H n (ms_max_retry_count s) t td"
proof (cases "um_find (ms_topics s) t")
  case None
  obtain td where new: "new_topic (ms_default_buffer_size s) t = Some td"
    using new_topic_total [OF store_invD(2) [OF inv]] by blast
  then have "td_topic_name td = t" "next_msg_id td = 1"
    by (auto simp: new_topic_def split: option.splits)
  then have "topic_inv H n (ms_max_retry_count s) t td"
    using td_inv_new [OF new store_invD(2) [OF inv]] unfolding topic_inv_def
    by (auto intro!: exI [of _ "[]"])
  then show ?thesis using that [of td] None new by simp
next
  case (Some td)
  then show ?thesis using that [of td] store_invD(3) [OF inv Some] by simp
qed

lemma Publish_good:
  assumes inv: "store_inv H n s" and "n + 2 < 2 ^ 64"
  obtains ok mid s' where "Publish t p ttl_ms ne ts s = Some ((ok, mid), s')"
    and "step_good H (n + 1) s ([], if ok then [(t, mid, p, ts, if ttl_ms > 0 then ne + ucast ttl_ms else 0)] else []) s'"
proof -
  let ?mr = "ms_max_retry_count s" and ?e = "if ttl_ms > 0 then ne + ucast ttl_ms else 0 :: u64"
  define find where "find = (case um_find (ms_topics s) t of
      None \<Rightarrow> new_topic (ms_default_buffer_size s) t | Some td \<Rightarrow> Some td)"
  obtain td where find: "find = Some td" and "topic_inv H n ?mr t td"
    unfolding find_def using topic_found_or_new [OF inv] .
  then obtain ms where name: "td_topic_name td = t"
    and bound: "unat (next_msg_id td) \<le> n + 1" and td: "td_inv ?mr td ms" "core ` td_messages td ms \<subseteq> H t"
    by (auto simp: topic_inv_def)
  obtain ok rb where push: "rb_Push (ring_buffer td) (serialize (next_msg_id td) ts ?e p) = (ok, rb)"
    by fastforce
  let ?td = "td\<lparr>next_msg_id := next_msg_id td + 1, ring_buffer := rb\<rparr>"
  let ?ps = "if ok then [(t, next_msg_id td, p, ts, ?e)] else []"
  let ?ms = "if ok then ms @ [published td ts ?e p] else ms"
  have run: "Publish t p ttl_ms ne ts s = Some ((ok, next_msg_id td), s\<lparr>ms_topics := um_put t ?td (ms_topics s)\<rparr>)"
    unfolding Publish_def find_def [symmetric] find by (simp add: push Let_def)
  note next_id = max_id [OF bound assms(2)]
  have inv': "td_inv ?mr ?td ?ms" and msgs: "td_messages ?td ?ms =
      td_messages td ms \<union> (if ok then {published td ts ?e p} else {})"
    using td_inv_push [OF td(1) conjunct1 [OF next_id] push] by simp_all
  have "core (published td ts ?e p) = (next_msg_id td, p, ts, ?e)"
    by (simp add: core_def published_def stored_def)
  then have "core ` td_messages ?td ?ms \<subseteq> extend H ?ps t"
    using td(2) by (auto simp: msgs extend_def)
  moreover have "unat (next_msg_id td + 1) \<le> n + 1 + 1"
    using next_id bound by simp
  ultimately have td': "topic_inv (extend H ?ps) (n + 1) ?mr t ?td"
    using inv' name unfolding topic_inv_def by auto
  have "store_inv (extend H ?ps) (n + 1) (s\<lparr>ms_topics := um_put t ?td (ms_topics s)\<rparr>)"
    by (rule store_inv_put [OF inv td' extend_mono]) simp
  then show ?thesis
    using that [OF run] by (simp add: step_good_def same_settings_def)
qed

lemma Pull_good:
  assumes inv: "store_inv H n s"
  obtains res s' where "Pull t c k g now_ms clk s = Some (res, s')" and "step_good H n s (map (Pair t) res, []) s'"
proof (cases "um_find (ms_topics s) t")
  case None
  then show ?thesis
    using that [of "[]" s] inv by (simp add: Pull_def step_good_def same_settings_def)
next
  case (Some td)
  let ?mr = "ms_max_retry_count s"
  obtain ms where name: "td_topic_name td = t" and bound: "unat (next_msg_id td) \<le> n + 1"
    and td: "td_inv ?mr td ms" "core ` td_messages td ms \<subseteq> H t"
    using store_invD(3) [OF inv Some] by (auto simp: topic_inv_def)
  obtain td1 where d: "DrainRingBuffer td = Some td1" "td_inv ?mr td1 []"
    and td1: "td1 = td\<lparr>ring_buffer := ring_buffer td1, message_log := message_log td1\<rparr>"
      "td_messages td1 [] = td_messages td ms"
    using td_inv_drain [OF td(1)] by metis
  obtain res td2 where p: "pull_topic c k g now_ms clk td1 = (res, td2)" by fastforce
  note pulled = td_inv_pull [OF d(2) p]
  have "next_msg_id td1 = next_msg_id td" "td_topic_name td1 = td_topic_name td"
    using arg_cong [OF td1(1), of next_msg_id] arg_cong [OF td1(1), of td_topic_name] by simp_all
  then have "next_msg_id td2 = next_msg_id td" "td_topic_name td2 = t"
    using pull_topic_post [OF d(2) p] name by (simp_all add: pull_post_def)
  moreover have "core ` td_messages td2 [] \<subseteq> H t"
    using pulled(2) td1(2) td(2) by auto
  ultimately have "topic_inv H n ?mr t td2"
    using pulled(1) bound unfolding topic_inv_def by auto
  then have "store_inv H n (s\<lparr>ms_topics := um_put t td2 (ms_topics s)\<rparr>)"
    by (rule store_inv_put [OF inv]) simp_all
  moreover have "core m \<in> H t \<and> retry_count m \<le> ?mr" if "m \<in> set res" for m
    using that pulled(3) td1(2) td(2) pulled_retry_count [OF d(2) p] by blast
  ultimately show ?thesis
    using that [of res "s\<lparr>ms_topics := um_put t td2 (ms_topics s)\<rparr>"] Some d(1) p
    by (simp add: Pull_def step_good_def same_settings_def)
qed

lemma Ack_inv:
  assumes inv: "store_inv H n s"
  shows "store_inv H n (snd (Ack t c mid g s)) \<and> same_settings s (snd (Ack t c mid g s))"
proof (cases "um_find (ms_topics s) t")
  case None
  then show ?thesis using inv by (simp add: Ack_def same_settings_def)
next
  case (Some td)
  let ?mr = "ms_max_retry_count s" and ?key = "MakeConsumerKey g c"
  obtain ms where td: "td_topic_name td = t" "unat (next_msg_id td) \<le> n + 1"
    "td_inv ?mr td ms" "core ` td_messages td ms \<subseteq> H t"
    using store_invD(3) [OF inv Some] by (auto simp: topic_inv_def)
  note ack = td_inv_ack [OF td(3) refl, of ?key]
  have 1: "topic_inv H n ?mr t (td\<lparr>pending_acks := um_put ?key (um_at [] (pending_acks td) ?key) (pending_acks td)\<rparr>)"
    unfolding topic_inv_def using td ack(1,3) by auto
  have 2: "topic_inv H n ?mr t (td\<lparr>pending_acks := um_put ?key (um_erase mid (um_at [] (pending_acks td) ?key)) (pending_acks td)\<rparr>)"
    unfolding topic_inv_def using td ack(2) [of mid] ack(4) [of mid]
    by (intro conjI exI [of _ ms]) (auto dest: subsetD image_mono)
  show ?thesis
    using Some store_inv_put [OF inv 1] store_inv_put [OF inv 2]
    by (simp add: Ack_def Let_def same_settings_def)
qed

lemma CreateTopic_good:
  assumes inv: "store_inv H n s"
  obtains ok s' where "CreateTopic t s = Some (ok, s')" and "store_inv H n s'" and "same_settings s s'"
proof (cases "um_has (ms_topics s) t")
  case True
  then show ?thesis using that [of False s] inv by (simp add: CreateTopic_def same_settings_def)
next
  case False
  note b = store_invD(2) [OF inv]
  obtain td where new: "new_topic (ms_default_buffer_size s) t = Some td"
    using new_topic_total [OF b] by blast
  then have "td_topic_name td = t" "next_msg_id td = 1"
    by (auto simp: new_topic_def split: option.splits)
  then have "topic_inv H n (ms_max_retry_count s) t td"
    using td_inv_new(1) [OF new b] td_inv_new(2) [OF new b] unfolding topic_inv_def
    by (auto intro!: exI [of _ "[]"])
  then have "store_inv H n (s\<lparr>ms_topics := um_put t td (ms_topics s)\<rparr>)"
    by (rule store_inv_put [OF inv]) simp_all
  then show ?thesis
    using that [of True "s\<lparr>ms_topics := um_put t td (ms_topics s)\<rparr>"] False new
    by (simp add: CreateTopic_def same_settings_def)
qed

lemma DeleteTopic_inv:
  assumes "store_inv H n s"
  shows "store_inv H n (snd (DeleteTopic t s)) \<and> same_settings s (snd (DeleteTopic t s))"
  using assms
  by (auto simp: DeleteTopic_def store_inv_def same_settings_def um.wf_erase dlq_inv_def dlq_of_def um_at_def
      split: if_splits option.splits)

lemma PullDlq_inv:
  assumes inv: "store_inv H n s" and pull: "PullDlq t k s = (res, s')"
  shows "store_inv H n s'" and "same_settings s s'"
    and "m \<in> set res \<Longrightarrow> core m \<in> H t \<and> retry_count m = ms_max_retry_count s"
proof -
  have dlq: "core m \<in> H t' \<and> retry_count m = ms_max_retry_count s"
    if "m \<in> set (dlq_of s (MakeDlqName t'))" for m t'
    using store_invD(4) [OF inv] that by (auto simp: dlq_inv_def)
  have sub: "set (dlq_of s' x) \<subseteq> set (dlq_of s x)" for x
    using pull by (auto simp: PullDlq_def Let_def dlq_of_def um_at_def dest: in_set_dropD split: option.splits if_splits)
  have s': "ms_topics s' = ms_topics s" "same_settings s s'"
    using pull by (auto simp: PullDlq_def Let_def same_settings_def split: option.splits)
  then show "same_settings s s'" by simp
  have "dlq_inv H s'"
    using dlq sub s'(2) unfolding dlq_inv_def same_settings_def by (metis subsetD)
  then show "store_inv H n s'"
    using inv s' by (simp add: store_inv_def same_settings_def)
  have "set res \<subseteq> set (dlq_of s (MakeDlqName t))"
    using pull by (auto simp: PullDlq_def Let_def dlq_of_def um_at_def dest: in_set_takeD split: option.splits)
  then show "m \<in> set res \<Longrightarrow> core m \<in> H t \<and> retry_count m = ms_max_retry_count s"
    using dlq by blast
qed

lemma retry_one_inv:
  assumes inv: "store_inv H n s" and t: "um_find (ms_topics s) t = Some td"
    and pr: "ProcessPendingRetries now now_ms td s = (td', s')"
  shows "store_inv H n (s'\<lparr>ms_topics := um_put t td' (ms_topics s')\<rparr>) \<and>
    same_settings s (s'\<lparr>ms_topics := um_put t td' (ms_topics s')\<rparr>)"
proof -
  let ?mr = "ms_max_retry_count s"
  obtain ms where td: "td_topic_name td = t" "unat (next_msg_id td) \<le> n + 1"
    "td_inv ?mr td ms" "core ` td_messages td ms \<subseteq> H t"
    using store_invD(3) [OF inv t] by (auto simp: topic_inv_def)
  note r = td_inv_retry [OF td(3) refl pr]
  have s': "s' = s\<lparr>dlq_storage := dlq_storage s'\<rparr>"
    using ProcessPendingRetries_eq(3) [OF td(3) pr] .
  have set: "ms_topics s' = ms_topics s" "ms_max_retry_count s' = ?mr"
    "ms_default_buffer_size s' = ms_default_buffer_size s" "ms_pending_timeout_ms s' = ms_pending_timeout_ms s"
    by (subst s', simp)+
  have "core m \<in> H t' \<and> retry_count m = ?mr" if "m \<in> set (dlq_of s' (MakeDlqName t'))" for m t'
    using r(5) [OF that] store_invD(4) [OF inv] td(1,4) by (auto simp: dlq_inv_def)
  then have "dlq_inv H s'"
    by (simp add: dlq_inv_def set)
  then have "store_inv H n s'"
    using inv by (simp add: store_inv_def set)
  moreover have "core ` td_messages td' ms \<subseteq> H t"
    using r(2) td(4) by blast
  then have "topic_inv H n (ms_max_retry_count s') t td'"
    using td r(1,3,4) unfolding topic_inv_def set by auto
  ultimately show ?thesis
    using store_inv_put [of H n s' H n t td'] by (simp add: same_settings_def set)
qed

lemma retry_round_inv:
  "store_inv H n s \<Longrightarrow> store_inv H n (retry_round now now_ms ts s) \<and> same_settings s (retry_round now now_ms ts s)"
proof (induction ts arbitrary: s)
  case (Cons t ts)
  show ?case
  proof (cases "um_find (ms_topics s) t")
    case None
    then show ?thesis using Cons by simp
  next
    case (Some td)
    obtain td' s' where pr: "ProcessPendingRetries (now t) (now_ms t) td s = (td', s')" by fastforce
    note one = retry_one_inv [OF Cons.prems Some pr]
    show ?thesis
      using Cons.IH [OF conjunct1 [OF one]] one Some pr by (auto simp: same_settings_def)
  qed
qed (simp add: same_settings_def)

lemma um_find_map: "um_find (map (\<lambda>(k, v). (k, f k v)) m) k = map_option (f k) (um_find m k)"
  by (induction m) (auto simp: um_find_Cons)

lemma topic_inv_expire:
  assumes "topic_inv H n mr t td"
  shows "topic_inv H n mr t (ExpireTopicMessages now_ms td)"
proof -
  obtain ms where td: "td_topic_name td = t" "unat (next_msg_id td) \<le> n + 1"
    "td_inv mr td ms" "core ` td_messages td ms \<subseteq> H t"
    using assms by (auto simp: topic_inv_def)
  then show ?thesis
    using td_inv_expire [OF td(3), of now_ms] unfolding topic_inv_def
    by (intro conjI exI [of _ ms]) (auto dest: subsetD image_mono)
qed

lemma ExpirationLoop_inv:
  assumes inv: "store_inv H n s"
  shows "store_inv H n (ExpirationLoop_round now_ms s) \<and> same_settings s (ExpirationLoop_round now_ms s)"
proof -
  have "um_wf (map (\<lambda>(t, td). (t, ExpireTopicMessages (now_ms t) td)) (ms_topics s))"
    using store_invD(1) [OF inv] by (simp add: um_wf_def comp_def case_prod_unfold)
  then show ?thesis
    using inv topic_inv_expire
    by (auto simp: store_inv_def ExpirationLoop_round_def um_find_map same_settings_def dlq_inv_def dlq_of_def)
qed

lemma expire_topic_inv:
  assumes inv: "store_inv H n s"
  shows "store_inv H n (expire_topic t now_ms s) \<and> same_settings s (expire_topic t now_ms s)"
  using store_inv_put [OF inv topic_inv_expire [OF store_invD(3) [OF inv]]] inv
  by (auto simp: expire_topic_def same_settings_def split: option.splits)

lemma store_exec_good:
  assumes inv: "store_inv H n s" and "n + 2 < 2 ^ 64"
  obtains ev s' where "store_exec x s = Some (ev, s')" and "step_good H (n + 1) s ev s'"
proof -
  have quiet: "step_good H (n + 1) s (d, []) s'"
    if "store_inv H n s'" "same_settings s s'"
      "\<forall>(t, m) \<in> set d. core m \<in> H t \<and> retry_count m \<le> ms_max_retry_count s" for s' d
    using store_inv_mono [OF that(1), of H "n + 1"] that by (simp add: step_good_def)
  show ?thesis
  proof (cases x)
    case (SCreate t)
    obtain ok s' where "CreateTopic t s = Some (ok, s')" "store_inv H n s'" "same_settings s s'"
      using CreateTopic_good [OF inv] .
    then show ?thesis using that [OF _ quiet [of s' "[]"]] SCreate by simp
  next
    case (SDelete t)
    then show ?thesis using that [OF _ quiet] DeleteTopic_inv [OF inv, of t] by simp
  next
    case (SPublish t p ttl_ms ne ts)
    obtain ok mid s' where p: "Publish t p ttl_ms ne ts s = Some ((ok, mid), s')"
      and good: "step_good H (n + 1) s
        ([], if ok then [(t, mid, p, ts, if ttl_ms > 0 then ne + ucast ttl_ms else 0)] else []) s'"
      using Publish_good [OF assms] .
    show ?thesis
      by (rule that [OF _ good]) (simp only: SPublish store_exec.simps p option.map case_prod_conv)
  next
    case (SPull t c k g now_ms clk)
    obtain res s' where p: "Pull t c k g now_ms clk s = Some (res, s')"
      and good: "step_good H n s (map (Pair t) res, []) s'"
      using Pull_good [OF inv] .
    then have "step_good H (n + 1) s (map (Pair t) res, []) s'"
      by (intro quiet) (auto simp: step_good_def)
    then show ?thesis using that p SPull by simp
  next
    case (SAck t c mid g)
    then show ?thesis using that [OF _ quiet] Ack_inv [OF inv, of t c mid g] by simp
  next
    case (SPullDlq t k)
    obtain res s' where p: "PullDlq t k s = (res, s')" by fastforce
    then show ?thesis
      using that [OF _ quiet [of s' "map (Pair t) res"]] PullDlq_inv [OF inv p] SPullDlq by auto
  next
    case (SRetry now now_ms)
    then show ?thesis
      using that [OF _ quiet] retry_round_inv [OF inv, of now now_ms "map fst (ms_topics s)"]
      by (simp add: RetryLoop_round_def)
  next
    case (SExpire now_ms)
    then show ?thesis using that [OF _ quiet] ExpirationLoop_inv [OF inv, of now_ms] by simp
  next
    case (SRetryTopic t now now_ms)
    then show ?thesis
      using that [OF _ quiet] retry_round_inv [OF inv, of "\<lambda>_. now" "\<lambda>_. now_ms" "[t]"] by simp
  next
    case (SExpireTopic t now_ms)
    then show ?thesis using that [OF _ quiet] expire_topic_inv [OF inv, of t now_ms] by simp
  qed
qed

lemma store_run_good:
  assumes "store_inv H n s" and "n + length xs + 1 < 2 ^ 64"
  shows "\<exists>d p s'. store_run xs s = Some ((d, p), s') \<and> store_inv (extend H p) (n + length xs) s' \<and>
    same_settings s s' \<and> (\<forall>(t, m) \<in> set d. core m \<in> extend H p t \<and> retry_count m \<le> ms_max_retry_count s)"
  using assms
proof (induction xs arbitrary: H n s)
  case (Cons x xs)
  have "n + 2 < 2 ^ 64" using Cons.prems(2) by simp
  then obtain ev s1 where x: "store_exec x s = Some (ev, s1)" and good: "step_good H (n + 1) s ev s1"
    by (rule store_exec_good [OF Cons.prems(1)])
  obtain d1 p1 where ev: "ev = (d1, p1)" by fastforce
  have inv1: "store_inv (extend H p1) (n + 1) s1" and same1: "same_settings s s1"
    and d1: "\<forall>(t, m) \<in> set d1. core m \<in> H t \<and> retry_count m \<le> ms_max_retry_count s"
    using good by (simp_all add: step_good_def ev)
  obtain d2 p2 s2 where run: "store_run xs s1 = Some ((d2, p2), s2)"
    and inv2: "store_inv (extend (extend H p1) p2) (n + 1 + length xs) s2" and same2: "same_settings s1 s2"
    and d2: "\<forall>(t, m) \<in> set d2. core m \<in> extend (extend H p1) p2 t \<and> retry_count m \<le> ms_max_retry_count s1"
    using Cons.IH [OF inv1] Cons.prems(2) by auto
  have "core m \<in> extend H (p1 @ p2) t \<and> retry_count m \<le> ms_max_retry_count s" if "(t, m) \<in> set (d1 @ d2)" for t m
    using that d1 d2 same1 by (auto simp: extend_append same_settings_def extend_def)
  moreover have "same_settings s s2"
    using same1 same2 by (simp add: same_settings_def)
  ultimately show ?case
    using x run inv2 by (auto simp: ev extend_append)
qed (simp add: same_settings_def)

end
