(* ===== verification/Message_Store_Props.thy ===== *)
theory Message_Store_Props
  imports Message_Store_Inv
begin

text \<open>
  What the message store promises: nothing is delivered that was not published, a consumer that
  keeps up receives every message exactly once and in order, acknowledging, the fate of messages
  that are not acknowledged, expiry, and the dead-letter queue. The locale \<open>message_log\<close> is the
  contract of \<open>IMessageStore\<close> that the broker relies on.
\<close>

subsection \<open>The contract of \<open>IMessageStore\<close>\<close>

text \<open>
  What the broker relies on: publishing appends to the log of its topic when it succeeds and leaves
  every log alone when it fails, and neither pulling nor acknowledging changes a log. \<open>wf n\<close> are the
  states in which at most \<open>n\<close> identifiers were given out per topic.
\<close>

definition expiry_of :: "u32 \<Rightarrow> u64 \<Rightarrow> u64" where
  "expiry_of ttl_ms now_expiry = (if ttl_ms > 0 then now_expiry + ucast ttl_ms else 0)"

locale message_store =
  fixes wf :: "nat \<Rightarrow> 's \<Rightarrow> bool"
    and log :: "'s \<Rightarrow> TopicName \<Rightarrow> StoredMessage list"
    and publish :: "TopicName \<Rightarrow> Payload \<Rightarrow> u32 \<Rightarrow> u64 \<Rightarrow> u64 \<Rightarrow> 's \<Rightarrow> ((bool \<times> MessageId) \<times> 's) option"
    and pull :: "TopicName \<Rightarrow> string \<Rightarrow> u32 \<Rightarrow> bool \<Rightarrow> u64 \<Rightarrow> (nat \<Rightarrow> time_point) \<Rightarrow> 's \<Rightarrow> (StoredMessage list \<times> 's) option"
    and ack :: "TopicName \<Rightarrow> string \<Rightarrow> MessageId \<Rightarrow> bool \<Rightarrow> 's \<Rightarrow> bool \<times> 's"
  assumes publish_law: "wf n s \<Longrightarrow> n + 2 < 2 ^ 64 \<Longrightarrow> \<exists>ok mid s'.
      publish t p ttl_ms ne ts s = Some ((ok, mid), s') \<and> wf (n + 1) s' \<and>
      log s' = (if ok then (log s)(t := log s t @ [stored mid ts (expiry_of ttl_ms ne) p]) else log s)"
    and pull_law: "wf n s \<Longrightarrow> \<exists>res s'. pull t c j g now_ms clk s = Some (res, s') \<and> wf n s' \<and> log s' = log s"
    and ack_law: "wf n s \<Longrightarrow> wf n (snd (ack t c mid g s)) \<and> log (snd (ack t c mid g s)) = log s"
begin

text \<open>Publishing a list of messages, and the log entries of those that were accepted.\<close>

fun publish_all :: "(TopicName \<times> Payload \<times> u32 \<times> u64 \<times> u64) list \<Rightarrow> 's \<Rightarrow> ((TopicName \<times> StoredMessage) list \<times> 's) option" where
  "publish_all [] s = Some ([], s)"
| "publish_all ((t, p, ttl_ms, ne, ts) # xs) s =
     (case publish t p ttl_ms ne ts s of
        None \<Rightarrow> None
      | Some ((ok, mid), s1) \<Rightarrow>
          map_option (\<lambda>(acc, s2).
            ((if ok then [(t, stored mid ts (expiry_of ttl_ms ne) p)] else []) @ acc, s2)) (publish_all xs s1))"

lemma publish_all_logs:
  "wf n s \<Longrightarrow> n + length xs + 1 < 2 ^ 64 \<Longrightarrow> \<exists>acc s'. publish_all xs s = Some (acc, s') \<and> wf (n + length xs) s' \<and>
     (\<forall>t. log s' t = log s t @ map snd (filter (\<lambda>e. fst e = t) acc)) \<and> length acc \<le> length xs"
proof (induction xs arbitrary: n s)
  case (Cons x xs)
  obtain t p ttl_ms ne ts where x: "x = (t, p, ttl_ms, ne, ts)" by (cases x)
  have n: "n + 2 < 2 ^ 64" "n + 1 + length xs + 1 < 2 ^ 64" using Cons.prems(2) by simp_all
  obtain ok mid s1 where one: "publish t p ttl_ms ne ts s = Some ((ok, mid), s1)" "wf (n + 1) s1"
    "log s1 = (if ok then (log s)(t := log s t @ [stored mid ts (expiry_of ttl_ms ne) p]) else log s)"
    using publish_law [OF Cons.prems(1) n(1)] by blast
  from Cons.IH [OF one(2) n(2)]
  obtain acc s' where "publish_all xs s1 = Some (acc, s')" "wf (n + 1 + length xs) s'"
    "\<forall>t. log s' t = log s1 t @ map snd (filter (\<lambda>e. fst e = t) acc)" "length acc \<le> length xs"
    by blast
  then show ?case
    using one by (auto simp: x)
qed simp

end

definition log_of :: "MemoryMessageStore \<Rightarrow> TopicName \<Rightarrow> StoredMessage list" where
  "log_of s t =
     (case um_find (ms_topics s) t of
        None \<Rightarrow> []
      | Some td \<Rightarrow> (case DrainRingBuffer td of None \<Rightarrow> [] | Some td1 \<Rightarrow> message_log td1))"

definition store_ok :: "nat \<Rightarrow> MemoryMessageStore \<Rightarrow> bool" where
  "store_ok n s \<longleftrightarrow> (\<exists>H. store_inv H n s)"

lemma drained_log: "td_inv mr td ms \<Longrightarrow> (case DrainRingBuffer td of None \<Rightarrow> [] | Some td1 \<Rightarrow> message_log td1) = td_stream td ms"
  by (rule td_inv_drain [of mr td ms]) auto

lemma log_of_inv: "um_find (ms_topics s) t = Some td \<Longrightarrow> td_inv mr td ms \<Longrightarrow> log_of s t = td_stream td ms"
  by (simp add: log_of_def drained_log)

lemma log_of_put:
  "td_inv mr td ms \<Longrightarrow> log_of (s\<lparr>ms_topics := um_put t td (ms_topics s)\<rparr>) = (log_of s)(t := td_stream td ms)"
  by (auto simp: log_of_def drained_log fun_eq_iff)

lemma Publish_log:
  assumes inv: "store_inv H n s" and "n + 2 < 2 ^ 64"
    and pub: "Publish t p ttl_ms ne ts s = Some ((ok, mid), s')"
  shows "log_of s' = (if ok then (log_of s)(t := log_of s t @ [stored mid ts (expiry_of ttl_ms ne) p]) else log_of s)"
proof -
  let ?mr = "ms_max_retry_count s"
  have b: "ms_default_buffer_size s \<le> unat kMaxPayloadSize" using store_invD(2) [OF inv] .
  obtain td rb where s': "s' = s\<lparr>ms_topics := um_put t (td\<lparr>next_msg_id := next_msg_id td + 1, ring_buffer := rb\<rparr>) (ms_topics s)\<rparr>"
    and push: "rb_Push (ring_buffer td) (serialize (next_msg_id td) ts (expiry_of ttl_ms ne) p) = (ok, rb)"
    and mid: "mid = next_msg_id td"
    and td: "(case um_find (ms_topics s) t of None \<Rightarrow> new_topic (ms_default_buffer_size s) t | Some td \<Rightarrow> Some td) = Some td"
    using pub unfolding Publish_def expiry_of_def [symmetric]
    by (auto simp: Let_def split: option.splits prod.splits)
  obtain ms where tdi: "td_inv ?mr td ms" and bound: "unat (next_msg_id td) \<le> n + 1" and old: "log_of s t = td_stream td ms"
  proof (cases "um_find (ms_topics s) t")
    case None
    then have new: "new_topic (ms_default_buffer_size s) t = Some td" using td by simp
    then have "next_msg_id td = 1" "message_log td = []" by (auto simp: new_topic_def split: option.splits)
    then show ?thesis
      using that [of "[]"] td_inv_new(1) [OF new b] None by (simp add: log_of_def td_stream_def)
  next
    case (Some td0)
    then show ?thesis
      using that td store_invD(3) [OF inv Some] log_of_inv [OF Some] by (auto simp: topic_inv_def)
  qed
  note new = td_inv_push(1) [OF tdi conjunct1 [OF max_id [OF bound assms(2)]] push]
  have "log_of s' = (log_of s)(t := td_stream (td\<lparr>next_msg_id := next_msg_id td + 1, ring_buffer := rb\<rparr>)
      (if ok then ms @ [published td ts (expiry_of ttl_ms ne) p] else ms))"
    unfolding s' by (rule log_of_put [OF new])
  then show ?thesis
    using old mid by (auto simp: td_stream_def published_def fun_eq_iff)
qed

lemma Pull_log:
  assumes inv: "store_inv H n s" and pull: "Pull t c j g now_ms clk s = Some (res, s')"
  shows "log_of s' = log_of s"
proof (cases "um_find (ms_topics s) t")
  case None
  then show ?thesis using pull by (simp add: Pull_def)
next
  case (Some td)
  obtain ms where td: "td_inv (ms_max_retry_count s) td ms"
    using store_invD(3) [OF inv Some] by (auto simp: topic_inv_def)
  obtain td1 where d: "DrainRingBuffer td = Some td1" "td_inv (ms_max_retry_count s) td1 []" "message_log td1 = td_stream td ms"
    using td_inv_drain [OF td] by metis
  obtain res1 td2 where p: "pull_topic c j g now_ms clk td1 = (res1, td2)" by fastforce
  have s': "s' = s\<lparr>ms_topics := um_put t td2 (ms_topics s)\<rparr>"
    using pull Some d(1) p by (simp add: Pull_def)
  have "td_stream td2 [] = td_stream td ms"
    using pull_topic_post [OF d(2) p] d(3) by (simp add: pull_post_def td_stream_def)
  then show ?thesis
    unfolding s' log_of_put [OF td_inv_pull(1) [OF d(2) p]]
    using log_of_inv [OF Some td] by (simp add: fun_eq_iff)
qed

lemma Ack_log:
  assumes inv: "store_inv H n s"
  shows "log_of (snd (Ack t c mid g s)) = log_of s"
proof (cases "um_find (ms_topics s) t")
  case None
  then show ?thesis by (simp add: Ack_def)
next
  case (Some td)
  obtain ms where td: "td_inv (ms_max_retry_count s) td ms"
    using store_invD(3) [OF inv Some] by (auto simp: topic_inv_def)
  show ?thesis
    using Some log_of_put [OF td_inv_ack(1) [OF td refl]] log_of_put [OF td_inv_ack(2) [OF td refl]] log_of_inv [OF Some td]
    by (auto simp: Ack_def Let_def td_stream_def fun_eq_iff)
qed

interpretation st: message_store store_ok log_of Publish Pull Ack
proof (unfold_locales, goal_cases)
  case (1 n s t p ttl_ms ne ts)
  then obtain H where inv: "store_inv H n s" by (auto simp: store_ok_def)
  obtain ok mid s' where pub: "Publish t p ttl_ms ne ts s = Some ((ok, mid), s')"
    and good: "step_good H (n + 1) s ([], if ok then [(t, mid, p, ts, if ttl_ms > 0 then ne + ucast ttl_ms else 0)] else []) s'"
    using Publish_good [OF inv 1(2)] .
  then have "store_ok (n + 1) s'" unfolding step_good_def store_ok_def by blast
  with pub Publish_log [OF inv 1(2) pub] show ?case by blast
next
  case (2 n s t c j g now_ms clk)
  then obtain H where inv: "store_inv H n s" by (auto simp: store_ok_def)
  obtain res s' where pull: "Pull t c j g now_ms clk s = Some (res, s')" and "step_good H n s (map (Pair t) res, []) s'"
    using Pull_good [OF inv] .
  then have "store_ok n s'" by (auto simp: step_good_def store_ok_def)
  with pull Pull_log [OF inv pull] show ?case by blast
next
  case (3 n s t c mid g)
  then show ?case using Ack_inv Ack_log unfolding store_ok_def by blast
qed

subsection \<open>Integrity of every execution\<close>

text \<open>
  C1: Integrity: on a store with rings of at most 16 MiB, every sequence of fewer than 2^64 - 1 calls and
  background rounds ends without an exception or an endless loop and keeps the invariant; every message it
  delivers, from the log, after retries or from the dead-letter queue, was published on that topic
  with that identifier, payload, time stamp and expiry, and was retried at most the configured
  number of times.
\<close>

theorem store_integrity:
  assumes "b \<le> unat kMaxPayloadSize" and "length xs + 1 < 2 ^ 64"
  shows "\<exists>d p s. store_run xs (ms_new b mr tmo) = Some ((d, p), s) \<and>
    store_inv (extend (\<lambda>_. {}) p) (length xs) s \<and>
    (\<forall>(t, m) \<in> set d. (t, core m) \<in> set p \<and> retry_count m \<le> mr)"
proof -
  obtain d p s where "store_run xs (ms_new b mr tmo) = Some ((d, p), s)"
    and "store_inv (extend (\<lambda>_. {}) p) (0 + length xs) s"
    and "\<forall>(t, m) \<in> set d. core m \<in> extend (\<lambda>_. {}) p t \<and> retry_count m \<le> ms_max_retry_count (ms_new b mr tmo)"
    using store_run_good [OF store_inv_new [OF assms(1)], of xs mr tmo] assms(2) by auto
  then show ?thesis
    by (auto simp: extend_def ms_new_def)
qed

theorem store_integrity_witness:
  "\<exists>d p s. store_run [SPublish ''t'' [7] 0 0 100, SPull ''t'' ''a'' 10 False 100 (\<lambda>_. 0)] (ms_new 64 3 5000)
     = Some ((d, p), s) \<and> (\<forall>(t, m) \<in> set d. (t, core m) \<in> set p \<and> retry_count m \<le> 3)"
proof -
  let ?xs = "[SPublish ''t'' [7] 0 0 100, SPull ''t'' ''a'' 10 False 100 (\<lambda>_. 0)]"
  have "64 \<le> unat kMaxPayloadSize" and "length ?xs + 1 < 2 ^ 64" by simp_all
  from store_integrity [OF this, of 3 5000] show ?thesis by blast
qed

subsection \<open>Delivery to one consumer\<close>

text \<open>
  A consumer \<open>c\<close> of topic \<open>t\<close> that works while messages without expiry are published and the retry
  scan finds nothing to do: \<open>consumer_op\<close> are the calls, \<open>progress td ms k\<close> says that exactly the
  first \<open>k\<close> messages of the topic were handed out to the consumer.
\<close>

fun consumer_op :: "TopicName \<Rightarrow> string \<Rightarrow> bool \<Rightarrow> store_op \<Rightarrow> bool" where
  "consumer_op t c g (SPublish t' p ttl_ms now_expiry now_ts) \<longleftrightarrow> t' = t \<and> ttl_ms = 0"
| "consumer_op t c g (SPull t' c' n g' now_ms clk) \<longleftrightarrow> t' = t \<and> c' = c \<and> g' = g"
| "consumer_op t c g (SAck t' c' mid g') \<longleftrightarrow> t' = t \<and> c' = c \<and> g' = g"
| "consumer_op t c g _ \<longleftrightarrow> False"

definition progress :: "bool \<Rightarrow> string \<Rightarrow> TopicData \<Rightarrow> StoredMessage list \<Rightarrow> nat \<Rightarrow> bool" where
  "progress g key td ms k \<longleftrightarrow> retry_queue td = [] \<and> k \<le> length (td_stream td ms) \<and>
     (\<forall>m \<in> set (td_stream td ms). expires_at m = 0) \<and>
     (\<forall>m \<in> set (take k (td_stream td ms)). sm_id m < td_offset g key td) \<and>
     (\<forall>m \<in> set (drop k (td_stream td ms)). td_offset g key td \<le> sm_id m \<and>
        um_find (um_at [] (pending_acks td) key) (sm_id m) = None)"

lemma not_expired: "expires_at m = 0 \<Longrightarrow> \<not> expired now_ms m"
  by (simp add: expired_def)

lemma log_candidates_progress:
  assumes "progress g key td [] k"
  shows "log_candidates now_ms (td_offset g key td) (um_at [] (pending_acks td) key) (message_log td) =
    drop k (message_log td)"
proof -
  let ?P = "\<lambda>m. td_offset g key td \<le> sm_id m \<and> \<not> expired now_ms m \<and>
     um_find (um_at [] (pending_acks td) key) (sm_id m) = None"
  have log: "td_stream td [] = message_log td" by (simp add: td_stream_def)
  have "\<not> ?P m" if "m \<in> set (take k (message_log td))" for m
    using assms that unfolding progress_def log by (simp add: not_le)
  then have none: "filter ?P (take k (message_log td)) = []"
    by (simp add: filter_empty_conv)
  have keep: "?P m" if "m \<in> set (drop k (message_log td))" for m
  proof -
    have "expires_at m = 0"
      using assms in_set_dropD [OF that] by (simp add: progress_def log)
    then show ?thesis
      using assms that by (simp add: progress_def log not_expired)
  qed
  have all: "filter ?P (drop k (message_log td)) = drop k (message_log td)"
    by (intro filter_True ballI keep)
  have "filter ?P (message_log td) = filter ?P (take k (message_log td)) @ filter ?P (drop k (message_log td))"
    unfolding filter_append [symmetric] append_take_drop_id ..
  then show ?thesis
    unfolding log_candidates_def none all by simp
qed

lemma progress_pull:
  assumes inv: "td_inv mr td []" and prog: "progress g key td [] k"
    and pull: "pull_topic c n g now_ms clk td = (res, td')" and key: "key = MakeConsumerKey g c"
  shows "res = take (unat n) (drop k (message_log td))" and "progress g key td' [] (k + length res)"
proof -
  let ?log = "message_log td" and ?pm = "um_at [] (pending_acks td) key"
  have log: "td_stream td [] = ?log" by (simp add: td_stream_def)
  note post = pull_topic_post [OF inv pull, folded key]
  have L: "pulled_log (unat n) now_ms g key td = take (unat n) (drop k ?log)"
    by (simp add: pulled_log_def log_candidates_progress [OF prog])
  have "pulled_retry (unat n) now_ms g key td = []"
    using prog by (simp add: pulled_retry_def retry_candidates_def progress_def)
  then show res: "res = take (unat n) (drop k ?log)"
    using post L by (simp add: pulled_def)
  have td': "message_log td' = ?log" "retry_queue td' = []"
    and pend: "um_at [] (pending_acks td') key = handed_out clk 0 res ?pm"
    and off: "offset_moves now_ms (next_msg_id td) (td_offset g key td) (td_offset g key td') ?pm ?log res"
    using post prog L res by (auto simp: pull_post_def retry_taken_def progress_def dest: list_emb_Nil2)
  let ?k = "k + length res"
  have split: "take ?k ?log = take k ?log @ res" "drop ?k ?log = drop (unat n) (drop k ?log)"
    using prog by (auto simp: res take_add progress_def log min_def add.commute)
  have inc: "ids_increase (take ?k ?log @ drop ?k ?log)"
    using td_invD(3) [OF inv] by (simp add: log)
  have passed: "\<forall>m \<in> set (take ?k ?log). sm_id m < td_offset g key td'"
    using off prog unfolding split(1) by (auto simp: offset_moves_def progress_def log intro: less_le_trans)
  have rest: "m \<in> set (drop k ?log) \<and> m \<notin> set res \<and> sm_id m \<notin> sm_id ` set res" if "m \<in> set (drop ?k ?log)" for m
  proof -
    have "sm_id x < sm_id m" if "x \<in> set res" for x
      using inc that \<open>m \<in> set (drop ?k ?log)\<close> unfolding split(1) by (auto simp: ids_increase_append)
    then have "sm_id m \<notin> sm_id ` set res"
      by (metis imageE less_irrefl)
    moreover have "m \<in> set (drop k ?log)"
      using that unfolding split(2) by (rule in_set_dropD)
    ultimately show ?thesis by auto
  qed
  have "td_offset g key td' \<le> sm_id m \<and> um_find (um_at [] (pending_acks td') key) (sm_id m) = None"
    if m: "m \<in> set (drop ?k ?log)" for m
  proof -
    have old: "td_offset g key td \<le> sm_id m" "um_find ?pm (sm_id m) = None" "expires_at m = 0" "m \<in> set ?log"
      using rest [OF m] prog by (auto simp: progress_def log dest: in_set_dropD)
    then have "\<not> sm_id m < td_offset g key td'"
      using off rest [OF m] not_expired [of m now_ms] unfolding offset_moves_def by blast
    then show ?thesis
      using old rest [OF m] by (simp add: pend handed_out_None)
  qed
  then show "progress g key td' [] ?k"
    using prog passed td' res by (auto simp: progress_def log td_stream_def min_def)
qed

lemma progress_drain:
  assumes "progress g key td ms k" and "td' = td\<lparr>ring_buffer := rb, message_log := td_stream td ms\<rparr>"
  shows "progress g key td' [] k"
  using assms by (simp add: progress_def td_stream_def)

lemma progress_ack:
  assumes "progress g key td ms k"
  shows "progress g key (td\<lparr>pending_acks := um_put key' (um_at [] (pending_acks td) key') (pending_acks td)\<rparr>) ms k"
    and "progress g key (td\<lparr>pending_acks := um_put key' (um_erase mid (um_at [] (pending_acks td) key')) (pending_acks td)\<rparr>) ms k"
  using assms by (auto simp: progress_def td_stream_def)

lemma progress_push:
  assumes inv: "td_inv mr td ms" and "progress g key td ms k"
  shows "progress g key (td\<lparr>next_msg_id := next_msg_id td + 1, ring_buffer := rb\<rparr>)
    (if ok then ms @ [published td ts 0 p] else ms) k"
proof -
  have "um_find (um_at [] (pending_acks td) key) (next_msg_id td) = None"
    using pm_ok_at [OF inv, of key] by (auto simp: pm_ok_def pending_ok_def intro: ccontr)
  then show ?thesis
    using assms(2) td_invD(10) [OF inv, of g key]
    by (auto simp: progress_def td_stream_def published_def stored_def)
qed

text \<open>\<open>serving n P k s\<close>: the topic holds the messages \<open>P\<close>, and the consumer was given the first \<open>k\<close>.\<close>

definition serving :: "TopicName \<Rightarrow> string \<Rightarrow> bool \<Rightarrow> nat \<Rightarrow> (MessageId \<times> Payload \<times> u64 \<times> u64) list \<Rightarrow> nat
    \<Rightarrow> MemoryMessageStore \<Rightarrow> bool" where
  "serving t c g n P k s \<longleftrightarrow> ms_default_buffer_size s \<le> unat kMaxPayloadSize \<and>
     (case um_find (ms_topics s) t of
        None \<Rightarrow> P = [] \<and> k = 0
      | Some td \<Rightarrow> unat (next_msg_id td) \<le> n + 1 \<and>
          (\<exists>ms. td_inv (ms_max_retry_count s) td ms \<and> progress g (MakeConsumerKey g c) td ms k \<and>
             map core (td_stream td ms) = P))"

lemma serving_Some:
  assumes "serving t c g n P k s" and "um_find (ms_topics s) t = Some td"
  obtains ms where "unat (next_msg_id td) \<le> n + 1" and "td_inv (ms_max_retry_count s) td ms"
    and "progress g (MakeConsumerKey g c) td ms k" and "map core (td_stream td ms) = P"
  using assms by (auto simp: serving_def)

lemma serving_put:
  assumes "ms_default_buffer_size s \<le> unat kMaxPayloadSize"
    and "unat (next_msg_id td) \<le> n + 1" and "td_inv (ms_max_retry_count s) td ms"
    and "progress g (MakeConsumerKey g c) td ms k" and "map core (td_stream td ms) = P"
  shows "serving t c g n P k (s\<lparr>ms_topics := um_put t td (ms_topics s)\<rparr>)"
  using assms by (auto simp: serving_def)

lemma serving_publish:
  assumes srv: "serving t c g n P k s" and "n + 2 < 2 ^ 64"
  obtains ok mid s' where "Publish t p 0 ne ts s = Some ((ok, mid), s')"
    and "serving t c g (n + 1) (P @ (if ok then [(mid, p, ts, 0)] else [])) k s'"
proof -
  let ?mr = "ms_max_retry_count s" and ?key = "MakeConsumerKey g c"
  have b: "ms_default_buffer_size s \<le> unat kMaxPayloadSize"
    using srv by (simp add: serving_def)
  define find where "find = (case um_find (ms_topics s) t of
      None \<Rightarrow> new_topic (ms_default_buffer_size s) t | Some td \<Rightarrow> Some td)"
  obtain td ms where find: "find = Some td" and bound: "unat (next_msg_id td) \<le> n + 1"
    and inv: "td_inv ?mr td ms" and prog: "progress g ?key td ms k" and P: "map core (td_stream td ms) = P"
  proof (cases "um_find (ms_topics s) t")
    case None
    obtain td where new: "new_topic (ms_default_buffer_size s) t = Some td"
      using new_topic_total [OF b] by blast
    then have "next_msg_id td = 1" "message_log td = []" "retry_queue td = []"
      by (auto simp: new_topic_def split: option.splits)
    then show ?thesis
      using that [of td "[]"] td_inv_new(1) [OF new b] None new srv
      by (simp add: find_def serving_def progress_def td_stream_def)
  next
    case (Some td)
    then show ?thesis
      using that [of td] serving_Some [OF srv Some] by (metis find_def option.simps(5))
  qed
  obtain ok rb where push: "rb_Push (ring_buffer td) (serialize (next_msg_id td) ts 0 p) = (ok, rb)"
    by fastforce
  let ?td = "td\<lparr>next_msg_id := next_msg_id td + 1, ring_buffer := rb\<rparr>"
  have run: "Publish t p 0 ne ts s = Some ((ok, next_msg_id td), s\<lparr>ms_topics := um_put t ?td (ms_topics s)\<rparr>)"
    unfolding Publish_def find_def [symmetric] find by (simp add: push Let_def)
  note next_id = max_id [OF bound assms(2)]
  have "map core (td_stream ?td (if ok then ms @ [published td ts 0 p] else ms)) =
      P @ (if ok then [(next_msg_id td, p, ts, 0)] else [])"
    using P by (auto simp: td_stream_def published_def stored_def core_def)
  then show ?thesis
    using next_id bound td_inv_push(1) [OF inv conjunct1 [OF next_id] push] progress_push [OF inv prog]
    by (intro that [OF run] serving_put [OF b]) simp_all
qed

lemma serving_pull:
  assumes srv: "serving t c g n P k s"
  obtains res s' where "Pull t c j g now_ms clk s = Some (res, s')"
    and "map core res = take (unat j) (drop k P)" and "serving t c g n P (k + length res) s'"
proof (cases "um_find (ms_topics s) t")
  case None
  then show ?thesis
    using that [of "[]" s] srv by (simp add: Pull_def serving_def)
next
  case (Some td)
  let ?mr = "ms_max_retry_count s" and ?key = "MakeConsumerKey g c"
  have b: "ms_default_buffer_size s \<le> unat kMaxPayloadSize"
    using srv by (simp add: serving_def)
  obtain ms where bound: "unat (next_msg_id td) \<le> n + 1" and inv: "td_inv ?mr td ms"
    and prog: "progress g ?key td ms k" and P: "map core (td_stream td ms) = P"
    using serving_Some [OF srv Some] .
  obtain td1 where d: "DrainRingBuffer td = Some td1" "td_inv ?mr td1 []" "message_log td1 = td_stream td ms"
    and td1: "td1 = td\<lparr>ring_buffer := ring_buffer td1, message_log := message_log td1\<rparr>"
    using td_inv_drain [OF inv] by metis
  obtain res td2 where pull: "pull_topic c j g now_ms clk td1 = (res, td2)" by fastforce
  have "progress g ?key td1 [] k"
    using progress_drain [OF prog] td1 d(3) by metis
  note got = progress_pull [OF d(2) this pull refl]
  have post: "next_msg_id td2 = next_msg_id td1" "message_log td2 = message_log td1"
    using pull_topic_post [OF d(2) pull] by (simp_all add: pull_post_def)
  have "next_msg_id td1 = next_msg_id td"
    using arg_cong [OF td1, of next_msg_id] by simp
  then have "serving t c g n P (k + length res) (s\<lparr>ms_topics := um_put t td2 (ms_topics s)\<rparr>)"
    using bound post td_inv_pull(1) [OF d(2) pull] got(2) P d(3)
    by (intro serving_put [OF b, where ms = "[]"]) (simp_all add: td_stream_def)
  moreover have "map core res = take (unat j) (drop k P)"
    unfolding got(1) d(3) P [symmetric] by (simp add: take_map drop_map)
  ultimately show ?thesis
    using that Some d(1) pull by (simp add: Pull_def)
qed

lemma serving_ack:
  assumes srv: "serving t c g n P k s"
  shows "serving t c g n P k (snd (Ack t c mid g s))"
proof (cases "um_find (ms_topics s) t")
  case None
  then show ?thesis using srv by (simp add: Ack_def)
next
  case (Some td)
  have b: "ms_default_buffer_size s \<le> unat kMaxPayloadSize"
    using srv by (simp add: serving_def)
  obtain ms where td: "unat (next_msg_id td) \<le> n + 1" "td_inv (ms_max_retry_count s) td ms"
    "progress g (MakeConsumerKey g c) td ms k" "map core (td_stream td ms) = P"
    using serving_Some [OF srv Some] .
  then show ?thesis
    using Some td_inv_ack(1,2) [OF td(2) refl] progress_ack [OF td(3)]
    by (auto simp: Ack_def Let_def td_stream_def intro!: serving_put [OF b])
qed

lemma serving_mono: "serving t c g n P k s \<Longrightarrow> n \<le> n' \<Longrightarrow> serving t c g n' P k s"
  by (auto simp: serving_def split: option.splits)

lemma take_drop_append:
  assumes "map f d = take (length d) (drop k P)"
  shows "map f d = take (length d) (drop k (P @ Q))"
proof -
  have "length d \<le> length P - k"
    using arg_cong [OF assms, of length] by simp
  then show ?thesis using assms by simp
qed

lemma serving_exec:
  assumes "consumer_op t c g x" and srv: "serving t c g n P k s" and "n + 2 < 2 ^ 64"
  shows "\<exists>d p s'. store_exec x s = Some ((d, p), s') \<and>
    serving t c g (n + 1) (P @ map snd p) (k + length d) s' \<and>
    map (core \<circ> snd) d = take (length d) (drop k P)"
proof (cases x)
  case (SPublish t' p ttl ne ts)
  then have x: "x = SPublish t p 0 ne ts" using assms(1) by simp
  obtain ok mid s' where r: "Publish t p 0 ne ts s = Some ((ok, mid), s')"
    "serving t c g (n + 1) (P @ (if ok then [(mid, p, ts, 0)] else [])) k s'"
    using serving_publish [OF srv assms(3)] .
  then show ?thesis by (cases ok) (simp_all add: x)
next
  case (SPull t' c' j g' now_ms clk)
  then have x: "x = SPull t c j g now_ms clk" using assms(1) by simp
  obtain res s' where r: "Pull t c j g now_ms clk s = Some (res, s')"
    "map core res = take (unat j) (drop k P)" "serving t c g n P (k + length res) s'"
    using serving_pull [OF srv] .
  have "length res = min (unat j) (length P - k)"
    using arg_cong [OF r(2), of length] by simp
  then have "map core res = take (length res) (drop k P)"
    using r(2) by (simp add: min_def)
  then show ?thesis
    using r serving_mono [OF r(3), of "n + 1"] by (simp add: x comp_def)
next
  case (SAck t' c' mid g')
  then show ?thesis
    using assms(1) serving_ack [OF srv, of mid] serving_mono [of t c g n P k _ "n + 1"] by simp
qed (use assms(1) in simp_all)

lemma serving_run:
  assumes "\<forall>x \<in> set xs. consumer_op t c g x" and "serving t c g n P k s" and "n + length xs + 1 < 2 ^ 64"
  shows "\<exists>d p s'. store_run xs s = Some ((d, p), s') \<and>
    serving t c g (n + length xs) (P @ map snd p) (k + length d) s' \<and>
    map (core \<circ> snd) d = take (length d) (drop k (P @ map snd p))"
  using assms
proof (induction xs arbitrary: n P k s)
  case Nil
  then show ?case by simp
next
  case (Cons x xs)
  have n: "n + 2 < 2 ^ 64" "n + 1 + length xs + 1 < 2 ^ 64" using Cons.prems(3) by simp_all
  obtain d1 p1 s1 where x: "store_exec x s = Some ((d1, p1), s1)"
    and srv: "serving t c g (n + 1) (P @ map snd p1) (k + length d1) s1"
    and d1: "map (core \<circ> snd) d1 = take (length d1) (drop k P)"
    using serving_exec [OF _ Cons.prems(2) n(1)] Cons.prems(1) by (metis list.set_intros(1))
  have "\<forall>x \<in> set xs. consumer_op t c g x" using Cons.prems(1) by simp
  from Cons.IH [OF this srv n(2)]
  obtain d2 p2 s2 where xs: "store_run xs s1 = Some ((d2, p2), s2)"
    and srv2: "serving t c g (n + 1 + length xs) ((P @ map snd p1) @ map snd p2) (k + length d1 + length d2) s2"
    and d2: "map (core \<circ> snd) d2 = take (length d2) (drop (k + length d1) ((P @ map snd p1) @ map snd p2))"
    by blast
  let ?Q = "P @ map snd (p1 @ p2)"
  have Q: "(P @ map snd p1) @ map snd p2 = ?Q" by simp
  have "map (core \<circ> snd) (d1 @ d2) = take (length d1) (drop k ?Q) @ take (length d2) (drop (length d1) (drop k ?Q))"
    unfolding map_append take_drop_append [OF d1, of "map snd (p1 @ p2)", unfolded map_append] d2 [unfolded Q]
    by (simp only: drop_drop add.commute map_append)
  also have "\<dots> = take (length (d1 @ d2)) (drop k ?Q)"
    by (simp only: length_append take_add)
  finally have "map (core \<circ> snd) (d1 @ d2) = take (length (d1 @ d2)) (drop k ?Q)" .
  moreover have "store_run (x # xs) s = Some ((d1 @ d2, p1 @ p2), s2)"
    using x xs by simp
  moreover have "serving t c g (n + length (x # xs)) ?Q (k + length (d1 @ d2)) s2"
    using srv2 unfolding Q by (simp add: add.assoc)
  ultimately show ?case by blast
qed

text \<open>
  C4: Exactly once and in order: on a new store with rings of at most 16 MiB (kMaxPayloadSize; the default
  is 1 MiB), in fewer than 2^64 - 1 operations, whatever one consumer (or consumer group) pulls
  and acknowledges while messages without expiry are published to its topic, and as long as no
  retry scan interferes, the messages it was given are the accepted messages of the topic, in
  order, each once; and the next pull gives it the ones that follow, as many as it asks for.
  In a larger ring the property fails: a message above 16 MiB is accepted there and then blocks its topic.
  The code advances a consumer's offset when it hands a message out, and the acknowledgement
  only ends the retries; the comment in the header (memory_message_store.h:24) says that the offset moves
  only after the acknowledgement. It is the code that is modelled: by the comment a second pull
  before an acknowledgement would give the same messages again.
\<close>

theorem exactly_once_in_order:
  assumes "\<forall>x \<in> set xs. consumer_op t c g x" and "b \<le> unat kMaxPayloadSize"
    and "length xs + 1 < 2 ^ 64"
  shows "\<exists>d p s res s'. store_run xs (ms_new b mr tmo) = Some ((d, p), s) \<and>
    map (core \<circ> snd) d = take (length d) (map snd p) \<and>
    Pull t c n g now_ms clk s = Some (res, s') \<and>
    map core res = take (unat n) (drop (length d) (map snd p))"
proof -
  have "serving t c g 0 [] 0 (ms_new b mr tmo)"
    using assms(2) by (simp add: serving_def ms_new_def)
  from serving_run [OF assms(1) this] obtain d p s where "store_run xs (ms_new b mr tmo) = Some ((d, p), s)"
    and srv: "serving t c g (0 + length xs) ([] @ map snd p) (0 + length d) s"
    and "map (core \<circ> snd) d = take (length d) (drop 0 ([] @ map snd p))"
    using assms(3) by auto
  moreover obtain res s' where "Pull t c n g now_ms clk s = Some (res, s')"
    "map core res = take (unat n) (drop (length d) (map snd p))"
    using serving_pull [OF srv] by (metis add_0 append_Nil)
  ultimately show ?thesis by auto
qed

theorem exactly_once_in_order_witness:
  "\<exists>d p s res s'.
     store_run [SPublish ''t'' [7] 0 0 100, SPull ''t'' ''a'' 10 False 100 (\<lambda>_. 0), SPublish ''t'' [8] 0 0 101]
       (ms_new 64 3 5000) = Some ((d, p), s) \<and>
     Pull ''t'' ''a'' 1 False 100 (\<lambda>_. 0) s = Some (res, s') \<and>
     map core res = take (unat (1 :: u32)) (drop (length d) (map snd p))"
proof -
  let ?xs = "[SPublish ''t'' [7] 0 0 100, SPull ''t'' ''a'' 10 False 100 (\<lambda>_. 0), SPublish ''t'' [8] 0 0 101]"
  have "\<forall>x \<in> set ?xs. consumer_op ''t'' ''a'' False x" "64 \<le> unat kMaxPayloadSize" "length ?xs + 1 < 2 ^ 64"
    by simp_all
  from exactly_once_in_order [OF this, of 3 5000 1 100 "\<lambda>_. 0"] show ?thesis by blast
qed

subsection \<open>Acknowledging\<close>

definition pending_of :: "MemoryMessageStore \<Rightarrow> TopicName \<Rightarrow> bool \<Rightarrow> string \<Rightarrow> MessageId \<Rightarrow> PendingMessage option" where
  "pending_of s t g c mid =
     (case um_find (ms_topics s) t of
        None \<Rightarrow> None
      | Some td \<Rightarrow> um_find (um_at [] (pending_acks td) (MakeConsumerKey g c)) mid)"

lemma MakeConsumerKey_inj [simp]: "MakeConsumerKey g c = MakeConsumerKey g' c' \<longleftrightarrow> g = g' \<and> c = c'"
  by (auto simp: MakeConsumerKey_def)

lemma pending_of_Ack:
  "pending_of (snd (Ack t c mid g s)) t' g' c' mid' =
     (if (t', g', c', mid') = (t, g, c, mid) then None else pending_of s t' g' c' mid')"
  by (auto simp: pending_of_def Ack_def Let_def split: option.splits)

lemma fst_Ack: "fst (Ack t c mid g s) \<longleftrightarrow> pending_of s t g c mid \<noteq> None"
  by (auto simp: pending_of_def Ack_def Let_def split: option.splits)

text \<open>
  An acknowledgement succeeds if and only if the message is pending for exactly that consumer
  or group of that topic; afterwards it is not, a second acknowledgement fails, and what is pending
  for others or under other identifiers is untouched.
\<close>

theorem ack_exact:
  "case Ack t c mid g s of (ok, s') \<Rightarrow>
     (ok \<longleftrightarrow> pending_of s t g c mid \<noteq> None) \<and> \<not> fst (Ack t c mid g s') \<and>
     (\<forall>t' g' c' mid'. pending_of s' t' g' c' mid' =
        (if (t', g', c', mid') = (t, g, c, mid) then None else pending_of s t' g' c' mid'))"
  using pending_of_Ack [of t c mid g s] fst_Ack [of t c mid g s] fst_Ack [of t c mid g "snd (Ack t c mid g s)"]
  by (auto simp: case_prod_unfold)

subsection \<open>Messages that are not acknowledged\<close>

text \<open>
  C11: No message in flight is lost by a retry scan of a topic that satisfies the topic invariant (every
  reachable topic does). Afterwards exactly the pending messages that have not timed out are
  pending, for every consumer. Each one that has timed out has either expired, or was
  retried fewer times than allowed and its identifier waits in the retry queue, or used up its
  retries and is in the dead-letter queue. Whether or not anything timed out, every identifier that already
  waited for a retry still does, whatever waits now either waited before or is a timed-out pending message
  with its retry count raised by one, and the dead letters there were are still there, in their order.
\<close>

theorem retry_scan_complete:
  assumes "td_inv (ms_max_retry_count s) td ms" and "ProcessPendingRetries now now_ms td s = (td', s')"
  shows "(\<forall>key mid p. um_find (um_at [] (pending_acks td') key) mid = Some p \<longleftrightarrow>
        um_find (um_at [] (pending_acks td) key) mid = Some p \<and> \<not> timed_out (ms_pending_timeout_ms s) now p) \<and>
    (\<forall>key mid p. um_find (um_at [] (pending_acks td) key) mid = Some p \<longrightarrow> timed_out (ms_pending_timeout_ms s) now p \<longrightarrow>
        expired now_ms (pm_msg p) \<or>
        retry_count (pm_msg p) < ms_max_retry_count s \<and> mid \<in> sm_id ` set (retry_queue td') \<or>
        retry_count (pm_msg p) = ms_max_retry_count s \<and> pm_msg p \<in> set (dlq_of s' (MakeDlqName (td_topic_name td)))) \<and>
    sm_id ` set (retry_queue td) \<subseteq> sm_id ` set (retry_queue td') \<and>
    (\<forall>m \<in> set (retry_queue td'). m \<in> set (retry_queue td) \<or>
        (\<exists>key p. um_find (um_at [] (pending_acks td) key) (sm_id m) = Some p \<and>
           timed_out (ms_pending_timeout_ms s) now p \<and> m = (pm_msg p)\<lparr>retry_count := retry_count (pm_msg p) + 1\<rparr>)) \<and>
    (\<forall>name. prefix (dlq_of s name) (dlq_of s' name))"
proof (intro conjI, goal_cases)
  let ?mr = "ms_max_retry_count s" and ?tmo = "ms_pending_timeout_ms s"
  let ?due = "filter (\<lambda>e. retry_due ?mr ?tmo now now_ms (snd e)) (all_pending (pending_acks td))"
  note eq = ProcessPendingRetries_eq [OF assms]
  have named: "sm_id (pm_msg (snd e)) = fst e" if "e \<in> set ?due" for e
    using that all_pending_in(3) [OF assms(1), of e] by (simp add: pending_ok_def)
  then have ids: "sm_id ` set (retry_queue td') = sm_id ` set (retry_queue td) \<union> fst ` set ?due"
    and origin: "\<And>m. m \<in> set (retry_queue td') \<Longrightarrow> m \<in> set (retry_queue td) \<or> (\<exists>e \<in> set ?due. m = bump (pm_msg (snd e)))"
    using fold_requeue [of ?due "retry_queue td"] eq(1) by auto
  {
    case 1
    show ?case using pruned_at [OF assms(1)] eq(1) by simp
  next
    case 2
    have "expired now_ms (pm_msg p) \<or> retry_count (pm_msg p) < ?mr \<and> mid \<in> sm_id ` set (retry_queue td') \<or>
        retry_count (pm_msg p) = ?mr \<and> pm_msg p \<in> set (dlq_of s' (MakeDlqName (td_topic_name td)))"
      if p: "um_find (um_at [] (pending_acks td) key) mid = Some p" and t: "timed_out ?tmo now p" for key mid p
    proof -
      have in_all: "(mid, p) \<in> set (all_pending (pending_acks td))"
        using p by (rule in_all_pending)
      then have "retry_count (pm_msg p) < ?mr \<or> retry_count (pm_msg p) = ?mr"
        using all_pending_in(3) [OF assms(1) in_all] by (simp add: pending_ok_def order_le_less)
      moreover have "retry_count (pm_msg p) < ?mr \<and> \<not> expired now_ms (pm_msg p) \<Longrightarrow> mid \<in> fst ` set ?due"
        using t in_all by (force simp: retry_due_def)
      moreover have "retry_count (pm_msg p) = ?mr \<and> \<not> expired now_ms (pm_msg p) \<Longrightarrow>
          pm_msg p \<in> set (dlq_of s' (MakeDlqName (td_topic_name td)))"
        using t in_all eq(2) [of "MakeDlqName (td_topic_name td)"] by (force simp: dead_due_def)
      ultimately show ?thesis unfolding ids by blast
    qed
    then show ?case by blast
  next
    case 3
    show ?case using ids by blast
  next
    case 4
    have "\<exists>key p. um_find (um_at [] (pending_acks td) key) (sm_id m) = Some p \<and> timed_out ?tmo now p \<and>
        m = (pm_msg p)\<lparr>retry_count := retry_count (pm_msg p) + 1\<rparr>" if "e \<in> set ?due" "m = bump (pm_msg (snd e))" for e m
      using all_pending_in(1) [OF assms(1), of e] named [OF that(1)] that
      by (auto simp: retry_due_def bump_def)
    then show ?case using origin by blast
  next
    case 5
    show ?case by (simp add: eq(2))
  }
qed

text \<open>A topic with one message that the subscriber \<open>a\<close> was given at time 0, over an empty ring.\<close>

definition sample_msg :: StoredMessage where
  "sample_msg = stored 1 100 0 [7]"

definition sample_topic :: "SpscRingBuffer \<Rightarrow> TopicData" where
  "sample_topic rb = \<lparr>td_topic_name = ''t'', ring_buffer = rb, message_log = [sample_msg], retry_queue = [],
     subscriber_offsets = [(''sub:a'', 2)], group_offsets = [],
     pending_acks = [(''sub:a'', [(1, \<lparr>pm_msg = sample_msg, pull_time = 0\<rparr>)])], next_msg_id = 2\<rparr>"

lemma sample_ring: "\<exists>rb. rb_new 64 = Some rb \<and> rb_rep rb [] \<and> rb_capacity rb = 65"
  using rb_new_rep [of 64] by (simp add: ptrdiff_max_def)

lemma sample_inv: "rb_rep rb [] \<Longrightarrow> rb_capacity rb = 65 \<Longrightarrow> td_inv 3 (sample_topic rb) []"
  by (auto simp: td_inv_def sample_topic_def td_ring_def td_stream_def ids_increase_def fresh_msg_def
      sample_msg_def stored_def pm_ok_def pending_ok_def um_find_Cons td_offset_def um_at_def Let_def
      word_le_nat_alt split: if_splits option.splits)

theorem retry_scan_complete_witness:
  "\<exists>rb td' s'. ProcessPendingRetries 6000000000 6100 (sample_topic rb) (ms_new 64 3 5000) = (td', s') \<and>
     um_find (um_at [] (pending_acks td') ''sub:a'') 1 = None \<and> 1 \<in> sm_id ` set (retry_queue td')"
proof -
  obtain rb where rb: "rb_rep rb []" "rb_capacity rb = 65"
    using sample_ring by blast
  obtain td' s' where run: "ProcessPendingRetries 6000000000 6100 (sample_topic rb) (ms_new 64 3 5000) = (td', s')"
    by fastforce
  have inv: "td_inv (ms_max_retry_count (ms_new 64 3 5000)) (sample_topic rb) []"
    using sample_inv [OF rb] by (simp add: ms_new_def)
  let ?p = "\<lparr>pm_msg = sample_msg, pull_time = 0\<rparr>"
  have p: "um_find (um_at [] (pending_acks (sample_topic rb)) ''sub:a'') 1 = Some ?p"
    by (simp add: sample_topic_def um_at_def um_find_Cons)
  have t: "timed_out (ms_pending_timeout_ms (ms_new 64 3 5000)) 6000000000 ?p" "\<not> expired 6100 (pm_msg ?p)"
    "retry_count (pm_msg ?p) \<noteq> ms_max_retry_count (ms_new 64 3 5000)"
    by (simp_all add: timed_out_def duration_ms_def ms_new_def expired_def sample_msg_def stored_def)
  note scan = retry_scan_complete [OF inv run]
  have "um_find (um_at [] (pending_acks td') ''sub:a'') 1 \<noteq> Some q" for q
  proof
    assume "um_find (um_at [] (pending_acks td') ''sub:a'') 1 = Some q"
    then have "um_find (um_at [] (pending_acks (sample_topic rb)) ''sub:a'') 1 = Some q \<and>
        \<not> timed_out (ms_pending_timeout_ms (ms_new 64 3 5000)) 6000000000 q"
      by (rule iffD1 [OF spec [OF spec [OF spec [OF conjunct1 [OF scan]]]]])
    with p have "Some q = Some ?p" "\<not> timed_out (ms_pending_timeout_ms (ms_new 64 3 5000)) 6000000000 q"
      by (simp_all only: simp_thms)
    then show False using t(1) by (simp only: option.inject simp_thms)
  qed
  then have "um_find (um_at [] (pending_acks td') ''sub:a'') 1 = None"
    by (rule not_Some_eq [THEN iffD1, OF allI])
  moreover have "1 \<in> sm_id ` set (retry_queue td')"
    using conjunct1 [OF conjunct2 [OF scan], rule_format, OF p t(1)] t(2,3) by blast
  ultimately show ?thesis using run by blast
qed

text \<open>
  C32: A message that waits for a retry comes back: on a topic that satisfies the topic invariant and whose
  ring is drained, a pull that asks for enough hands out every
  message of the retry queue that has not expired and is not already pending for the consumer, and
  it is pending afterwards.
\<close>

theorem retry_redelivers:
  assumes "td_inv mr td []" and "pull_topic c n g now_ms clk td = (res, td')"
    and "m \<in> set (retry_queue td)" and "\<not> expired now_ms m"
    and "um_find (um_at [] (pending_acks td) (MakeConsumerKey g c)) (sm_id m) = None"
    and "length (message_log td) + length (retry_queue td) \<le> unat n"
  shows "sm_id m \<in> sm_id ` set res \<and>
    um_find (um_at [] (pending_acks td') (MakeConsumerKey g c)) (sm_id m) \<noteq> None"
proof -
  let ?key = "MakeConsumerKey g c" and ?n = "unat n"
  let ?L = "pulled_log ?n now_ms g ?key td" and ?R = "pulled_retry ?n now_ms g ?key td"
  note post = pull_topic_post [OF assms(1,2)]
  have "length ?L \<le> length (message_log td)"
    unfolding pulled_log_def log_candidates_def by (simp add: min.coboundedI1)
  moreover have "length ?R \<le> length (retry_queue td)"
    unfolding pulled_retry_def retry_candidates_def by (rule order.trans [OF length_filter_le length_filter_le])
  ultimately have all: "res = ?L @ ?R"
    using post assms(6) by (simp add: pulled_def)
  have "m \<in> set (retry_candidates now_ms (um_at [] (pending_acks td) ?key) (retry_queue td))"
    using assms(3-5) by (simp add: retry_candidates_def)
  then have mem: "sm_id m \<in> sm_id ` set res"
    unfolding all pulled_retry_def by (cases "sm_id m \<in> sm_id ` set ?L") auto
  have "um_at [] (pending_acks td') ?key = handed_out clk 0 res (um_at [] (pending_acks td) ?key)"
    using post by (simp add: pull_post_def)
  then show ?thesis
    using mem by (simp add: handed_out_None)
qed

theorem retry_redelivers_witness:
  "\<exists>rb td res td'. td = (sample_topic rb)\<lparr>pending_acks := [], retry_queue := [bump sample_msg]\<rparr> \<and>
     pull_topic ''a'' 10 False 7000 (\<lambda>_. 0) td = (res, td') \<and> 1 \<in> sm_id ` set res"
proof -
  obtain rb where rb: "rb_rep rb []" "rb_capacity rb = 65"
    using sample_ring by blast
  let ?td = "(sample_topic rb)\<lparr>pending_acks := [], retry_queue := [bump sample_msg]\<rparr>"
  obtain res td' where run: "pull_topic ''a'' 10 False 7000 (\<lambda>_. 0) ?td = (res, td')" by fastforce
  have "td_inv 3 ?td []"
    using sample_inv [OF rb] unfolding td_inv_def
    by (auto simp: sample_topic_def td_stream_def td_ring_def bump_def sample_msg_def stored_def
        word_le_nat_alt td_offset_def um_at_def um_find_Cons Let_def split: if_splits option.splits)
  from retry_redelivers [OF this run, of "bump sample_msg"] run show ?thesis
    by (auto simp: sample_topic_def expired_def bump_def sample_msg_def stored_def)
qed

lemma DrainRingBuffer_empty: "rb_rep (ring_buffer td) [] \<Longrightarrow> DrainRingBuffer td = Some td"
  by (simp add: DrainRingBuffer_def pop_loop.simps rb_Pop_empty)

definition sample_store :: "SpscRingBuffer \<Rightarrow> MemoryMessageStore" where
  "sample_store rb = (ms_new 64 3 5000)\<lparr>ms_topics := [(''t'', sample_topic rb)]\<rparr>"

definition retry_to_other :: "store_op list" where
  "retry_to_other =
     [SPull ''t'' ''b'' 10 False 100 (\<lambda>_. 0),
      SAck ''t'' ''b'' 1 False,
      SRetry (\<lambda>_. 6000000000) (\<lambda>_. 6100),
      SPull ''t'' ''b'' 10 False 6100 (\<lambda>_. 6000000000),
      SPull ''t'' ''a'' 10 False 6100 (\<lambda>_. 6000000000)]"

lemmas store_exec_defs = retry_to_other_def sample_store_def sample_topic_def sample_msg_def stored_def
  ms_new_def Pull_def Ack_def pull_topic_def RetryLoop_round_def ProcessPendingRetries_def
  MakeConsumerKey_def MakeDlqName_def timed_out_def duration_ms_def expired_def td_offset_def
  set_offset_def um_at_def um_find_Cons um_put_conv um_put_Nil um_erase_filter Let_def

text \<open>
  The retry queue belongs to the topic and not to the consumer whose acknowledgement is
  missing: when two subscribers were given a message, one acknowledges it and the other does not,
  the retry can go to the one that acknowledged, and the one that did not gets nothing.
\<close>

theorem retry_goes_to_other_consumer:
  assumes "rb_rep rb []"
  shows "map_option fst (store_run retry_to_other (sample_store rb)) =
    Some ([(''t'', sample_msg), (''t'', bump sample_msg)], [])"
  using assms by (simp add: store_exec_defs DrainRingBuffer_empty bump_def word_le_nat_alt)

theorem retry_goes_to_other_consumer_witness:
  "\<exists>rb. rb_new 64 = Some rb \<and> map_option fst (store_run retry_to_other (sample_store rb)) =
    Some ([(''t'', sample_msg), (''t'', bump sample_msg)], [])"
  using sample_ring retry_goes_to_other_consumer by blast

subsection \<open>Expiry\<close>

definition deliverable :: "nat \<Rightarrow> u64 \<Rightarrow> StoredMessage list \<Rightarrow> bool" where
  "deliverable n now_ms ms \<longleftrightarrow> (\<forall>m \<in> set ms. \<not> expired now_ms m) \<and> length ms \<le> n"

lemma deliverable_snoc:
  "deliverable n now_ms ms \<Longrightarrow> \<not> n \<le> length ms \<Longrightarrow> \<not> expired now_ms m \<Longrightarrow> deliverable n now_ms (ms @ [m])"
  by (simp add: deliverable_def)

lemma pull_log_unexpired:
  "deliverable n now_ms result \<Longrightarrow>
     deliverable n now_ms (snd (snd (pull_log n now_ms clk key log (offset, pa, result))))"
  by (induction n now_ms clk key log "(offset, pa, result)" arbitrary: offset pa result
      rule: pull_log.induct) (simp_all add: Let_def deliverable_snoc)

lemma pull_retry_unexpired:
  "deliverable n now_ms result \<Longrightarrow>
     deliverable n now_ms (snd (snd (pull_retry n now_ms clk key queue (pa, result))))"
  by (induction n now_ms clk key queue "(pa, result)" arbitrary: pa result
      rule: pull_retry.induct) (simp_all add: Let_def deliverable_snoc case_prod_unfold)

lemma pull_topic_unexpired:
  assumes "pull_topic c n g now_ms clk td = (res, td')"
  shows "(\<forall>m \<in> set res. \<not> expired now_ms m) \<and> length res \<le> unat n"
proof -
  define key where "key = MakeConsumerKey g c"
  obtain off pa1 r1 where log: "pull_log (unat n) now_ms clk key (message_log td)
      (td_offset g key td, pending_acks td, []) = (off, pa1, r1)"
    by (metis surj_pair)
  obtain q pa2 r2 where retry: "pull_retry (unat n) now_ms clk key (retry_queue td) (pa1, r1) = (q, pa2, r2)"
    by (metis surj_pair)
  have "res = r2"
    using assms by (simp add: pull_topic_def key_def [symmetric] log retry Let_def)
  have "deliverable (unat n) now_ms []" by (simp add: deliverable_def)
  then have "deliverable (unat n) now_ms r1"
    using pull_log_unexpired log by (metis snd_conv)
  then have "deliverable (unat n) now_ms r2"
    using pull_retry_unexpired retry by (metis snd_conv)
  then show ?thesis
    using \<open>res = r2\<close> by (simp add: deliverable_def)
qed

lemma IsMessageExpired_eq: "IsMessageExpired now_ms m = expired now_ms m"
  by (simp add: IsMessageExpired_def expired_def word_gt_0)

text \<open>
  A pull never returns more messages than it was asked for, and never an expired one, whatever
  state the store is in.
\<close>

theorem pull_never_expired:
  "case Pull t c n g now_ms clk s of
     None \<Rightarrow> True
   | Some (res, s') \<Rightarrow> \<not> list_ex (IsMessageExpired now_ms) res \<and> length res \<le> unat n"
  using pull_topic_unexpired
  by (auto simp: Pull_def IsMessageExpired_eq list_ex_iff split: option.splits prod.splits)

text \<open>
  The expiration scan removes the expired messages of a topic and nothing else: the log and
  the retry queue keep their other messages in order, and a pending message stays pending if and
  only if it has not expired.
\<close>

theorem expiration_scan_exact:
  assumes "td_inv mr td ms"
  shows "let td' = ExpireTopicMessages now_ms td in
    message_log td' = filter (\<lambda>m. \<not> IsMessageExpired now_ms m) (message_log td) \<and>
    retry_queue td' = filter (\<lambda>m. \<not> IsMessageExpired now_ms m) (retry_queue td) \<and>
    (\<forall>key mid p. um_find (um_at [] (pending_acks td') key) mid = Some p \<longleftrightarrow>
       um_find (um_at [] (pending_acks td) key) mid = Some p \<and> \<not> IsMessageExpired now_ms (pm_msg p))"
  using pruned_at [OF assms]
  by (simp add: ExpireTopicMessages_eq [OF assms] Let_def IsMessageExpired_eq)

theorem expiration_scan_exact_witness:
  "\<exists>rb. td_inv 3 (sample_topic rb) [] \<and>
     message_log (ExpireTopicMessages 7000 (sample_topic rb)) = [sample_msg]"
proof -
  obtain rb where "rb_rep rb []" "rb_capacity rb = 65"
    using sample_ring by blast
  then have "td_inv 3 (sample_topic rb) []" by (rule sample_inv)
  with expiration_scan_exact [OF this, of 7000] show ?thesis
    by (auto simp: Let_def IsMessageExpired_eq expired_def sample_topic_def sample_msg_def stored_def)
qed

subsection \<open>Dead letters\<close>

text \<open>
  The dead-letter queue of a topic is first-in first-out: a pull takes the oldest messages, as
  many as there are up to the number asked for, leaves the rest in order and touches no other queue.
\<close>

theorem PullDlq_fifo:
  "case PullDlq t n s of (res, s') \<Rightarrow>
     res @ dlq_of s' (MakeDlqName t) = dlq_of s (MakeDlqName t) \<and>
     length res = min (unat n) (length (dlq_of s (MakeDlqName t))) \<and>
     dlq_of s' = (dlq_of s)(MakeDlqName t := drop (unat n) (dlq_of s (MakeDlqName t))) \<and>
     ms_topics s' = ms_topics s"
  by (auto simp: PullDlq_def dlq_of_def um_at_def Let_def fun_eq_iff min_def split: option.splits)

end
