(* ===== verification/Store_Concurrent.thy ===== *)
theory Store_Concurrent
  imports Message_Store_Props
begin

text \<open>
  The message store as several threads run it: the event thread of the server (and any caller of
  \<open>Broker::PublishLocal\<close>), the retry thread and the expiration thread of
  \<^verbatim>\<open>storage/memory_message_store.cpp\<close>. A call is not one step. It looks its topic up under
  \<open>topics_mutex_\<close>, keeps the raw pointer \<open>TopicData*\<close>, releases the mutex, and works on the object
  later: \<open>Publish\<close> takes a number with \<open>fetch_add\<close> and then pushes to the ring, the others lock the
  mutex of the topic. Here the objects live at addresses, \<open>topics_\<close> (here \<open>directory\<close>) maps names to addresses, a
  deleted object is gone, and each thread has a program counter. The steps are the critical sections
  and the accesses between them; \<open>Ring_Concurrent\<close> shows that \<open>Push\<close> may be taken as one step against
  the draining thread. A scan of one topic is one step: a \<open>PullDlq\<close> between two dead letters of the
  same scan is not represented.

  Proved here: every interleaving with one publishing thread, in which no topic is deleted under a
  call in progress, is a run of whole calls in the order of their last steps, so that what
  \<open>Message_Store_Props\<close> proves of whole calls holds of it; a deletion under a call in progress makes
  that call access freed memory; and two publishing threads can bury a message that was accepted.
\<close>

subsection \<open>State\<close>

type_synonym address = nat

record SharedStore =
  directory :: "(TopicName, address) umap"
  heap :: "address \<Rightarrow> TopicData option"
  next_address :: address
  shared_dlq :: "(TopicName, StoredMessage list) umap"
  shared_buffer_size :: nat
  shared_max_retries :: u32
  shared_timeout_ms :: u32

text \<open>Where a thread is: the local variables of the call it is in.\<close>

datatype thread_pc =
    Idle
  | Numbering TopicName address Payload u32 u64 u64
  | Pushing TopicName address MessageId Payload u32 u64 u64
  | Pulling TopicName address string u32 bool u64 "nat \<Rightarrow> time_point"
  | Acking TopicName address string MessageId bool
  | Retrying "address list" "TopicName \<Rightarrow> time_point" "TopicName \<Rightarrow> u64"
  | Expiring "address list" "TopicName \<Rightarrow> u64"

datatype fault = BadAlloc | UseAfterFree | DrainDiverges

record Machine =
  shared :: SharedStore
  threads :: "thread_pc list"

type_synonym 'a outcome = "fault + 'a"

definition machine_new :: "nat \<Rightarrow> nat \<Rightarrow> u32 \<Rightarrow> u32 \<Rightarrow> Machine" where
  "machine_new n buffer_size max_retries timeout =
     \<lparr>shared = \<lparr>directory = [], heap = (\<lambda>_. None), next_address = 0, shared_dlq = [],
        shared_buffer_size = buffer_size, shared_max_retries = max_retries, shared_timeout_ms = timeout\<rparr>,
      threads = replicate n Idle\<rparr>"

subsection \<open>Steps\<close>

text \<open>\<open>std::make_unique<TopicData>\<close> and \<open>topics_[topic] = std::move(data)\<close>.\<close>

definition alloc_topic :: "TopicName \<Rightarrow> SharedStore \<Rightarrow> (address \<times> SharedStore) outcome" where
  "alloc_topic t s =
     (case new_topic (shared_buffer_size s) t of
        None \<Rightarrow> Inl BadAlloc
      | Some td \<Rightarrow>
          let a = next_address s in
          Inr (a, s\<lparr>directory := um_put t a (directory s), heap := (heap s)(a \<mapsto> td), next_address := a + 1\<rparr>))"

definition set_topic :: "address \<Rightarrow> TopicData \<Rightarrow> SharedStore \<Rightarrow> SharedStore" where
  "set_topic a td s = s\<lparr>heap := (heap s)(a \<mapsto> td)\<rparr>"

text \<open>
  The first critical section of a call, under \<open>topics_mutex_\<close> or \<open>dlq_mutex_\<close>. Calls that need nothing
  else are over; for the others the pointer that the lookup found is in the program counter.
\<close>

type_synonym call_step = "(thread_pc \<times> store_events \<times> SharedStore) outcome"

fun create_locked :: "TopicName \<Rightarrow> SharedStore \<Rightarrow> call_step" where
  "create_locked t s =
     (if um_has (directory s) t then Inr (Idle, ([], []), s)
      else case alloc_topic t s of Inl f \<Rightarrow> Inl f | Inr (_, s') \<Rightarrow> Inr (Idle, ([], []), s'))"

fun delete_locked :: "TopicName \<Rightarrow> SharedStore \<Rightarrow> call_step" where
  "delete_locked t s =
     (case um_find (directory s) t of
        None \<Rightarrow> Inr (Idle, ([], []), s)
      | Some a \<Rightarrow> Inr (Idle, ([], []), s\<lparr>directory := um_erase t (directory s), heap := (heap s)(a := None),
          shared_dlq := um_erase (MakeDlqName t) (shared_dlq s)\<rparr>))"

fun publish_lookup :: "TopicName \<Rightarrow> Payload \<Rightarrow> u32 \<Rightarrow> u64 \<Rightarrow> u64 \<Rightarrow> SharedStore \<Rightarrow> call_step" where
  "publish_lookup t p ttl_ms now_expiry now_ts s =
     (case um_find (directory s) t of
        Some a \<Rightarrow> Inr (Numbering t a p ttl_ms now_expiry now_ts, ([], []), s)
      | None \<Rightarrow>
          (case alloc_topic t s of
             Inl f \<Rightarrow> Inl f
           | Inr (a, s') \<Rightarrow> Inr (Numbering t a p ttl_ms now_expiry now_ts, ([], []), s')))"

fun pull_lookup :: "TopicName \<Rightarrow> string \<Rightarrow> u32 \<Rightarrow> bool \<Rightarrow> u64 \<Rightarrow> (nat \<Rightarrow> time_point) \<Rightarrow> SharedStore \<Rightarrow> call_step" where
  "pull_lookup t c n g now_ms clk s =
     (case um_find (directory s) t of
        None \<Rightarrow> Inr (Idle, ([], []), s)
      | Some a \<Rightarrow> Inr (Pulling t a c n g now_ms clk, ([], []), s))"

fun ack_lookup :: "TopicName \<Rightarrow> string \<Rightarrow> MessageId \<Rightarrow> bool \<Rightarrow> SharedStore \<Rightarrow> call_step" where
  "ack_lookup t c mid g s =
     (case um_find (directory s) t of
        None \<Rightarrow> Inr (Idle, ([], []), s)
      | Some a \<Rightarrow> Inr (Acking t a c mid g, ([], []), s))"

fun pull_dlq_locked :: "TopicName \<Rightarrow> u32 \<Rightarrow> SharedStore \<Rightarrow> call_step" where
  "pull_dlq_locked t n s =
     (case um_find (shared_dlq s) (MakeDlqName t) of
        None \<Rightarrow> Inr (Idle, ([], []), s)
      | Some dlq \<Rightarrow>
          let count = min (unat n) (length dlq)
          in Inr (Idle, (map (Pair t) (take count dlq), []),
               s\<lparr>shared_dlq := um_put (MakeDlqName t) (drop count dlq) (shared_dlq s)\<rparr>))"

fun retry_snapshot :: "(TopicName \<Rightarrow> time_point) \<Rightarrow> (TopicName \<Rightarrow> u64) \<Rightarrow> SharedStore \<Rightarrow> call_step" where
  "retry_snapshot now now_ms s = Inr (Retrying (map snd (directory s)) now now_ms, ([], []), s)"

fun expiration_snapshot :: "(TopicName \<Rightarrow> u64) \<Rightarrow> SharedStore \<Rightarrow> call_step" where
  "expiration_snapshot now_ms s = Inr (Expiring (map snd (directory s)) now_ms, ([], []), s)"

text \<open>The last two operations of \<open>store_op\<close> are parts of a scan, not calls.\<close>

fun start_call :: "store_op \<Rightarrow> SharedStore \<Rightarrow> call_step" where
  "start_call (SCreate t) s = create_locked t s"
| "start_call (SDelete t) s = delete_locked t s"
| "start_call (SPublish t p ttl_ms now_expiry now_ts) s = publish_lookup t p ttl_ms now_expiry now_ts s"
| "start_call (SPull t c n g now_ms clk) s = pull_lookup t c n g now_ms clk s"
| "start_call (SAck t c mid g) s = ack_lookup t c mid g s"
| "start_call (SPullDlq t n) s = pull_dlq_locked t n s"
| "start_call (SRetry now now_ms) s = retry_snapshot now now_ms s"
| "start_call (SExpire now_ms) s = expiration_snapshot now_ms s"
| "start_call _ s = Inr (Idle, ([], []), s)"

definition ack_topic :: "string \<Rightarrow> MessageId \<Rightarrow> TopicData \<Rightarrow> TopicData" where
  "ack_topic key mid td =
     (let pm = um_at [] (pending_acks td) key
      in td\<lparr>pending_acks := um_put key (if um_find pm mid = None then pm else um_erase mid pm) (pending_acks td)\<rparr>)"

text \<open>The part of the store that \<open>ProcessPendingRetries\<close> reads and writes besides the topic.\<close>

definition scan_store :: "SharedStore \<Rightarrow> MemoryMessageStore" where
  "scan_store s = \<lparr>ms_topics = [], dlq_storage = shared_dlq s, ms_default_buffer_size = shared_buffer_size s,
     ms_max_retry_count = shared_max_retries s, ms_pending_timeout_ms = shared_timeout_ms s\<rparr>"

text \<open>
  The later accesses of a call, through the pointer that the lookup returned: \<open>fetch_add\<close> and \<open>Push\<close> of
  a publish, the part of \<open>Pull\<close>, \<open>Ack\<close> and the scans that holds the mutex of the topic.
\<close>

fun publish_number :: "TopicName \<Rightarrow> address \<Rightarrow> Payload \<Rightarrow> u32 \<Rightarrow> u64 \<Rightarrow> u64 \<Rightarrow> SharedStore \<Rightarrow> call_step" where
  "publish_number t a p ttl_ms now_expiry now_ts s =
     (case heap s a of
        None \<Rightarrow> Inl UseAfterFree
      | Some td \<Rightarrow> Inr (Pushing t a (next_msg_id td) p ttl_ms now_expiry now_ts, ([], []),
          set_topic a (td\<lparr>next_msg_id := next_msg_id td + 1\<rparr>) s))"

fun publish_push :: "TopicName \<Rightarrow> address \<Rightarrow> MessageId \<Rightarrow> Payload \<Rightarrow> u32 \<Rightarrow> u64 \<Rightarrow> u64 \<Rightarrow> SharedStore \<Rightarrow> call_step" where
  "publish_push t a mid p ttl_ms now_expiry now_ts s =
     (case heap s a of
        None \<Rightarrow> Inl UseAfterFree
      | Some td \<Rightarrow>
          let expiry = (if ttl_ms > 0 then now_expiry + ucast ttl_ms else 0);
              (ok, rb) = rb_Push (ring_buffer td) (serialize mid now_ts expiry p)
          in Inr (Idle, ([], if ok then [(t, mid, p, now_ts, expiry)] else []),
               set_topic a (td\<lparr>ring_buffer := rb\<rparr>) s))"

fun pull_locked :: "TopicName \<Rightarrow> address \<Rightarrow> string \<Rightarrow> u32 \<Rightarrow> bool \<Rightarrow> u64 \<Rightarrow> (nat \<Rightarrow> time_point) \<Rightarrow> SharedStore \<Rightarrow> call_step" where
  "pull_locked t a c n g now_ms clk s =
     (case heap s a of
        None \<Rightarrow> Inl UseAfterFree
      | Some td \<Rightarrow>
          (case DrainRingBuffer td of
             None \<Rightarrow> Inl DrainDiverges
           | Some td1 \<Rightarrow>
               let (res, td2) = pull_topic c n g now_ms clk td1
               in Inr (Idle, (map (Pair t) res, []), set_topic a td2 s)))"

fun ack_locked :: "address \<Rightarrow> string \<Rightarrow> MessageId \<Rightarrow> bool \<Rightarrow> SharedStore \<Rightarrow> call_step" where
  "ack_locked a c mid g s =
     (case heap s a of
        None \<Rightarrow> Inl UseAfterFree
      | Some td \<Rightarrow> Inr (Idle, ([], []), set_topic a (ack_topic (MakeConsumerKey g c) mid td) s))"

fun retry_scan :: "address list \<Rightarrow> (TopicName \<Rightarrow> time_point) \<Rightarrow> (TopicName \<Rightarrow> u64) \<Rightarrow> SharedStore \<Rightarrow> call_step" where
  "retry_scan [] now now_ms s = Inr (Idle, ([], []), s)"
| "retry_scan (a # as) now now_ms s =
     (case heap s a of
        None \<Rightarrow> Inl UseAfterFree
      | Some td \<Rightarrow>
          let t = td_topic_name td;
              (td', s') = ProcessPendingRetries (now t) (now_ms t) td (scan_store s)
          in Inr (Retrying as now now_ms, ([], []), (set_topic a td' s)\<lparr>shared_dlq := dlq_storage s'\<rparr>))"

fun expiration_scan :: "address list \<Rightarrow> (TopicName \<Rightarrow> u64) \<Rightarrow> SharedStore \<Rightarrow> call_step" where
  "expiration_scan [] now_ms s = Inr (Idle, ([], []), s)"
| "expiration_scan (a # as) now_ms s =
     (case heap s a of
        None \<Rightarrow> Inl UseAfterFree
      | Some td \<Rightarrow> Inr (Expiring as now_ms, ([], []),
          set_topic a (ExpireTopicMessages (now_ms (td_topic_name td)) td) s))"

fun continue_call :: "thread_pc \<Rightarrow> SharedStore \<Rightarrow> call_step" where
  "continue_call Idle s = Inr (Idle, ([], []), s)"
| "continue_call (Numbering t a p ttl_ms now_expiry now_ts) s = publish_number t a p ttl_ms now_expiry now_ts s"
| "continue_call (Pushing t a mid p ttl_ms now_expiry now_ts) s = publish_push t a mid p ttl_ms now_expiry now_ts s"
| "continue_call (Pulling t a c n g now_ms clk) s = pull_locked t a c n g now_ms clk s"
| "continue_call (Acking t a c mid g) s = ack_locked a c mid g s"
| "continue_call (Retrying as now now_ms) s = retry_scan as now now_ms s"
| "continue_call (Expiring as now_ms) s = expiration_scan as now_ms s"

text \<open>
  A schedule says which thread moves next: a thread that is idle begins a call, a thread inside a
  call continues it. An entry for a thread that cannot make that move is skipped.
\<close>

datatype event = Begin nat store_op | Continue nat

fun idle :: "thread_pc \<Rightarrow> bool" where
  "idle Idle = True"
| "idle _ = False"

definition move :: "nat \<Rightarrow> (thread_pc \<times> store_events \<times> SharedStore) outcome \<Rightarrow> Machine
    \<Rightarrow> (store_events \<times> Machine) outcome" where
  "move i r m =
     (case r of
        Inl f \<Rightarrow> Inl f
      | Inr (pc, ev, s) \<Rightarrow> Inr (ev, \<lparr>shared = s, threads = (threads m)[i := pc]\<rparr>))"

fun enabled :: "event \<Rightarrow> Machine \<Rightarrow> bool" where
  "enabled (Begin i x) m \<longleftrightarrow> i < length (threads m) \<and> idle (threads m ! i)"
| "enabled (Continue i) m \<longleftrightarrow> i < length (threads m) \<and> \<not> idle (threads m ! i)"

fun fire :: "event \<Rightarrow> Machine \<Rightarrow> (store_events \<times> Machine) outcome" where
  "fire (Begin i x) m = move i (start_call x (shared m)) m"
| "fire (Continue i) m = move i (continue_call (threads m ! i) (shared m)) m"

definition exec_event :: "event \<Rightarrow> Machine \<Rightarrow> (store_events \<times> Machine) outcome" where
  "exec_event e m = (if enabled e m then fire e m else Inr (([], []), m))"

fun exec_events :: "event list \<Rightarrow> Machine \<Rightarrow> (store_events \<times> Machine) outcome" where
  "exec_events [] m = Inr (([], []), m)"
| "exec_events (e # es) m =
     (case exec_event e m of
        Inl f \<Rightarrow> Inl f
      | Inr ((d, p), m1) \<Rightarrow>
          (case exec_events es m1 of
             Inl f \<Rightarrow> Inl f
           | Inr ((d', p'), m2) \<Rightarrow> Inr ((d @ d', p @ p'), m2)))"

subsection \<open>The whole calls that a schedule amounts to\<close>

text \<open>
  \<open>commits e m\<close> are the whole calls that take effect at the event \<open>e\<close>: a call that ends with its
  lookup takes effect there, every other one at its last step; the lookup of \<open>Publish\<close> creates the
  topic if there is none.
\<close>

fun start_commits :: "store_op \<Rightarrow> SharedStore \<Rightarrow> store_op list" where
  "start_commits (SPublish t p ttl_ms ne ts) s = (if um_has (directory s) t then [] else [SCreate t])"
| "start_commits (SPull t c n g now_ms clk) s = (if um_has (directory s) t then [] else [SPull t c n g now_ms clk])"
| "start_commits (SAck t c mid g) s = (if um_has (directory s) t then [] else [SAck t c mid g])"
| "start_commits (SCreate t) s = [SCreate t]"
| "start_commits (SDelete t) s = [SDelete t]"
| "start_commits (SPullDlq t n) s = [SPullDlq t n]"
| "start_commits _ s = []"

fun continue_commits :: "thread_pc \<Rightarrow> SharedStore \<Rightarrow> store_op list" where
  "continue_commits (Pushing t a mid p ttl_ms ne ts) s = [SPublish t p ttl_ms ne ts]"
| "continue_commits (Pulling t a c n g now_ms clk) s = [SPull t c n g now_ms clk]"
| "continue_commits (Acking t a c mid g) s = [SAck t c mid g]"
| "continue_commits (Retrying (a # as) now now_ms) s =
     (case heap s a of
        None \<Rightarrow> []
      | Some td \<Rightarrow> [SRetryTopic (td_topic_name td) (now (td_topic_name td)) (now_ms (td_topic_name td))])"
| "continue_commits (Expiring (a # as) now_ms) s =
     (case heap s a of
        None \<Rightarrow> []
      | Some td \<Rightarrow> [SExpireTopic (td_topic_name td) (now_ms (td_topic_name td))])"
| "continue_commits _ s = []"

fun fire_commits :: "event \<Rightarrow> Machine \<Rightarrow> store_op list" where
  "fire_commits (Begin i x) m = start_commits x (shared m)"
| "fire_commits (Continue i) m = continue_commits (threads m ! i) (shared m)"

definition commits :: "event \<Rightarrow> Machine \<Rightarrow> store_op list" where
  "commits e m = (if enabled e m then fire_commits e m else [])"

fun linearize :: "event list \<Rightarrow> Machine \<Rightarrow> store_op list" where
  "linearize [] m = []"
| "linearize (e # es) m = commits e m @ (case exec_event e m of Inl f \<Rightarrow> [] | Inr (_, m1) \<Rightarrow> linearize es m1)"

text \<open>
  What the calls return. \<open>returns e m\<close> is the value of the \<open>return\<close> statement (and of the output parameter of
  \<open>Publish\<close>) that is reached in the event \<open>e\<close>, if one is; \<open>op_result x s\<close> is what the whole call \<open>x\<close> returns on the
  store \<open>s\<close>. The two background scans return nothing.
\<close>

datatype call_result = RBool bool | RMessages "StoredMessage list" | RPublish bool MessageId | RNothing

fun start_returns :: "store_op \<Rightarrow> SharedStore \<Rightarrow> call_result option" where
  "start_returns (SCreate t) s = Some (RBool (\<not> um_has (directory s) t))"
| "start_returns (SDelete t) s = Some (RBool (um_has (directory s) t))"
| "start_returns (SPull t c n g now_ms clk) s = (if um_has (directory s) t then None else Some (RMessages []))"
| "start_returns (SAck t c mid g) s = (if um_has (directory s) t then None else Some (RBool False))"
| "start_returns (SPullDlq t n) s =
     Some (RMessages (case um_find (shared_dlq s) (MakeDlqName t) of None \<Rightarrow> [] | Some dlq \<Rightarrow> take (unat n) dlq))"
| "start_returns _ s = None"

fun continue_returns :: "thread_pc \<Rightarrow> SharedStore \<Rightarrow> call_result option" where
  "continue_returns (Pushing t a mid p ttl_ms ne ts) s =
     (case heap s a of None \<Rightarrow> None | Some td \<Rightarrow>
        Some (RPublish (fst (rb_Push (ring_buffer td) (serialize mid ts (if ttl_ms > 0 then ne + ucast ttl_ms else 0) p))) mid))"
| "continue_returns (Pulling t a c n g now_ms clk) s =
     (case heap s a of None \<Rightarrow> None | Some td \<Rightarrow>
        (case DrainRingBuffer td of None \<Rightarrow> None | Some td1 \<Rightarrow> Some (RMessages (fst (pull_topic c n g now_ms clk td1)))))"
| "continue_returns (Acking t a c mid g) s =
     (case heap s a of None \<Rightarrow> None | Some td \<Rightarrow>
        Some (RBool (um_find (um_at [] (pending_acks td) (MakeConsumerKey g c)) mid \<noteq> None)))"
| "continue_returns _ s = None"

fun fire_returns :: "event \<Rightarrow> Machine \<Rightarrow> call_result option" where
  "fire_returns (Begin i x) m = start_returns x (shared m)"
| "fire_returns (Continue i) m = continue_returns (threads m ! i) (shared m)"

definition returns :: "event \<Rightarrow> Machine \<Rightarrow> call_result option" where
  "returns e m = (if enabled e m then fire_returns e m else None)"

fun op_result :: "store_op \<Rightarrow> MemoryMessageStore \<Rightarrow> call_result" where
  "op_result (SCreate t) s = (case CreateTopic t s of None \<Rightarrow> RNothing | Some (ok, _) \<Rightarrow> RBool ok)"
| "op_result (SDelete t) s = RBool (fst (DeleteTopic t s))"
| "op_result (SPublish t p ttl_ms ne ts) s =
     (case Publish t p ttl_ms ne ts s of None \<Rightarrow> RNothing | Some ((ok, mid), _) \<Rightarrow> RPublish ok mid)"
| "op_result (SPull t c n g now_ms clk) s =
     (case Pull t c n g now_ms clk s of None \<Rightarrow> RNothing | Some (res, _) \<Rightarrow> RMessages res)"
| "op_result (SAck t c mid g) s = RBool (fst (Ack t c mid g s))"
| "op_result (SPullDlq t n) s = RMessages (fst (PullDlq t n s))"
| "op_result _ s = RNothing"

fun answers :: "store_op list \<Rightarrow> MemoryMessageStore \<Rightarrow> call_result list" where
  "answers [] s = []"
| "answers (x # xs) s = op_result x s # (case store_exec x s of None \<Rightarrow> [] | Some (_, s1) \<Rightarrow> answers xs s1)"

text \<open>
  The history of a schedule: for each operation of \<open>linearize\<close> the thread that it belongs to, and what that
  thread's call returned if it returned there. An operation without a result is a part of a call
  that goes on: the creation of the topic by a publish, or the scan of one topic. \<open>finished\<close>
  lists the calls of a thread that have returned, \<open>begun\<close> those it has begun and \<open>in_progress\<close> the one it is inside,
  the background scans left aside.
\<close>

fun thread_of :: "event \<Rightarrow> nat" where
  "thread_of (Begin i x) = i"
| "thread_of (Continue i) = i"

fun history :: "event list \<Rightarrow> Machine \<Rightarrow> (nat \<times> store_op \<times> call_result option) list" where
  "history [] m = []"
| "history (e # es) m = map (\<lambda>x. (thread_of e, x, returns e m)) (commits e m) @
     (case exec_event e m of Inl f \<Rightarrow> [] | Inr (_, m1) \<Rightarrow> history es m1)"

definition finished :: "nat \<Rightarrow> (nat \<times> store_op \<times> call_result option) list \<Rightarrow> store_op list" where
  "finished i h = map (\<lambda>(j, x, r). x) (filter (\<lambda>(j, x, r). j = i \<and> r \<noteq> None) h)"

fun a_call :: "store_op \<Rightarrow> bool" where
  "a_call (SRetry now now_ms) \<longleftrightarrow> False"
| "a_call (SExpire now_ms) \<longleftrightarrow> False"
| "a_call (SRetryTopic t now now_ms) \<longleftrightarrow> False"
| "a_call (SExpireTopic t now_ms) \<longleftrightarrow> False"
| "a_call _ \<longleftrightarrow> True"

fun begins :: "nat \<Rightarrow> event \<Rightarrow> store_op list" where
  "begins i (Begin j x) = (if j = i \<and> a_call x then [x] else [])"
| "begins i (Continue j) = []"

fun begun :: "nat \<Rightarrow> event list \<Rightarrow> Machine \<Rightarrow> store_op list" where
  "begun i [] m = []"
| "begun i (e # es) m = (if enabled e m then begins i e else []) @
     (case exec_event e m of Inl f \<Rightarrow> [] | Inr (_, m1) \<Rightarrow> begun i es m1)"

fun in_progress :: "thread_pc \<Rightarrow> store_op list" where
  "in_progress (Numbering t a p ttl_ms ne ts) = [SPublish t p ttl_ms ne ts]"
| "in_progress (Pushing t a mid p ttl_ms ne ts) = [SPublish t p ttl_ms ne ts]"
| "in_progress (Pulling t a c n g now_ms clk) = [SPull t c n g now_ms clk]"
| "in_progress (Acking t a c mid g) = [SAck t c mid g]"
| "in_progress _ = []"

text \<open>
  The discipline: only thread \<open>w\<close> publishes, and a topic is deleted only while no thread holds a
  pointer to it.
\<close>

fun pointers :: "thread_pc \<Rightarrow> address list" where
  "pointers Idle = []"
| "pointers (Numbering t a p ttl_ms ne ts) = [a]"
| "pointers (Pushing t a mid p ttl_ms ne ts) = [a]"
| "pointers (Pulling t a c n g now_ms clk) = [a]"
| "pointers (Acking t a c mid g) = [a]"
| "pointers (Retrying as now now_ms) = as"
| "pointers (Expiring as now_ms) = as"

definition unreferenced :: "address \<Rightarrow> Machine \<Rightarrow> bool" where
  "unreferenced a m \<longleftrightarrow> list_all (\<lambda>pc. a \<notin> set (pointers pc)) (threads m)"

fun disciplined :: "nat \<Rightarrow> event \<Rightarrow> Machine \<Rightarrow> bool" where
  "disciplined w (Begin i (SDelete t)) m \<longleftrightarrow>
     (case um_find (directory (shared m)) t of None \<Rightarrow> True | Some a \<Rightarrow> unreferenced a m)"
| "disciplined w (Begin i (SPublish t p ttl_ms ne ts)) m \<longleftrightarrow> i = w"
| "disciplined w _ m \<longleftrightarrow> True"

fun disciplined_run :: "nat \<Rightarrow> event list \<Rightarrow> Machine \<Rightarrow> bool" where
  "disciplined_run w [] m \<longleftrightarrow> True"
| "disciplined_run w (e # es) m \<longleftrightarrow> disciplined w e m \<and>
     (case exec_event e m of Inl f \<Rightarrow> True | Inr (_, m1) \<Rightarrow> disciplined_run w es m1)"
subsection \<open>Operations that leave the next identifier alone\<close>

text \<open>
  Everything but \<open>fetch_add\<close> neither reads nor writes \<open>next_msg_id\<close>, so it commutes with the
  number that the publishing thread has taken but not yet pushed.
\<close>

abbreviation with_next :: "MessageId \<Rightarrow> TopicData \<Rightarrow> TopicData" where
  "with_next x td \<equiv> td\<lparr>next_msg_id := x\<rparr>"

definition oblivious :: "(TopicData \<Rightarrow> TopicData) \<Rightarrow> bool" where
  "oblivious f \<longleftrightarrow> (\<forall>td x. f (with_next x td) = with_next x (f td) \<and> next_msg_id (f td) = next_msg_id td \<and>
     td_topic_name (f td) = td_topic_name td)"

lemma Drain_next: "DrainRingBuffer (with_next x td) = map_option (with_next x) (DrainRingBuffer td)"
  by (auto simp: DrainRingBuffer_def split: option.splits)

lemma Drain_keeps: "DrainRingBuffer td = Some td1 \<Longrightarrow> next_msg_id td1 = next_msg_id td \<and> td_topic_name td1 = td_topic_name td"
  by (auto simp: DrainRingBuffer_def split: option.splits)

lemma pull_topic_next:
  "pull_topic c n g now_ms clk (with_next x td) = map_prod id (with_next x) (pull_topic c n g now_ms clk td)"
  by (auto simp: pull_topic_def td_offset_def set_offset_def Let_def split: prod.splits)

lemma pull_topic_keeps:
  "pull_topic c n g now_ms clk td = (res, td') \<Longrightarrow>
     next_msg_id td' = next_msg_id td \<and> td_topic_name td' = td_topic_name td"
  by (auto simp: pull_topic_def set_offset_def Let_def split: prod.splits if_splits)

lemma oblivious_ack: "oblivious (ack_topic key mid)"
  by (simp add: oblivious_def ack_topic_def Let_def)

lemma oblivious_expire: "oblivious (ExpireTopicMessages now_ms)"
  by (auto simp: oblivious_def ExpireTopicMessages_def Let_def split: prod.splits)

lemma Process_frame:
  "ProcessPendingRetries now now_ms (with_next x td) (s\<lparr>ms_topics := ts\<rparr>) =
     map_prod (with_next x) (\<lambda>s'. s'\<lparr>ms_topics := ts\<rparr>) (ProcessPendingRetries now now_ms td s)"
  by (auto simp: ProcessPendingRetries_def Let_def split: prod.splits option.splits)

lemma Process_keeps:
  "ProcessPendingRetries now now_ms td s = (td', s') \<Longrightarrow>
     next_msg_id td' = next_msg_id td \<and> td_topic_name td' = td_topic_name td \<and>
     s' = s\<lparr>dlq_storage := dlq_storage s'\<rparr>"
  by (auto simp: ProcessPendingRetries_def Let_def split: prod.splits if_splits)

subsection \<open>The directory\<close>

definition view_topics :: "(address \<Rightarrow> TopicData) \<Rightarrow> (TopicName, address) umap \<Rightarrow> (TopicName, TopicData) umap" where
  "view_topics g d = map (\<lambda>(t, a). (t, g a)) d"

definition dir_wf :: "(TopicName, address) umap \<Rightarrow> bool" where
  "dir_wf d \<longleftrightarrow> um_wf d \<and> distinct (map snd d)"

lemma view_find [simp]: "um_find (view_topics g d) t = map_option g (um_find d t)"
  by (induction d) (auto simp: view_topics_def um_find_Cons)

lemma view_has [simp]: "um_has (view_topics g d) t \<longleftrightarrow> um_has d t"
  by (simp add: um_has_def)

lemma view_keys [simp]: "map fst (view_topics g d) = map fst d"
  by (simp add: view_topics_def case_prod_unfold comp_def)

lemma view_cong: "(\<And>a. a \<in> snd ` set d \<Longrightarrow> g a = g' a) \<Longrightarrow> view_topics g d = view_topics g' d"
  by (force simp: view_topics_def)

lemma view_erase: "um_erase t (view_topics g d) = view_topics g (um_erase t d)"
  by (simp add: view_topics_def um_erase_filter filter_map comp_def case_prod_unfold)

lemma view_upd: "a \<notin> snd ` set d \<Longrightarrow> view_topics (g(a := x)) d = view_topics g d"
  by (rule view_cong) auto

lemma dir_find_inj: "dir_wf d \<Longrightarrow> um_find d t = Some a \<Longrightarrow> um_find d t' = Some a \<Longrightarrow> t = t'"
  by (force simp: dir_wf_def um_find_Some_iff distinct_map inj_on_def)

lemma dir_find_in: "um_find d t = Some a \<Longrightarrow> a \<in> snd ` set d"
  by (force dest: um_find_SomeD)

lemma dir_in_find: "dir_wf d \<Longrightarrow> a \<in> snd ` set d \<Longrightarrow> \<exists>t. um_find d t = Some a"
  by (force simp: dir_wf_def um_find_Some_iff)

lemma view_put_old:
  "dir_wf d \<Longrightarrow> um_find d t = Some a \<Longrightarrow> um_put t x (view_topics g d) = view_topics (g(a := x)) d"
proof (induction d)
  case (Cons e d)
  obtain t' a' where e: "e = (t', a')" by force
  have d: "dir_wf d" using Cons.prems(1) by (cases e) (simp add: dir_wf_def)
  show ?case
  proof (cases "t' = t")
    case True
    then have "a' = a" "a \<notin> snd ` set d"
      using Cons.prems by (auto simp: e dir_wf_def um_find_Cons)
    then show ?thesis
      using True view_upd [of a d g x] by (simp add: e view_topics_def um_put_conv)
  next
    case False
    then have "um_find d t = Some a" using Cons.prems(2) by (simp add: e um_find_Cons)
    moreover from this have "a' \<noteq> a"
      using Cons.prems(1) dir_find_in [of d t a] by (auto simp: e dir_wf_def)
    ultimately show ?thesis
      using False Cons.IH [OF d] by (simp add: e view_topics_def um_put_conv)
  qed
qed simp

lemma view_put_new:
  "um_find d t = None \<Longrightarrow> a \<notin> snd ` set d \<Longrightarrow>
     um_put t x (view_topics g d) = view_topics (g(a := x)) (um_put t a d)"
  using view_upd [of a d g x] um_put_absent [of "view_topics g d" t x]
  by (simp add: um_put_absent) (simp add: view_topics_def)

lemma dir_wf_put: "dir_wf d \<Longrightarrow> um_find d t = None \<Longrightarrow> a \<notin> snd ` set d \<Longrightarrow> dir_wf (um_put t a d)"
  by (simp add: dir_wf_def um.wf_put) (simp add: um_put_absent)

lemma dir_wf_erase: "dir_wf d \<Longrightarrow> dir_wf (um_erase t d)"
  by (auto simp: dir_wf_def um.wf_erase) (auto simp: um_erase_filter distinct_map inj_on_def)

subsection \<open>The store that the threads implement\<close>

text \<open>
  The store of whole calls that a machine stands for: the topics in the directory, with the number
  that the publishing thread \<open>w\<close> has taken and not yet pushed given back.
\<close>

definition untaken :: "thread_pc \<Rightarrow> address \<Rightarrow> TopicData \<Rightarrow> TopicData" where
  "untaken pc a td =
     (case pc of Pushing t a' mid p ttl_ms ne ts \<Rightarrow> if a' = a then with_next mid td else td | _ \<Rightarrow> td)"

definition seen :: "nat \<Rightarrow> Machine \<Rightarrow> address \<Rightarrow> TopicData" where
  "seen w m a = untaken (threads m ! w) a (the (heap (shared m) a))"

definition machine_view :: "nat \<Rightarrow> Machine \<Rightarrow> MemoryMessageStore" where
  "machine_view w m = (scan_store (shared m))\<lparr>ms_topics := view_topics (seen w m) (directory (shared m))\<rparr>"

fun publishing :: "thread_pc \<Rightarrow> bool" where
  "publishing (Numbering t a p ttl_ms ne ts) \<longleftrightarrow> True"
| "publishing (Pushing t a mid p ttl_ms ne ts) \<longleftrightarrow> True"
| "publishing _ \<longleftrightarrow> False"

text \<open>The invariant: pointers in use are in the directory, and what is in the directory is alive.\<close>

fun pc_ok :: "SharedStore \<Rightarrow> thread_pc \<Rightarrow> bool" where
  "pc_ok s Idle \<longleftrightarrow> True"
| "pc_ok s (Numbering t a p ttl_ms ne ts) \<longleftrightarrow> um_find (directory s) t = Some a"
| "pc_ok s (Pushing t a mid p ttl_ms ne ts) \<longleftrightarrow> um_find (directory s) t = Some a \<and>
     (\<forall>td. heap s a = Some td \<longrightarrow> next_msg_id td = mid + 1)"
| "pc_ok s (Pulling t a c n g now_ms clk) \<longleftrightarrow> um_find (directory s) t = Some a"
| "pc_ok s (Acking t a c mid g) \<longleftrightarrow> um_find (directory s) t = Some a"
| "pc_ok s (Retrying as now now_ms) \<longleftrightarrow> set as \<subseteq> snd ` set (directory s)"
| "pc_ok s (Expiring as now_ms) \<longleftrightarrow> set as \<subseteq> snd ` set (directory s)"

definition shared_ok :: "SharedStore \<Rightarrow> bool" where
  "shared_ok s \<longleftrightarrow> dir_wf (directory s) \<and> (\<forall>a \<in> snd ` set (directory s). a < next_address s) \<and>
     (\<forall>t a. um_find (directory s) t = Some a \<longrightarrow> (\<exists>td. heap s a = Some td \<and> td_topic_name td = t))"

definition mach_ok :: "nat \<Rightarrow> Machine \<Rightarrow> bool" where
  "mach_ok w m \<longleftrightarrow> w < length (threads m) \<and> shared_ok (shared m) \<and>
     (\<forall>i < length (threads m). pc_ok (shared m) (threads m ! i) \<and> (publishing (threads m ! i) \<longrightarrow> i = w))"

lemma mach_okD:
  assumes "mach_ok w m"
  shows "w < length (threads m)" and "shared_ok (shared m)" and "dir_wf (directory (shared m))"
    and "i < length (threads m) \<Longrightarrow> pc_ok (shared m) (threads m ! i)"
    and "i < length (threads m) \<Longrightarrow> publishing (threads m ! i) \<Longrightarrow> i = w"
    and "um_find (directory (shared m)) t = Some a \<Longrightarrow> \<exists>td. heap (shared m) a = Some td \<and> td_topic_name td = t"
    and "a \<in> snd ` set (directory (shared m)) \<Longrightarrow> a < next_address (shared m)"
  using assms by (auto simp: mach_ok_def shared_ok_def)

lemma untaken_simps [simp]:
  "\<not> publishing pc \<Longrightarrow> untaken pc a td = td"
  "untaken (Numbering t a' p ttl_ms ne ts) a td = td"
  "untaken (Pushing t a' mid p ttl_ms ne ts) a td = (if a' = a then with_next mid td else td)"
  by (cases pc; simp add: untaken_def)+

lemma untaken_oblivious: "oblivious f \<Longrightarrow> f (untaken pc a td) = untaken pc a (f td)"
  by (cases pc) (auto simp: oblivious_def)

lemma untaken_name [simp]: "td_topic_name (untaken pc a td) = td_topic_name td"
  by (cases pc) auto

lemma set_topic_sel [simp]:
  "directory (set_topic a td s) = directory s" "next_address (set_topic a td s) = next_address s"
  "heap (set_topic a td s) = (heap s)(a \<mapsto> td)" "shared_dlq (set_topic a td s) = shared_dlq s"
  "shared_buffer_size (set_topic a td s) = shared_buffer_size s"
  "shared_max_retries (set_topic a td s) = shared_max_retries s"
  "shared_timeout_ms (set_topic a td s) = shared_timeout_ms s"
  by (simp_all add: set_topic_def)

lemma view_sel [simp]:
  "ms_topics (machine_view w m) = view_topics (seen w m) (directory (shared m))"
  "dlq_storage (machine_view w m) = shared_dlq (shared m)"
  "ms_default_buffer_size (machine_view w m) = shared_buffer_size (shared m)"
  "ms_max_retry_count (machine_view w m) = shared_max_retries (shared m)"
  "ms_pending_timeout_ms (machine_view w m) = shared_timeout_ms (shared m)"
  by (simp_all add: machine_view_def scan_store_def)

lemma shared_ok_set:
  "shared_ok s \<Longrightarrow> heap s a = Some td \<Longrightarrow> td_topic_name td' = td_topic_name td \<Longrightarrow> shared_ok ((set_topic a td' s)\<lparr>shared_dlq := dlq\<rparr>)"
  unfolding shared_ok_def by force

text \<open>
  A step of thread \<open>i\<close>, which is not publishing, that works on the topic at \<open>a\<close> is the same
  operation on that topic of the machine_view.
\<close>

lemma local_step:
  fixes dlq :: "(TopicName, StoredMessage list) umap"
  assumes ok: "mach_ok w m" and i: "i < length (threads m)" "\<not> publishing (threads m ! i)"
    and t: "um_find (directory (shared m)) t = Some a" and td: "heap (shared m) a = Some td"
    and f: "oblivious f" and pc': "\<not> publishing pc'" "pc_ok (shared m) pc'"
  defines "m' \<equiv> \<lparr>shared = (set_topic a (f td) (shared m))\<lparr>shared_dlq := dlq\<rparr>, threads = (threads m)[i := pc']\<rparr>"
  shows "mach_ok w m'"
    and "machine_view w m' = (machine_view w m)\<lparr>ms_topics := um_put t (f (seen w m a)) (ms_topics (machine_view w m)), dlq_storage := dlq\<rparr>"
proof -
  note okD = mach_okD [OF ok]
  have f': "next_msg_id (f td) = next_msg_id td" "td_topic_name (f td) = td_topic_name td"
    using f by (auto simp: oblivious_def)
  have keep: "pc_ok (shared m') pc" if "pc_ok (shared m) pc" for pc
    using that f' td by (cases pc) (auto simp: m'_def)
  have pcs: "pc_ok (shared m') (threads m' ! j) \<and> (publishing (threads m' ! j) \<longrightarrow> j = w)"
    if j: "j < length (threads m')" for j
  proof (cases "j = i")
    case True
    then show ?thesis using i(1) pc' keep [of pc'] by (simp add: m'_def)
  next
    case False
    then have "threads m' ! j = threads m ! j" "j < length (threads m)" using j by (simp_all add: m'_def)
    then show ?thesis using okD(4,5) [of j] keep [of "threads m ! j"] by simp
  qed
  have "w < length (threads m')" "shared_ok (shared m')"
    using okD(1) shared_ok_set [OF okD(2) td f'(2)] by (simp_all add: m'_def)
  then show "mach_ok w m'"
    unfolding mach_ok_def using pcs by blast
  have "seen w m' b = ((seen w m)(a := f (seen w m a))) b" for b
    using i pc'(1) td f untaken_oblivious [OF f] okD(1) by (cases "i = w") (auto simp: seen_def m'_def)
  then have "seen w m' = (seen w m)(a := f (seen w m a))" by blast
  then show "machine_view w m' = (machine_view w m)\<lparr>ms_topics := um_put t (f (seen w m a)) (ms_topics (machine_view w m)), dlq_storage := dlq\<rparr>"
    using view_put_old [OF okD(3) t] by (simp add: machine_view_def scan_store_def m'_def)
qed

subsection \<open>Every step is a sequence of whole calls\<close>

lemma pcs_update:
  assumes ok: "mach_ok w m" and keep: "\<And>j. j < length (threads m) \<Longrightarrow> j \<noteq> i \<Longrightarrow> pc_ok (shared m) (threads m ! j) \<Longrightarrow> pc_ok s' (threads m ! j)"
    and s': "shared_ok s'" and pc': "pc_ok s' pc'" "publishing pc' \<Longrightarrow> i = w"
  shows "mach_ok w \<lparr>shared = s', threads = (threads m)[i := pc']\<rparr>"
proof -
  have "pc_ok s' ((threads m)[i := pc'] ! j) \<and> (publishing ((threads m)[i := pc'] ! j) \<longrightarrow> j = w)"
    if "j < length (threads m)" for j
  proof (cases "j = i")
    case True
    then show ?thesis using that pc' by simp
  next
    case False
    then show ?thesis using that keep mach_okD(4,5) [OF ok, of j] by simp
  qed
  then show ?thesis
    using mach_okD(1) [OF ok] s' unfolding mach_ok_def Machine.simps length_list_update by blast
qed

lemma untaken_at:
  assumes "\<not> publishing (threads m ! i)" "\<And>a td. untaken pc' a td = td" "i < length (threads m)"
  shows "untaken ((threads m)[i := pc'] ! w) a td = untaken (threads m ! w) a td"
  using assms by (cases "i = w") auto

text \<open>A step that changes no shared state.\<close>

lemma quiet_step:
  assumes ok: "mach_ok w m" and i: "i < length (threads m)" "\<not> publishing (threads m ! i)"
    and pc': "pc_ok (shared m) pc'" "publishing pc' \<Longrightarrow> i = w" "\<And>a td. untaken pc' a td = td"
  shows "mach_ok w \<lparr>shared = shared m, threads = (threads m)[i := pc']\<rparr>"
    and "machine_view w \<lparr>shared = shared m, threads = (threads m)[i := pc']\<rparr> = machine_view w m"
proof -
  let ?m' = "\<lparr>shared = shared m, threads = (threads m)[i := pc']\<rparr>"
  show "mach_ok w ?m'" by (rule pcs_update [OF ok _ mach_okD(2) [OF ok] pc'(1,2)])
  have "seen w ?m' = seen w m"
    using untaken_at [of m i pc' w, OF i(2) pc'(3) i(1)] by (simp add: seen_def fun_eq_iff)
  then show "machine_view w ?m' = machine_view w m" by (simp add: machine_view_def)
qed

text \<open>A new topic.\<close>

lemma alloc_step:
  assumes ok: "mach_ok w m" and i: "i < length (threads m)" "\<not> publishing (threads m ! i)"
    and new: "um_find (directory (shared m)) t = None" "new_topic (shared_buffer_size (shared m)) t = Some td"
  obtains a s' where "alloc_topic t (shared m) = Inr (a, s')" and "um_find (directory s') t = Some a"
    and "\<And>pc'. pc_ok s' pc' \<Longrightarrow> (publishing pc' \<Longrightarrow> i = w) \<Longrightarrow> (\<And>b td. untaken pc' b td = td) \<Longrightarrow>
      mach_ok w \<lparr>shared = s', threads = (threads m)[i := pc']\<rparr> \<and>
      machine_view w \<lparr>shared = s', threads = (threads m)[i := pc']\<rparr> =
        (machine_view w m)\<lparr>ms_topics := um_put t td (ms_topics (machine_view w m))\<rparr>"
proof -
  let ?d = "directory (shared m)" and ?a = "next_address (shared m)"
  note okD = mach_okD [OF ok]
  define s' where "s' = (shared m)\<lparr>directory := um_put t ?a ?d, heap := (heap (shared m))(?a \<mapsto> td), next_address := ?a + 1\<rparr>"
  have name: "td_topic_name td = t" using new(2) by (auto simp: new_topic_def split: option.splits)
  have fresh: "?a \<notin> snd ` set ?d" using okD(7) by blast
  have dir: "set (directory s') = insert (t, ?a) (set ?d)" using new(1) by (simp add: s'_def um_put_absent)
  have heap: "heap s' = (heap (shared m))(?a \<mapsto> td)" by (simp add: s'_def)
  have find: "um_find (directory s') t' = (if t' = t then Some ?a else um_find ?d t')" for t'
    by (simp add: s'_def)
  have old: "um_find ?d t' = Some a \<Longrightarrow> a \<noteq> ?a" for t' a using fresh dir_find_in by fastforce
  have "shared_ok s'"
    using dir_wf_put [OF okD(3) new(1) fresh] okD(2) name old unfolding shared_ok_def find
    by (auto simp: s'_def um_put_absent [OF new(1)] split: if_splits dest: less_SucI)
  moreover have "pc_ok s' pc" if "pc_ok (shared m) pc" for pc
    using that old new(1) by (cases pc) (auto simp: find heap dir)
  ultimately have "mach_ok w \<lparr>shared = s', threads = (threads m)[i := pc']\<rparr>"
    if "pc_ok s' pc'" "publishing pc' \<Longrightarrow> i = w" for pc'
    using pcs_update [OF ok _ _ that] by blast
  moreover have "machine_view w \<lparr>shared = s', threads = (threads m)[i := pc']\<rparr> =
      (machine_view w m)\<lparr>ms_topics := um_put t td (ms_topics (machine_view w m))\<rparr>" if un: "\<And>b td. untaken pc' b td = td" for pc'
  proof -
    let ?m' = "\<lparr>shared = s', threads = (threads m)[i := pc']\<rparr>"
    have no: "untaken (threads m ! w) ?a td = td"
      using okD(4) [OF okD(1)] old by (cases "threads m ! w") auto
    have "seen w ?m' = (seen w m)(?a := td)"
      using untaken_at [of m i pc' w, OF i(2) un i(1)] no by (auto simp: seen_def fun_eq_iff s'_def)
    then show ?thesis
      using view_put_new [OF new(1) fresh] by (simp add: machine_view_def scan_store_def s'_def)
  qed
  moreover have "alloc_topic t (shared m) = Inr (?a, s')"
    using new(2) by (simp add: alloc_topic_def s'_def Let_def)
  ultimately show ?thesis using that [of ?a s'] find by simp
qed

text \<open>A topic that nobody points to goes.\<close>

lemma delete_step:
  assumes ok: "mach_ok w m" and i: "i < length (threads m)" "\<not> publishing (threads m ! i)"
    and t: "um_find (directory (shared m)) t = Some a" and quiet: "unreferenced a m"
  defines "s' \<equiv> (shared m)\<lparr>directory := um_erase t (directory (shared m)), heap := (heap (shared m))(a := None),
     shared_dlq := um_erase (MakeDlqName t) (shared_dlq (shared m))\<rparr>"
  shows "mach_ok w \<lparr>shared = s', threads = (threads m)[i := Idle]\<rparr>"
    and "machine_view w \<lparr>shared = s', threads = (threads m)[i := Idle]\<rparr> = snd (DeleteTopic t (machine_view w m))"
proof -
  let ?d = "directory (shared m)" and ?m' = "\<lparr>shared = s', threads = (threads m)[i := Idle]\<rparr>"
  note okD = mach_okD [OF ok]
  have others: "set (um_erase t ?d) \<subseteq> set ?d" by (auto simp: um_erase_filter)
  have stays: "b \<in> snd ` set (um_erase t ?d)" if "b \<in> snd ` set ?d" "b \<noteq> a" for b
  proof -
    obtain t' where t': "um_find ?d t' = Some b" using dir_in_find [OF okD(3) \<open>b \<in> snd ` set ?d\<close>] by blast
    then have "t' \<noteq> t" using t \<open>b \<noteq> a\<close> by auto
    then show ?thesis using t' dir_find_in [of "um_erase t ?d" t' b] by simp
  qed
  have gone: "a \<notin> snd ` set (um_erase t ?d)"
  proof
    assume "a \<in> snd ` set (um_erase t ?d)"
    from dir_in_find [OF dir_wf_erase [OF okD(3)] this] show False
      using dir_find_inj [OF okD(3) t] by (auto split: if_splits)
  qed
  have "shared_ok s'"
    using okD(2) dir_wf_erase [OF okD(3)] others dir_find_inj [OF okD(3) t]
    by (fastforce simp: shared_ok_def s'_def split: if_splits)
  moreover have "pc_ok s' pc" if pc: "pc_ok (shared m) pc" and "a \<notin> set (pointers pc)" for pc
  proof -
    have "um_find (um_erase t ?d) t' = Some b" if "um_find ?d t' = Some b" "b \<noteq> a" for t' b
      using that t by auto
    moreover have "set as \<subseteq> snd ` set (um_erase t ?d)" if "set as \<subseteq> snd ` set ?d" "a \<notin> set as" for as
      using that stays by blast
    ultimately show ?thesis
      using that by (cases pc) (auto simp: s'_def split: if_splits)
  qed
  moreover have "a \<notin> set (pointers (threads m ! j))" if "j < length (threads m)" for j
    using quiet that by (auto simp: unreferenced_def list_all_length)
  ultimately show "mach_ok w ?m'" by (intro pcs_update [OF ok]) auto
  have "seen w ?m' b = seen w m b" if "b \<noteq> a" for b
    using that untaken_at [of m i Idle w, OF i(2) _ i(1)] by (simp add: seen_def s'_def)
  then have "view_topics (seen w ?m') (um_erase t ?d) = view_topics (seen w m) (um_erase t ?d)"
    using gone by (intro view_cong) metis
  then show "machine_view w ?m' = snd (DeleteTopic t (machine_view w m))"
    using t by (simp add: machine_view_def scan_store_def s'_def DeleteTopic_def um_has_def view_erase)
qed

text \<open>The two steps of \<open>Publish\<close> after the lookup.\<close>

lemma number_step:
  assumes ok: "mach_ok w m" and i: "i < length (threads m)"
    and pc: "threads m ! i = Numbering t a p ttl_ms ne ts" and td: "heap (shared m) a = Some td"
  defines "m' \<equiv> \<lparr>shared = set_topic a (td\<lparr>next_msg_id := next_msg_id td + 1\<rparr>) (shared m),
     threads = (threads m)[i := Pushing t a (next_msg_id td) p ttl_ms ne ts]\<rparr>"
  shows "mach_ok w m'" and "machine_view w m' = machine_view w m"
proof -
  note okD = mach_okD [OF ok]
  have w: "i = w" and t: "um_find (directory (shared m)) t = Some a" using okD(4,5) [OF i] pc by auto
  have alone: "\<not> publishing (threads m ! j)" if "j < length (threads m)" "j \<noteq> i" for j
    using okD(5) [OF that(1)] that(2) w by blast
  have keep: "pc_ok (shared m') pc'" if "pc_ok (shared m) pc'" "\<not> publishing pc'" for pc'
    using that by (cases pc') (auto simp: m'_def)
  have "shared_ok (shared m')"
    using shared_ok_set [OF okD(2) td, of "td\<lparr>next_msg_id := next_msg_id td + 1\<rparr>" "shared_dlq (shared m)"]
    by (simp add: m'_def set_topic_def)
  then show "mach_ok w m'"
    using pcs_update [OF ok, of i "shared m'"] keep alone w t by (simp add: m'_def)
  have "seen w m' = seen w m"
    using w pc td okD(1) by (auto simp: seen_def m'_def fun_eq_iff)
  then show "machine_view w m' = machine_view w m" by (simp add: machine_view_def scan_store_def m'_def)
qed

lemma push_step:
  assumes ok: "mach_ok w m" and i: "i < length (threads m)"
    and pc: "threads m ! i = Pushing t a mid p ttl_ms ne ts" and td: "heap (shared m) a = Some td"
    and push: "rb_Push (ring_buffer td) (serialize mid ts (expiry_of ttl_ms ne) p) = (res, rb)"
  defines "m' \<equiv> \<lparr>shared = set_topic a (td\<lparr>ring_buffer := rb\<rparr>) (shared m), threads = (threads m)[i := Idle]\<rparr>"
  shows "mach_ok w m'" and "Publish t p ttl_ms ne ts (machine_view w m) = Some ((res, mid), machine_view w m')"
proof -
  note okD = mach_okD [OF ok]
  have w: "i = w" and t: "um_find (directory (shared m)) t = Some a" using okD(4,5) [OF i] pc by auto
  have succ: "next_msg_id td = mid + 1" using okD(4) [OF i] pc td by simp
  have keep: "pc_ok (shared m') pc'" if "pc_ok (shared m) pc'" for pc'
    using that td by (cases pc') (auto simp: m'_def)
  have "shared_ok (shared m')"
    using shared_ok_set [OF okD(2) td, of "td\<lparr>ring_buffer := rb\<rparr>" "shared_dlq (shared m)"]
    by (simp add: m'_def set_topic_def)
  then show "mach_ok w m'"
    using pcs_update [OF ok, of i "shared m'" Idle] keep by (simp add: m'_def)
  have at: "seen w m a = with_next mid td" using w pc td by (simp add: seen_def)
  have "seen w m' = (seen w m)(a := td\<lparr>ring_buffer := rb\<rparr>)"
    using w pc i by (auto simp: seen_def m'_def fun_eq_iff)
  then have "machine_view w m' = (machine_view w m)\<lparr>ms_topics := um_put t (td\<lparr>ring_buffer := rb\<rparr>) (ms_topics (machine_view w m))\<rparr>"
    using view_put_old [OF okD(3) t] by (simp add: machine_view_def scan_store_def m'_def)
  moreover have "(with_next mid td)\<lparr>next_msg_id := mid + 1, ring_buffer := rb\<rparr> = td\<lparr>ring_buffer := rb\<rparr>"
    using succ by simp
  ultimately show "Publish t p ttl_ms ne ts (machine_view w m) = Some ((res, mid), machine_view w m')"
    using t at push by (simp add: Publish_def Let_def expiry_of_def)
qed

subsection \<open>Simulation\<close>

text \<open>A move of the machine does what the calls \<open>xs\<close> do to the store it stands for.\<close>

definition moves_as :: "nat \<Rightarrow> Machine \<Rightarrow> (store_events \<times> Machine) outcome \<Rightarrow> store_op list \<Rightarrow> bool" where
  "moves_as w m r xs \<longleftrightarrow>
     (\<forall>ev s'. store_run xs (machine_view w m) = Some (ev, s') \<longrightarrow> (\<exists>m'. r = Inr (ev, m') \<and> mach_ok w m' \<and> machine_view w m' = s'))"

lemma store_run_one: "store_run [x] s = store_exec x s"
  by (cases "store_exec x s") (auto split: prod.splits)

lemma moves_as_none:
  "mach_ok w m' \<Longrightarrow> machine_view w m' = machine_view w m \<Longrightarrow> moves_as w m (Inr (([], []), m')) []"
  by (simp add: moves_as_def)

lemma moves_as_one:
  "(\<And>ev s'. store_exec x (machine_view w m) = Some (ev, s') \<Longrightarrow> \<exists>m'. r = Inr (ev, m') \<and> mach_ok w m' \<and> machine_view w m' = s') \<Longrightarrow>
     moves_as w m r [x]"
  by (simp add: moves_as_def store_run_one del: store_run.simps)

lemma idle_iff: "idle pc \<longleftrightarrow> pc = Idle"
  by (cases pc) auto

lemma to_idle:
  assumes "mach_ok w m" "i < length (threads m)" "\<not> publishing (threads m ! i)"
  shows "mach_ok w \<lparr>shared = shared m, threads = (threads m)[i := Idle]\<rparr> \<and>
    machine_view w \<lparr>shared = shared m, threads = (threads m)[i := Idle]\<rparr> = machine_view w m"
  using quiet_step [OF assms, of Idle] by simp

lemma create_moves:
  assumes ok: "mach_ok w m" and i: "i < length (threads m)" "\<not> publishing (threads m ! i)"
  shows "moves_as w m (move i (start_call (SCreate t) (shared m)) m) [SCreate t]"
proof (rule moves_as_one)
  fix ev s' assume ex: "store_exec (SCreate t) (machine_view w m) = Some (ev, s')"
  show "\<exists>m'. move i (start_call (SCreate t) (shared m)) m = Inr (ev, m') \<and> mach_ok w m' \<and> machine_view w m' = s'"
  proof (cases "um_find (directory (shared m)) t")
    case (Some a)
    then show ?thesis
      using ex to_idle [OF ok i] by (auto simp: CreateTopic_def um_has_def move_def)
  next
    case None
    then obtain td where new: "new_topic (shared_buffer_size (shared m)) t = Some td"
      and s': "ev = ([], [])" "s' = (machine_view w m)\<lparr>ms_topics := um_put t td (ms_topics (machine_view w m))\<rparr>"
      using ex by (auto simp: CreateTopic_def um_has_def split: option.splits)
    obtain a s1 where "alloc_topic t (shared m) = Inr (a, s1)"
      "mach_ok w \<lparr>shared = s1, threads = (threads m)[i := Idle]\<rparr>"
      "machine_view w \<lparr>shared = s1, threads = (threads m)[i := Idle]\<rparr> = s'"
      using alloc_step [OF ok i None new] s'(2) by (metis pc_ok.simps(1) publishing.simps(3) untaken_simps(1))
    then show ?thesis
      using None s'(1) by (simp add: um_has_def move_def)
  qed
qed

lemma lookup_publish_moves:
  assumes ok: "mach_ok w m" and i: "w < length (threads m)" "\<not> publishing (threads m ! w)"
  shows "moves_as w m (move w (start_call (SPublish t p ttl_ms ne ts) (shared m)) m)
    (if um_has (directory (shared m)) t then [] else [SCreate t])"
proof (cases "um_find (directory (shared m)) t")
  case (Some a)
  then show ?thesis
    using quiet_step [OF ok i, of "Numbering t a p ttl_ms ne ts"]
    by (simp add: um_has_def move_def moves_as_none)
next
  case None
  have "moves_as w m (move w (start_call (SPublish t p ttl_ms ne ts) (shared m)) m) [SCreate t]"
  proof (rule moves_as_one)
    fix ev s' assume "store_exec (SCreate t) (machine_view w m) = Some (ev, s')"
    then obtain td where new: "new_topic (shared_buffer_size (shared m)) t = Some td"
      and s': "ev = ([], [])" "s' = (machine_view w m)\<lparr>ms_topics := um_put t td (ms_topics (machine_view w m))\<rparr>"
      using None by (auto simp: CreateTopic_def um_has_def split: option.splits)
    show "\<exists>m'. move w (start_call (SPublish t p ttl_ms ne ts) (shared m)) m = Inr (ev, m') \<and> mach_ok w m' \<and> machine_view w m' = s'"
      using None s' by (rule_tac alloc_step [OF ok i None new]) (auto simp: move_def)
  qed
  then show ?thesis using None by (simp add: um_has_def)
qed

lemma delete_moves:
  assumes ok: "mach_ok w m" and i: "i < length (threads m)" "\<not> publishing (threads m ! i)"
    and quiet: "disciplined w (Begin i (SDelete t)) m"
  shows "moves_as w m (move i (start_call (SDelete t) (shared m)) m) [SDelete t]"
proof (rule moves_as_one)
  fix ev s' assume ex: "store_exec (SDelete t) (machine_view w m) = Some (ev, s')"
  show "\<exists>m'. move i (start_call (SDelete t) (shared m)) m = Inr (ev, m') \<and> mach_ok w m' \<and> machine_view w m' = s'"
  proof (cases "um_find (directory (shared m)) t")
    case None
    then show ?thesis
      using ex to_idle [OF ok i] by (simp add: DeleteTopic_def um_has_def move_def)
  next
    case (Some a)
    then show ?thesis
      using ex delete_step [OF ok i Some] quiet by (simp add: move_def)
  qed
qed

lemma dlq_moves:
  assumes ok: "mach_ok w m" and i: "i < length (threads m)" "\<not> publishing (threads m ! i)"
  shows "moves_as w m (move i (start_call (SPullDlq t n) (shared m)) m) [SPullDlq t n]"
proof (rule moves_as_one)
  fix ev s' assume ex: "store_exec (SPullDlq t n) (machine_view w m) = Some (ev, s')"
  have frame: "mach_ok w (m'\<lparr>shared := (shared m')\<lparr>shared_dlq := q\<rparr>\<rparr>) \<and>
      machine_view w (m'\<lparr>shared := (shared m')\<lparr>shared_dlq := q\<rparr>\<rparr>) = (machine_view w m')\<lparr>dlq_storage := q\<rparr>"
    if ok': "mach_ok w m'" for m' q
  proof -
    have "pc_ok ((shared m')\<lparr>shared_dlq := q\<rparr>) pc = pc_ok (shared m') pc" for pc by (cases pc) auto
    moreover have "seen w (m'\<lparr>shared := (shared m')\<lparr>shared_dlq := q\<rparr>\<rparr>) = seen w m'" by (simp add: seen_def fun_eq_iff)
    ultimately show ?thesis
      using ok' by (simp add: mach_ok_def shared_ok_def machine_view_def scan_store_def)
  qed
  show "\<exists>m'. move i (start_call (SPullDlq t n) (shared m)) m = Inr (ev, m') \<and> mach_ok w m' \<and> machine_view w m' = s'"
    using ex to_idle [OF ok i] frame [of "\<lparr>shared = shared m, threads = (threads m)[i := Idle]\<rparr>"]
    by (auto simp: PullDlq_def Let_def move_def split: option.splits)
qed

lemma lookup_moves:
  assumes ok: "mach_ok w m" and i: "i < length (threads m)" "\<not> publishing (threads m ! i)"
    and r: "start_call x (shared m) = Inr (pc', ([], []), shared m)"
    and pc': "pc_ok (shared m) pc'" "\<not> publishing pc'"
  shows "moves_as w m (move i (start_call x (shared m)) m) []"
  using quiet_step [OF ok i pc'(1)] pc'(2) r by (simp add: move_def moves_as_none)

lemma miss_moves:
  assumes ok: "mach_ok w m" and i: "i < length (threads m)" "\<not> publishing (threads m ! i)"
    and "um_find (directory (shared m)) t = None" "x = SPull t c n g now_ms clk \<or> x = SAck t c mid g"
  shows "moves_as w m (move i (start_call x (shared m)) m) [x]"
  using assms(4,5) to_idle [OF ok i] by (intro moves_as_one) (auto simp: Pull_def Ack_def move_def)

lemma start_moves:
  assumes ok: "mach_ok w m" and i: "i < length (threads m)" "idle (threads m ! i)"
    and disc: "disciplined w (Begin i x) m"
  shows "moves_as w m (fire (Begin i x) m) (fire_commits (Begin i x) m)"
proof -
  have free: "\<not> publishing (threads m ! i)" using i(2) by (simp add: idle_iff)
  show ?thesis
  proof (cases x)
    case (SPull t c n g now_ms clk)
    then show ?thesis
      using miss_moves [OF ok i(1) free, of t x] lookup_moves [OF ok i(1) free, of x "Pulling t _ c n g now_ms clk"]
      by (cases "um_find (directory (shared m)) t") (auto simp: um_has_def)
  next
    case (SAck t c mid g)
    then show ?thesis
      using miss_moves [OF ok i(1) free, of t x] lookup_moves [OF ok i(1) free, of x "Acking t _ c mid g"]
      by (cases "um_find (directory (shared m)) t") (auto simp: um_has_def)
  next
    case (SPublish t p ttl_ms ne ts)
    then have "i = w" using disc by simp
    then show ?thesis using SPublish lookup_publish_moves [OF ok mach_okD(1) [OF ok]] free by simp
  next
    case (SRetry now now_ms)
    then show ?thesis
      using lookup_moves [OF ok i(1) free, of x "Retrying (map snd (directory (shared m))) now now_ms"] by simp
  next
    case (SExpire now_ms)
    then show ?thesis
      using lookup_moves [OF ok i(1) free, of x "Expiring (map snd (directory (shared m))) now_ms"] by simp
  next
    case (SCreate t)
    then show ?thesis using create_moves [OF ok i(1) free, of t] by simp
  next
    case (SDelete t)
    then show ?thesis using delete_moves [OF ok i(1) free, of t] disc by simp
  next
    case (SPullDlq t n)
    then show ?thesis using dlq_moves [OF ok i(1) free, of t n] by simp
  qed (use lookup_moves [OF ok i(1) free, of x Idle] in simp_all)
qed

lemma seen_next: "heap (shared m) a = Some td \<Longrightarrow> \<exists>x. seen w m a = with_next x td"
  by (cases "threads m ! w") (auto simp: seen_def untaken_def intro: exI [of _ "next_msg_id td"])

definition pull_update :: "string \<Rightarrow> u32 \<Rightarrow> bool \<Rightarrow> u64 \<Rightarrow> (nat \<Rightarrow> time_point) \<Rightarrow> TopicData \<Rightarrow> TopicData" where
  "pull_update c n g now_ms clk td =
     (case DrainRingBuffer td of None \<Rightarrow> td | Some td1 \<Rightarrow> snd (pull_topic c n g now_ms clk td1))"

lemma oblivious_pull: "oblivious (pull_update c n g now_ms clk)"
proof -
  have "next_msg_id (snd (pull_topic c n g now_ms clk td)) = next_msg_id td \<and>
      td_topic_name (snd (pull_topic c n g now_ms clk td)) = td_topic_name td" for td
    using pull_topic_keeps [of c n g now_ms clk td] by (metis prod.collapse)
  then show ?thesis
    by (auto simp: oblivious_def pull_update_def Drain_next pull_topic_next dest: Drain_keeps split: option.splits)
qed

lemma oblivious_retry: "oblivious (\<lambda>td. fst (ProcessPendingRetries now now_ms td s))"
proof -
  have "next_msg_id (fst (ProcessPendingRetries now now_ms td s)) = next_msg_id td \<and>
      td_topic_name (fst (ProcessPendingRetries now now_ms td s)) = td_topic_name td" for td
    using Process_keeps [of now now_ms td s] by (metis prod.collapse)
  moreover have "fst (ProcessPendingRetries now now_ms (with_next x td) s) =
      with_next x (fst (ProcessPendingRetries now now_ms td s))" for x td
    using Process_frame [where s = s and ts = "ms_topics s"] by simp
  ultimately show ?thesis by (simp add: oblivious_def)
qed

lemma view_frame [simp]: "(machine_view w m)\<lparr>dlq_storage := shared_dlq (shared m)\<rparr> = machine_view w m"
  by (simp add: machine_view_def scan_store_def)

lemma keep_dlq [simp]: "s\<lparr>shared_dlq := shared_dlq s\<rparr> = s" "(set_topic a td s)\<lparr>shared_dlq := shared_dlq s\<rparr> = set_topic a td s"
  by (simp_all add: set_topic_def)

lemma pull_moves:
  assumes ok: "mach_ok w m" and i: "i < length (threads m)" and pc: "threads m ! i = Pulling t a c n g now_ms clk"
  shows "moves_as w m (fire (Continue i) m) (fire_commits (Continue i) m)"
proof -
  have t: "um_find (directory (shared m)) t = Some a" using mach_okD(4) [OF ok i] pc by simp
  obtain td where td: "heap (shared m) a = Some td" using mach_okD(6) [OF ok t] by blast
  obtain x where x: "seen w m a = with_next x td" using seen_next [OF td] by blast
  have free: "\<not> publishing (threads m ! i)" using pc by simp
  have step: "mach_ok w \<lparr>shared = set_topic a (pull_update c n g now_ms clk td) (shared m), threads = (threads m)[i := Idle]\<rparr>"
    "machine_view w \<lparr>shared = set_topic a (pull_update c n g now_ms clk td) (shared m), threads = (threads m)[i := Idle]\<rparr> =
      (machine_view w m)\<lparr>ms_topics := um_put t (pull_update c n g now_ms clk (seen w m a)) (ms_topics (machine_view w m))\<rparr>"
    using local_step [OF ok i free t td oblivious_pull, where pc' = Idle and dlq = "shared_dlq (shared m)"]
    by (simp_all add: machine_view_def scan_store_def)
  have "moves_as w m (fire (Continue i) m) [SPull t c n g now_ms clk]"
  proof (rule moves_as_one)
    fix ev s' assume ex: "store_exec (SPull t c n g now_ms clk) (machine_view w m) = Some (ev, s')"
    then obtain td1 where d: "DrainRingBuffer td = Some td1"
      using t x by (auto simp: Pull_def Drain_next split: option.splits)
    obtain res td2 where p: "pull_topic c n g now_ms clk td1 = (res, td2)" by fastforce
    have "pull_update c n g now_ms clk td = td2" "pull_update c n g now_ms clk (seen w m a) = with_next x td2"
      using d p x by (simp_all add: pull_update_def Drain_next pull_topic_next)
    then show "\<exists>m'. fire (Continue i) m = Inr (ev, m') \<and> mach_ok w m' \<and> machine_view w m' = s'"
      using step ex t x d p pc td by (simp add: Pull_def Drain_next pull_topic_next move_def)
  qed
  then show ?thesis using pc by simp
qed

lemma ack_moves:
  assumes ok: "mach_ok w m" and i: "i < length (threads m)" and pc: "threads m ! i = Acking t a c mid g"
  shows "moves_as w m (fire (Continue i) m) (fire_commits (Continue i) m)"
proof -
  let ?f = "ack_topic (MakeConsumerKey g c) mid"
  have t: "um_find (directory (shared m)) t = Some a" using mach_okD(4) [OF ok i] pc by simp
  obtain td where td: "heap (shared m) a = Some td" using mach_okD(6) [OF ok t] by blast
  have free: "\<not> publishing (threads m ! i)" using pc by simp
  have "snd (Ack t c mid g (machine_view w m)) = (machine_view w m)\<lparr>ms_topics := um_put t (?f (seen w m a)) (ms_topics (machine_view w m))\<rparr>"
    using t by (simp add: Ack_def ack_topic_def Let_def)
  then have "moves_as w m (fire (Continue i) m) [SAck t c mid g]"
    using local_step [OF ok i free t td oblivious_ack, where pc' = Idle and dlq = "shared_dlq (shared m)"] pc td
    by (intro moves_as_one) (simp add: move_def machine_view_def scan_store_def)
  then show ?thesis using pc by simp
qed

lemma scanned_topic:
  assumes "mach_ok w m" and "a \<in> snd ` set (directory (shared m))"
  obtains td where "heap (shared m) a = Some td" and "um_find (directory (shared m)) (td_topic_name td) = Some a"
  using assms dir_in_find mach_okD(3,6) by metis

lemma retry_moves:
  assumes ok: "mach_ok w m" and i: "i < length (threads m)" and pc: "threads m ! i = Retrying as now now_ms"
  shows "moves_as w m (fire (Continue i) m) (fire_commits (Continue i) m)"
proof (cases as)
  case Nil
  then show ?thesis using to_idle [OF ok i] pc by (simp add: move_def moves_as_none)
next
  case (Cons a bs)
  have free: "\<not> publishing (threads m ! i)" and ptrs: "set as \<subseteq> snd ` set (directory (shared m))"
    using mach_okD(4) [OF ok i] pc by simp_all
  obtain td where td: "heap (shared m) a = Some td" and t: "um_find (directory (shared m)) (td_topic_name td) = Some a"
    using scanned_topic [OF ok] ptrs Cons by auto
  let ?t = "td_topic_name td"
  let ?P = "\<lambda>td. ProcessPendingRetries (now ?t) (now_ms ?t) td (scan_store (shared m))"
  obtain td' s' where p: "?P td = (td', s')" by fastforce
  obtain x where x: "seen w m a = with_next x td" using seen_next [OF td] by blast
  have same: "s' = (scan_store (shared m))\<lparr>dlq_storage := dlq_storage s'\<rparr>"
    using Process_keeps [OF p] by blast
  have empty: "ms_topics s' = []" by (subst same) (simp add: scan_store_def)
  have "ProcessPendingRetries (now ?t) (now_ms ?t) (with_next x td) ((scan_store (shared m))\<lparr>ms_topics := z\<rparr>) =
      (with_next x td', s'\<lparr>ms_topics := z\<rparr>)" for z
    using p by (simp add: Process_frame)
  from this [of "[]"] this [of "ms_topics (machine_view w m)"]
  have run: "?P (with_next x td) = (with_next x td', s')"
    "ProcessPendingRetries (now ?t) (now_ms ?t) (with_next x td) (machine_view w m) =
      (with_next x td', s'\<lparr>ms_topics := ms_topics (machine_view w m)\<rparr>)"
    using empty by (simp_all add: machine_view_def scan_store_def)
  have dlq: "s'\<lparr>ms_topics := z\<rparr> = (machine_view w m)\<lparr>ms_topics := z, dlq_storage := dlq_storage s'\<rparr>" for z
    by (subst same) (simp add: machine_view_def scan_store_def)
  have "moves_as w m (fire (Continue i) m) [SRetryTopic ?t (now ?t) (now_ms ?t)]"
    using local_step [OF ok i free t td oblivious_retry [of "now ?t" "now_ms ?t" "scan_store (shared m)"],
        where pc' = "Retrying bs now now_ms" and dlq = "dlq_storage s'"] ptrs p td t pc Cons x run
    by (intro moves_as_one) (simp add: move_def Let_def dlq)
  then show ?thesis using pc Cons td by simp
qed

lemma expire_moves:
  assumes ok: "mach_ok w m" and i: "i < length (threads m)" and pc: "threads m ! i = Expiring as now_ms"
  shows "moves_as w m (fire (Continue i) m) (fire_commits (Continue i) m)"
proof (cases as)
  case Nil
  then show ?thesis using to_idle [OF ok i] pc by (simp add: move_def moves_as_none)
next
  case (Cons a bs)
  have free: "\<not> publishing (threads m ! i)" and ptrs: "set as \<subseteq> snd ` set (directory (shared m))"
    using mach_okD(4) [OF ok i] pc by simp_all
  obtain td where td: "heap (shared m) a = Some td" and t: "um_find (directory (shared m)) (td_topic_name td) = Some a"
    using scanned_topic [OF ok] ptrs Cons by auto
  let ?t = "td_topic_name td"
  have "moves_as w m (fire (Continue i) m) [SExpireTopic ?t (now_ms ?t)]"
    using local_step [OF ok i free t td oblivious_expire [of "now_ms ?t"],
        where pc' = "Expiring bs now_ms" and dlq = "shared_dlq (shared m)"] ptrs td t pc Cons
    by (intro moves_as_one) (simp add: move_def expire_topic_def machine_view_def scan_store_def)
  then show ?thesis using pc Cons td by simp
qed

lemma number_moves:
  assumes ok: "mach_ok w m" and i: "i < length (threads m)" and pc: "threads m ! i = Numbering t a p ttl_ms ne ts"
  shows "moves_as w m (fire (Continue i) m) (fire_commits (Continue i) m)"
proof -
  have t: "um_find (directory (shared m)) t = Some a" using mach_okD(4) [OF ok i] pc by simp
  obtain td where td: "heap (shared m) a = Some td" using mach_okD(6) [OF ok t] by blast
  show ?thesis
    using number_step [OF ok i pc td] pc td by (simp add: move_def moves_as_none)
qed

lemma push_moves:
  assumes ok: "mach_ok w m" and i: "i < length (threads m)" and pc: "threads m ! i = Pushing t a mid p ttl_ms ne ts"
  shows "moves_as w m (fire (Continue i) m) (fire_commits (Continue i) m)"
proof -
  have t: "um_find (directory (shared m)) t = Some a" using mach_okD(4) [OF ok i] pc by simp
  obtain td where td: "heap (shared m) a = Some td" using mach_okD(6) [OF ok t] by blast
  obtain res rb where push: "rb_Push (ring_buffer td) (serialize mid ts (expiry_of ttl_ms ne) p) = (res, rb)"
    by fastforce
  have "moves_as w m (fire (Continue i) m) [SPublish t p ttl_ms ne ts]"
    using push_step [OF ok i pc td push] pc td push
    by (intro moves_as_one) (auto simp: move_def expiry_of_def Let_def)
  then show ?thesis using pc by simp
qed

lemmas continue_moves = number_moves push_moves pull_moves ack_moves retry_moves expire_moves

lemma event_moves:
  assumes ok: "mach_ok w m" and disc: "disciplined w e m"
  shows "moves_as w m (exec_event e m) (commits e m)"
proof (cases "enabled e m")
  case False
  then show ?thesis using ok by (simp add: exec_event_def commits_def moves_as_none)
next
  case True
  then have "moves_as w m (fire e m) (fire_commits e m)"
  proof (cases e)
    case (Begin i x)
    then show ?thesis using start_moves [OF ok] disc True by simp
  next
    case (Continue i)
    then have i: "i < length (threads m)" and "\<not> idle (threads m ! i)" using True by simp_all
    then show ?thesis
      unfolding Continue using continue_moves [OF ok i] by (cases "threads m ! i") simp_all
  qed
  then show ?thesis using True by (simp add: exec_event_def commits_def)
qed

lemma length_commits: "length (commits e m) \<le> 1"
proof -
  have "length (start_commits x s) \<le> 1" for x s by (cases x) simp_all
  moreover have "length (continue_commits pc s) \<le> 1" for pc s
    by (cases "(pc, s)" rule: continue_commits.cases) (simp_all split: option.split)
  ultimately show ?thesis by (cases e) (simp_all add: commits_def)
qed

lemma length_linearize: "length (linearize es m) \<le> length es"
proof (induction es arbitrary: m)
  case (Cons e es)
  show ?case
  proof (cases "exec_event e m")
    case (Inr r)
    obtain ev m1 where r: "r = (ev, m1)" by fastforce
    show ?thesis using add_le_mono [OF length_commits [of e m] Cons.IH [of m1]] Inr r by simp
  qed (use length_commits [of e m] in simp)
qed simp

lemma store_run_append:
  "store_run xs s = Some ((d, p), s1) \<Longrightarrow> store_run ys s1 = Some ((d', p'), s2) \<Longrightarrow>
     store_run (xs @ ys) s = Some ((d @ d', p @ p'), s2)"
  by (induction xs arbitrary: s d p) (auto split: option.splits prod.splits)

lemma mach_ok_new: "w < n \<Longrightarrow> mach_ok w (machine_new n b mr tmo)"
  by (simp add: mach_ok_def machine_new_def shared_ok_def dir_wf_def)

lemma machine_view_new: "machine_view w (machine_new n b mr tmo) = ms_new b mr tmo"
  by (simp add: machine_view_def machine_new_def scan_store_def ms_new_def view_topics_def)

text \<open>The results of the threads are those of the whole calls.\<close>

lemma start_results:
  assumes "store_run (start_commits x (shared m)) (machine_view w m) \<noteq> None" and "start_returns x (shared m) = Some r"
  shows "start_commits x (shared m) = [x] \<and> op_result x (machine_view w m) = r"
proof (cases x)
  case (SCreate t)
  then show ?thesis
    using assms by (cases "CreateTopic t (machine_view w m)")
      (auto simp: store_run_one CreateTopic_def split: if_splits option.splits simp del: store_run.simps)
next
  case (SPullDlq t n)
  then show ?thesis
    using assms by (auto simp: PullDlq_def Let_def min_def split: option.splits)
qed (use assms in \<open>auto simp: DeleteTopic_def Pull_def Ack_def um_has_def split: if_splits option.splits\<close>)

lemma continue_results:
  assumes ok: "mach_ok w m" and i: "i < length (threads m)"
    and r: "continue_returns (threads m ! i) (shared m) = Some r"
  shows "\<exists>x. continue_commits (threads m ! i) (shared m) = [x] \<and> op_result x (machine_view w m) = r"
proof (cases "threads m ! i")
  case (Pushing t a mid p ttl_ms ne ts)
  then obtain td where td: "heap (shared m) a = Some td" using r by (auto split: option.splits)
  obtain res rb where push: "rb_Push (ring_buffer td) (serialize mid ts (expiry_of ttl_ms ne) p) = (res, rb)" by fastforce
  show ?thesis
    using push_step(2) [OF ok i Pushing td push] Pushing push r td by (auto simp: expiry_of_def)
next
  case (Pulling t a c n g now_ms clk)
  then have t: "um_find (directory (shared m)) t = Some a" using mach_okD(4) [OF ok i] by simp
  obtain td td1 where td: "heap (shared m) a = Some td" "DrainRingBuffer td = Some td1"
    using r Pulling by (auto split: option.splits)
  obtain x where x: "seen w m a = with_next x td" using seen_next [OF td(1)] by blast
  obtain res td2 where "pull_topic c n g now_ms clk td1 = (res, td2)" by fastforce
  then show ?thesis
    using Pulling r td t x by (simp add: Pull_def Drain_next pull_topic_next)
next
  case (Acking t a c mid g)
  then have t: "um_find (directory (shared m)) t = Some a" using mach_okD(4) [OF ok i] by simp
  obtain td where td: "heap (shared m) a = Some td" using mach_okD(6) [OF ok t] by blast
  obtain x where x: "seen w m a = with_next x td" using seen_next [OF td] by blast
  show ?thesis
    using Acking r td t x by (auto simp: Ack_def Let_def)
qed (use r in simp_all)

lemma event_results:
  assumes "mach_ok w m" and "store_run (commits e m) (machine_view w m) \<noteq> None" and "returns e m = Some r"
  shows "\<exists>x. commits e m = [x] \<and> op_result x (machine_view w m) = r"
proof (cases e)
  case (Begin i x)
  then show ?thesis
    using assms start_results [of x m w r] by (auto simp: commits_def returns_def split: if_splits)
next
  case (Continue i)
  then show ?thesis
    using assms continue_results [OF assms(1), of i r] by (auto simp: commits_def returns_def split: if_splits)
qed

text \<open>Results that agree: where the thread's call has returned, it has returned what the whole call returns.\<close>

definition agree :: "(nat \<times> store_op \<times> call_result option) list \<Rightarrow> call_result list \<Rightarrow> bool" where
  "agree = list_all2 (\<lambda>(i, x, r) r'. r = None \<or> r = Some r')"

lemma agree_event:
  assumes ok: "mach_ok w m" and run: "store_run (commits e m) (machine_view w m) \<noteq> None"
  shows "agree (map (\<lambda>x. (thread_of e, x, returns e m)) (commits e m)) (answers (commits e m) (machine_view w m))"
proof (cases "commits e m")
  case (Cons x xs)
  then have "commits e m = [x]" using length_commits [of e m] by simp
  then show ?thesis
    using event_results [OF ok run] by (cases "returns e m") (auto simp: agree_def split: option.split)
qed (simp add: agree_def)

lemma answers_append:
  "store_run xs s = Some (ev, s1) \<Longrightarrow> answers (xs @ ys) s = answers xs s @ answers ys s1"
  by (induction xs arbitrary: s ev) (auto split: option.splits prod.splits)

lemma agree_append: "agree xs as \<Longrightarrow> agree ys bs \<Longrightarrow> agree (xs @ ys) (as @ bs)"
  by (simp add: agree_def list_all2_appendI)

text \<open>The calls of a thread: each one it has begun has returned or is the one it is inside.\<close>

lemma start_progress:
  assumes "start_call x s = Inr (pc, ev, s')"
  shows "in_progress pc = (if a_call x \<and> start_returns x s = None then [x] else [])"
  using assms by (cases x) (auto simp: um_has_def Let_def split: if_splits option.splits sum.splits prod.splits)

lemma start_committed: "start_returns x s \<noteq> None \<Longrightarrow> start_commits x s = [x] \<and> a_call x"
  by (cases x) (auto split: if_splits)

lemma continue_progress:
  assumes "continue_call pc s = Inr (pc', ev, s')"
  shows "in_progress pc = (if continue_returns pc s = None then [] else continue_commits pc s) @ in_progress pc'"
  using assms by (cases "(pc, s)" rule: continue_commits.cases)
    (auto simp: Let_def split: option.splits prod.splits)

lemma finished_append [simp]: "finished i (g @ h) = finished i g @ finished i h"
  by (simp add: finished_def)

lemma finished_event:
  "finished i (map (\<lambda>x. (j, x, r)) xs) = (if j = i \<and> r \<noteq> None then xs else [])"
  by (induction xs) (auto simp: finished_def)

lemma event_progress:
  assumes "exec_event e m = Inr (ev, m')"
  shows "in_progress (threads m ! i) @ (if enabled e m then begins i e else []) =
    finished i (map (\<lambda>x. (thread_of e, x, returns e m)) (commits e m)) @ in_progress (threads m' ! i)"
proof (cases "enabled e m \<and> thread_of e = i")
  case True
  show ?thesis
  proof (cases e)
    case (Begin j x)
    then have x: "j = i" "i < length (threads m)" "threads m ! i = Idle" using True by (auto simp: idle_iff)
    then obtain pc s' where "start_call x (shared m) = Inr (pc, ev, s')" "threads m' ! i = pc"
      using assms Begin True by (auto simp: exec_event_def move_def split: sum.splits)
    then show ?thesis
      using Begin x True start_progress [of x "shared m" pc ev s'] start_committed [of x "shared m"]
      unfolding finished_event by (auto simp: commits_def returns_def)
  next
    case (Continue j)
    then have x: "j = i" "i < length (threads m)" using True by simp_all
    then obtain pc s' where "continue_call (threads m ! i) (shared m) = Inr (pc, ev, s')" "threads m' ! i = pc"
      using assms Continue True by (auto simp: exec_event_def move_def split: sum.splits)
    then show ?thesis
      using Continue x True continue_progress [of "threads m ! i" "shared m" pc ev s']
      unfolding finished_event by (simp add: commits_def returns_def)
  qed
next
  case False
  have "threads m' ! i = threads m ! i"
  proof (cases e)
    case (Begin j x)
    then show ?thesis
      using assms False by (auto simp: exec_event_def move_def split: sum.splits if_splits)
  next
    case (Continue j)
    then show ?thesis
      using assms False by (auto simp: exec_event_def move_def split: sum.splits if_splits)
  qed
  moreover have "(if enabled e m then begins i e else []) = []"
    using False by (cases e) auto
  ultimately show ?thesis
    using False unfolding finished_event by (simp add: returns_def)
qed

lemma history_linearize: "map (\<lambda>(i, x, r). x) (history es m) = linearize es m"
  by (induction es arbitrary: m) (auto simp: comp_def split: sum.split)

lemma calls_accounted:
  "exec_events es m = Inr (ev, m') \<Longrightarrow>
     in_progress (threads m ! i) @ begun i es m = finished i (history es m) @ in_progress (threads m' ! i)"
proof (induction es arbitrary: m ev)
  case (Cons e es)
  then obtain ev1 m1 ev2 where s: "exec_event e m = Inr (ev1, m1)" "exec_events es m1 = Inr (ev2, m')"
    by (auto split: sum.splits prod.splits)
  have "in_progress (threads m ! i) @ begun i (e # es) m =
      (in_progress (threads m ! i) @ (if enabled e m then begins i e else [])) @ begun i es m1"
    using s(1) by simp
  also have "\<dots> = finished i (map (\<lambda>x. (thread_of e, x, returns e m)) (commits e m)) @
      in_progress (threads m1 ! i) @ begun i es m1"
    unfolding event_progress [OF s(1)] by simp
  also have "\<dots> = finished i (history (e # es) m) @ in_progress (threads m' ! i)"
    unfolding Cons.IH [OF s(2)] using s(1) by simp
  finally show ?case .
qed (simp add: finished_def)

lemma interleaving_simulates:
  assumes "mach_ok w m" and "store_inv H k (machine_view w m)" and "disciplined_run w es m" and "k + length es + 1 < 2 ^ 64"
  shows "\<exists>d p m'. exec_events es m = Inr ((d, p), m') \<and> mach_ok w m' \<and>
    store_run (linearize es m) (machine_view w m) = Some ((d, p), machine_view w m') \<and>
    agree (history es m) (answers (linearize es m) (machine_view w m))"
  using assms
proof (induction es arbitrary: H k m)
  case (Cons e es)
  have small: "k + length (commits e m) + 1 < 2 ^ 64"
    using Cons.prems(4) length_commits [of e m] by simp
  obtain d1 p1 s1 where run: "store_run (commits e m) (machine_view w m) = Some ((d1, p1), s1)"
    and inv: "store_inv (Message_Store_Inv.extend H p1) (k + length (commits e m)) s1"
    using store_run_good [OF Cons.prems(2) small] by blast
  have "disciplined w e m" using Cons.prems(3) by simp
  from event_moves [OF Cons.prems(1) this] run
  obtain m1 where step: "exec_event e m = Inr ((d1, p1), m1)" "mach_ok w m1" "machine_view w m1 = s1"
    unfolding moves_as_def by blast
  have rest: "disciplined_run w es m1" using Cons.prems(3) step(1) by simp
  have "k + length (commits e m) + length es + 1 < 2 ^ 64"
    using Cons.prems(4) length_commits [of e m] by simp
  from Cons.IH [OF step(2) inv [folded step(3)] rest this]
  obtain d p m' where "exec_events es m1 = Inr ((d, p), m')" "mach_ok w m'"
    "store_run (linearize es m1) (machine_view w m1) = Some ((d, p), machine_view w m')"
    "agree (history es m1) (answers (linearize es m1) (machine_view w m1))"
    by blast
  then show ?case
    using step run store_run_append [of "commits e m" "machine_view w m" d1 p1 s1 "linearize es m1"]
      answers_append [OF run, of "linearize es m1"] agree_append [OF agree_event [OF Cons.prems(1)]] by simp
qed (simp add: agree_def)

text \<open>
  C5: The interleavings of the threads: when one thread publishes, no topic is deleted under
  a call in progress, the rings are at most 16 MiB and there are fewer than 2^64 - 1 events, every schedule of the
  event thread, the retry thread, the expiration thread and any other callers ends without a fault, and the
  operations of its history, executed one after the other in the order of the events in which they take effect,
  deliver and accept the same messages and end in the same state. Each call of a thread is in that history
  once, at the event in which it returns, in the order in which the thread made its calls, and only the call that the
  thread is still inside is missing; and what it returned to its caller (the boolean of a create, a
  delete, an acknowledgement and a publish, the identifier of a publish, the messages of a pull) is what the whole
  operation returns at that place. Two calls are not atomic and are in the history in parts: a
  publish to a topic that does not exist counts as the creation of the topic at its lookup and as the
  publish at its push, and a background scan counts as one scan per topic, at the event that handles the topic.
  So what was published is all that is delivered, in every interleaving.
\<close>

theorem interleavings_are_calls:
  assumes "w < n" and "b \<le> unat kMaxPayloadSize" and "length es + 1 < 2 ^ 64"
    and "disciplined_run w es (machine_new n b mr tmo)"
  shows "\<exists>d p m. exec_events es (machine_new n b mr tmo) = Inr ((d, p), m) \<and>
    store_run (linearize es (machine_new n b mr tmo)) (ms_new b mr tmo) = Some ((d, p), machine_view w m) \<and>
    map (\<lambda>(i, x, r). x) (history es (machine_new n b mr tmo)) = linearize es (machine_new n b mr tmo) \<and>
    list_all2 (\<lambda>(i, x, r) r'. r = None \<or> r = Some r') (history es (machine_new n b mr tmo))
      (answers (linearize es (machine_new n b mr tmo)) (ms_new b mr tmo)) \<and>
    (\<forall>i < n. begun i es (machine_new n b mr tmo) =
      finished i (history es (machine_new n b mr tmo)) @ in_progress (threads m ! i)) \<and>
    (\<forall>(t, msg) \<in> set d. (t, core msg) \<in> set p \<and> retry_count msg \<le> mr)"
proof -
  let ?m = "machine_new n b mr tmo"
  have inv: "store_inv (\<lambda>_. {}) 0 (machine_view w ?m)" using store_inv_new [OF assms(2)] by (simp add: machine_view_new)
  obtain d p m where m: "exec_events es ?m = Inr ((d, p), m)"
    "store_run (linearize es ?m) (ms_new b mr tmo) = Some ((d, p), machine_view w m)"
    "agree (history es ?m) (answers (linearize es ?m) (ms_new b mr tmo))"
    using interleaving_simulates [OF mach_ok_new [OF assms(1)] inv assms(4)] assms(3) by (auto simp: machine_view_new)
  have "0 + length (linearize es ?m) + 1 < 2 ^ 64"
    using assms(3) length_linearize [of es ?m] by simp
  from store_run_good [OF store_inv_new [OF assms(2)] this, of mr tmo] m(2)
  have "\<forall>(t, msg) \<in> set d. (t, core msg) \<in> set p \<and> retry_count msg \<le> mr"
    by (auto simp: Message_Store_Inv.extend_def ms_new_def)
  moreover have "begun i es ?m = finished i (history es ?m) @ in_progress (threads m ! i)" if "i < n" for i
    using calls_accounted [OF m(1), of i] that by (simp add: machine_new_def)
  ultimately show ?thesis
    using m(1,2) m(3) [unfolded agree_def] history_linearize [of es ?m] by blast
qed

text \<open>Thread 0 publishes while thread 1 is about to pull: the pull, which ends later, sees the message.\<close>

definition pull_during_publish :: "event list" where
  "pull_during_publish =
     [Begin 0 (SPublish ''t'' [7] 0 0 100), Begin 1 (SPull ''t'' ''a'' 10 False 100 (\<lambda>_. 0)),
      Continue 0, Begin 2 (SRetry (\<lambda>_. 0) (\<lambda>_. 100)), Continue 0, Continue 2, Continue 1, Continue 2]"

text \<open>The discipline read off a schedule.\<close>

fun orderly :: "nat \<Rightarrow> event \<Rightarrow> bool" where
  "orderly w (Begin i (SDelete t)) \<longleftrightarrow> False"
| "orderly w (Begin i (SPublish t p ttl_ms ne ts)) \<longleftrightarrow> i = w"
| "orderly w _ \<longleftrightarrow> True"

lemma orderly_disciplined: "list_all (orderly w) es \<Longrightarrow> disciplined_run w es m"
proof (induction es arbitrary: m)
  case (Cons e es)
  then show ?case
    by (cases "(w, e)" rule: orderly.cases) (auto split: sum.split)
qed simp

theorem interleavings_are_calls_witness:
  "\<exists>d p m. exec_events pull_during_publish (machine_new 3 64 3 5000) = Inr ((d, p), m) \<and>
     (\<forall>(t, msg) \<in> set d. (t, core msg) \<in> set p \<and> retry_count msg \<le> 3)"
proof -
  have "list_all (orderly 0) pull_during_publish" by (simp add: pull_during_publish_def)
  moreover have "0 < (3 :: nat)" "64 \<le> unat kMaxPayloadSize" "length pull_during_publish + 1 < 2 ^ 64"
    by (simp_all add: pull_during_publish_def)
  ultimately show ?thesis
    using interleavings_are_calls [of 0 3 64 pull_during_publish 3 5000] orderly_disciplined by blast
qed

subsection \<open>Deleting a topic under a call\<close>

fun uses_topic :: "TopicName \<Rightarrow> store_op \<Rightarrow> bool" where
  "uses_topic t (SPublish t' p ttl_ms ne ts) \<longleftrightarrow> t' = t"
| "uses_topic t (SPull t' c n g now_ms clk) \<longleftrightarrow> t' = t"
| "uses_topic t (SAck t' c mid g) \<longleftrightarrow> t' = t"
| "uses_topic t (SRetry now now_ms) \<longleftrightarrow> True"
| "uses_topic t (SExpire now_ms) \<longleftrightarrow> True"
| "uses_topic t _ \<longleftrightarrow> False"

lemma exec_continue:
  "i < length (threads m) \<Longrightarrow> \<not> idle (threads m ! i) \<Longrightarrow>
     exec_event (Continue i) m = move i (continue_call (threads m ! i) (shared m)) m"
  by (simp add: exec_event_def)

lemma scan_faults:
  "i < length (threads m) \<Longrightarrow> heap (shared m) a = None \<Longrightarrow> a \<in> set as \<Longrightarrow>
     threads m ! i = Retrying as now now_ms \<or> threads m ! i = Expiring as now_ms \<Longrightarrow>
     \<exists>k. exec_events (replicate k (Continue i)) m = Inl UseAfterFree"
proof (induction as arbitrary: m)
  case (Cons b bs)
  have run: "exec_event (Continue i) m = move i (continue_call (threads m ! i) (shared m)) m"
    using Cons.prems by (intro exec_continue) auto
  show ?case
  proof (cases "heap (shared m) b")
    case None
    then have "exec_events (replicate 1 (Continue i)) m = Inl UseAfterFree"
      using run Cons.prems(4) by (auto simp: move_def)
    then show ?thesis by blast
  next
    case (Some td)
    then have "a \<in> set bs" "a \<noteq> b" using Cons.prems(2,3) by auto
    obtain m1 where m1: "exec_event (Continue i) m = Inr (([], []), m1)" "i < length (threads m1)"
      "heap (shared m1) a = None"
      "threads m1 ! i = Retrying bs now now_ms \<or> threads m1 ! i = Expiring bs now_ms"
      using run Cons.prems(1,2,4) Some \<open>a \<noteq> b\<close> by (auto simp: move_def Let_def split: prod.splits)
    from Cons.IH [OF m1(2,3) \<open>a \<in> set bs\<close> m1(4)]
    obtain k where "exec_events (replicate k (Continue i)) m1 = Inl UseAfterFree" by blast
    then have "exec_events (replicate (Suc k) (Continue i)) m = Inl UseAfterFree" using m1(1) by simp
    then show ?thesis by blast
  qed
qed simp

text \<open>
  C13: Deleting a topic under a call: when a thread has looked a topic up, for a publish, a pull, an
  acknowledgement or a background scan, and another thread deletes the topic before the first has
  locked it, the first goes on to access freed memory.
\<close>

theorem delete_under_call_faults:
  assumes "i < length (threads m)" and "j < length (threads m)" and "i \<noteq> j"
    and "idle (threads m ! i)" and "idle (threads m ! j)"
    and "um_find (directory (shared m)) t = Some a" and "uses_topic t x"
  shows "\<exists>k. exec_events ([Begin i x, Begin j (SDelete t)] @ replicate k (Continue i)) m = Inl UseAfterFree"
proof -
  obtain pc where start: "start_call x (shared m) = Inr (pc, ([], []), shared m)" and "\<not> idle pc"
    and pc: "pointers pc = [a] \<and> (\<forall>s. heap s a = None \<longrightarrow> continue_call pc s = Inl UseAfterFree) \<or>
      (\<exists>as now now_ms. a \<in> set as \<and> (pc = Retrying as now now_ms \<or> pc = Expiring as now_ms))"
    using assms(6,7) by (cases x) (force dest: um_find_SomeD)+
  define m1 where "m1 = \<lparr>shared = shared m, threads = (threads m)[i := pc]\<rparr>"
  define m2 where "m2 = \<lparr>shared = (shared m)\<lparr>directory := um_erase t (directory (shared m)),
      heap := (heap (shared m))(a := None), shared_dlq := um_erase (MakeDlqName t) (shared_dlq (shared m))\<rparr>,
    threads = (threads m1)[j := Idle]\<rparr>"
  have "exec_event (Begin i x) m = Inr (([], []), m1)"
    using assms(1,4) start by (simp add: exec_event_def move_def m1_def)
  moreover have "exec_event (Begin j (SDelete t)) m1 = Inr (([], []), m2)"
    using assms(2,3,5,6) by (simp add: exec_event_def move_def m1_def m2_def)
  ultimately have run: "exec_events ([Begin i x, Begin j (SDelete t)] @ es) m =
      (case exec_events es m2 of Inl f \<Rightarrow> Inl f | Inr r \<Rightarrow> Inr r)" for es
    by (auto split: sum.splits)
  have m2: "i < length (threads m2)" "threads m2 ! i = pc" "heap (shared m2) a = None"
    using assms(1,3) by (simp_all add: m2_def m1_def)
  have "\<exists>k. exec_events (replicate k (Continue i)) m2 = Inl UseAfterFree"
  proof (cases "pointers pc = [a] \<and> (\<forall>s. heap s a = None \<longrightarrow> continue_call pc s = Inl UseAfterFree)")
    case True
    then have "exec_events (replicate 1 (Continue i)) m2 = Inl UseAfterFree"
      using m2 \<open>\<not> idle pc\<close> by (simp add: exec_event_def move_def)
    then show ?thesis by blast
  next
    case False
    then show ?thesis using pc scan_faults [OF m2(1,3)] m2(2) by blast
  qed
  then show ?thesis using run by (metis old.sum.simps(5))
qed

text \<open>The administrator deletes a topic while the retry thread has its list of topics.\<close>

theorem delete_under_call_faults_witness:
  "\<exists>k. exec_events (Begin 0 (SCreate ''t'') # [Begin 1 (SRetry (\<lambda>_. 0) (\<lambda>_. 0)), Begin 0 (SDelete ''t'')] @
     replicate k (Continue 1)) (machine_new 2 64 3 5000) = Inl UseAfterFree"
proof -
  obtain td where td: "new_topic 64 ''t'' = Some td" using new_topic_total [of 64 "''t''"] by auto
  let ?m = "\<lparr>shared = \<lparr>directory = [(''t'', 0)], heap = [0 \<mapsto> td], next_address = 1, shared_dlq = [],
      shared_buffer_size = 64, shared_max_retries = 3, shared_timeout_ms = 5000\<rparr>, threads = [Idle, Idle]\<rparr>"
  have create: "exec_event (Begin 0 (SCreate ''t'')) (machine_new 2 64 3 5000) = Inr (([], []), ?m)"
    using td by (simp add: exec_event_def machine_new_def move_def alloc_topic_def um_put_Nil um_has_def
        numeral_2_eq_2)
  have "um_find (directory (shared ?m)) ''t'' = Some 0" by (simp add: um_find_Cons)
  then obtain k where "exec_events ([Begin 1 (SRetry (\<lambda>_. 0) (\<lambda>_. 0)), Begin 0 (SDelete ''t'')] @
      replicate k (Continue 1)) ?m = Inl UseAfterFree"
    using delete_under_call_faults [of 1 ?m 0 "''t''" 0 "SRetry (\<lambda>_. 0) (\<lambda>_. 0)"] by auto
  then show ?thesis using create by (intro exI [of _ k]) simp
qed

end
