(* ===== verification/Store_Race.thy ===== *)
theory Store_Race
  imports Store_Concurrent
begin

text \<open>
  Two publishing threads. \<open>Publish\<close> takes its number and pushes in two separate accesses, so two
  threads can push in the opposite order of their numbers (the second thread is a caller of
  \<open>Broker::PublishLocal\<close>, which no lock keeps apart from the event thread). \<open>Pull\<close> moves a
  consumer's offset past every number it sees, so the message with the smaller number, further back
  in the log, is never handed out. Proved by a simulation: the store behaves from then on exactly
  like a store to which that message was never published.
\<close>

subsection \<open>A log with a message out of order\<close>

text \<open>\<open>bury_td m td\<close> is the topic \<open>td\<close> with the message \<open>m\<close> as well, behind the first of its log.\<close>

definition bury_td :: "StoredMessage \<Rightarrow> TopicData \<Rightarrow> TopicData" where
  "bury_td m td = td\<lparr>message_log := (case message_log td of [] \<Rightarrow> [] | b # log \<Rightarrow> b # m # log)\<rparr>"

text \<open>
  \<open>m\<close> is blocked by the first message \<open>b\<close> of the log: neither expires, \<open>m\<close> has the smaller number,
  and a consumer to whom \<open>b\<close> is pending has its offset behind \<open>b\<close>.
\<close>

definition blocked :: "StoredMessage \<Rightarrow> StoredMessage \<Rightarrow> TopicData \<Rightarrow> bool" where
  "blocked m b td \<longleftrightarrow> (\<exists>log. message_log td = b # log) \<and> sm_id m < sm_id b \<and> sm_id b < next_msg_id td \<and>
     expires_at m = 0 \<and> expires_at b = 0 \<and>
     (\<forall>g c. um_find (um_at [] (pending_acks td) (MakeConsumerKey g c)) (sm_id b) \<noteq> None \<longrightarrow>
        sm_id b < td_offset g (MakeConsumerKey g c) td)"

lemma bury_sel [simp]:
  "td_topic_name (bury_td m td) = td_topic_name td" "ring_buffer (bury_td m td) = ring_buffer td"
  "retry_queue (bury_td m td) = retry_queue td" "pending_acks (bury_td m td) = pending_acks td"
  "next_msg_id (bury_td m td) = next_msg_id td" "td_offset g k (bury_td m td) = td_offset g k td"
  by (simp_all add: bury_td_def)

lemma bury_log: "message_log td = b # log \<Longrightarrow> bury_td m td = td\<lparr>message_log := b # m # log\<rparr>"
  by (simp add: bury_td_def)

lemma pull_log_buried:
  assumes "sm_id m < sm_id b" and "sm_id b < sm_id b + 1" and "expires_at b = 0"
    and "um_find (um_at [] pa key) (sm_id b) \<noteq> None \<longrightarrow> sm_id b < off"
  shows "pull_log n now_ms clk key (b # m # log) (off, pa, res) = pull_log n now_ms clk key (b # log) (off, pa, res)"
proof -
  have full: "pull_log n now_ms clk key xs (off', pa', res') = (off', pa', res')" if "n \<le> length res'" for xs off' pa' res'
    using that by (cases xs) simp_all
  have skip: "pull_log n now_ms clk key (m # log) (off', pa', res') = pull_log n now_ms clk key log (off', pa', res')"
    if "sm_id m < off'" for off' pa' res'
    using that full [of res' log off' pa'] by (auto simp: leD)
  have "sm_id m < sm_id b + 1" using assms(1,2) by (rule less_trans)
  moreover have "sm_id m < off" if "sm_id b < off" using assms(1) that by (rule less_trans)
  moreover have "um_find (um_at [] pa key) (sm_id b) = None" if "\<not> sm_id b < off" using assms(4) that by blast
  ultimately show ?thesis
    using assms(3)
    by (cases "sm_id b < off")
      (simp_all add: skip not_expired Let_def leD pull_log.simps(2) [of n now_ms clk key b] del: pull_log.simps(2))
qed

lemma pull_topic_buried:
  assumes inv: "td_inv mr td []" and bl: "blocked m b td" and pull: "pull_topic c n g now_ms clk td = (res, td')"
  shows "pull_topic c n g now_ms clk (bury_td m td) = (res, bury_td m td')" and "blocked m b td'"
proof -
  let ?key = "MakeConsumerKey g c" and ?pm = "um_at [] (pending_acks td) (MakeConsumerKey g c)"
  obtain log where log: "message_log td = b # log" using bl by (auto simp: blocked_def)
  have less: "sm_id b < sm_id b + 1" using bl less_inc by (auto simp: blocked_def)
  have same: "message_log td' = message_log td" and other: "\<And>k. k \<noteq> ?key \<Longrightarrow> um_find (pending_acks td') k = um_find (pending_acks td) k"
    and offs: "\<And>g' k. (g', k) \<noteq> (g, ?key) \<Longrightarrow> td_offset g' k td' = td_offset g' k td"
    and pend: "um_at [] (pending_acks td') ?key = handed_out clk 0 (pulled (unat n) now_ms g ?key td) ?pm"
    and mv: "offset_moves now_ms (next_msg_id td) (td_offset g ?key td) (td_offset g ?key td') ?pm
      (message_log td) (pulled_log (unat n) now_ms g ?key td)"
    and nxt: "next_msg_id td' = next_msg_id td"
    using pull_topic_post [OF inv pull] by (auto simp: pull_post_def)
  have "pull_log (unat n) now_ms clk ?key (b # m # log) (td_offset g ?key td, pending_acks td, []) =
      pull_log (unat n) now_ms clk ?key (b # log) (td_offset g ?key td, pending_acks td, [])"
    using bl less by (intro pull_log_buried) (auto simp: blocked_def)
  then show "pull_topic c n g now_ms clk (bury_td m td) = (res, bury_td m td')"
    using pull log unfolding pull_topic_def
    by (auto simp: Let_def bury_td_def set_offset_def split: prod.splits)
  have "sm_id b < td_offset g ?key td'" if new: "um_find (um_at [] (pending_acks td') ?key) (sm_id b) \<noteq> None"
  proof (rule ccontr)
    assume "\<not> sm_id b < td_offset g ?key td'"
    then have off: "td_offset g ?key td \<le> sm_id b" and notin: "b \<notin> set (pulled_log (unat n) now_ms g ?key td)"
      using mv by (auto simp: offset_moves_def not_less intro: order.trans)
    then have free: "um_find ?pm (sm_id b) = None"
      using bl leD unfolding blocked_def by blast
    have "log_candidates now_ms (td_offset g ?key td) ?pm (message_log td) = b #
        log_candidates now_ms (td_offset g ?key td) ?pm log"
      using log off free bl by (simp add: log_candidates_def blocked_def not_expired)
    then have "unat n = 0" using notin by (cases "unat n") (auto simp: pulled_log_def)
    then show False using new pend free by (simp add: pulled_def)
  qed
  then have "sm_id b < td_offset g' (MakeConsumerKey g' c') td'"
    if "um_find (um_at [] (pending_acks td') (MakeConsumerKey g' c')) (sm_id b) \<noteq> None" for g' c'
  proof (cases "MakeConsumerKey g' c' = ?key")
    case False
    then show ?thesis
      using that bl other [OF False] offs [of g' "MakeConsumerKey g' c'"] by (auto simp: blocked_def um_at_def)
  qed (use that in auto)
  then show "blocked m b td'"
    using bl unfolding blocked_def same nxt by blast
qed

lemma pop_loop_ring:
  "rb_rep rb xs \<Longrightarrow> \<exists>rb'. \<forall>f (s :: StoredMessage list). pop_loop rb_Pop f rb s = Some (rb', fold f xs s)"
proof (induction xs arbitrary: rb)
  case Nil
  then show ?case by (simp add: pop_loop.simps [of rb_Pop _ rb] rb_Pop_empty)
next
  case (Cons x xs)
  obtain rb1 where "rb_Pop rb = (Some x, rb1)" "rb_rep rb1 xs"
    using rb_Pop_Cons [OF Cons.prems] by (cases "rb_Pop rb") auto
  then show ?case
    using Cons.IH [of rb1] by (auto simp: pop_loop.simps [of rb_Pop _ rb])
qed

lemma drain_buried:
  assumes inv: "td_inv mr td ms" and bl: "blocked m b td" and d: "DrainRingBuffer td = Some td1"
  shows "DrainRingBuffer (bury_td m td) = Some (bury_td m td1)" and "blocked m b td1"
proof -
  obtain log where log: "message_log td = b # log" using bl by (auto simp: blocked_def)
  have ring: "td_ring td ms" using td_invD(1) [OF inv] .
  obtain rb where rb: "pop_loop rb_Pop drain_entry (ring_buffer td) s = Some (rb, fold drain_entry (map serialize_msg ms) s)" for s
    using pop_loop_ring [of "ring_buffer td" "map serialize_msg ms"] ring by (auto simp: td_ring_def)
  have "fold drain_entry (map serialize_msg ms) s = s @ ms" for s
    using ring td_ring_payload [OF ring] by (intro fold_drain) (auto simp: td_ring_def list_all_iff)
  then have td1: "td1 = td\<lparr>ring_buffer := rb, message_log := b # log @ ms\<rparr>"
    and "DrainRingBuffer (bury_td m td) = Some (td\<lparr>ring_buffer := rb, message_log := b # m # log @ ms\<rparr>)"
    using d log by (simp_all add: DrainRingBuffer_def rb bury_log)
  then show "DrainRingBuffer (bury_td m td) = Some (bury_td m td1)" by (simp add: bury_td_def)
  show "blocked m b td1" using bl log unfolding td1 by (auto simp: blocked_def)
qed

subsection \<open>The store with the message\<close>

definition bury_store :: "StoredMessage \<Rightarrow> TopicName \<Rightarrow> MemoryMessageStore \<Rightarrow> MemoryMessageStore" where
  "bury_store m t s = s\<lparr>ms_topics := map (\<lambda>(t', td). (t', if t' = t then bury_td m td else td)) (ms_topics s)\<rparr>"

definition jammed :: "StoredMessage \<Rightarrow> StoredMessage \<Rightarrow> TopicName \<Rightarrow> MemoryMessageStore \<Rightarrow> bool" where
  "jammed m b t s \<longleftrightarrow> (\<exists>td. um_find (ms_topics s) t = Some td \<and> blocked m b td)"

abbreviation buried :: "StoredMessage \<Rightarrow> TopicName \<Rightarrow> TopicName \<Rightarrow> TopicData \<Rightarrow> TopicData" where
  "buried m t t' td \<equiv> if t' = t then bury_td m td else td"

lemma um_put_map: "um_put k (f k v) (map (\<lambda>(k, v). (k, f k v)) m) = map (\<lambda>(k, v). (k, f k v)) (um_put k v m)"
  by (induction m) (auto simp: um_put_conv um_put_Nil)

lemma um_erase_map: "um_erase k (map (\<lambda>(k, v). (k, f k v)) m) = map (\<lambda>(k, v). (k, f k v)) (um_erase k m)"
  by (induction m) (auto simp: um_erase_filter)

lemma bury_store_sel [simp]:
  "um_find (ms_topics (bury_store m t s)) t' = map_option (buried m t t') (um_find (ms_topics s) t')"
  "um_has (ms_topics (bury_store m t s)) t' \<longleftrightarrow> um_has (ms_topics s) t'"
  "map fst (ms_topics (bury_store m t s)) = map fst (ms_topics s)"
  "dlq_storage (bury_store m t s) = dlq_storage s"
  "ms_default_buffer_size (bury_store m t s) = ms_default_buffer_size s"
  "ms_max_retry_count (bury_store m t s) = ms_max_retry_count s"
  "ms_pending_timeout_ms (bury_store m t s) = ms_pending_timeout_ms s"
  by (auto simp: bury_store_def um_find_map um_has_def)

lemma bury_put:
  "(bury_store m t s)\<lparr>ms_topics := um_put t' (buried m t t' td) (ms_topics (bury_store m t s))\<rparr> =
     bury_store m t (s\<lparr>ms_topics := um_put t' td (ms_topics s)\<rparr>)"
  using um_put_map [of t' "buried m t" td "ms_topics s"] by (simp add: bury_store_def)

lemma bury_dlq: "bury_store m t (s\<lparr>dlq_storage := q\<rparr>) = (bury_store m t s)\<lparr>dlq_storage := q\<rparr>"
  by (simp add: bury_store_def)

lemma jammed_put: "jammed m b t s \<Longrightarrow> (t' = t \<Longrightarrow> blocked m b td) \<Longrightarrow> jammed m b t (s\<lparr>ms_topics := um_put t' td (ms_topics s)\<rparr>)"
  by (auto simp: jammed_def)

lemma jammed_dlq [simp]: "jammed m b t (s\<lparr>dlq_storage := q\<rparr>) = jammed m b t s"
  by (simp add: jammed_def)

lemma blocked_shrink:
  assumes "blocked m b td" and "next_msg_id td' = next_msg_id td" and "\<And>g k. td_offset g k td' = td_offset g k td"
    and "\<And>k mid. um_find (um_at [] (pending_acks td') k) mid \<noteq> None \<Longrightarrow> um_find (um_at [] (pending_acks td) k) mid \<noteq> None"
    and "\<And>log. message_log td = b # log \<Longrightarrow> \<exists>log'. message_log td' = b # log'"
  shows "blocked m b td'"
  using assms unfolding blocked_def by metis

lemma blocked_publish:
  assumes "blocked m b td" and "next_msg_id td < next_msg_id td + 1"
  shows "blocked m b (td\<lparr>next_msg_id := next_msg_id td + 1, ring_buffer := rb\<rparr>)"
proof -
  have "sm_id b < next_msg_id td + 1" using assms less_trans unfolding blocked_def by blast
  then show ?thesis using assms(1) by (simp add: blocked_def)
qed

lemma blocked_ack:
  "blocked m b td \<Longrightarrow> blocked m b (td\<lparr>pending_acks := um_put k (um_at [] (pending_acks td) k) (pending_acks td)\<rparr>)"
  "blocked m b td \<Longrightarrow> blocked m b (td\<lparr>pending_acks := um_put k (um_erase mid (um_at [] (pending_acks td) k)) (pending_acks td)\<rparr>)"
  by (auto simp: blocked_def split: if_splits)

lemma retry_buried:
  assumes inv: "td_inv mr td ms" and bl: "blocked m b td" and pr: "ProcessPendingRetries now now_ms td s = (td', s')"
  shows "ProcessPendingRetries now now_ms (bury_td m td) s = (bury_td m td', s')" and "blocked m b td'"
proof -
  show "ProcessPendingRetries now now_ms (bury_td m td) s = (bury_td m td', s')"
    using pr by (auto simp: ProcessPendingRetries_def Let_def bury_td_def split: prod.splits)
  note eq = ProcessPendingRetries_eq(1) [OF inv pr]
  show "blocked m b td'"
  proof (rule blocked_shrink [OF bl])
    show "um_find (um_at [] (pending_acks td) k) mid \<noteq> None"
      if "um_find (um_at [] (pending_acks td') k) mid \<noteq> None" for k mid
      using that pruned_at [OF inv] unfolding eq by auto
  qed (simp_all add: eq)
qed

lemma expire_buried:
  assumes inv: "td_inv mr td ms" and bl: "blocked m b td"
  shows "ExpireTopicMessages now_ms (bury_td m td) = bury_td m (ExpireTopicMessages now_ms td)"
    and "blocked m b (ExpireTopicMessages now_ms td)"
proof -
  obtain log where log: "message_log td = b # log" "expires_at b = 0" "expires_at m = 0"
    using bl by (auto simp: blocked_def)
  show "ExpireTopicMessages now_ms (bury_td m td) = bury_td m (ExpireTopicMessages now_ms td)"
    using log by (auto simp: ExpireTopicMessages_def Let_def bury_td_def split: prod.splits)
  note eq = ExpireTopicMessages_eq [OF inv]
  show "blocked m b (ExpireTopicMessages now_ms td)"
  proof (rule blocked_shrink [OF bl])
    show "um_find (um_at [] (pending_acks td) k) mid \<noteq> None"
      if "um_find (um_at [] (pending_acks (ExpireTopicMessages now_ms td)) k) mid \<noteq> None" for k mid
      using that pruned_at [OF inv] unfolding eq by auto
  qed (use log in \<open>simp_all add: eq not_expired\<close>)
qed

subsection \<open>Every operation is blind to the message\<close>

text \<open>
  \<open>blind m b t s x\<close>: with and without the message \<open>m\<close> in topic \<open>t\<close>, the operation \<open>x\<close> has the same
  results, the message stays blocked, and new messages of the topic get greater numbers.
\<close>

definition blind :: "StoredMessage \<Rightarrow> StoredMessage \<Rightarrow> TopicName \<Rightarrow> MemoryMessageStore \<Rightarrow> store_op \<Rightarrow> bool" where
  "blind m b t s x \<longleftrightarrow> (\<forall>ev s'. store_exec x s = Some (ev, s') \<longrightarrow>
     store_exec x (bury_store m t s) = Some (ev, bury_store m t s') \<and> jammed m b t s' \<and>
     (\<forall>(t', mid, c) \<in> set (snd ev). t' = t \<longrightarrow> sm_id b < mid))"

lemma jammedD:
  assumes "store_inv H n s" and "jammed m b t s" and "um_find (ms_topics s) t' = Some td"
  obtains ms where "td_inv (ms_max_retry_count s) td ms" and "unat (next_msg_id td) \<le> n + 1"
    and "td_topic_name td = t'" and "t' = t \<Longrightarrow> blocked m b td"
proof -
  have "blocked m b td" if "t' = t" using assms(2,3) that by (simp add: jammed_def)
  with store_invD(3) [OF assms(1,3)] that show ?thesis unfolding topic_inv_def by blast
qed

lemma blind_create: "jammed m b t s \<Longrightarrow> blind m b t s (SCreate t')"
  using bury_put [of t' t m _ s]
  by (auto simp: blind_def CreateTopic_def jammed_def um_has_def split: option.splits if_splits)

lemma blind_delete: "jammed m b t s \<Longrightarrow> t' \<noteq> t \<Longrightarrow> blind m b t s (SDelete t')"
  by (auto simp: blind_def DeleteTopic_def jammed_def bury_store_def um_erase_map um_has_def um_find_map)

lemma blind_dlq: "jammed m b t s \<Longrightarrow> blind m b t s (SPullDlq t' n)"
  by (auto simp: blind_def PullDlq_def Let_def bury_dlq split: option.splits)

lemma blind_publish:
  assumes inv: "store_inv H n s" and small: "n + 2 < 2 ^ 64" and jam: "jammed m b t s"
  shows "blind m b t s (SPublish t' p ttl_ms ne ts)"
proof -
  let ?e = "if ttl_ms > 0 then ne + ucast ttl_ms else 0"
  show ?thesis
  proof (cases "um_find (ms_topics s) t'")
    case None
    then have "t' \<noteq> t" using jam by (auto simp: jammed_def)
    then show ?thesis
      using None jam bury_put [of t' t m _ s] jammed_put [OF jam, of t']
      by (auto simp: blind_def Publish_def Let_def split: option.splits prod.splits)
  next
    case (Some td)
    obtain ms where td: "td_inv (ms_max_retry_count s) td ms" "unat (next_msg_id td) \<le> n + 1" "t' = t \<Longrightarrow> blocked m b td"
      using jammedD [OF inv jam Some] by metis
    obtain ok rb where push: "rb_Push (ring_buffer td) (serialize (next_msg_id td) ts ?e p) = (ok, rb)" by fastforce
    let ?td = "td\<lparr>next_msg_id := next_msg_id td + 1, ring_buffer := rb\<rparr>"
    have "next_msg_id td < next_msg_id td + 1"
      using max_id [OF td(2) small] by (simp add: word_less_nat_alt)
    then have bl: "blocked m b ?td" if "t' = t" using blocked_publish td(3) [OF that] by blast
    have upd: "(buried m t t' td)\<lparr>next_msg_id := next_msg_id td + 1, ring_buffer := rb\<rparr> = buried m t t' ?td"
      by (simp add: bury_td_def)
    have sel: "ring_buffer (buried m t t' td) = ring_buffer td" "next_msg_id (buried m t t' td) = next_msg_id td" by simp_all
    have run: "Publish t' p ttl_ms ne ts s = Some ((ok, next_msg_id td), s\<lparr>ms_topics := um_put t' ?td (ms_topics s)\<rparr>)"
      using Some push by (simp add: Publish_def Let_def)
    have find: "um_find (ms_topics (bury_store m t s)) t' = Some (buried m t t' td)"
      using Some by (simp only: bury_store_sel option.map)
    have run': "Publish t' p ttl_ms ne ts (bury_store m t s) =
        Some ((ok, next_msg_id td), bury_store m t (s\<lparr>ms_topics := um_put t' ?td (ms_topics s)\<rparr>))"
      unfolding bury_put [symmetric] upd [symmetric] Publish_def find option.case sel Let_def push prod.case ..
    have "jammed m b t (s\<lparr>ms_topics := um_put t' ?td (ms_topics s)\<rparr>)" using jammed_put [OF jam] bl by blast
    moreover have "sm_id b < next_msg_id td" if "t' = t" using td(3) [OF that] by (simp add: blocked_def)
    ultimately show ?thesis
      unfolding blind_def store_exec.simps run run' by simp
  qed
qed

lemma blind_pull:
  assumes inv: "store_inv H n s" and jam: "jammed m b t s"
  shows "blind m b t s (SPull t' c j g now_ms clk)"
proof (cases "um_find (ms_topics s) t'")
  case None
  then show ?thesis using jam by (auto simp: blind_def Pull_def)
next
  case (Some td)
  obtain ms where td: "td_inv (ms_max_retry_count s) td ms" "t' = t \<Longrightarrow> blocked m b td"
    using jammedD [OF inv jam Some] by metis
  obtain td1 where d: "DrainRingBuffer td = Some td1" "td_inv (ms_max_retry_count s) td1 []"
    using td_inv_drain [OF td(1)] by metis
  obtain res td2 where p: "pull_topic c j g now_ms clk td1 = (res, td2)" by fastforce
  have "DrainRingBuffer (buried m t t' td) = Some (buried m t t' td1)" and bl: "t' = t \<Longrightarrow> blocked m b td1"
    using drain_buried [OF td(1) td(2) d(1)] d(1) by auto
  moreover have "pull_topic c j g now_ms clk (buried m t t' td1) = (res, buried m t t' td2)"
    and "t' = t \<Longrightarrow> blocked m b td2"
    using pull_topic_buried [OF d(2) bl p] p by auto
  ultimately show ?thesis
    using Some d(1) p bury_put [of t' t m td2 s] jammed_put [OF jam, of t' td2]
    by (auto simp: blind_def Pull_def)
qed

lemma blind_ack:
  assumes jam: "jammed m b t s"
  shows "blind m b t s (SAck t' c mid g)"
proof (cases "um_find (ms_topics s) t'")
  case None
  then show ?thesis using jam by (simp add: blind_def Ack_def)
next
  case (Some td)
  let ?f = "ack_topic (MakeConsumerKey g c) mid"
  have ack: "snd (Ack t' c mid g r) = r\<lparr>ms_topics := um_put t' (?f d) (ms_topics r)\<rparr>" if "um_find (ms_topics r) t' = Some d" for r d
    using that by (simp add: Ack_def ack_topic_def Let_def)
  have comm: "?f (buried m t t' td) = buried m t t' (?f td)" by (simp add: bury_td_def ack_topic_def Let_def)
  have find: "um_find (ms_topics (bury_store m t s)) t' = Some (buried m t t' td)"
    using Some by (simp only: bury_store_sel option.map)
  have "snd (Ack t' c mid g (bury_store m t s)) = bury_store m t (snd (Ack t' c mid g s))"
    unfolding ack [OF find] ack [OF Some] comm by (rule bury_put)
  moreover have "blocked m b (?f td)" if "t' = t"
    using Some jam that blocked_ack [of m b td "MakeConsumerKey g c"] by (auto simp: jammed_def ack_topic_def Let_def)
  then have "jammed m b t (snd (Ack t' c mid g s))"
    unfolding ack [OF Some] using jammed_put [OF jam] by blast
  ultimately show ?thesis by (simp add: blind_def)
qed

lemma retry_round_buried:
  "store_inv H n s \<Longrightarrow> jammed m b t s \<Longrightarrow>
     retry_round now now_ms ts (bury_store m t s) = bury_store m t (retry_round now now_ms ts s) \<and>
     jammed m b t (retry_round now now_ms ts s)"
proof (induction ts arbitrary: s)
  case (Cons t' ts)
  show ?case
  proof (cases "um_find (ms_topics s) t'")
    case None
    then show ?thesis using Cons by simp
  next
    case (Some td)
    obtain ms where td: "td_inv (ms_max_retry_count s) td ms" "t' = t \<Longrightarrow> blocked m b td"
      using jammedD [OF Cons.prems Some] by metis
    obtain td' s1 where pr: "ProcessPendingRetries (now t') (now_ms t') td s = (td', s1)" by fastforce
    let ?s = "s1\<lparr>ms_topics := um_put t' td' (ms_topics s1)\<rparr>"
    have s1: "s1 = s\<lparr>dlq_storage := dlq_storage s1\<rparr>" using ProcessPendingRetries_eq(3) [OF td(1) pr] .
    have run: "ProcessPendingRetries (now t') (now_ms t') (buried m t t' td) s = (buried m t t' td', s1)"
      and bl: "t' = t \<Longrightarrow> blocked m b td'"
      using retry_buried [OF td(1) td(2) pr] pr by auto
    let ?T = "ms_topics (bury_store m t s)" and ?d = "buried m t t' td"
    have "ms_topics s1 = ms_topics s" by (subst s1) simp
    then have T: "bury_store m t s = s\<lparr>ms_topics := ?T\<rparr>" "bury_store m t s1 = s1\<lparr>ms_topics := ?T\<rparr>"
      by (simp_all add: bury_store_def)
    have self: "with_next (next_msg_id ?d) ?d = ?d" "with_next (next_msg_id ?d) (buried m t t' td') = buried m t t' td'"
      using Process_keeps [OF pr] by simp_all
    have "ProcessPendingRetries (now t') (now_ms t') ?d (s\<lparr>ms_topics := ?T\<rparr>) = (buried m t t' td', s1\<lparr>ms_topics := ?T\<rparr>)"
      using Process_frame [of "now t'" "now_ms t'" "next_msg_id ?d" ?d ?T s] unfolding self run map_prod_simp .
    then have pr': "ProcessPendingRetries (now t') (now_ms t') ?d (bury_store m t s) = (buried m t t' td', bury_store m t s1)"
      unfolding T(1)[symmetric] T(2)[symmetric] .
    have "jammed m b t s1" using Cons.prems(2) by (subst s1) simp
    then have "jammed m b t ?s" using jammed_put bl by blast
    moreover have "store_inv H n ?s" using retry_one_inv [OF Cons.prems(1) Some pr] by blast
    ultimately show ?thesis
      using Cons.IH [of ?s] Some pr pr' bury_put [of t' t m td' s1] by simp
  qed
qed simp

lemma blind_expire:
  assumes inv: "store_inv H n s" and jam: "jammed m b t s"
  shows "blind m b t s (SExpire now_ms)"
proof -
  have comm: "ExpireTopicMessages (now_ms t') (buried m t t' td) = buried m t t' (ExpireTopicMessages (now_ms t') td)"
    and bl: "t' = t \<Longrightarrow> blocked m b (ExpireTopicMessages (now_ms t') td)"
    if td: "um_find (ms_topics s) t' = Some td" for t' td
  proof -
    obtain ms where "td_inv (ms_max_retry_count s) td ms" "t' = t \<Longrightarrow> blocked m b td"
      using jammedD [OF inv jam td] by metis
    then show "ExpireTopicMessages (now_ms t') (buried m t t' td) = buried m t t' (ExpireTopicMessages (now_ms t') td)"
      and "t' = t \<Longrightarrow> blocked m b (ExpireTopicMessages (now_ms t') td)"
      using expire_buried by auto
  qed
  have "ExpirationLoop_round now_ms (bury_store m t s) = bury_store m t (ExpirationLoop_round now_ms s)"
    using comm store_invD(1) [OF inv] unfolding ExpirationLoop_round_def bury_store_def
    by (auto simp: um_find_Some_iff comp_def intro!: MemoryMessageStore.fold_congs)
  moreover have "jammed m b t (ExpirationLoop_round now_ms s)"
    using jam bl by (auto simp: jammed_def ExpirationLoop_round_def um_find_map)
  ultimately show ?thesis by (simp add: blind_def)
qed

lemma blind_expire_topic:
  assumes inv: "store_inv H n s" and jam: "jammed m b t s"
  shows "blind m b t s (SExpireTopic t' now_ms)"
proof (cases "um_find (ms_topics s) t'")
  case None
  then show ?thesis using jam by (simp add: blind_def expire_topic_def)
next
  case (Some td)
  obtain ms where td: "td_inv (ms_max_retry_count s) td ms" "t' = t \<Longrightarrow> blocked m b td"
    using jammedD [OF inv jam Some] by metis
  let ?td = "ExpireTopicMessages now_ms td"
  have comm: "ExpireTopicMessages now_ms (buried m t t' td) = buried m t t' ?td" and bl: "t' = t \<Longrightarrow> blocked m b ?td"
    using expire_buried [OF td] by auto
  have find: "um_find (ms_topics (bury_store m t s)) t' = Some (buried m t t' td)"
    using Some by (simp only: bury_store_sel option.map)
  have "expire_topic t' now_ms (bury_store m t s) = bury_store m t (expire_topic t' now_ms s)"
    unfolding expire_topic_def find Some option.case comm by (rule bury_put)
  moreover have "jammed m b t (expire_topic t' now_ms s)"
    using jammed_put [OF jam bl] Some by (simp add: expire_topic_def)
  ultimately show ?thesis by (simp add: blind_def)
qed

lemma all_blind:
  assumes inv: "store_inv H n s" and "n + 2 < 2 ^ 64" and jam: "jammed m b t s" and "x \<noteq> SDelete t"
  shows "blind m b t s x"
proof (cases x)
  case (SRetry now now_ms)
  then show ?thesis
    using retry_round_buried [OF inv jam, of now now_ms "map fst (ms_topics s)"]
    by (simp add: blind_def RetryLoop_round_def)
next
  case (SRetryTopic t' now now_ms)
  then show ?thesis
    using retry_round_buried [OF inv jam, of "\<lambda>_. now" "\<lambda>_. now_ms" "[t']"] by (simp add: blind_def)
qed (use assms(4) blind_create [OF jam] blind_delete [OF jam] blind_publish [OF inv assms(2) jam]
    blind_pull [OF inv jam] blind_ack [OF jam] blind_dlq [OF jam] blind_expire [OF inv jam]
    blind_expire_topic [OF inv jam] in \<open>simp_all del: store_exec.simps\<close>)

lemma run_blind:
  assumes "store_inv H n s" and "n + length xs + 1 < 2 ^ 64" and "jammed m b t s" and "SDelete t \<notin> set xs"
    and "\<forall>c \<in> H t. fst c \<noteq> sm_id m"
  shows "\<exists>d p s'. store_run xs (bury_store m t s) = Some ((d, p), s') \<and> (\<forall>(t', msg) \<in> set d. t' = t \<longrightarrow> sm_id msg \<noteq> sm_id m)"
  using assms
proof (induction xs arbitrary: H n s)
  case (Cons x xs)
  have small: "n + 2 < 2 ^ 64" using Cons.prems(2) by simp
  obtain ev s1 where x: "store_exec x s = Some (ev, s1)" and good: "step_good H (n + 1) s ev s1"
    by (rule store_exec_good [OF Cons.prems(1) small])
  obtain d1 p1 where ev: "ev = (d1, p1)" by fastforce
  have "blind m b t s x" using all_blind [OF Cons.prems(1) small Cons.prems(3)] Cons.prems(4) by force
  then have run: "store_exec x (bury_store m t s) = Some ((d1, p1), bury_store m t s1)" and jam: "jammed m b t s1"
    and new: "\<forall>(t', mid, c) \<in> set p1. t' = t \<longrightarrow> sm_id b < mid"
    using x by (auto simp: blind_def ev)
  have inv: "store_inv (Message_Store_Inv.extend H p1) (n + 1) s1"
    and d1: "\<forall>(t', msg) \<in> set d1. core msg \<in> H t'"
    using good by (auto simp: step_good_def ev)
  have "sm_id m < sm_id b" using jam by (auto simp: jammed_def blocked_def)
  then have H': "\<forall>c \<in> Message_Store_Inv.extend H p1 t. fst c \<noteq> sm_id m"
    using Cons.prems(5) new by (fastforce simp: Message_Store_Inv.extend_def)
  have "n + 1 + length xs + 1 < 2 ^ 64" "SDelete t \<notin> set xs" using Cons.prems(2,4) by simp_all
  from Cons.IH [OF inv this(1) jam this(2) H']
  obtain d p s' where rest: "store_run xs (bury_store m t s1) = Some ((d, p), s')"
    "\<forall>(t', msg) \<in> set d. t' = t \<longrightarrow> sm_id msg \<noteq> sm_id m" by blast
  have "\<forall>(t', msg) \<in> set d1. t' = t \<longrightarrow> sm_id msg \<noteq> sm_id m"
    using d1 Cons.prems(5) by (fastforce simp: core_def)
  with rest run show ?case by auto
qed simp

subsection \<open>The race\<close>

text \<open>
  Both threads take their numbers, then the second pushes before the first. Thread 0 has 1 and
  thread 1 has 2.
\<close>

definition publish_race :: "TopicName \<Rightarrow> Payload \<Rightarrow> Payload \<Rightarrow> u64 \<Rightarrow> u64 \<Rightarrow> event list" where
  "publish_race t p0 p1 ts0 ts1 =
     [Begin 0 (SPublish t p0 0 0 ts0), Begin 1 (SPublish t p1 0 0 ts1),
      Continue 0, Continue 1, Continue 1, Continue 0]"

text \<open>The store after it, given the topic.\<close>

definition raced_store :: "TopicName \<Rightarrow> TopicData \<Rightarrow> nat \<Rightarrow> u32 \<Rightarrow> u32 \<Rightarrow> MemoryMessageStore" where
  "raced_store t td b mr tmo = \<lparr>ms_topics = [(t, td)], dlq_storage = [], ms_default_buffer_size = b,
     ms_max_retry_count = mr, ms_pending_timeout_ms = tmo\<rparr>"

lemma td_ring_room:
  assumes ring: "td_ring td ms" and "rb_capacity (ring_buffer td) = b + 1"
    and "length (rb_entries (map serialize_msg ms)) + 32 + length (sm_payload m) \<le> b"
  shows "rb_room (ring_buffer td) (serialize_msg m)"
proof -
  have "rb_cells (ring_buffer td) (map serialize_msg ms)"
    using ring rb_repD(1) by (auto simp: td_ring_def)
  from rb_writable [OF this] assms(2,3) show ?thesis
    by (simp add: rb_room_def serialize_msg_def serialize_def be_bytes_def)
qed

lemma push_room:
  assumes ring: "td_ring td ms" and cap: "rb_capacity (ring_buffer td) = b + 1"
    and room: "length (rb_entries (map serialize_msg ms)) + 32 + length p \<le> b"
  obtains rb where "rb_Push (ring_buffer td) (serialize mid ts 0 p) = (True, rb)"
    and "td_ring (td\<lparr>ring_buffer := rb\<rparr>) (ms @ [stored mid ts 0 p])" and "rb_capacity rb = b + 1"
proof -
  let ?m = "stored mid ts 0 p"
  have fresh: "fresh_msg ?m" and ser: "serialize_msg ?m = serialize mid ts 0 p"
    by (simp_all add: fresh_msg_def stored_def serialize_msg_def)
  have "rb_room (ring_buffer td) (serialize_msg ?m)"
    using room by (intro td_ring_room [OF ring cap]) (simp add: stored_def)
  with td_ring_push [OF ring fresh]
  obtain rb where rb: "rb_Push (ring_buffer td) (serialize_msg ?m) = (True, rb)"
    "td_ring (td\<lparr>ring_buffer := rb\<rparr>) (ms @ [?m])" by metis
  then have "rb_capacity rb = b + 1"
    using rb_capacity_ops(2) [of "ring_buffer td" "serialize_msg ?m"] cap by simp
  then show ?thesis using that rb ser by metis
qed

lemma race_runs:
  assumes new: "new_topic b t = Some td0" and big: "b \<le> unat kMaxPayloadSize" and room: "64 + length p0 + length p1 \<le> b"
  obtains td m where
    "exec_events (publish_race t p0 p1 ts0 ts1) (machine_new 2 b mr tmo) =
      Inr (([], [(t, 2, p1, ts1, 0), (t, 1, p0, ts0, 0)]), m)"
    and "machine_view 0 m = raced_store t td b mr tmo" and "td = td0\<lparr>next_msg_id := 3, ring_buffer := ring_buffer td\<rparr>"
    and "td_ring td [stored 2 ts1 0 p1, stored 1 ts0 0 p0]"
proof -
  have ring0: "td_ring td0 []" by (rule new_topic_ring [OF new big])
  have "rb_capacity (ring_buffer td0) = b + 1" and one: "next_msg_id td0 = 1"
    using new rb_new_rep [of b] big by (auto simp: new_topic_def ptrdiff_max_def split: option.splits)
  then obtain rb1 where push1: "rb_Push (ring_buffer td0) (serialize 2 ts1 0 p1) = (True, rb1)"
    and ring1: "td_ring (td0\<lparr>ring_buffer := rb1\<rparr>) [stored 2 ts1 0 p1]" and cap1: "rb_capacity rb1 = b + 1"
    using push_room [OF ring0, of b p1 2 ts1] room by auto
  have "length (rb_entries (map serialize_msg [stored 2 ts1 0 p1])) + 32 + length p0 \<le> b"
    using room by (simp add: serialize_msg_def stored_def)
  then obtain rb2 where push2: "rb_Push rb1 (serialize 1 ts0 0 p0) = (True, rb2)"
    and ring2: "td_ring (td0\<lparr>ring_buffer := rb2\<rparr>) [stored 2 ts1 0 p1, stored 1 ts0 0 p0]"
    using push_room [OF ring1, of b p0 1 ts0] cap1 by auto
  let ?td = "td0\<lparr>next_msg_id := 3, ring_buffer := rb2\<rparr>"
  define sh where "sh = (\<lambda>td. \<lparr>directory = [(t, 0)], heap = [0 \<mapsto> td], next_address = 1, shared_dlq = [],
    shared_buffer_size = b, shared_max_retries = mr, shared_timeout_ms = tmo\<rparr>)"
  have set: "set_topic 0 td' (sh td) = sh td'" "heap (sh td) 0 = Some td" "um_find (directory (sh td)) t = Some 0" for td td'
    by (simp_all add: set_topic_def sh_def um_find_Cons)
  note e = exec_event_def move_def set Let_def one numeral_2_eq_2
  have "exec_event (Begin 0 (SPublish t p0 0 0 ts0)) (machine_new 2 b mr tmo) =
      Inr (([], []), \<lparr>shared = sh td0, threads = [Numbering t 0 p0 0 0 ts0, Idle]\<rparr>)"
    using new by (simp add: exec_event_def move_def machine_new_def alloc_topic_def um_put_Nil sh_def numeral_2_eq_2 Let_def)
  moreover have "exec_event (Begin 1 (SPublish t p1 0 0 ts1)) \<lparr>shared = sh td0, threads = [Numbering t 0 p0 0 0 ts0, Idle]\<rparr> =
      Inr (([], []), \<lparr>shared = sh td0, threads = [Numbering t 0 p0 0 0 ts0, Numbering t 0 p1 0 0 ts1]\<rparr>)"
    by (simp add: e)
  moreover have "exec_event (Continue 0) \<lparr>shared = sh td0, threads = [Numbering t 0 p0 0 0 ts0, Numbering t 0 p1 0 0 ts1]\<rparr> =
      Inr (([], []), \<lparr>shared = sh (td0\<lparr>next_msg_id := 2\<rparr>), threads = [Pushing t 0 1 p0 0 0 ts0, Numbering t 0 p1 0 0 ts1]\<rparr>)"
    by (simp add: e)
  moreover have "exec_event (Continue 1) \<lparr>shared = sh (td0\<lparr>next_msg_id := 2\<rparr>), threads = [Pushing t 0 1 p0 0 0 ts0, Numbering t 0 p1 0 0 ts1]\<rparr> =
      Inr (([], []), \<lparr>shared = sh (td0\<lparr>next_msg_id := 3\<rparr>), threads = [Pushing t 0 1 p0 0 0 ts0, Pushing t 0 2 p1 0 0 ts1]\<rparr>)"
    by (simp add: e)
  moreover have "exec_event (Continue 1) \<lparr>shared = sh (td0\<lparr>next_msg_id := 3\<rparr>), threads = [Pushing t 0 1 p0 0 0 ts0, Pushing t 0 2 p1 0 0 ts1]\<rparr> =
      Inr (([], [(t, 2, p1, ts1, 0)]), \<lparr>shared = sh (td0\<lparr>next_msg_id := 3, ring_buffer := rb1\<rparr>), threads = [Pushing t 0 1 p0 0 0 ts0, Idle]\<rparr>)"
    using push1 by (simp add: e)
  moreover have "exec_event (Continue 0) \<lparr>shared = sh (td0\<lparr>next_msg_id := 3, ring_buffer := rb1\<rparr>), threads = [Pushing t 0 1 p0 0 0 ts0, Idle]\<rparr> =
      Inr (([], [(t, 1, p0, ts0, 0)]), \<lparr>shared = sh ?td, threads = [Idle, Idle]\<rparr>)"
    using push2 by (simp add: e)
  ultimately have "exec_events (publish_race t p0 p1 ts0 ts1) (machine_new 2 b mr tmo) =
      Inr (([], [(t, 2, p1, ts1, 0), (t, 1, p0, ts0, 0)]), \<lparr>shared = sh ?td, threads = [Idle, Idle]\<rparr>)"
    unfolding publish_race_def by simp
  moreover have "machine_view 0 \<lparr>shared = sh ?td, threads = [Idle, Idle]\<rparr> = raced_store t ?td b mr tmo"
    by (simp add: machine_view_def sh_def scan_store_def view_topics_def seen_def raced_store_def)
  moreover have "td_ring ?td [stored 2 ts1 0 p1, stored 1 ts0 0 p0]"
    using ring2 td_ring_cong [of ?td "td0\<lparr>ring_buffer := rb2\<rparr>"] by simp
  ultimately show ?thesis using that by simp
qed

text \<open>Once the ring is drained, the store is one with the message 1 buried behind the message 2.\<close>

lemma raced_drained:
  assumes new: "new_topic b t = Some td0" and big: "b \<le> unat kMaxPayloadSize"
    and td: "td = td0\<lparr>next_msg_id := 3, ring_buffer := ring_buffer td\<rparr>"
    and ring: "td_ring td [stored 2 ts1 0 p1, stored 1 ts0 0 p0]"
  obtains s H where "store_inv H 2 s" and "jammed (stored 1 ts0 0 p0) (stored 2 ts1 0 p1) t s"
    and "\<forall>c \<in> H t. fst c \<noteq> 1"
    and "\<forall>c n g now_ms clk xs. store_run (SPull t c n g now_ms clk # xs) (raced_store t td b mr tmo) =
      store_run (SPull t c n g now_ms clk # xs) (bury_store (stored 1 ts0 0 p0) t s)"
proof -
  let ?m = "stored 1 ts0 0 p0" and ?b = "stored 2 ts1 0 p1"
  obtain rb where d: "DrainRingBuffer td = Some (td\<lparr>ring_buffer := rb, message_log := message_log td @ [?b, ?m]\<rparr>)"
    and ring': "td_ring (td\<lparr>ring_buffer := rb, message_log := message_log td @ [?b, ?m]\<rparr>) []"
    by (rule DrainRingBuffer_ring [OF ring])
  let ?e = "td\<lparr>ring_buffer := rb, message_log := [?b]\<rparr>" and ?d = "td\<lparr>ring_buffer := rb, message_log := [?b, ?m]\<rparr>"
  let ?H = "\<lambda>t'. if t' = t then {core ?b} else {}"
  have sel: "message_log td = []" "retry_queue td = []" "pending_acks td = []" "subscriber_offsets td = []"
    "group_offsets td = []" "next_msg_id td = 3" "td_topic_name td = t"
    using new by (subst td, force simp: new_topic_def split: option.splits)+
  have offs: "td_offset g k ?e = 1" for g k
    using sel(4,5) by (simp add: td_offset_def um_at_def)
  have ring_e: "td_ring ?e []" using ring' by (simp add: td_ring_def)
  have inv: "td_inv mr ?e []"
    unfolding td_inv_def using ring_e sel offs by (simp add: td_stream_def ids_increase_def stored_def fresh_msg_def)
  have "td_messages ?e [] = {?b}" using sel(2,3) by (simp add: td_messages_def td_stream_def um_at_def)
  then have "topic_inv ?H 2 mr t ?e" unfolding topic_inv_def using inv sel(6,7) by (intro conjI exI [of _ "[]"]) simp_all
  then have "store_inv ?H 2 (raced_store t ?e b mr tmo)"
    using big by (simp add: store_inv_def raced_store_def um_find_Cons dlq_inv_def dlq_of_def um_at_def)
  moreover have "jammed ?m ?b t (raced_store t ?e b mr tmo)"
    using sel by (simp add: jammed_def raced_store_def um_find_Cons blocked_def stored_def um_at_def)
  moreover have "\<forall>c \<in> ?H t. fst c \<noteq> 1" by (simp add: core_def stored_def)
  moreover have "store_run (SPull t c n g now_ms clk # xs) (raced_store t td b mr tmo) =
      store_run (SPull t c n g now_ms clk # xs) (bury_store ?m t (raced_store t ?e b mr tmo))" for c n g now_ms clk xs
  proof -
    have "rb_rep rb []" using ring' by (simp add: td_ring_def)
    then have "DrainRingBuffer ?d = Some ?d" by (simp add: DrainRingBuffer_empty)
    moreover have "bury_store ?m t (raced_store t ?e b mr tmo) = raced_store t ?d b mr tmo"
      by (simp add: bury_store_def raced_store_def bury_td_def)
    moreover have "um_put t x [(t, y)] = [(t, x)]" for x y :: TopicData by (simp add: um_put_conv)
    ultimately have "Pull t c n g now_ms clk (raced_store t td b mr tmo) =
        Pull t c n g now_ms clk (bury_store ?m t (raced_store t ?e b mr tmo))"
      using d sel(1) by (simp add: Pull_def raced_store_def um_find_Cons)
    then show ?thesis by simp
  qed
  ultimately show ?thesis using that by blast
qed

text \<open>
  C12: A message that was accepted can be lost: when two threads publish at the same time, messages
  that fit a ring of at most 16 MiB (64 bytes for both headers), both
  publishes can succeed and yet, whatever consumer pulls first and whatever happens afterwards, as
  long as the topic is not deleted, the first of the two messages is never delivered, neither from
  the log nor as a retry nor as a dead letter.
\<close>

theorem concurrent_publish_loses_message:
  assumes "b \<le> unat kMaxPayloadSize" and "64 + length p0 + length p1 \<le> b"
  shows "\<exists>m. exec_events (publish_race t p0 p1 ts0 ts1) (machine_new 2 b mr tmo) =
      Inr (([], [(t, 2, p1, ts1, 0), (t, 1, p0, ts0, 0)]), m) \<and>
    (\<forall>c n g now_ms clk xs. SDelete t \<notin> set xs \<and> length xs + 4 < 2 ^ 64 \<longrightarrow>
      (\<exists>d p s. store_run (SPull t c n g now_ms clk # xs) (machine_view 0 m) = Some ((d, p), s) \<and>
        (\<forall>(t', msg) \<in> set d. t' = t \<longrightarrow> sm_id msg \<noteq> 1)))"
proof -
  obtain td0 where new: "new_topic b t = Some td0" using new_topic_total [OF assms(1)] by blast
  obtain td m where run: "exec_events (publish_race t p0 p1 ts0 ts1) (machine_new 2 b mr tmo) =
      Inr (([], [(t, 2, p1, ts1, 0), (t, 1, p0, ts0, 0)]), m)"
    and machine_view: "machine_view 0 m = raced_store t td b mr tmo" and td: "td = td0\<lparr>next_msg_id := 3, ring_buffer := ring_buffer td\<rparr>"
    and ring: "td_ring td [stored 2 ts1 0 p1, stored 1 ts0 0 p0]"
    by (rule race_runs [OF new assms])
  obtain s H where s: "store_inv H 2 s" "jammed (stored 1 ts0 0 p0) (stored 2 ts1 0 p1) t s" "\<forall>c \<in> H t. fst c \<noteq> 1"
    and same: "\<forall>c n g now_ms clk xs. store_run (SPull t c n g now_ms clk # xs) (raced_store t td b mr tmo) =
      store_run (SPull t c n g now_ms clk # xs) (bury_store (stored 1 ts0 0 p0) t s)"
    by (rule raced_drained [OF new assms(1) td ring, of mr tmo]) (rule that)
  have id: "sm_id (stored 1 ts0 0 p0) = 1" by (simp add: stored_def)
  have "\<exists>d p s'. store_run (SPull t c n g now_ms clk # xs) (machine_view 0 m) = Some ((d, p), s') \<and>
      (\<forall>(t', msg) \<in> set d. t' = t \<longrightarrow> sm_id msg \<noteq> 1)"
    if "SDelete t \<notin> set xs" "length xs + 4 < 2 ^ 64" for c n g now_ms clk xs
    unfolding machine_view same [rule_format] using run_blind [OF s(1) _ s(2), of "SPull t c n g now_ms clk # xs", unfolded id] that s(3) by simp
  with run show ?thesis by blast
qed

theorem concurrent_publish_loses_message_witness:
  "\<exists>m d p s. exec_events (publish_race ''t'' [7] [8] 100 101) (machine_new 2 66 3 5000) =
      Inr (([], [(''t'', 2, [8], 101, 0), (''t'', 1, [7], 100, 0)]), m) \<and>
    store_run [SPull ''t'' ''a'' 10 False 200 (\<lambda>_. 0), SRetry (\<lambda>_. 6000000000) (\<lambda>_. 6100),
      SPull ''t'' ''b'' 10 True 7000 (\<lambda>_. 0)] (machine_view 0 m) = Some ((d, p), s) \<and>
    (\<forall>(t', msg) \<in> set d. t' = ''t'' \<longrightarrow> sm_id msg \<noteq> 1)"
proof -
  let ?xs = "[SRetry (\<lambda>_. 6000000000) (\<lambda>_. 6100), SPull ''t'' ''b'' 10 True 7000 (\<lambda>_. 0)]"
  have "66 \<le> unat kMaxPayloadSize" "64 + length [7 :: byte] + length [8 :: byte] \<le> 66"
    "SDelete ''t'' \<notin> set ?xs" "length ?xs + 4 < 2 ^ 64" by simp_all
  then show ?thesis
    using concurrent_publish_loses_message [of 66 "[7]" "[8]" "''t''" 100 101 3 5000] by blast
qed

end
