(* ===== verification/Store_Shutdown.thy ===== *)
theory Store_Shutdown
  imports Prelude
begin

text \<open>
  The two background threads of \<^verbatim>\<open>storage/memory_message_store.cpp\<close> and the destructor that stops
  them: \<open>RetryLoop\<close>, \<open>ExpirationLoop\<close> and \<open>~MemoryMessageStore\<close>, with their mutexes, condition
  variables and the flag \<open>stop_background_threads_\<close>. A step relation interleaves the three threads;
  what a scan does to the topics is \<open>Store_Concurrent\<close>. A wait may end by a notification, by its
  timer or spuriously, as the standard allows.

  Proved here: once the flag is set, every execution of the three threads is finite and ends with
  both threads joined; the retry thread cannot miss its notification, because the flag is set under
  its mutex; the expiration thread can, so that the destructor waits for its timer.
\<close>

subsection \<open>Threads\<close>

text \<open>
  A background thread: it locks its mutex, tests the predicate of \<open>wait_for\<close>, blocks (which releases
  the mutex), wakes up and locks again; a wait whose timer has run out returns at once, any other
  tests the predicate again; then it leaves the loop or scans the topics, with the mutex held.
\<close>

datatype loop_pc = LLock | LCheck | LBlock | LWaiting | LRelock bool | LTest | LScan nat | LDone

datatype destructor_pc = DStart | DSetFlag | DUnlock | DNotifyRetry | DNotifyExpiration | DJoinRetry
  | DJoinExpiration | DDone

datatype bg_thread = RetryThread | ExpirationThread | Destructor

record Background =
  stop_background_threads :: bool
  retry_mutex :: "bg_thread option"
  expiration_mutex :: "bg_thread option"
  retry_pc :: loop_pc
  expiration_pc :: loop_pc
  destructor_pc :: destructor_pc

definition background_new :: Background where
  "background_new = \<lparr>stop_background_threads = False, retry_mutex = None, expiration_mutex = None,
     retry_pc = LLock, expiration_pc = LLock, destructor_pc = DStart\<rparr>"

text \<open>
  One step of the loop of thread \<open>me\<close>, on its program counter and the owner of its mutex.
\<close>

inductive loop_step :: "bg_thread \<Rightarrow> bool \<Rightarrow> loop_pc \<times> bg_thread option \<Rightarrow> loop_pc \<times> bg_thread option \<Rightarrow> bool"
  for me :: bg_thread and stop :: bool where
  lock: "loop_step me stop (LLock, None) (LCheck, Some me)"
| check_true: "stop \<Longrightarrow> loop_step me stop (LCheck, mtx) (LTest, mtx)"
| check_false: "\<not> stop \<Longrightarrow> loop_step me stop (LCheck, mtx) (LBlock, mtx)"
| block: "loop_step me stop (LBlock, mtx) (LWaiting, None)"
| wake: "loop_step me stop (LWaiting, mtx) (LRelock timed_out, mtx)"
| relock: "loop_step me stop (LRelock timed_out, None) (if timed_out then LTest else LCheck, Some me)"
| leave: "stop \<Longrightarrow> loop_step me stop (LTest, mtx) (LDone, None)"
| snapshot: "\<not> stop \<Longrightarrow> loop_step me stop (LTest, mtx) (LScan topics, mtx)"
| scan: "loop_step me stop (LScan (Suc topics), mtx) (LScan topics, mtx)"
| again: "loop_step me stop (LScan 0, mtx) (LLock, None)"

inductive_simps loop_step_simps [simp]:
  "loop_step me stop (LLock, mtx) r" "loop_step me stop (LCheck, mtx) r" "loop_step me stop (LBlock, mtx) r"
  "loop_step me stop (LWaiting, mtx) r" "loop_step me stop (LRelock b, mtx) r" "loop_step me stop (LTest, mtx) r"
  "loop_step me stop (LScan 0, mtx) r" "loop_step me stop (LScan (Suc n), mtx) r" "loop_step me stop (LDone, mtx) r"

inductive_cases loop_stepE: "loop_step me stop (pc, mtx) (pc', mtx')"

text \<open>\<open>notify_all\<close> reaches a thread that is waiting at that moment.\<close>

fun notified :: "loop_pc \<Rightarrow> loop_pc" where
  "notified LWaiting = LRelock False"
| "notified pc = pc"

inductive background_step :: "Background \<Rightarrow> Background \<Rightarrow> bool" where
  retry: "loop_step RetryThread (stop_background_threads s) (retry_pc s, retry_mutex s) (pc, mtx) \<Longrightarrow>
    background_step s (s\<lparr>retry_pc := pc, retry_mutex := mtx\<rparr>)"
| expiration: "loop_step ExpirationThread (stop_background_threads s) (expiration_pc s, expiration_mutex s) (pc, mtx) \<Longrightarrow>
    background_step s (s\<lparr>expiration_pc := pc, expiration_mutex := mtx\<rparr>)"
| lock_retry: "destructor_pc s = DStart \<Longrightarrow> retry_mutex s = None \<Longrightarrow>
    background_step s (s\<lparr>destructor_pc := DSetFlag, retry_mutex := Some Destructor\<rparr>)"
| set_flag: "destructor_pc s = DSetFlag \<Longrightarrow>
    background_step s (s\<lparr>destructor_pc := DUnlock, stop_background_threads := True\<rparr>)"
| unlock_retry: "destructor_pc s = DUnlock \<Longrightarrow>
    background_step s (s\<lparr>destructor_pc := DNotifyRetry, retry_mutex := None\<rparr>)"
| notify_retry: "destructor_pc s = DNotifyRetry \<Longrightarrow>
    background_step s (s\<lparr>destructor_pc := DNotifyExpiration, retry_pc := notified (retry_pc s)\<rparr>)"
| notify_expiration: "destructor_pc s = DNotifyExpiration \<Longrightarrow>
    background_step s (s\<lparr>destructor_pc := DJoinRetry, expiration_pc := notified (expiration_pc s)\<rparr>)"
| join_retry: "destructor_pc s = DJoinRetry \<Longrightarrow> retry_pc s = LDone \<Longrightarrow>
    background_step s (s\<lparr>destructor_pc := DJoinExpiration\<rparr>)"
| join_expiration: "destructor_pc s = DJoinExpiration \<Longrightarrow> expiration_pc s = LDone \<Longrightarrow>
    background_step s (s\<lparr>destructor_pc := DDone\<rparr>)"

abbreviation background_reach :: "Background \<Rightarrow> bool" where
  "background_reach s \<equiv> background_step\<^sup>*\<^sup>* background_new s"

subsection \<open>Invariant\<close>

fun holds_mutex :: "loop_pc \<Rightarrow> bool" where
  "holds_mutex LCheck = True"
| "holds_mutex LBlock = True"
| "holds_mutex LTest = True"
| "holds_mutex (LScan n) = True"
| "holds_mutex _ = False"

text \<open>
  Mutual exclusion, and what the flag and the notification of the retry thread guarantee: after the
  flag is set, the retry thread does not decide to block any more; after its notification, it does
  not wait any more.
\<close>

definition background_ok :: "Background \<Rightarrow> bool" where
  "background_ok s \<longleftrightarrow>
     retry_mutex s = (if holds_mutex (retry_pc s) then Some RetryThread
       else if destructor_pc s \<in> {DSetFlag, DUnlock} then Some Destructor else None) \<and>
     \<not> (holds_mutex (retry_pc s) \<and> destructor_pc s \<in> {DSetFlag, DUnlock}) \<and>
     expiration_mutex s = (if holds_mutex (expiration_pc s) then Some ExpirationThread else None) \<and>
     (stop_background_threads s \<longleftrightarrow> destructor_pc s \<notin> {DStart, DSetFlag}) \<and>
     (stop_background_threads s \<longrightarrow> retry_pc s \<noteq> LBlock) \<and>
     (destructor_pc s \<notin> {DStart, DSetFlag, DUnlock, DNotifyRetry} \<longrightarrow> retry_pc s \<noteq> LWaiting)"

lemma background_ok_new: "background_ok background_new"
  by (simp add: background_ok_def background_new_def)

lemma loop_step_mutex:
  "loop_step me stop (pc, mtx) (pc', mtx') \<Longrightarrow>
     (holds_mutex pc' \<longrightarrow> mtx' = (if holds_mutex pc then mtx else Some me) \<and> (\<not> holds_mutex pc \<longrightarrow> mtx = None)) \<and>
     (\<not> holds_mutex pc' \<longrightarrow> (if holds_mutex pc then mtx' = None else mtx' = mtx)) \<and>
     (pc' = LBlock \<longrightarrow> \<not> stop) \<and> (pc' = LWaiting \<longrightarrow> pc = LBlock)"
  by (erule loop_stepE) auto

lemma background_ok_step: "background_step s s' \<Longrightarrow> background_ok s \<Longrightarrow> background_ok s'"
proof (induction rule: background_step.induct)
  case (retry s pc mtx)
  then show ?case
    using loop_step_mutex [OF retry(1)] by (auto simp: background_ok_def split: if_splits)
next
  case (expiration s pc mtx)
  then show ?case
    using loop_step_mutex [OF expiration(1)] by (auto simp: background_ok_def split: if_splits)
next
  case (notify_retry s)
  then show ?case by (cases "retry_pc s") (auto simp: background_ok_def)
next
  case (notify_expiration s)
  then show ?case by (cases "expiration_pc s") (auto simp: background_ok_def)
qed (auto simp: background_ok_def split: if_splits)

lemma background_ok_reach: "background_step\<^sup>*\<^sup>* s s' \<Longrightarrow> background_ok s \<Longrightarrow> background_ok s'"
  by (induction rule: rtranclp_induct) (auto intro: background_ok_step)

subsection \<open>The destructor returns\<close>

fun loop_left :: "loop_pc \<Rightarrow> nat" where
  "loop_left LDone = 0"
| "loop_left LTest = 1"
| "loop_left LCheck = 2"
| "loop_left LLock = 3"
| "loop_left (LRelock timed_out) = 3"
| "loop_left LWaiting = 4"
| "loop_left LBlock = 5"
| "loop_left (LScan topics) = 4 + topics"

fun destructor_left :: "destructor_pc \<Rightarrow> nat" where
  "destructor_left DStart = 7"
| "destructor_left DSetFlag = 6"
| "destructor_left DUnlock = 5"
| "destructor_left DNotifyRetry = 4"
| "destructor_left DNotifyExpiration = 3"
| "destructor_left DJoinRetry = 2"
| "destructor_left DJoinExpiration = 1"
| "destructor_left DDone = 0"

definition steps_left :: "Background \<Rightarrow> nat" where
  "steps_left s = loop_left (retry_pc s) + loop_left (expiration_pc s) + destructor_left (destructor_pc s)"

lemma loop_step_left: "loop_step me True (pc, mtx) (pc', mtx') \<Longrightarrow> loop_left pc' < loop_left pc"
  by (erule loop_stepE) auto

lemma notified_left: "loop_left (notified pc) \<le> loop_left pc"
  by (cases pc) auto

lemma step_left:
  assumes "background_step s s'" and "stop_background_threads s" and "background_ok s"
  shows "steps_left s' < steps_left s \<and> stop_background_threads s'"
  using assms
proof (induction rule: background_step.induct)
  case (retry s pc mtx)
  then show ?case using loop_step_left [of RetryThread "retry_pc s" _ pc mtx] by (auto simp: steps_left_def)
next
  case (expiration s pc mtx)
  then show ?case using loop_step_left [of ExpirationThread "expiration_pc s" _ pc mtx] by (auto simp: steps_left_def)
next
  case (notify_retry s)
  then show ?case using notified_left [of "retry_pc s"] by (simp add: steps_left_def)
next
  case (notify_expiration s)
  then show ?case using notified_left [of "expiration_pc s"] by (simp add: steps_left_def)
qed (simp_all add: steps_left_def background_ok_def)

lemma loop_can_move:
  assumes "pc \<noteq> LDone" and "holds_mutex pc \<or> mtx = None"
  shows "\<exists>pc' mtx'. loop_step me stop (pc, mtx) (pc', mtx')"
proof (cases pc)
  case (LScan n)
  then show ?thesis by (cases n) auto
qed (use assms in auto)

lemma not_stuck:
  assumes ok: "background_ok s" and stop: "stop_background_threads s" and "destructor_pc s \<noteq> DDone"
  shows "\<exists>s'. background_step s s'"
proof (cases "destructor_pc s")
  case DJoinRetry
  have "holds_mutex (retry_pc s) \<or> retry_mutex s = None"
    using ok DJoinRetry by (simp add: background_ok_def)
  then show ?thesis
    using loop_can_move [of "retry_pc s"] join_retry [OF DJoinRetry] background_step.retry by meson
next
  case DJoinExpiration
  have "holds_mutex (expiration_pc s) \<or> expiration_mutex s = None"
    using ok by (simp add: background_ok_def)
  then show ?thesis
    using loop_can_move [of "expiration_pc s"] join_expiration [OF DJoinExpiration] background_step.expiration by meson
next
  case DUnlock
  then show ?thesis by (blast intro: unlock_retry)
next
  case DNotifyRetry
  then show ?thesis by (blast intro: notify_retry)
next
  case DNotifyExpiration
  then show ?thesis by (blast intro: notify_expiration)
qed (use ok stop assms(3) in \<open>simp_all add: background_ok_def\<close>)

lemma joined_done: "background_reach s \<Longrightarrow> destructor_pc s = DJoinExpiration \<or> destructor_pc s = DDone \<Longrightarrow> retry_pc s = LDone"
proof (induction rule: rtranclp_induct)
  case (step s s')
  from step.hyps(2) step.IH step.prems show ?case
    by (cases rule: background_step.cases) (auto simp: background_new_def)
qed (simp add: background_new_def)

lemma done_done: "background_reach s \<Longrightarrow> destructor_pc s = DDone \<Longrightarrow> expiration_pc s = LDone"
proof (induction rule: rtranclp_induct)
  case (step s s')
  from step.hyps(2) step.IH step.prems show ?case
    by (cases rule: background_step.cases) (auto simp: background_new_def)
qed (simp add: background_new_def)

text \<open>
  C19: Termination of the destructor: from any reachable state in which the flag is set, however the
  three threads are scheduled and whenever the waits end, at most \<open>steps_left s\<close> steps follow, and
  an execution that can go no further has returned from the destructor with both threads joined.
\<close>

theorem destructor_terminates:
  assumes "background_reach s" and "stop_background_threads s" and "(background_step ^^ n) s s'"
  shows "n \<le> steps_left s \<and>
    ((\<exists>s''. background_step s' s'') \<or>
     destructor_pc s' = DDone \<and> retry_pc s' = LDone \<and> expiration_pc s' = LDone)"
proof -
  have ok: "background_ok s" using background_ok_reach [OF assms(1) background_ok_new] .
  have "steps_left s' + n \<le> steps_left s \<and> stop_background_threads s' \<and> background_ok s' \<and> background_step\<^sup>*\<^sup>* s s'"
    using assms(3)
  proof (induction n arbitrary: s')
    case 0
    then show ?case using assms(2) ok by simp
  next
    case (Suc n)
    then obtain s1 where s1: "(background_step ^^ n) s s1" "background_step s1 s'" by auto
    note IH = Suc.IH [OF s1(1)]
    then show ?case
      using step_left [OF s1(2)] background_ok_step [OF s1(2)] s1(2) by (auto intro: rtranclp.rtrancl_into_rtrancl)
  qed
  moreover from this have "background_reach s'" using assms(1) by (meson rtranclp_trans)
  ultimately show ?thesis
    using not_stuck [of s'] joined_done [of s'] done_done [of s'] by fastforce
qed

subsection \<open>Notifications\<close>

text \<open>
  The retry thread cannot miss its notification: once the destructor waits to join it, it is not
  waiting on its condition variable, in any reachable state.
\<close>

theorem retry_thread_woken:
  assumes "background_reach s" and "destructor_pc s \<in> {DNotifyExpiration, DJoinRetry, DJoinExpiration, DDone}"
  shows "retry_pc s \<noteq> LWaiting \<and> retry_pc s \<noteq> LBlock"
  using background_ok_reach [OF assms(1) background_ok_new] assms(2) by (auto simp: background_ok_def)

text \<open>
  An execution in which the expiration thread misses its notification: it has tested the flag and is
  about to block when the destructor sets the flag and notifies.
\<close>

definition missed :: Background where
  "missed = \<lparr>stop_background_threads = True, retry_mutex = None, expiration_mutex = None,
     retry_pc = LDone, expiration_pc = LWaiting, destructor_pc = DJoinExpiration\<rparr>"

lemma missed_reachable: "background_reach missed"
proof -
  let ?s = "\<lambda>f rm em r e d. \<lparr>stop_background_threads = f, retry_mutex = rm, expiration_mutex = em,
     retry_pc = r, expiration_pc = e, destructor_pc = d\<rparr>"
  let ?E = "Some ExpirationThread" and ?R = "Some RetryThread" and ?D = "Some Destructor"
  have "background_step background_new (?s False None ?E LLock LCheck DStart)"
    using expiration [of background_new LCheck ?E] by (simp add: background_new_def)
  moreover have "background_step (?s False None ?E LLock LCheck DStart) (?s False None ?E LLock LBlock DStart)"
    using expiration [of "?s False None ?E LLock LCheck DStart" LBlock ?E] by simp
  moreover have "background_step (?s False None ?E LLock LBlock DStart) (?s False ?D ?E LLock LBlock DSetFlag)"
    using lock_retry [of "?s False None ?E LLock LBlock DStart"] by simp
  moreover have "background_step (?s False ?D ?E LLock LBlock DSetFlag) (?s True ?D ?E LLock LBlock DUnlock)"
    using set_flag [of "?s False ?D ?E LLock LBlock DSetFlag"] by simp
  moreover have "background_step (?s True ?D ?E LLock LBlock DUnlock) (?s True None ?E LLock LBlock DNotifyRetry)"
    using unlock_retry [of "?s True ?D ?E LLock LBlock DUnlock"] by simp
  moreover have "background_step (?s True None ?E LLock LBlock DNotifyRetry) (?s True None ?E LLock LBlock DNotifyExpiration)"
    using notify_retry [of "?s True None ?E LLock LBlock DNotifyRetry"] by simp
  moreover have "background_step (?s True None ?E LLock LBlock DNotifyExpiration) (?s True None ?E LLock LBlock DJoinRetry)"
    using notify_expiration [of "?s True None ?E LLock LBlock DNotifyExpiration"] by simp
  moreover have "background_step (?s True None ?E LLock LBlock DJoinRetry) (?s True None None LLock LWaiting DJoinRetry)"
    using expiration [of "?s True None ?E LLock LBlock DJoinRetry" LWaiting None] by simp
  moreover have "background_step (?s True None None LLock LWaiting DJoinRetry) (?s True ?R None LCheck LWaiting DJoinRetry)"
    using retry [of "?s True None None LLock LWaiting DJoinRetry" LCheck ?R] by simp
  moreover have "background_step (?s True ?R None LCheck LWaiting DJoinRetry) (?s True ?R None LTest LWaiting DJoinRetry)"
    using retry [of "?s True ?R None LCheck LWaiting DJoinRetry" LTest ?R] by simp
  moreover have "background_step (?s True ?R None LTest LWaiting DJoinRetry) (?s True None None LDone LWaiting DJoinRetry)"
    using retry [of "?s True ?R None LTest LWaiting DJoinRetry" LDone None] by simp
  moreover have "background_step (?s True None None LDone LWaiting DJoinRetry) missed"
    using join_retry [of "?s True None None LDone LWaiting DJoinRetry"] by (simp add: missed_def)
  ultimately show ?thesis
    by (meson converse_rtranclp_into_rtranclp rtranclp.rtrancl_refl)
qed

text \<open>
  The expiration thread can miss its notification: a state can be reached in which every
  notification has been sent, the destructor waits to join the expiration thread, that thread waits
  on its condition variable, and the only thing that can still happen is that its wait ends by
  itself, with its timer (ten seconds by default) or spuriously.
\<close>

theorem expiration_notification_lost:
  "background_reach missed \<and> destructor_pc missed = DJoinExpiration \<and> expiration_pc missed = LWaiting \<and>
    (\<forall>s'. background_step missed s' \<longleftrightarrow> (\<exists>timed_out. s' = missed\<lparr>expiration_pc := LRelock timed_out\<rparr>))"
proof -
  have "s' = missed\<lparr>expiration_pc := LRelock b\<rparr> \<Longrightarrow> background_step missed s'" for s' b
    using expiration [of missed "LRelock b" None] by (simp add: missed_def)
  moreover have "\<exists>b. s' = missed\<lparr>expiration_pc := LRelock b\<rparr>" if "background_step missed s'" for s'
    using that by (cases rule: background_step.cases) (auto simp: missed_def)
  ultimately show ?thesis using missed_reachable by (auto simp: missed_def)
qed

theorem retry_thread_woken_witness:
  "destructor_pc missed = DJoinExpiration \<and> retry_pc missed \<noteq> LWaiting"
  using retry_thread_woken [OF missed_reachable] by (simp add: missed_def)

text \<open>From the state \<open>missed\<close>, after its timer: four steps to the end.\<close>

theorem destructor_terminates_witness:
  "\<exists>s'. (background_step ^^ 4) missed s' \<and> 4 \<le> steps_left missed \<and> destructor_pc s' = DDone"
proof -
  let ?E = "Some ExpirationThread"
  define s1 where "s1 = missed\<lparr>expiration_pc := LRelock True\<rparr>"
  define s2 where "s2 = missed\<lparr>expiration_pc := LTest, expiration_mutex := ?E\<rparr>"
  define s3 where "s3 = missed\<lparr>expiration_pc := LDone\<rparr>"
  define s4 where "s4 = s3\<lparr>destructor_pc := DDone\<rparr>"
  have "background_step missed s1"
    using expiration [of missed "LRelock True" None] by (auto simp: missed_def s1_def)
  moreover have "background_step s1 s2"
    using expiration [of s1 LTest ?E] by (simp add: missed_def s1_def s2_def)
  moreover have "background_step s2 s3"
    using expiration [of s2 LDone None] by (simp add: missed_def s2_def s3_def)
  moreover have "background_step s3 s4"
    using join_expiration [of s3] by (simp add: missed_def s3_def s4_def)
  ultimately have run: "(background_step ^^ 4) missed s4"
    by (auto simp: numeral_eq_Suc relcompp.simps)
  moreover have "stop_background_threads missed" "destructor_pc s4 = DDone"
    by (simp_all add: missed_def s3_def s4_def)
  ultimately show ?thesis
    using destructor_terminates [OF missed_reachable _ run] by blast
qed

end
