(* ===== verification/Compression.thy ===== *)
theory Compression
  imports Prelude
begin

text \<open>
  \<^verbatim>\<open>common/compression.h\<close> and \<^verbatim>\<open>.cpp\<close>: the wrappers around zlib. zlib is not part of the sources:
  \<open>compress2\<close> and \<open>uncompress\<close> are arguments of the definitions, and \<open>zlib_ok\<close> states what zlib
  documents of them.
\<close>

text \<open>
  \<open>compress2\<close> on a buffer of \<open>compressBound\<close> bytes yields the compressed bytes or an error;
  \<open>uncompress\<close> on a buffer of \<open>n\<close> bytes yields the bytes, \<open>Z_BUF_ERROR\<close>, or another error.
\<close>

datatype zlib_result = Z_OK "byte list" | Z_BUF_ERROR | Z_OTHER

type_synonym deflate_fn = "byte list \<Rightarrow> byte list option"
type_synonym inflate_fn = "nat \<Rightarrow> byte list \<Rightarrow> zlib_result"

definition Compress :: "deflate_fn \<Rightarrow> byte list \<Rightarrow> byte list" where
  "Compress compress2 data =
     (if data = [] then []
      else case compress2 data of None \<Rightarrow> [] | Some compressed \<Rightarrow> compressed)"

definition size_mul :: "nat \<Rightarrow> nat \<Rightarrow> nat" where
  "size_mul a b = a * b mod size_max"

fun decompress_loop :: "inflate_fn \<Rightarrow> byte list \<Rightarrow> nat \<Rightarrow> nat \<Rightarrow> byte list" where
  "decompress_loop uncompress data 0 estimate = []"
| "decompress_loop uncompress data (Suc attempts) estimate =
     (case uncompress estimate data of
        Z_OK d \<Rightarrow> d
      | Z_BUF_ERROR \<Rightarrow> decompress_loop uncompress data attempts (size_mul estimate 2)
      | Z_OTHER \<Rightarrow> [])"

definition Decompress :: "inflate_fn \<Rightarrow> byte list \<Rightarrow> byte list" where
  "Decompress uncompress data =
     (if data = [] then []
      else
        let estimate = size_mul (length data) 4;
            estimate = (if estimate < 1024 then 1024 else estimate)
        in decompress_loop uncompress data 10 estimate)"

text \<open>
  What is relied on: what \<open>compress2\<close> produced is not empty, is restored by \<open>uncompress\<close> exactly when
  the buffer is large enough, and is at most 1032 times smaller than the input, the limit that zlib
  documents for deflate (the bound below is weaker).
\<close>

definition zlib_ok :: "deflate_fn \<Rightarrow> inflate_fn \<Rightarrow> bool" where
  "zlib_ok compress2 uncompress \<longleftrightarrow> (\<forall>data z. data \<noteq> [] \<longrightarrow> compress2 data = Some z \<longrightarrow>
     z \<noteq> [] \<and> length data \<le> 2048 * length z \<and>
     (\<forall>n. uncompress n z = (if length data \<le> n then Z_OK data else Z_BUF_ERROR)))"

lemma decompress_loop_finds:
  assumes "\<And>n. uncompress n z = (if length d \<le> n then Z_OK d else Z_BUF_ERROR)"
  shows "length d \<le> e * 2 ^ k \<Longrightarrow> e * 2 ^ k < size_max \<Longrightarrow> decompress_loop uncompress z (Suc k) e = d"
proof (induction k arbitrary: e)
  case (Suc k)
  show ?case
  proof (cases "length d \<le> e")
    case True
    then show ?thesis using assms by simp
  next
    case False
    have "e * 2 * 1 \<le> e * 2 * 2 ^ k"
      by (intro mult_le_mono2) simp
    also have "\<dots> < size_max"
      using Suc.prems(2) by (simp add: mult.assoc)
    finally have "size_mul e 2 = e * 2"
      by (simp add: size_mul_def)
    moreover have "decompress_loop uncompress z (Suc k) (e * 2) = d"
      using Suc.prems by (intro Suc.IH) (simp_all add: mult.assoc)
    ultimately show ?thesis
      using False assms by simp
  qed
qed (use assms in simp)

text \<open>Ten attempts with doubled buffers reach every size that deflate can come from.\<close>

lemma decompress_restores:
  assumes "zlib_ok compress2 uncompress" and "data \<noteq> []" and "compress2 data = Some z"
    and "length z < 2 ^ 52"
  shows "Decompress uncompress (Compress compress2 data) = data"
proof -
  have z: "z \<noteq> []" "length data \<le> 2048 * length z"
    and u: "\<And>n. uncompress n z = (if length data \<le> n then Z_OK data else Z_BUF_ERROR)"
    using assms(1-3) unfolding zlib_ok_def by blast+
  define e where "e = (if length z * 4 < 1024 then 1024 else length z * 4)"
  have est: "size_mul (length z) 4 = length z * 4"
    using assms(4) by (simp add: size_mul_def size_max_def)
  have "length data \<le> e * 2 ^ 9" "e * 2 ^ 9 < size_max"
    using z(2) assms(4) by (auto simp: size_max_def e_def)
  then have "decompress_loop uncompress z (Suc 9) e = data"
    using u by (intro decompress_loop_finds)
  moreover have "Compress compress2 data = z"
    using assms(2,3) by (simp add: Compress_def)
  ultimately show ?thesis
    using z(1) by (simp add: Decompress_def est e_def del: decompress_loop.simps split del: if_split)
qed

subsection \<open>Properties\<close>

text \<open>
  Compression is lossless: for data that zlib compresses to fewer than \<open>2 ^ 52\<close> bytes, what
  \<open>Decompress\<close> makes of the result of \<open>Compress\<close> is the data; the ten attempts with doubled
  buffers are enough.
\<close>

theorem Decompress_Compress:
  assumes "zlib_ok compress2 uncompress" and "data \<noteq> []" and "compress2 data = Some z"
    and "length z < 2 ^ 52"
  shows "Decompress uncompress (Compress compress2 data) = data"
  by (rule decompress_restores [OF assms])

theorem Decompress_Compress_witness:
  "Decompress (\<lambda>n z. if length z \<le> n then Z_OK z else Z_BUF_ERROR) (Compress Some [1, 2, 3]) = [1, 2, 3]"
  by (rule Decompress_Compress [where z = "[1, 2, 3]"]) (auto simp: zlib_ok_def)

end
