(* ===== verification/Connection.thy ===== *)
theory Connection
  imports Streaming_Codec Rate_Limiter Config "HOL-Library.Sublist"
begin

text \<open>
  \<^verbatim>\<open>network/connection.h\<close> and \<^verbatim>\<open>.cpp\<close>: one TCP connection with its write buffer, its streaming
  decoder and its publish limiter. The results of the system calls are arguments: the list of what
  successive \<open>send\<close> or \<open>writev\<close> calls, or \<open>recv\<close> calls, return. The bytes the kernel accepts are
  part of the result, so the lemmas can say what the peer receives. \<open>None\<close> as configuration is the
  null pointer, for which the sources have defaults.
\<close>

subsection \<open>State\<close>

record Connection =
  c_id :: ConnectionId
  c_closed :: bool
  c_read_buffer :: "byte list"
  c_codec :: StreamingFrameCodec
  c_write_buffer :: "byte list"
  c_last_active_ms :: u64
  c_limiter :: "TokenBucket option"
  c_config :: "BrokerConfig option"

definition ms_of :: "time_point \<Rightarrow> u64" where
  "ms_of now = of_int (now div 1000000)"

definition conn_new :: "ConnectionId \<Rightarrow> BrokerConfig option \<Rightarrow> time_point \<Rightarrow> Connection" where
  "conn_new cid cfg now = \<lparr>c_id = cid, c_closed = False, c_read_buffer = [], c_codec = sc_init,
     c_write_buffer = [], c_last_active_ms = ms_of now, c_limiter = None, c_config = cfg\<rparr>"

text \<open>
  \<open>Close\<close> acts once: it closes the descriptor and calls the close handler. The write buffer is kept
  but can no longer be sent.
\<close>

definition Close :: "Connection \<Rightarrow> Connection" where
  "Close c = (if c_closed c then c else c\<lparr>c_closed := True\<rparr>)"

definition UpdateLastActiveTime :: "time_point \<Rightarrow> Connection \<Rightarrow> Connection" where
  "UpdateLastActiveTime now c = c\<lparr>c_last_active_ms := ms_of now\<rparr>"

definition GetLastActiveTime :: "Connection \<Rightarrow> time_point" where
  "GetLastActiveTime c = uint (c_last_active_ms c) * 1000000"

subsection \<open>Sending\<close>

text \<open>
  What a call to \<open>send\<close> or \<open>writev\<close> returns: the kernel takes at most \<open>k\<close> bytes of those offered,
  would block, or fails. When the list of results is used up the calls block.
\<close>

datatype send_result = Sent nat | Would_Block | Send_Error

fun send_loop :: "send_result list \<Rightarrow> byte list \<Rightarrow> nat \<Rightarrow> bool \<times> nat" where
  "send_loop [] buf total_sent = (True, total_sent)"
| "send_loop (r # rs) buf total_sent =
     (if total_sent < length buf then
        case r of
          Sent k \<Rightarrow>
            let sent = min k (length buf - total_sent) in
            if sent > 0 then send_loop rs buf (total_sent + sent) else (False, total_sent)
        | Would_Block \<Rightarrow> (True, total_sent)
        | Send_Error \<Rightarrow> (False, total_sent)
      else (True, total_sent))"

definition zero_copy :: "Connection \<Rightarrow> bool" where
  "zero_copy c = (case c_config c of Some cfg \<Rightarrow> zero_copy_enabled cfg | None \<Rightarrow> True)"

definition max_write_buffer :: "Connection \<Rightarrow> nat" where
  "max_write_buffer c =
     (case c_config c of Some cfg \<Rightarrow> unat (max_write_buffer_size cfg) | None \<Rightarrow> 8 * 1024 * 1024)"

text \<open>The result of \<open>SendFrame\<close>, the bytes that went out during the call, and the connection.\<close>

definition SendFrame :: "Frame \<Rightarrow> send_result list \<Rightarrow> Connection \<Rightarrow> bool \<times> byte list \<times> Connection" where
  "SendFrame frame rs c =
     (if c_closed c then (False, [], c)
      else if c_write_buffer c \<noteq> [] \<or> \<not> zero_copy c then
        let encoded = Encode frame in
        if size_add (length (c_write_buffer c)) (length encoded) > max_write_buffer c then (False, [], c)
        else
          let wb = c_write_buffer c @ encoded;
              (ok, total_sent) = send_loop rs wb 0
          in if ok then (True, take total_sent wb, c\<lparr>c_write_buffer := drop total_sent wb\<rparr>)
             else (False, take total_sent wb, Close (c\<lparr>c_write_buffer := wb\<rparr>))
      else
        let (header_size, header) = EncodeHeaderToBuffer frame (replicate 10 0) in
        if header_size = 0 then (False, [], c)
        else
          let total_to_send = header_size + length (payload frame) in
          case (case rs of [] \<Rightarrow> Would_Block | r # _ \<Rightarrow> r) of
            Sent k \<Rightarrow>
              let sent = min k total_to_send in
              if sent = total_to_send then (True, header @ payload frame, c)
              else if sent > 0 then
                let remaining_header = (if sent < header_size then header_size - sent else 0);
                    payload_sent = (if sent > header_size then sent - header_size else 0);
                    remaining_payload = length (payload frame) - payload_sent;
                    wb1 = c_write_buffer c @
                      (if remaining_header > 0 then drop (header_size - remaining_header) header else []);
                    wb2 = wb1 @ (if remaining_payload > 0 then drop payload_sent (payload frame) else [])
                in (True, take sent (header @ payload frame), c\<lparr>c_write_buffer := wb2\<rparr>)
              else (False, [], Close c)
          | Would_Block \<Rightarrow> (True, [], c\<lparr>c_write_buffer := c_write_buffer c @ header @ payload frame\<rparr>)
          | Send_Error \<Rightarrow> (False, [], Close c))"

subsection \<open>Receiving\<close>

datatype recv_result = Data "byte list" | Peer_Closed | Recv_Block | Recv_Error

text \<open>
  The receive loop: the read buffer, and whether the loop was left by \<open>break\<close> (\<open>True\<close>) or the
  connection has to be closed. A result list that is used up blocks. \<open>recv\<close> returns at most 4096
  bytes; \<open>Data []\<close> is the return value 0, the end of the stream.
\<close>

fun recv_loop :: "recv_result list \<Rightarrow> byte list \<Rightarrow> bool \<times> byte list" where
  "recv_loop [] rb = (True, rb)"
| "recv_loop (r # rs) rb =
     (case r of
        Data bs \<Rightarrow> if bs = [] then (False, rb) else recv_loop rs (rb @ bs)
      | Peer_Closed \<Rightarrow> (False, rb)
      | Recv_Block \<Rightarrow> (True, rb)
      | Recv_Error \<Rightarrow> (False, rb))"

text \<open>The frames that \<open>OnRead\<close> hands to the frame handler, and the connection.\<close>

definition OnRead :: "recv_result list \<Rightarrow> time_point \<Rightarrow> Connection \<Rightarrow> Frame list \<times> Connection" where
  "OnRead rs now c =
     (if c_closed c then ([], c)
      else
        let (ok, rb) = recv_loop rs (c_read_buffer c) in
        if \<not> ok then ([], Close (c\<lparr>c_read_buffer := rb\<rparr>))
        else
          let c1 = UpdateLastActiveTime now c;
              (frames, codec) = sc_drain (AppendData (c_codec c1) rb)
          in (frames, c1\<lparr>c_read_buffer := [], c_codec := codec\<rparr>))"

subsection \<open>The publish limiter\<close>

definition AcquirePublishPermit :: "(real \<Rightarrow> real) \<Rightarrow> time_point \<Rightarrow> time_point \<Rightarrow> u32 \<Rightarrow> Connection
    \<Rightarrow> bool \<times> Connection" where
  "AcquirePublishPermit rnd now_create now k c =
     (if (case c_config c of Some cfg \<Rightarrow> \<not> rate_limit_enabled cfg | None \<Rightarrow> False) then (True, c)
      else
        let limiter = (case c_limiter c of
              Some b \<Rightarrow> b
            | None \<Rightarrow> tb_new
                (case c_config c of Some cfg \<Rightarrow> conn_publish_rate cfg | None \<Rightarrow> 1000)
                (case c_config c of Some cfg \<Rightarrow> rate_limit_burst cfg | None \<Rightarrow> 100) now_create);
            (ok, limiter') = Acquire rnd now k limiter
        in (ok, c\<lparr>c_limiter := Some limiter'\<rparr>))"

definition SetPublishRateLimit :: "(real \<Rightarrow> real) \<Rightarrow> time_point \<Rightarrow> u32 \<Rightarrow> u32 \<Rightarrow> Connection \<Rightarrow> Connection" where
  "SetPublishRateLimit rnd now rate burst c =
     (case c_limiter c of
        None \<Rightarrow> c\<lparr>c_limiter := Some (tb_new rate burst now)\<rparr>
      | Some b \<Rightarrow> c\<lparr>c_limiter := Some (SetRate rnd now rate burst b)\<rparr>)"

subsection \<open>What goes over the wire\<close>

lemma header_bytes: "EncodeHeaderToBuffer f (replicate 10 0) = (10, frame_header f)"
proof -
  have "replicate 10 0 = [0, 0, 0, 0, 0, 0, 0, 0, 0, 0 :: byte]"
    by (simp add: numeral_eq_Suc)
  then show ?thesis
    by (simp add: EncodeHeaderToBuffer_def frame_header_def be_bytes_4 byte_of_def kFrameHeaderSize_def Let_def)
qed

lemma length_header10: "length (frame_header f) = 10"
  by (simp add: kFrameHeaderSize_def)

text \<open>The result of a call to \<open>SendFrame\<close>, in terms of the byte stream alone.\<close>

definition send_post :: "Connection \<Rightarrow> byte list \<Rightarrow> bool \<times> byte list \<times> Connection \<Rightarrow> bool" where
  "send_post c bytes r =
     (case r of (ok, out, c') \<Rightarrow>
        if ok then \<not> c_closed c' \<and> out @ c_write_buffer c' = c_write_buffer c @ bytes
        else (c' = c \<and> out = []) \<or> (c_closed c' \<and> prefix out (c_write_buffer c @ bytes)))"

lemma SendFrame_buffered:
  assumes "\<not> c_closed c" and "c_write_buffer c \<noteq> [] \<or> \<not> zero_copy c"
  shows "send_post c (Encode f) (SendFrame f rs c)"
proof -
  obtain ok n where n: "send_loop rs (c_write_buffer c @ Encode f) 0 = (ok, n)"
    by force
  show ?thesis
    using assms n
    by (simp add: SendFrame_def send_post_def Let_def Close_def take_is_prefix
        del: take_append drop_append)
qed

lemma SendFrame_direct:
  assumes "\<not> c_closed c" and "c_write_buffer c = []" and "zero_copy c"
  shows "send_post c (Encode f) (SendFrame f rs c)"
proof -
  let ?b = "frame_header f @ payload f"
  obtain r where r: "(case rs of [] \<Rightarrow> Would_Block | r # _ \<Rightarrow> r) = r"
    by blast
  show ?thesis
  proof (cases r)
    case (Sent k)
    show ?thesis
      unfolding SendFrame_def Let_def header_bytes
      using assms r Sent
      by (auto simp: send_post_def Encode_header Close_def header_bytes kFrameHeaderSize_def min_def)
  next
    case Would_Block
    then show ?thesis
      using assms r by (simp add: SendFrame_def send_post_def Let_def header_bytes Encode_header)
  next
    case Send_Error
    then show ?thesis
      using assms r by (simp add: SendFrame_def send_post_def Let_def header_bytes Close_def)
  qed
qed

lemma SendFrame_post: "\<not> c_closed c \<Longrightarrow> send_post c (Encode f) (SendFrame f rs c)"
  using SendFrame_buffered SendFrame_direct by blast

lemma SendFrame_closed: "c_closed c \<Longrightarrow> SendFrame f rs c = (False, [], c)"
  by (simp add: SendFrame_def)

subsection \<open>Sequences of sends and of reads\<close>

text \<open>
  \<open>send_all\<close>: the frames that were accepted (\<open>SendFrame\<close> returned true), all bytes that went out,
  and the connection. \<open>read_all\<close>: one \<open>OnRead\<close> per readiness event; the chunks of an event are
  followed by the \<open>recv\<close> that would block.
\<close>

fun send_all :: "(Frame \<times> send_result list) list \<Rightarrow> Connection \<Rightarrow> Frame list \<times> byte list \<times> Connection" where
  "send_all [] c = ([], [], c)"
| "send_all ((f, rs) # xs) c =
     (let (ok, out, c1) = SendFrame f rs c; (fs, out', c2) = send_all xs c1
      in ((if ok then [f] else []) @ fs, out @ out', c2))"

fun read_all :: "(byte list list \<times> time_point) list \<Rightarrow> Connection \<Rightarrow> Frame list \<times> Connection" where
  "read_all [] c = ([], c)"
| "read_all ((ds, now) # es) c =
     (let (fs, c1) = OnRead (map Data ds @ [Recv_Block]) now c; (gs, c2) = read_all es c1
      in (fs @ gs, c2))"

lemma send_all_closed: "c_closed c \<Longrightarrow> send_all xs c = ([], [], c)"
  by (induction xs) (auto simp: SendFrame_closed)

lemma send_all_stream:
  assumes "send_all xs c = (fs, out, c')" and "\<not> c_closed c"
  shows "(\<not> c_closed c' \<and> out @ c_write_buffer c' = c_write_buffer c @ concat (map Encode fs)) \<or>
         (c_closed c' \<and> (\<exists>f \<in> fst ` set xs. prefix out (c_write_buffer c @ concat (map Encode (fs @ [f])))))"
  using assms
proof (induction xs arbitrary: c fs out c')
  case (Cons x xs)
  obtain f rs where x: "x = (f, rs)" by force
  obtain ok o1 c1 where s: "SendFrame f rs c = (ok, o1, c1)" by (cases "SendFrame f rs c")
  obtain gs o2 c2 where r: "send_all xs c1 = (gs, o2, c2)" by (cases "send_all xs c1")
  have eqs: "fs = (if ok then [f] else []) @ gs" "out = o1 @ o2" "c' = c2"
    using Cons.prems(1) x s r by simp_all
  have post: "send_post c (Encode f) (ok, o1, c1)"
    using SendFrame_post [OF Cons.prems(2), of f rs] s by simp
  show ?case
  proof (cases "c_closed c1")
    case True
    then have "gs = []" "o2 = []" "c2 = c1" "\<not> ok" "prefix o1 (c_write_buffer c @ Encode f)"
      using r post Cons.prems(2) by (auto simp: send_all_closed send_post_def split: if_splits)
    then show ?thesis
      using True eqs x by simp
  next
    case False
    have split: "o1 @ c_write_buffer c1 = c_write_buffer c @ (if ok then Encode f else [])"
      using False post by (auto simp: send_post_def split: if_splits)
    consider "\<not> c_closed c2" "o2 @ c_write_buffer c2 = c_write_buffer c1 @ concat (map Encode gs)"
      | g where "c_closed c2" "g \<in> fst ` set xs"
          "prefix o2 (c_write_buffer c1 @ concat (map Encode (gs @ [g])))"
      using Cons.IH [OF r False] by blast
    then show ?thesis
    proof cases
      case 1
      have "out @ c_write_buffer c' = (o1 @ c_write_buffer c1) @ concat (map Encode gs)"
        using 1 eqs by simp
      then show ?thesis
        using 1 eqs split by simp
    next
      case 2
      have "prefix out ((o1 @ c_write_buffer c1) @ concat (map Encode (gs @ [g])))"
        using 2(3) eqs by simp
      then have "prefix out (c_write_buffer c @ concat (map Encode (fs @ [g])))"
        unfolding split using eqs by (cases ok) simp_all
      moreover have "c_closed c'" "g \<in> fst ` set (x # xs)"
        using 2(1,2) eqs by simp_all
      ultimately show ?thesis
        by blast
    qed
  qed
qed simp

lemma recv_loop_data:
  "[] \<notin> set ds \<Longrightarrow> recv_loop (map Data ds @ rs) rb = recv_loop rs (rb @ concat ds)"
  by (induction ds arbitrary: rb) auto

lemma OnRead_data:
  assumes "[] \<notin> set ds" and "\<not> c_closed c" and "c_read_buffer c = []"
  shows "OnRead (map Data ds @ [Recv_Block]) now c =
    (fst (feed (c_codec c) (concat ds)),
     (UpdateLastActiveTime now c)\<lparr>c_codec := snd (feed (c_codec c) (concat ds))\<rparr>)"
  using assms
  by (simp add: OnRead_def recv_loop_data feed_def UpdateLastActiveTime_def Let_def split: prod.split)

lemma read_all_feed:
  assumes "\<not> c_closed c" and "c_read_buffer c = []" and "\<forall>(ds, now) \<in> set es. [] \<notin> set ds"
  shows "read_all es c = (gs, c') \<Longrightarrow>
    gs = fst (feed_all (c_codec c) (map (\<lambda>(ds, now). concat ds) es)) \<and> \<not> c_closed c' \<and> c_read_buffer c' = []
     \<and> c_codec c' = snd (feed_all (c_codec c) (map (\<lambda>(ds, now). concat ds) es))"
  using assms
proof (induction es arbitrary: c gs c')
  case (Cons e es)
  obtain ds now where e: "e = (ds, now)" by force
  let ?c1 = "(UpdateLastActiveTime now c)\<lparr>c_codec := snd (feed (c_codec c) (concat ds))\<rparr>"
  obtain hs c2 where r: "read_all es ?c1 = (hs, c2)" by (cases "read_all es ?c1")
  have "gs = fst (feed (c_codec c) (concat ds)) @ hs" "c' = c2"
    using Cons.prems e r by (simp_all add: OnRead_data)
  moreover have "\<not> c_closed ?c1" "c_read_buffer ?c1 = []" "c_codec ?c1 = snd (feed (c_codec c) (concat ds))"
    using Cons.prems by (simp_all add: UpdateLastActiveTime_def)
  moreover note Cons.IH [OF r]
  ultimately show ?case
    using Cons.prems e by (auto simp: split_beta Let_def)
qed simp

subsection \<open>Properties\<close>

text \<open>
  The bytes on the wire: whatever the results of the system calls, as long as the connection is
  open, the bytes that went out followed by those still in the write buffer are the encodings of the
  frames whose \<open>SendFrame\<close> returned true, whole and in the order of the calls; once the
  connection has closed, the bytes that went out are a prefix of those encodings followed by the
  encoding of the frame that was being sent.
\<close>

theorem SendFrame_wire:
  assumes "send_all xs c = (fs, out, c')" and "\<not> c_closed c"
  shows "if c_closed c'
         then \<exists>f rs. (f, rs) \<in> set xs \<and> prefix out (c_write_buffer c @ concat (map Encode fs) @ Encode f)
         else out @ c_write_buffer c' = c_write_buffer c @ concat (map Encode fs)"
  using send_all_stream [OF assms] by auto

theorem SendFrame_wire_witness:
  "[0xDE, 0xAD, 0xBE, 0xEF, 1, 7, 0, 0, 0, 1, 5] @ c_write_buffer (snd (snd (send_all
       [(default_Frame\<lparr>msg_type := 7, payload := [5]\<rparr>, [Sent 4]),
        (default_Frame\<lparr>msg_type := 8\<rparr>, [Sent 7])] (conn_new 1 None 0))))
     = concat (map Encode [default_Frame\<lparr>msg_type := 7, payload := [5]\<rparr>, default_Frame\<lparr>msg_type := 8\<rparr>])"
  using SendFrame_wire [of "[(default_Frame\<lparr>msg_type := 7, payload := [5]\<rparr>, [Sent 4]),
        (default_Frame\<lparr>msg_type := 8\<rparr>, [Sent 7])]" "conn_new 1 None 0"]
  by (simp add: SendFrame_def conn_new_def zero_copy_def max_write_buffer_def header_bytes
      Encode_header frame_header_def be_bytes_4 byte_of_def default_Frame_def kFrameMagic_def
      kFrameVersion_def Let_def size_add_def size_max_def)

text \<open>
  C14: End to end delivery over one connection, for frames with the protocol's magic number and
  version and a payload of at most 16 MiB (kMaxPayloadSize), a sender that starts with an empty write
  buffer and is still open in the end, and a receiver that has read all that the kernel took from the sender: whatever the kernel accepts per call on the sending side and
  however it cuts the bytes on the receiving side, the frames handed to the receiver's frame handler
  are, in order, the first of those accepted for sending, each once; they are all of them when
  nothing is left in the sender's write buffer. (A larger frame is outside the property: SendFrame accepts
  it and the receiver discards it.)
\<close>

theorem connection_delivery:
  assumes "send_all xs s = (fs, out, s')" and "\<not> c_closed s'" and "c_write_buffer s = []"
    and "list_all wf_frame fs"
    and "concat (concat (map fst es)) = out" and "\<forall>(ds, now) \<in> set es. [] \<notin> set ds"
  shows "prefix (fst (read_all es (conn_new cid cfg now))) (map decoded fs) \<and>
    (c_write_buffer s' = [] \<longrightarrow> fst (read_all es (conn_new cid cfg now)) = map decoded fs)"
proof -
  let ?c = "conn_new cid cfg now" and ?ds = "map (\<lambda>(ds, now). concat ds) es"
  have "\<not> c_closed s"
    using assms(1,2) send_all_closed by fastforce
  then have out: "out @ c_write_buffer s' = concat (map Encode fs)"
    using send_all_stream [OF assms(1)] assms(2,3) by simp
  have "concat (map (\<lambda>(ds, now). concat ds) xs) = concat (concat (map fst xs))" for xs :: "(byte list list \<times> time_point) list"
    by (induction xs) auto
  then have bytes: "concat ?ds = out"
    using assms(5) by simp
  obtain gs c' where "read_all es ?c = (gs, c')"
    by force
  then have "fst (read_all es ?c) = fst (feed_all sc_init ?ds)"
    using read_all_feed [of ?c es gs c'] assms(6) by (simp add: conn_new_def)
  then have recv: "fst (read_all es ?c) = fst (feed sc_init out)"
    using bytes by (simp add: feed_all_init feed_def AppendData_def at_frame_start_def)
  have all: "fst (feed sc_init (out @ c_write_buffer s')) = map decoded fs"
    using sc_drain_frames [OF assms(4)] out by (simp add: feed_def AppendData_def at_frame_start_def)
  have "prefix (fst (feed sc_init out)) (fst (feed sc_init (out @ c_write_buffer s')))"
    by (simp add: feed_append Let_def split: prod.split)
  then show ?thesis
    using recv all by auto
qed

theorem connection_delivery_witness:
  "prefix (fst (read_all [([[0xDE, 0xAD], [0xBE]], 1), ([[0xEF, 1, 7, 0, 0, 0, 0]], 2)] (conn_new 2 None 0)))
     (map decoded [default_Frame\<lparr>msg_type := 7\<rparr>])"
  using connection_delivery [of "[(default_Frame\<lparr>msg_type := 7\<rparr>, [Sent 10])]" "conn_new 1 None 0"
      "[default_Frame\<lparr>msg_type := 7\<rparr>]" "[0xDE, 0xAD, 0xBE, 0xEF, 1, 7, 0, 0, 0, 0]" "conn_new 1 None 0"
      "[([[0xDE, 0xAD], [0xBE]], 1), ([[0xEF, 1, 7, 0, 0, 0, 0]], 2)]" 2 None 0]
  by (simp add: SendFrame_def conn_new_def zero_copy_def max_write_buffer_def header_bytes
      Encode_header frame_header_def be_bytes_4 byte_of_def default_Frame_def kFrameMagic_def
      kFrameVersion_def Let_def wf_frame_def)

text \<open>
  Frames lost at the end of a stream: when the peer's last frames and its end of stream are read
  in the same \<open>OnRead\<close>, no frame is handed to the handler, however many complete frames the
  connection holds, and the connection closes.
\<close>

theorem OnRead_drops_final_frames:
  assumes "\<not> c_closed c" and "[] \<notin> set ds"
  shows "OnRead (map Data ds @ Peer_Closed # rs) now c =
    ([], c\<lparr>c_closed := True, c_read_buffer := c_read_buffer c @ concat ds\<rparr>)"
  using assms by (simp add: OnRead_def recv_loop_data Close_def)

theorem OnRead_drops_final_frames_witness:
  "fst (OnRead [Data (Encode (default_Frame\<lparr>msg_type := FMT_Publish\<rparr>)), Peer_Closed] 1 (conn_new 1 None 0)) = []"
  using OnRead_drops_final_frames
    [of "conn_new 1 None 0" "[Encode (default_Frame\<lparr>msg_type := FMT_Publish\<rparr>)]" "[]" 1]
  by (simp add: conn_new_def Encode_def Let_def)

end
