(* ===== verification/Messages.thy ===== *)
theory Messages
  imports Prelude
begin

text \<open>
  \<^verbatim>\<open>common/error_code.h\<close> and the messages of \<^verbatim>\<open>proto/msg_queue.proto\<close> that the broker reads and
  writes. The classes that the protobuf compiler generates are not part of the sources: their
  parsers and serialisers are the fields of a \<open>protobuf\<close> record that the broker takes as an
  argument. \<open>None\<close> is a failed parse.
\<close>

subsection \<open>Error codes\<close>

datatype ErrorCode = Success | Unknown | InvalidRequest | TopicNotFound | TopicAlreadyExists
  | NotSubscribed | AlreadySubscribed | RateLimitExceeded | BufferFull | MessageNotFound
  | DuplicateMessage | BatchSizeExceeded | AdminCommandFailed

fun error_value :: "ErrorCode \<Rightarrow> u32" where
  "error_value Success = 0"
| "error_value Unknown = 1"
| "error_value InvalidRequest = 2"
| "error_value TopicNotFound = 3"
| "error_value TopicAlreadyExists = 4"
| "error_value NotSubscribed = 5"
| "error_value AlreadySubscribed = 6"
| "error_value RateLimitExceeded = 7"
| "error_value BufferFull = 8"
| "error_value MessageNotFound = 9"
| "error_value DuplicateMessage = 10"
| "error_value BatchSizeExceeded = 11"
| "error_value AdminCommandFailed = 12"

fun ErrorCodeToString :: "ErrorCode \<Rightarrow> string" where
  "ErrorCodeToString Success = ''Success''"
| "ErrorCodeToString Unknown = ''Unknown error''"
| "ErrorCodeToString InvalidRequest = ''Invalid request''"
| "ErrorCodeToString TopicNotFound = ''Topic not found''"
| "ErrorCodeToString TopicAlreadyExists = ''Topic already exists''"
| "ErrorCodeToString NotSubscribed = ''Not subscribed''"
| "ErrorCodeToString AlreadySubscribed = ''Already subscribed''"
| "ErrorCodeToString RateLimitExceeded = ''Rate limit exceeded''"
| "ErrorCodeToString BufferFull = ''Buffer full''"
| "ErrorCodeToString MessageNotFound = ''Message not found''"
| "ErrorCodeToString DuplicateMessage = ''Duplicate message''"
| "ErrorCodeToString BatchSizeExceeded = ''Batch size exceeded''"
| "ErrorCodeToString AdminCommandFailed = ''Admin command failed''"

subsection \<open>Requests\<close>

record PublishRequest =
  pub_topic :: string
  pub_payload :: "byte list"
  pub_ttl_ms :: u32
  pub_compressed :: bool
  pub_producer_id :: string
  pub_sequence_id :: u64

type_synonym BatchPublishRequest = "PublishRequest list"

record SubscribeRequest =
  subr_topic :: string
  subr_subscriber_id :: string
  subr_group_id :: string

record UnsubscribeRequest =
  unsub_topic :: string
  unsub_subscriber_id :: string
  unsub_group_id :: string

record PullRequest =
  pull_topic_name :: string
  pull_subscriber_id :: string
  pull_group_id :: string
  pull_max_messages :: u32

record AckRequest =
  ack_topic :: string
  ack_subscriber_id :: string
  ack_group_id :: string
  ack_message_id :: u64

text \<open>A proto3 enumeration is open: other numbers arrive as \<open>ADMIN_OTHER\<close>.\<close>

datatype AdminCommandType = ADMIN_UNKNOWN | ADMIN_LIST_TOPICS | ADMIN_GET_TOPIC_INFO
  | ADMIN_DELETE_TOPIC | ADMIN_GET_STATS | ADMIN_GET_CONNECTIONS | ADMIN_CLEANUP_TOPIC
  | ADMIN_OTHER int

record AdminRequest =
  admin_command :: AdminCommandType
  admin_topic :: string
  admin_max_messages :: u32

subsection \<open>Responses and pushes\<close>

record Response =
  resp_success :: bool
  resp_error_msg :: string
  resp_message_id :: u64
  resp_error_code :: u32

record PushMessage =
  push_message_id :: u64
  push_topic :: string
  push_payload :: "byte list"
  push_timestamp :: u64
  push_retry_count :: u32
  push_compressed :: bool

type_synonym BatchPushMessage = "PushMessage list"

record AdminResponse =
  ares_success :: bool
  ares_error_msg :: string
  ares_json_result :: string

subsection \<open>The wrapper message\<close>

text \<open>
  \<open>MessageType\<close> numbers the requests as the frame header does. \<open>Message\<close> is a second, self-describing form of
  a message, of which the frame protocol makes no use; its \<open>oneof\<close> holds at most one message.
\<close>

datatype MessageType = MT_UNKNOWN | MT_PUBLISH | MT_SUBSCRIBE | MT_UNSUBSCRIBE | MT_PULL | MT_ACK
  | MT_RESPONSE | MT_PUSH | MT_PULL_DLQ | MT_BATCH_PUBLISH | MT_BATCH_PUSH | MT_PING | MT_PONG | MT_ADMIN

fun message_type_value :: "MessageType \<Rightarrow> byte" where
  "message_type_value MT_UNKNOWN = 0"
| "message_type_value MT_PUBLISH = 1"
| "message_type_value MT_SUBSCRIBE = 2"
| "message_type_value MT_UNSUBSCRIBE = 3"
| "message_type_value MT_PULL = 4"
| "message_type_value MT_ACK = 5"
| "message_type_value MT_RESPONSE = 6"
| "message_type_value MT_PUSH = 7"
| "message_type_value MT_PULL_DLQ = 8"
| "message_type_value MT_BATCH_PUBLISH = 9"
| "message_type_value MT_BATCH_PUSH = 10"
| "message_type_value MT_PING = 11"
| "message_type_value MT_PONG = 12"
| "message_type_value MT_ADMIN = 13"

datatype message_body = Body_Publish PublishRequest | Body_Subscribe SubscribeRequest
  | Body_Unsubscribe UnsubscribeRequest | Body_Pull PullRequest | Body_Ack AckRequest
  | Body_Response Response | Body_Push PushMessage | Body_Batch_Publish BatchPublishRequest
  | Body_Batch_Push BatchPushMessage

record Message =
  message_type :: MessageType
  message_body :: "message_body option"

subsection \<open>The generated classes\<close>

record protobuf =
  parse_publish :: "byte list \<Rightarrow> PublishRequest option"
  parse_batch_publish :: "byte list \<Rightarrow> BatchPublishRequest option"
  parse_subscribe :: "byte list \<Rightarrow> SubscribeRequest option"
  parse_unsubscribe :: "byte list \<Rightarrow> UnsubscribeRequest option"
  parse_pull :: "byte list \<Rightarrow> PullRequest option"
  parse_ack :: "byte list \<Rightarrow> AckRequest option"
  parse_admin :: "byte list \<Rightarrow> AdminRequest option"
  ser_response :: "Response \<Rightarrow> byte list"
  ser_push :: "PushMessage \<Rightarrow> byte list"
  ser_batch_push :: "BatchPushMessage \<Rightarrow> byte list"
  ser_admin :: "AdminResponse \<Rightarrow> byte list"

subsection \<open>\<open>std::to_string\<close>\<close>

fun to_string :: "nat \<Rightarrow> string" where
  "to_string n = (if n < 10 then [] else to_string (n div 10)) @ [char_of (n mod 10 + 48)]"

declare to_string.simps [simp del]

end
