(* ===== verification/Broker.thy ===== *)
theory Broker
  imports Messages Message_Store_Inv Topic_Manager Dedup_Window Compression Connection
begin

text \<open>
  \<^verbatim>\<open>mq/broker.h\<close> and \<^verbatim>\<open>.cpp\<close>: the handlers that turn a frame of a connection into operations on the
  message store, the topic manager, the duplicate window and the limiters, and into frames. This
  theory holds the definitions.

  A handler takes and returns the broker and the connection the frame came from. The frames it
  sends, with \<open>conn->SendFrame\<close> or \<open>server_.SendTo\<close>, are its outputs in the order of the calls: no
  handler uses the result of a send. \<open>None\<close> is the exception that allocating a ring throws, which no
  handler catches. Iteration over an \<open>unordered_map\<close> follows the list that represents it.
\<close>

subsection \<open>State, environment, outputs\<close>

record Broker =
  b_store :: MemoryMessageStore
  b_topics :: TopicManager
  b_config :: ConfigManager
  b_dedup :: DedupWindow
  b_limiter :: "TokenBucket option"

text \<open>
  What a handler reads from outside: the generated message classes, zlib, the rounding of \<open>double\<close>,
  and the clocks: \<open>e_steady k\<close> and \<open>e_system k\<close> are the readings at the handler's \<open>k\<close>-th place that
  reads them, \<open>e_pulls\<close> those inside \<open>Pull\<close>.
\<close>

record env =
  e_pb :: protobuf
  e_compress2 :: deflate_fn
  e_round :: "real \<Rightarrow> real"
  e_steady :: "nat \<Rightarrow> time_point"
  e_system :: "nat \<Rightarrow> u64"
  e_pulls :: "nat \<Rightarrow> time_point"

datatype action = Reply Frame | Send_To ConnectionId Frame

type_synonym handled = "((Broker \<times> Connection) \<times> action list) option"

definition broker_new :: "MemoryMessageStore \<Rightarrow> BrokerConfig \<Rightarrow> time_point \<Rightarrow> Broker" where
  "broker_new store cfg now =
     \<lparr>b_store = store, b_topics = tm_new, b_config = cm_new cfg,
      b_dedup = dw_new (unat (dedup_window_size cfg)),
      b_limiter = (if rate_limit_enabled cfg
        then Some (tb_new (global_publish_rate cfg) (rate_limit_burst cfg) now) else None)\<rparr>"

text \<open>The other constructor: a broker with the default configuration on a given port.\<close>

definition broker_new_port :: "MemoryMessageStore \<Rightarrow> 16 word \<Rightarrow> time_point \<Rightarrow> Broker" where
  "broker_new_port store p now = broker_new store (default_BrokerConfig\<lparr>port := p\<rparr>) now"

definition PublishLocal :: "TopicName \<Rightarrow> Payload \<Rightarrow> u64 \<Rightarrow> u64 \<Rightarrow> Broker \<Rightarrow> (bool \<times> Broker) option" where
  "PublishLocal topic p now_expiry now_ts b =
     (case Publish topic p 0 now_expiry now_ts (b_store b) of
        None \<Rightarrow> None
      | Some ((ok, mid), s) \<Rightarrow> Some (ok, b\<lparr>b_store := s\<rparr>))"

subsection \<open>Frames that the broker sends\<close>

definition frame_of :: "FrameMessageType \<Rightarrow> byte list \<Rightarrow> Frame" where
  "frame_of t p = default_Frame\<lparr>msg_type := t, payload := p\<rparr>"

definition response_bool :: "bool \<Rightarrow> string \<Rightarrow> MessageId \<Rightarrow> Response" where
  "response_bool success error_msg mid =
     \<lparr>resp_success = success, resp_error_msg = error_msg, resp_message_id = mid,
      resp_error_code = (if success then 0 else error_value Unknown)\<rparr>"

definition response_code :: "ErrorCode \<Rightarrow> string \<Rightarrow> MessageId \<Rightarrow> Response" where
  "response_code code error_msg mid =
     \<lparr>resp_success = (code = Success),
      resp_error_msg = (if error_msg = [] then ErrorCodeToString code else error_msg),
      resp_message_id = mid, resp_error_code = error_value code\<rparr>"

definition SendResponse :: "env \<Rightarrow> bool \<Rightarrow> string \<Rightarrow> MessageId \<Rightarrow> action" where
  "SendResponse e success error_msg mid =
     Reply (frame_of FMT_Response (ser_response (e_pb e) (response_bool success error_msg mid)))"

definition SendResponse_code :: "env \<Rightarrow> ErrorCode \<Rightarrow> string \<Rightarrow> MessageId \<Rightarrow> action" where
  "SendResponse_code e code error_msg mid =
     Reply (frame_of FMT_Response (ser_response (e_pb e) (response_code code error_msg mid)))"

definition SendAdminResponse :: "env \<Rightarrow> bool \<Rightarrow> string \<Rightarrow> string \<Rightarrow> action" where
  "SendAdminResponse e success error_msg json =
     Reply (frame_of FMT_Admin (ser_admin (e_pb e)
       \<lparr>ares_success = success, ares_error_msg = error_msg, ares_json_result = json\<rparr>))"

definition push_of :: "StoredMessage \<Rightarrow> string \<Rightarrow> bool \<Rightarrow> PushMessage" where
  "push_of msg topic compressed =
     \<lparr>push_message_id = sm_id msg, push_topic = topic, push_payload = sm_payload msg,
      push_timestamp = timestamp msg, push_retry_count = retry_count msg, push_compressed = compressed\<rparr>"

definition push_frame :: "env \<Rightarrow> PushMessage \<Rightarrow> Frame" where
  "push_frame e m = frame_of FMT_Push (ser_push (e_pb e) m)"

definition batch_frame :: "env \<Rightarrow> PushMessage list \<Rightarrow> Frame" where
  "batch_frame e ms = frame_of FMT_BatchPush (ser_batch_push (e_pb e) ms)"

text \<open>Both are also called with a null connection, and then send nothing.\<close>

definition SendPushMessage :: "env \<Rightarrow> bool \<Rightarrow> StoredMessage \<Rightarrow> string \<Rightarrow> bool \<Rightarrow> action list" where
  "SendPushMessage e has_conn msg topic compressed =
     (if has_conn then [Reply (push_frame e (push_of msg topic compressed))] else [])"

definition SendBatchPushMessage :: "env \<Rightarrow> bool \<Rightarrow> StoredMessage list \<Rightarrow> string \<Rightarrow> bool \<Rightarrow> action list" where
  "SendBatchPushMessage e has_conn messages topic compressed =
     (if has_conn then [Reply (batch_frame e (map (\<lambda>m. push_of m topic compressed) messages))] else [])"

subsection \<open>Publishing\<close>

definition ShouldCompress :: "Broker \<Rightarrow> string \<Rightarrow> nat \<Rightarrow> bool" where
  "ShouldCompress b topic payload_size =
     (let global_config = cm_global_config (b_config b) in
      if \<not> compression_enabled global_config then False
      else if payload_size < unat (compression_threshold_bytes global_config) then False
      else if tc_compression_enabled (GetTopicConfig (b_topics b) topic) then True
      else compression_enabled global_config)"

text \<open>The payload that is stored, and whether it is compressed.\<close>

definition broker_payload :: "env \<Rightarrow> Broker \<Rightarrow> PublishRequest \<Rightarrow> Payload \<times> bool" where
  "broker_payload e b req =
     (let p = pub_payload req; is_compressed = pub_compressed req in
      if ShouldCompress b (pub_topic req) (length p) \<and> \<not> is_compressed then
        let z = Compress (e_compress2 e) p in
        if z \<noteq> [] \<and> length z < length p then (z, True) else (p, is_compressed)
      else (p, is_compressed))"

text \<open>The limits of the connection and of the broker; each is consulted when rate limiting is enabled.\<close>

definition acquire_conn :: "env \<Rightarrow> u32 \<Rightarrow> Broker \<Rightarrow> Connection \<Rightarrow> bool \<times> Connection" where
  "acquire_conn e k b conn =
     (if rate_limit_enabled (cm_global_config (b_config b))
      then AcquirePublishPermit (e_round e) (e_steady e 0) (e_steady e 1) k conn
      else (True, conn))"

definition acquire_global :: "env \<Rightarrow> u32 \<Rightarrow> Broker \<Rightarrow> bool \<times> Broker" where
  "acquire_global e k b =
     (case b_limiter b of
        None \<Rightarrow> (True, b)
      | Some l \<Rightarrow>
          if rate_limit_enabled (cm_global_config (b_config b)) then
            let (ok, l') = Acquire (e_round e) (e_steady e 2) k l in (ok, b\<lparr>b_limiter := Some l'\<rparr>)
          else (True, b))"

text \<open>
  The connection a group's message goes to: the member that \<open>SelectNextMember\<close> chose, looked up in
  the copy of the group; 0 is no connection.
\<close>

definition select_conn :: "string \<Rightarrow> ConsumerGroup \<Rightarrow> TopicManager \<Rightarrow> ConnectionId \<times> TopicManager" where
  "select_conn topic grp tm =
     (if members grp = [] then (0, tm)
      else
        let (selected_member, tm') = SelectNextMember topic (group_id grp) tm in
        if selected_member = [] then (0, tm')
        else (case find (\<lambda>m. subscriber_id m = selected_member) (members grp) of
                None \<Rightarrow> (0, tm')
              | Some m \<Rightarrow> (cm_conn_id m, tm')))"

text \<open>
  The loop over the groups of a topic; \<open>frame_at k\<close> is the frame made for the \<open>k\<close>-th group.
\<close>

fun push_groups :: "string \<Rightarrow> (nat \<Rightarrow> Frame) \<Rightarrow> ConsumerGroup list \<Rightarrow> nat \<Rightarrow> TopicManager
    \<Rightarrow> action list \<times> TopicManager" where
  "push_groups topic mk [] k tm = ([], tm)"
| "push_groups topic mk (grp # groups) k tm =
     (let (target_conn_id, tm1) = select_conn topic grp tm;
          (outs, tm2) = push_groups topic mk groups (Suc k) tm1
      in (if target_conn_id \<noteq> 0 then Send_To target_conn_id (mk k) # outs else outs, tm2))"

definition HandlePublish :: "env \<Rightarrow> Frame \<Rightarrow> Broker \<Rightarrow> Connection \<Rightarrow> handled" where
  "HandlePublish e frame b conn =
     (case parse_publish (e_pb e) (payload frame) of
        None \<Rightarrow> Some ((b, conn), [SendResponse_code e InvalidRequest ''Failed to parse publish request'' 0])
      | Some req \<Rightarrow>
          let config = cm_global_config (b_config b) in
          if dedup_enabled config \<and> pub_producer_id req \<noteq> [] \<and>
             IsDuplicate (b_dedup b) (pub_producer_id req) (pub_sequence_id req)
          then Some ((b, conn), [SendResponse e True [] (pub_sequence_id req)])
          else
            let (ok1, conn1) = acquire_conn e 1 b conn in
            if \<not> ok1 then Some ((b, conn1), [SendResponse_code e RateLimitExceeded ''Rate limit exceeded'' 0])
            else
              let (ok2, b1) = acquire_global e 1 b in
              if \<not> ok2 then
                Some ((b1, conn1), [SendResponse_code e RateLimitExceeded ''Global rate limit exceeded'' 0])
              else
                let (p, is_compressed) = broker_payload e b1 req;
                    ttl_ms = (if ttl_enabled config then pub_ttl_ms req else 0)
                in (case Publish (pub_topic req) p ttl_ms (e_system e 0) (e_system e 1) (b_store b1) of
                      None \<Rightarrow> None
                    | Some ((success, msg_id), store) \<Rightarrow>
                        if \<not> success then
                          Some ((b1\<lparr>b_store := store\<rparr>, conn1),
                            [SendResponse_code e BufferFull ''Backpressure: buffer full'' 0])
                        else
                          let mk = (\<lambda>k. push_frame e \<lparr>push_message_id = msg_id, push_topic = pub_topic req,
                                push_payload = p, push_timestamp = e_system e (2 + k), push_retry_count = 0,
                                push_compressed = is_compressed\<rparr>);
                              pushes = map (\<lambda>sub. Send_To (si_conn_id sub) (mk 0))
                                (GetSubscribers (b_topics b1) (pub_topic req));
                              (group_pushes, tm) = push_groups (pub_topic req) mk
                                (GetConsumerGroups (b_topics b1) (pub_topic req)) 1 (b_topics b1);
                              dedup = (if dedup_enabled config \<and> pub_producer_id req \<noteq> []
                                then MarkProcessed (pub_producer_id req) (pub_sequence_id req) (e_steady e 3)
                                  (b_dedup b1)
                                else b_dedup b1)
                          in Some ((b1\<lparr>b_store := store, b_topics := tm, b_dedup := dedup\<rparr>, conn1),
                               pushes @ group_pushes @ [SendResponse e True [] msg_id])))"

subsection \<open>Batches\<close>

text \<open>
  The loop that stores the messages of a batch: the copies of those that were accepted, in order, and
  the store. \<open>k\<close> counts the messages, for the readings of the clock.
\<close>

fun batch_publish :: "env \<Rightarrow> Broker \<Rightarrow> PublishRequest list \<Rightarrow> nat \<Rightarrow> MemoryMessageStore
    \<Rightarrow> (StoredMessage list \<times> MemoryMessageStore) option" where
  "batch_publish e b [] k s = Some ([], s)"
| "batch_publish e b (msg # msgs) k s =
     (let (p, is_compressed) = broker_payload e b msg;
          ttl_ms = (if ttl_enabled (cm_global_config (b_config b)) then pub_ttl_ms msg else 0)
      in (case Publish (pub_topic msg) p ttl_ms (e_system e (3 * k)) (e_system e (3 * k + 1)) s of
            None \<Rightarrow> None
          | Some ((success, msg_id), s1) \<Rightarrow>
              (case batch_publish e b msgs (Suc k) s1 of
                 None \<Rightarrow> None
               | Some (accepted, s2) \<Rightarrow>
                   Some ((if success
                          then [\<lparr>sm_id = msg_id, sm_topic_name = pub_topic msg, sm_payload = p,
                                 timestamp = e_system e (3 * k + 2), retry_count = 0, expires_at = 0\<rparr>]
                          else []) @ accepted, s2))))"

definition group_by_topic :: "StoredMessage list \<Rightarrow> (string, StoredMessage list) umap" where
  "group_by_topic accepted =
     fold (\<lambda>msg m. um_put (sm_topic_name msg) (um_at [] m (sm_topic_name msg) @ [msg]) m) accepted []"

text \<open>One round of the loop over the topics of a batch.\<close>

definition push_batch :: "env \<Rightarrow> bool \<Rightarrow> string \<Rightarrow> StoredMessage list \<Rightarrow> TopicManager
    \<Rightarrow> action list \<times> TopicManager" where
  "push_batch e batch_push topic messages tm =
     (let use_batch = (batch_push \<and> length messages > 1);
          fr = (if use_batch then batch_frame e (map (\<lambda>m. push_of m topic False) messages)
                else push_frame e (push_of (hd messages) topic False));
          subscribers = GetSubscribers tm topic;
          outs1 =
            (if subscribers = [] then []
             else if use_batch then
               SendBatchPushMessage e False messages topic False @
               map (\<lambda>sub. Send_To (si_conn_id sub) fr) subscribers
             else
               concat (map (\<lambda>sub.
                 concat (map (\<lambda>msg. SendPushMessage e False msg topic False) messages) @
                 [Send_To (si_conn_id sub) fr]) subscribers));
          (outs2, tm') = push_groups topic (\<lambda>_. fr) (GetConsumerGroups tm topic) 0 tm
      in (outs1 @ outs2, tm'))"

fun push_topics :: "env \<Rightarrow> bool \<Rightarrow> (string \<times> StoredMessage list) list \<Rightarrow> TopicManager
    \<Rightarrow> action list \<times> TopicManager" where
  "push_topics e batch_push [] tm = ([], tm)"
| "push_topics e batch_push ((topic, messages) # rest) tm =
     (let (outs1, tm1) = push_batch e batch_push topic messages tm;
          (outs2, tm2) = push_topics e batch_push rest tm1
      in (outs1 @ outs2, tm2))"

definition HandleBatchPublish :: "env \<Rightarrow> Frame \<Rightarrow> Broker \<Rightarrow> Connection \<Rightarrow> handled" where
  "HandleBatchPublish e frame b conn =
     (case parse_batch_publish (e_pb e) (payload frame) of
        None \<Rightarrow> Some ((b, conn), [SendResponse_code e InvalidRequest ''Failed to parse batch publish request'' 0])
      | Some msgs \<Rightarrow>
          if msgs = [] then Some ((b, conn), [SendResponse_code e InvalidRequest ''Empty batch publish request'' 0])
          else
            let config = cm_global_config (b_config b);
                n = (of_nat (length msgs) :: u32);
                (ok1, conn1) = acquire_conn e n b conn
            in if \<not> ok1 then Some ((b, conn1), [SendResponse_code e RateLimitExceeded ''Rate limit exceeded'' 0])
               else
                 let (ok2, b1) = acquire_global e n b in
                 if \<not> ok2 then
                   Some ((b1, conn1), [SendResponse_code e RateLimitExceeded ''Global rate limit exceeded'' 0])
                 else if n > max_batch_size config then
                   Some ((b1, conn1), [SendResponse_code e BatchSizeExceeded ''Batch size exceeds limit'' 0])
                 else (case batch_publish e b1 msgs 0 (b_store b1) of
                     None \<Rightarrow> None
                   | Some (accepted, store) \<Rightarrow>
                       if accepted = [] then
                         Some ((b1\<lparr>b_store := store\<rparr>, conn1),
                           [SendResponse_code e BufferFull ''Backpressure: buffer full'' 0])
                       else
                         let (outs, tm) = push_topics e (batch_push_enabled config) (group_by_topic accepted)
                               (b_topics b1)
                         in Some ((b1\<lparr>b_store := store, b_topics := tm\<rparr>, conn1),
                              outs @ [SendResponse e True [] (sm_id (last accepted))])))"

subsection \<open>Subscriptions\<close>

definition HandleSubscribe :: "env \<Rightarrow> Frame \<Rightarrow> Broker \<Rightarrow> Connection \<Rightarrow> handled" where
  "HandleSubscribe e frame b conn =
     (case parse_subscribe (e_pb e) (payload frame) of
        None \<Rightarrow> Some ((b, conn), [SendResponse_code e InvalidRequest ''Failed to parse subscribe request'' 0])
      | Some req \<Rightarrow>
          let info = \<lparr>si_id = subr_subscriber_id req, si_conn_id = c_id conn\<rparr>;
              (success, tm) = Subscribe (subr_topic req) info (subr_group_id req) (b_topics b)
          in if success then
               (case CreateTopic (subr_topic req) (b_store b) of
                  None \<Rightarrow> None
                | Some (created, store) \<Rightarrow>
                    Some ((b\<lparr>b_topics := tm, b_store := store\<rparr>, conn), [SendResponse_code e Success [] 0]))
             else Some ((b\<lparr>b_topics := tm\<rparr>, conn),
                    [SendResponse_code e AlreadySubscribed ''Already subscribed'' 0]))"

definition HandleUnsubscribe :: "env \<Rightarrow> Frame \<Rightarrow> Broker \<Rightarrow> Connection \<Rightarrow> handled" where
  "HandleUnsubscribe e frame b conn =
     (case parse_unsubscribe (e_pb e) (payload frame) of
        None \<Rightarrow> Some ((b, conn), [SendResponse_code e InvalidRequest ''Failed to parse unsubscribe request'' 0])
      | Some req \<Rightarrow>
          let (success, tm) = Unsubscribe (unsub_topic req) (unsub_subscriber_id req) (unsub_group_id req)
                (b_topics b)
          in Some ((b\<lparr>b_topics := tm\<rparr>, conn),
               [if success then SendResponse_code e Success [] 0
                else SendResponse_code e NotSubscribed ''Not subscribed'' 0]))"

subsection \<open>Pulling and acknowledging\<close>

definition HandlePull :: "env \<Rightarrow> Frame \<Rightarrow> Broker \<Rightarrow> Connection \<Rightarrow> handled" where
  "HandlePull e frame b conn =
     (case parse_pull (e_pb e) (payload frame) of
        None \<Rightarrow> Some ((b, conn), [SendResponse_code e InvalidRequest ''Failed to parse pull request'' 0])
      | Some req \<Rightarrow>
          let is_group = (pull_group_id req \<noteq> []);
              consumer_id = (if is_group then pull_group_id req else pull_subscriber_id req);
              topic = pull_topic_name req
          in (case Pull topic consumer_id (pull_max_messages req) is_group (e_system e 0) (e_pulls e) (b_store b) of
                None \<Rightarrow> None
              | Some (messages, store) \<Rightarrow>
                  let use_batch = (batch_push_enabled (cm_global_config (b_config b)) \<and> length messages > 1);
                      outs = (if use_batch then SendBatchPushMessage e True messages topic False
                              else concat (map (\<lambda>msg. SendPushMessage e True msg topic False) messages))
                  in Some ((b\<lparr>b_store := store\<rparr>, conn),
                       outs @ [SendResponse e True [] (if messages = [] then 0 else sm_id (last messages))])))"

definition HandleAck :: "env \<Rightarrow> Frame \<Rightarrow> Broker \<Rightarrow> Connection \<Rightarrow> handled" where
  "HandleAck e frame b conn =
     (case parse_ack (e_pb e) (payload frame) of
        None \<Rightarrow> Some ((b, conn), [SendResponse_code e InvalidRequest ''Failed to parse ack request'' 0])
      | Some req \<Rightarrow>
          let is_group = (ack_group_id req \<noteq> []);
              consumer_id = (if is_group then ack_group_id req else ack_subscriber_id req);
              (success, store) = Ack (ack_topic req) consumer_id (ack_message_id req) is_group (b_store b)
          in Some ((b\<lparr>b_store := store\<rparr>, conn),
               [if success then SendResponse_code e Success [] 0
                else SendResponse_code e MessageNotFound ''Message not found'' 0]))"

definition HandlePing :: "env \<Rightarrow> Frame \<Rightarrow> Broker \<Rightarrow> Connection \<Rightarrow> handled" where
  "HandlePing e frame b conn = Some ((b, conn), [Reply (default_Frame\<lparr>msg_type := FMT_Pong\<rparr>)])"

subsection \<open>Administration\<close>

fun join_names :: "string list \<Rightarrow> string" where
  "join_names [] = []"
| "join_names [n] = n"
| "join_names (n # ns) = n @ ''\",\"'' @ join_names ns"

definition list_topics_json :: "TopicManager \<Rightarrow> string" where
  "list_topics_json tm =
     ''{\"topics\":'' @ ''[\"'' @ join_names (map ti_name (GetAllTopics tm)) @ ''\"]'' @ ''}''"

definition topic_info_json :: "TopicManager \<Rightarrow> string \<Rightarrow> string" where
  "topic_info_json tm topic =
     ''{\"topic\":\"'' @ topic @ ''\"'' @
     '',\"exists\":'' @ (if HasTopic tm topic then ''true'' else ''false'') @
     '',\"subscribers\":'' @ to_string (length (GetSubscribers tm topic)) @
     '',\"consumer_groups\":'' @ to_string (length (GetConsumerGroups tm topic)) @ ''}''"

definition stats_json :: "Broker \<Rightarrow> string" where
  "stats_json b =
     ''{\"topics\":'' @ to_string (length (GetAllTopics (b_topics b))) @
     '',\"dedup_producers\":'' @ to_string (GetProducerCount (b_dedup b)) @ ''}''"

definition HandleAdmin :: "env \<Rightarrow> Frame \<Rightarrow> Broker \<Rightarrow> Connection \<Rightarrow> handled" where
  "HandleAdmin e frame b conn =
     (case parse_admin (e_pb e) (payload frame) of
        None \<Rightarrow> Some ((b, conn), [SendAdminResponse e False ''Failed to parse admin request'' []])
      | Some req \<Rightarrow>
          let topic = admin_topic req;
              no_topic = Some ((b, conn), [SendAdminResponse e False ''Topic name required'' []])
          in (case admin_command req of
                ADMIN_LIST_TOPICS \<Rightarrow>
                  Some ((b, conn), [SendAdminResponse e True [] (list_topics_json (b_topics b))])
              | ADMIN_GET_TOPIC_INFO \<Rightarrow>
                  if topic = [] then no_topic
                  else Some ((b, conn), [SendAdminResponse e True [] (topic_info_json (b_topics b) topic)])
              | ADMIN_DELETE_TOPIC \<Rightarrow>
                  if topic = [] then no_topic
                  else
                    let (deleted, store) = DeleteTopic topic (b_store b);
                        (unregistered, tm) = UnregisterTopic topic (b_topics b)
                    in Some ((b\<lparr>b_store := store, b_topics := tm\<rparr>, conn),
                         [SendAdminResponse e True [] ''{\"deleted\":true}''])
              | ADMIN_GET_STATS \<Rightarrow>
                  Some ((b, conn), [SendAdminResponse e True [] (stats_json b)])
              | ADMIN_GET_CONNECTIONS \<Rightarrow>
                  Some ((b, conn), [SendAdminResponse e True [] ''{\"connections\":0}''])
              | ADMIN_CLEANUP_TOPIC \<Rightarrow>
                  if topic = [] then no_topic
                  else
                    (case CreateTopic topic (snd (DeleteTopic topic (b_store b))) of
                       None \<Rightarrow> None
                     | Some (created, store) \<Rightarrow>
                         Some ((b\<lparr>b_store := store\<rparr>, conn), [SendAdminResponse e True [] ''{\"cleaned\":true}'']))
              | _ \<Rightarrow> Some ((b, conn), [SendAdminResponse e False ''Unknown admin command'' []])))"

subsection \<open>Dispatch\<close>

definition OnFrameReceived :: "env \<Rightarrow> Frame \<Rightarrow> Broker \<Rightarrow> Connection \<Rightarrow> handled" where
  "OnFrameReceived e frame b conn =
     (let config = cm_global_config (b_config b); t = msg_type frame in
      if t = FMT_Publish then HandlePublish e frame b conn
      else if t = FMT_BatchPublish then
        if batch_publish_enabled config then HandleBatchPublish e frame b conn
        else Some ((b, conn), [SendResponse_code e InvalidRequest ''Batch publish is disabled'' 0])
      else if t = FMT_Subscribe then HandleSubscribe e frame b conn
      else if t = FMT_Unsubscribe then HandleUnsubscribe e frame b conn
      else if t = FMT_Pull then HandlePull e frame b conn
      else if t = FMT_Ack then HandleAck e frame b conn
      else if t = FMT_Ping then
        if heartbeat_enabled config then HandlePing e frame b conn else Some ((b, conn), [])
      else if t = FMT_Admin then HandleAdmin e frame b conn
      else Some ((b, conn), [SendResponse_code e Unknown ''Unknown message type'' 0]))"

definition OnConnectionClosed :: "ConnectionId \<Rightarrow> Broker \<Rightarrow> Broker" where
  "OnConnectionClosed conn_id b = b\<lparr>b_topics := snd (UnsubscribeByConnId conn_id (b_topics b))\<rparr>"

end
