(* ===== verification/Broker_Facts.thy ===== *)
theory Broker_Facts
  imports Broker Message_Store_Props
begin

text \<open>
  What the handlers of \<open>Broker\<close> do to each part of the state: which operations of the topic
  manager and which marks of the duplicate window a frame amounts to, what becomes of the store,
  which frames go out, and which connections the messages of consumer groups go to.
\<close>

subsection \<open>Frames that go out\<close>

fun frame_sent :: "action \<Rightarrow> Frame" where
  "frame_sent (Reply f) = f"
| "frame_sent (Send_To c f) = f"

definition is_push :: "action \<Rightarrow> bool" where
  "is_push a \<longleftrightarrow> msg_type (frame_sent a) = FMT_Push \<or> msg_type (frame_sent a) = FMT_BatchPush"

definition is_answer :: "FrameMessageType \<Rightarrow> action \<Rightarrow> bool" where
  "is_answer t a \<longleftrightarrow> (\<exists>p. a = Reply (frame_of t p))"

lemma msg_type_frame_of [simp]: "msg_type (frame_of t p) = t" "payload (frame_of t p) = p"
  by (simp_all add: frame_of_def)

lemma is_push_simps [simp]:
  "is_push (Send_To c (push_frame e m))" "is_push (Reply (push_frame e m))"
  "is_push (Send_To c (batch_frame e ms))" "is_push (Reply (batch_frame e ms))"
  by (simp_all add: is_push_def push_frame_def batch_frame_def)

lemma is_answer_simps [simp]:
  "is_answer FMT_Response (SendResponse e ok msg i)" "is_answer FMT_Response (SendResponse_code e code msg i)"
  "is_answer FMT_Admin (SendAdminResponse e ok msg j)"
  by (auto simp: is_answer_def SendResponse_def SendResponse_code_def SendAdminResponse_def)

text \<open>
  The numbers of \<open>FrameMessageType\<close> are those of \<open>MessageType\<close> in the protocol file, which has one more, for
  pulls of dead letters.
\<close>

lemma frame_types_agree:
  "{FMT_Unknown, FMT_Publish, FMT_Subscribe, FMT_Unsubscribe, FMT_Pull, FMT_Ack, FMT_Response, FMT_Push,
     FMT_BatchPublish, FMT_BatchPush, FMT_Ping, FMT_Pong, FMT_Admin} = message_type_value ` (UNIV - {MT_PULL_DLQ})"
proof -
  have "UNIV - {MT_PULL_DLQ} = {MT_UNKNOWN, MT_PUBLISH, MT_SUBSCRIBE, MT_UNSUBSCRIBE, MT_PULL, MT_ACK, MT_RESPONSE,
     MT_PUSH, MT_BATCH_PUBLISH, MT_BATCH_PUSH, MT_PING, MT_PONG, MT_ADMIN}"
    using MessageType.nchotomy by auto
  then show ?thesis by (simp add: FMT_defs FMT_Unknown_def)
qed

subsection \<open>Pushing to the groups of a topic\<close>

lemma snd_select_conn:
  "snd (select_conn topic grp tm) = fold tm_exec (if members grp = [] then [] else [OpSelect topic (group_id grp)]) tm"
  by (simp add: select_conn_def case_prod_unfold Let_def split: option.split)

lemma push_groups_effect:
  "push_groups topic mk gs k tm = (acts, tm') \<Longrightarrow>
     (\<exists>ops. tm' = fold tm_exec ops tm \<and> set ops \<subseteq> range (OpSelect topic)) \<and>
     (\<forall>a \<in> set acts. \<exists>c j. a = Send_To c (mk j))"
proof (induction gs arbitrary: k tm acts tm')
  case Nil
  then show ?case by (auto intro: exI [of _ "[]"])
next
  case (Cons grp gs)
  obtain c tm1 where s: "select_conn topic grp tm = (c, tm1)" by force
  obtain outs tm2 where p: "push_groups topic mk gs (Suc k) tm1 = (outs, tm2)" by force
  have eqs: "acts = (if c \<noteq> 0 then Send_To c (mk k) # outs else outs)" "tm' = tm2"
    using Cons.prems s p by (auto split: if_splits)
  obtain ops where ops: "tm2 = fold tm_exec ops tm1" "set ops \<subseteq> range (OpSelect topic)"
    and acts: "\<forall>a \<in> set outs. \<exists>c j. a = Send_To c (mk j)"
    using Cons.IH [OF p] by blast
  have "\<exists>ops1. tm1 = fold tm_exec ops1 tm \<and> set ops1 \<subseteq> range (OpSelect topic)"
    using snd_select_conn [of topic grp tm] s
    by (intro exI [of _ "if members grp = [] then [] else [OpSelect topic (group_id grp)]"]) auto
  then obtain ops1 where "tm1 = fold tm_exec ops1 tm" "set ops1 \<subseteq> range (OpSelect topic)" by blast
  then have "tm' = fold tm_exec (ops1 @ ops) tm" "set (ops1 @ ops) \<subseteq> range (OpSelect topic)"
    using ops eqs by simp_all
  moreover have "\<forall>a \<in> set acts. \<exists>c j. a = Send_To c (mk j)"
    using acts eqs by auto
  ultimately show ?case
    by blast
qed

lemma push_batch_effect:
  assumes "push_batch e bp topic ms tm = (acts, tm')"
  shows "(\<exists>ops. tm' = fold tm_exec ops tm \<and> set ops \<subseteq> range (OpSelect topic)) \<and>
    (\<forall>a \<in> set acts. \<exists>c. a = Send_To c (if bp \<and> length ms > 1 then batch_frame e (map (\<lambda>m. push_of m topic False) ms)
       else push_frame e (push_of (hd ms) topic False)))"
proof -
  let ?f = "if bp \<and> length ms > 1 then batch_frame e (map (\<lambda>m. push_of m topic False) ms)
       else push_frame e (push_of (hd ms) topic False)"
  obtain outs tm2 where p: "push_groups topic (\<lambda>_. ?f) (GetConsumerGroups tm topic) 0 tm = (outs, tm2)" by force
  have "tm' = tm2" and acts: "set acts \<subseteq> {Send_To c ?f | c. True} \<union> set outs"
    using assms p
    by (auto simp: push_batch_def Let_def SendPushMessage_def SendBatchPushMessage_def split: if_splits)
  with push_groups_effect [OF p] show ?thesis
    by blast
qed

lemma push_topics_effect:
  "push_topics e bp xs tm = (acts, tm') \<Longrightarrow>
     (\<exists>ops. tm' = fold tm_exec ops tm \<and> set ops \<subseteq> range (\<lambda>(t, g). OpSelect t g)) \<and>
     (\<forall>a \<in> set acts. \<exists>c topic ms. (topic, ms) \<in> set xs \<and>
        a = Send_To c (if bp \<and> length ms > 1 then batch_frame e (map (\<lambda>m. push_of m topic False) ms)
          else push_frame e (push_of (hd ms) topic False)))"
proof (induction xs arbitrary: tm acts tm')
  case Nil
  then show ?case by (auto intro: exI [of _ "[]"])
next
  case (Cons x xs)
  obtain topic ms where x: "x = (topic, ms)" by force
  obtain a1 tm1 where p: "push_batch e bp topic ms tm = (a1, tm1)" by force
  obtain a2 tm2 where r: "push_topics e bp xs tm1 = (a2, tm2)" by force
  have eqs: "acts = a1 @ a2" "tm' = tm2"
    using Cons.prems p r x by auto
  obtain ops1 where "tm1 = fold tm_exec ops1 tm" "set ops1 \<subseteq> range (OpSelect topic)"
    using push_batch_effect [OF p] by blast
  moreover obtain ops2 where "tm2 = fold tm_exec ops2 tm1" "set ops2 \<subseteq> range (\<lambda>(t, g). OpSelect t g)"
    using Cons.IH [OF r] by blast
  ultimately have "tm' = fold tm_exec (ops1 @ ops2) tm \<and> set (ops1 @ ops2) \<subseteq> range (\<lambda>(t, g). OpSelect t g)"
    using eqs by auto
  moreover have "\<forall>a \<in> set acts. \<exists>c t ms'. (t, ms') \<in> set (x # xs) \<and>
      a = Send_To c (if bp \<and> length ms' > 1 then batch_frame e (map (\<lambda>m. push_of m t False) ms')
          else push_frame e (push_of (hd ms') t False))"
    using push_batch_effect [OF p] Cons.IH [OF r] unfolding eqs x by (simp only: set_append ball_Un list.set) blast
  ultimately show ?case
    by blast
qed

subsection \<open>The operations a frame amounts to\<close>

text \<open>
  \<open>frame_effect\<close>: the configuration stays, the topic manager goes through calls of its operations
  in which only the connection of the frame subscribes, and the duplicate window through marks.
\<close>

definition frame_effect :: "ConnectionId \<Rightarrow> Broker \<Rightarrow> Broker \<Rightarrow> bool" where
  "frame_effect c b b' \<longleftrightarrow> b_config b' = b_config b \<and>
     (\<exists>ops. b_topics b' = fold tm_exec ops (b_topics b) \<and>
        (\<forall>t i g. OpSubscribe t i g \<in> set ops \<longrightarrow> si_conn_id i = c)) \<and>
     (\<exists>ms. b_dedup b' = dw.marks ms (b_dedup b))"

lemma frame_effectI:
  assumes "b_config b' = b_config b" and "b_topics b' = fold tm_exec ops (b_topics b)"
    and "\<And>t i g. OpSubscribe t i g \<in> set ops \<Longrightarrow> si_conn_id i = c"
    and "b_dedup b' = dw.marks ms (b_dedup b)"
  shows "frame_effect c b b'"
  using assms by (auto simp: frame_effect_def)

lemma marks_Nil [simp]: "dw.marks [] w = w"
  by (simp add: dw.marks_def)

lemma frame_effect_same:
  "b_config b' = b_config b \<Longrightarrow> b_topics b' = b_topics b \<Longrightarrow> b_dedup b' = b_dedup b \<Longrightarrow> frame_effect c b b'"
  by (rule frame_effectI [of _ _ "[]" _ "[]"]) simp_all

text \<open>A handler changes nothing of the connection but its limiter.\<close>

definition same_conn :: "Connection \<Rightarrow> Connection \<Rightarrow> bool" where
  "same_conn c c' \<longleftrightarrow> c' = c\<lparr>c_limiter := c_limiter c'\<rparr>"

lemma same_conn_refl [simp]: "same_conn c c"
  by (simp add: same_conn_def)

lemma same_connD: "same_conn c c' \<Longrightarrow> c_id c' = c_id c" "same_conn c c' \<Longrightarrow> c_closed c' = c_closed c"
  by (metis same_conn_def Connection.select_convs Connection.surjective Connection.update_convs(7))+

lemma acquire_conn_id: "acquire_conn e k b conn = (ok, conn') \<Longrightarrow> same_conn conn conn'"
  by (auto simp: acquire_conn_def AcquirePublishPermit_def same_conn_def Let_def split: if_splits prod.splits option.splits)

lemma acquire_global_parts:
  "acquire_global e k b = (ok, b') \<Longrightarrow> b_store b' = b_store b \<and> b_topics b' = b_topics b \<and>
     b_config b' = b_config b \<and> b_dedup b' = b_dedup b"
  by (auto simp: acquire_global_def Let_def split: if_splits prod.splits option.splits)

subsection \<open>Outcomes of the publishing handlers\<close>

definition dup_request :: "Broker \<Rightarrow> PublishRequest \<Rightarrow> bool" where
  "dup_request b req \<longleftrightarrow> dedup_enabled (cm_global_config (b_config b)) \<and> pub_producer_id req \<noteq> [] \<and>
     IsDuplicate (b_dedup b) (pub_producer_id req) (pub_sequence_id req)"

definition ttl_of :: "Broker \<Rightarrow> PublishRequest \<Rightarrow> u32" where
  "ttl_of b req = (if ttl_enabled (cm_global_config (b_config b)) then pub_ttl_ms req else 0)"

definition marked :: "env \<Rightarrow> Broker \<Rightarrow> PublishRequest \<Rightarrow> DedupWindow" where
  "marked e b req = (if dedup_enabled (cm_global_config (b_config b)) \<and> pub_producer_id req \<noteq> []
     then MarkProcessed (pub_producer_id req) (pub_sequence_id req) (e_steady e 3) (b_dedup b) else b_dedup b)"

definition publish_push :: "env \<Rightarrow> PublishRequest \<Rightarrow> MessageId \<Rightarrow> Payload \<times> bool \<Rightarrow> nat \<Rightarrow> PushMessage" where
  "publish_push e req mid pz k = \<lparr>push_message_id = mid, push_topic = pub_topic req, push_payload = fst pz,
     push_timestamp = e_system e (2 + k), push_retry_count = 0, push_compressed = snd pz\<rparr>"

text \<open>\<open>same_but_limits\<close>: nothing but the limiter changed.\<close>

definition same_but_limits :: "Broker \<Rightarrow> Broker \<Rightarrow> bool" where
  "same_but_limits b b' \<longleftrightarrow> b_store b' = b_store b \<and> b_topics b' = b_topics b \<and>
     b_config b' = b_config b \<and> b_dedup b' = b_dedup b"

lemma acquire_global_same: "acquire_global e k b = (ok, b') \<Longrightarrow> same_but_limits b b'"
  by (simp add: acquire_global_parts same_but_limits_def)

lemma broker_payload_same: "same_but_limits b b' \<Longrightarrow> broker_payload e b' req = broker_payload e b req"
  by (simp add: broker_payload_def ShouldCompress_def same_but_limits_def)

text \<open>
  What \<open>HandlePublish\<close> is once a request is parsed, not a duplicate and within the limits.
\<close>

definition publish_admitted :: "env \<Rightarrow> PublishRequest \<Rightarrow> Broker \<Rightarrow> Connection \<Rightarrow> handled" where
  "publish_admitted e req b conn =
     (case Publish (pub_topic req) (fst (broker_payload e b req)) (ttl_of b req) (e_system e 0) (e_system e 1)
         (b_store b) of
        None \<Rightarrow> None
      | Some ((ok, mid), store) \<Rightarrow>
          if \<not> ok then
            Some ((b\<lparr>b_store := store\<rparr>, conn), [SendResponse_code e BufferFull ''Backpressure: buffer full'' 0])
          else
            let mk = (\<lambda>k. push_frame e (publish_push e req mid (broker_payload e b req) k));
                (group_pushes, tm) = push_groups (pub_topic req) mk
                  (GetConsumerGroups (b_topics b) (pub_topic req)) 1 (b_topics b)
            in Some ((b\<lparr>b_store := store, b_topics := tm, b_dedup := marked e b req\<rparr>, conn),
                 map (\<lambda>sub. Send_To (si_conn_id sub) (mk 0)) (GetSubscribers (b_topics b) (pub_topic req)) @
                 group_pushes @ [SendResponse e True [] mid]))"

lemma HandlePublish_admitted:
  assumes "parse_publish (e_pb e) (payload frame) = Some req" and "\<not> dup_request b req"
    and "acquire_conn e 1 b conn = (True, conn1)" and "acquire_global e 1 b = (True, b1)"
  shows "HandlePublish e frame b conn = publish_admitted e req b1 conn1"
proof -
  have same: "b_config b1 = b_config b" "b_dedup b1 = b_dedup b"
    using acquire_global_parts [OF assms(4)] by simp_all
  obtain p z where pz: "broker_payload e b1 req = (p, z)" by force
  have nd: "(dedup_enabled (cm_global_config (b_config b)) \<and> pub_producer_id req \<noteq> [] \<and>
     IsDuplicate (b_dedup b) (pub_producer_id req) (pub_sequence_id req)) = False"
    using assms(2) by (simp add: dup_request_def)
  show ?thesis
    unfolding HandlePublish_def publish_admitted_def Let_def assms(1,3,4) option.case prod.case
      not_True_eq_False if_False pz fst_conv ttl_of_def marked_def publish_push_def snd_conv same nd
    by (rule refl)
qed

lemma HandlePublish_cases [consumes 1, case_names invalid duplicate limited admitted]:
  assumes "HandlePublish e frame b conn = r"
  obtains
    "parse_publish (e_pb e) (payload frame) = None"
    "r = Some ((b, conn), [SendResponse_code e InvalidRequest ''Failed to parse publish request'' 0])"
  | req where "parse_publish (e_pb e) (payload frame) = Some req" "dup_request b req"
    "r = Some ((b, conn), [SendResponse e True [] (pub_sequence_id req)])"
  | req b1 conn1 msg where "parse_publish (e_pb e) (payload frame) = Some req" "\<not> dup_request b req"
    "r = Some ((b1, conn1), [SendResponse_code e RateLimitExceeded msg 0])" "same_but_limits b b1"
    "same_conn conn conn1"
  | req b1 conn1 where "parse_publish (e_pb e) (payload frame) = Some req" "\<not> dup_request b req"
    "same_but_limits b b1" "same_conn conn conn1" "r = publish_admitted e req b1 conn1"
proof (cases "parse_publish (e_pb e) (payload frame)")
  case None
  then show ?thesis using assms that(1) by (simp add: HandlePublish_def)
next
  case (Some req)
  obtain ok1 conn1 where ac: "acquire_conn e 1 b conn = (ok1, conn1)" by force
  obtain ok2 b1 where ag: "acquire_global e 1 b = (ok2, b1)" by force
  note id = acquire_conn_id [OF ac] and same = acquire_global_same [OF ag]
  consider "dup_request b req" | "\<not> dup_request b req" "\<not> ok1" | "\<not> dup_request b req" "ok1" "\<not> ok2"
    | "\<not> dup_request b req" "ok1" "ok2"
    by blast
  then show ?thesis
  proof cases
    case 1
    then have "r = Some ((b, conn), [SendResponse e True [] (pub_sequence_id req)])"
      using assms Some by (simp add: HandlePublish_def Let_def dup_request_def)
    then show ?thesis using that(2) Some 1 by blast
  next
    case 2
    then have "r = Some ((b, conn1), [SendResponse_code e RateLimitExceeded ''Rate limit exceeded'' 0])"
      using assms Some ac by (auto simp: HandlePublish_def Let_def dup_request_def)
    moreover have "same_but_limits b b" by (simp add: same_but_limits_def)
    ultimately show ?thesis using that(3) Some 2(1) id by blast
  next
    case 3
    then have "r = Some ((b1, conn1), [SendResponse_code e RateLimitExceeded ''Global rate limit exceeded'' 0])"
      using assms Some ac ag by (auto simp: HandlePublish_def Let_def dup_request_def)
    then show ?thesis using that(3) Some 3(1) id same by blast
  next
    case 4
    then show ?thesis
      using that(4) [OF Some 4(1) same id] HandlePublish_admitted [OF Some 4(1)] ac ag assms by simp
  qed
qed

definition batch_admitted :: "env \<Rightarrow> PublishRequest list \<Rightarrow> Broker \<Rightarrow> Connection \<Rightarrow> handled" where
  "batch_admitted e msgs b conn =
     (case batch_publish e b msgs 0 (b_store b) of
        None \<Rightarrow> None
      | Some (accepted, store) \<Rightarrow>
          if accepted = [] then
            Some ((b\<lparr>b_store := store\<rparr>, conn), [SendResponse_code e BufferFull ''Backpressure: buffer full'' 0])
          else
            let (outs, tm) = push_topics e (batch_push_enabled (cm_global_config (b_config b)))
                  (group_by_topic accepted) (b_topics b)
            in Some ((b\<lparr>b_store := store, b_topics := tm\<rparr>, conn),
                 outs @ [SendResponse e True [] (sm_id (last accepted))]))"

lemma HandleBatchPublish_admitted:
  assumes "parse_batch_publish (e_pb e) (payload frame) = Some msgs" and "msgs \<noteq> []"
    and "acquire_conn e (of_nat (length msgs)) b conn = (True, conn1)"
    and "acquire_global e (of_nat (length msgs)) b = (True, b1)"
    and "\<not> of_nat (length msgs) > max_batch_size (cm_global_config (b_config b))"
  shows "HandleBatchPublish e frame b conn = batch_admitted e msgs b1 conn1"
proof -
  have cfg: "b_config b1 = b_config b"
    using acquire_global_same [OF assms(4)] by (simp add: same_but_limits_def)
  show ?thesis
    unfolding batch_admitted_def cfg using assms by (simp add: HandleBatchPublish_def Let_def)
qed

lemma HandleBatchPublish_cases [consumes 1, case_names refused admitted]:
  assumes "HandleBatchPublish e frame b conn = r"
  obtains b1 conn1 code msg where "r = Some ((b1, conn1), [SendResponse_code e code msg 0])" "code \<noteq> Success"
    "same_but_limits b b1" "same_conn conn conn1"
  | msgs b1 conn1 where "parse_batch_publish (e_pb e) (payload frame) = Some msgs" "msgs \<noteq> []"
    "same_but_limits b b1" "same_conn conn conn1" "r = batch_admitted e msgs b1 conn1"
proof -
  have same0: "same_but_limits b b" by (simp add: same_but_limits_def)
  show ?thesis
  proof (cases "parse_batch_publish (e_pb e) (payload frame)")
    case None
    then have "r = Some ((b, conn), [SendResponse_code e InvalidRequest ''Failed to parse batch publish request'' 0])"
      using assms by (simp add: HandleBatchPublish_def)
    then show ?thesis by (rule that(1)) (simp_all add: same0)
  next
    case (Some msgs)
    let ?n = "of_nat (length msgs) :: u32"
    obtain ok1 conn1 where ac: "acquire_conn e ?n b conn = (ok1, conn1)" by force
    obtain ok2 b1 where ag: "acquire_global e ?n b = (ok2, b1)" by force
    note id = acquire_conn_id [OF ac] and same = acquire_global_same [OF ag]
    show ?thesis
    proof (cases "msgs = []")
      case True
      then have "r = Some ((b, conn), [SendResponse_code e InvalidRequest ''Empty batch publish request'' 0])"
        using Some assms by (simp add: HandleBatchPublish_def)
      then show ?thesis by (rule that(1)) (simp_all add: same0)
    next
      case ne: False
      show ?thesis
      proof (cases "ok1 \<and> ok2 \<and> \<not> ?n > max_batch_size (cm_global_config (b_config b))")
        case False
        then obtain b2 code msg where "r = Some ((b2, conn1), [SendResponse_code e code msg 0])" "code \<noteq> Success"
          "b2 = b \<or> b2 = b1"
          using Some ne ac ag assms
          by (cases ok1; cases ok2) (auto simp: HandleBatchPublish_def Let_def)
        then show ?thesis
          using that(1) id same same0 by blast
      next
        case True
        then have "r = batch_admitted e msgs b1 conn1"
          using HandleBatchPublish_admitted [OF Some ne] ac ag assms by simp
        then show ?thesis by (rule that(2) [OF Some ne same id])
      qed
    qed
  qed
qed

lemma publish_admitted_SomeE:
  assumes "publish_admitted e req b conn = Some ((b', conn'), acts)"
  obtains mid store where
    "Publish (pub_topic req) (fst (broker_payload e b req)) (ttl_of b req) (e_system e 0) (e_system e 1) (b_store b)
       = Some ((False, mid), store)"
    "b' = b\<lparr>b_store := store\<rparr>" "conn' = conn"
    "acts = [SendResponse_code e BufferFull ''Backpressure: buffer full'' 0]"
  | mid store group_pushes tm where
    "Publish (pub_topic req) (fst (broker_payload e b req)) (ttl_of b req) (e_system e 0) (e_system e 1) (b_store b)
       = Some ((True, mid), store)"
    "push_groups (pub_topic req) (\<lambda>k. push_frame e (publish_push e req mid (broker_payload e b req) k))
       (GetConsumerGroups (b_topics b) (pub_topic req)) 1 (b_topics b) = (group_pushes, tm)"
    "b' = b\<lparr>b_store := store, b_topics := tm, b_dedup := marked e b req\<rparr>" "conn' = conn"
    "acts = map (\<lambda>sub. Send_To (si_conn_id sub) (push_frame e (publish_push e req mid (broker_payload e b req) 0)))
       (GetSubscribers (b_topics b) (pub_topic req)) @ group_pushes @ [SendResponse e True [] mid]"
  using assms
  by (auto simp: publish_admitted_def Let_def split: option.splits prod.splits if_splits)

lemma batch_admitted_SomeE:
  assumes "batch_admitted e msgs b conn = Some ((b', conn'), acts)"
  obtains store where "batch_publish e b msgs 0 (b_store b) = Some ([], store)"
    "b' = b\<lparr>b_store := store\<rparr>" "conn' = conn"
    "acts = [SendResponse_code e BufferFull ''Backpressure: buffer full'' 0]"
  | accepted store outs tm where "batch_publish e b msgs 0 (b_store b) = Some (accepted, store)" "accepted \<noteq> []"
    "push_topics e (batch_push_enabled (cm_global_config (b_config b))) (group_by_topic accepted) (b_topics b) = (outs, tm)"
    "b' = b\<lparr>b_store := store, b_topics := tm\<rparr>" "conn' = conn"
    "acts = outs @ [SendResponse e True [] (sm_id (last accepted))]"
  using assms
  by (auto simp: batch_admitted_def Let_def split: option.splits prod.splits if_splits)

subsection \<open>The effect of a frame\<close>

lemma select_ops_subscribe:
  "set ops \<subseteq> range (OpSelect topic) \<Longrightarrow> OpSubscribe t i g \<notin> set ops"
  "set ops \<subseteq> range (\<lambda>(t, g). OpSelect t g) \<Longrightarrow> OpSubscribe t i g \<notin> set ops"
  by auto

lemma marked_marks: "\<exists>ms. marked e b req = dw.marks ms (b_dedup b)"
  by (rule exI [of _ "if dedup_enabled (cm_global_config (b_config b)) \<and> pub_producer_id req \<noteq> []
    then [(pub_producer_id req, pub_sequence_id req, e_steady e 3)] else []"])
    (simp add: marked_def dw.marks_def)

lemma HandlePublish_effect:
  assumes "HandlePublish e frame b conn = Some ((b', conn'), acts)"
  shows "frame_effect (c_id conn) b b' \<and> same_conn conn conn'"
  using assms
proof (cases rule: HandlePublish_cases)
  case (admitted req b1 conn1)
  note same = admitted(3) [unfolded same_but_limits_def]
  from admitted(5) [symmetric] show ?thesis
  proof (cases rule: publish_admitted_SomeE)
    case 1
    then show ?thesis using same admitted(4) by (simp add: frame_effect_same)
  next
    case (2 mid store gp tm)
    obtain ops where ops: "tm = fold tm_exec ops (b_topics b1)" "set ops \<subseteq> range (OpSelect (pub_topic req))"
      using push_groups_effect [OF 2(2)] by blast
    have "\<exists>ms. marked e b1 req = dw.marks ms (b_dedup b)"
      using marked_marks [of e b1 req] same by auto
    then obtain ms where "marked e b1 req = dw.marks ms (b_dedup b)" by blast
    then have "frame_effect (c_id conn) b b'"
      using 2(3) same ops by (intro frame_effectI [of _ _ ops _ ms]) (auto simp: select_ops_subscribe)
    then show ?thesis using 2(4) admitted(4) by simp
  qed
qed (auto simp: same_but_limits_def frame_effect_same)

lemma HandleBatchPublish_effect:
  assumes "HandleBatchPublish e frame b conn = Some ((b', conn'), acts)"
  shows "frame_effect (c_id conn) b b' \<and> same_conn conn conn'"
  using assms
proof (cases rule: HandleBatchPublish_cases)
  case (admitted msgs b1 conn1)
  note same = admitted(3) [unfolded same_but_limits_def]
  from admitted(5) [symmetric] show ?thesis
  proof (cases rule: batch_admitted_SomeE)
    case 1
    then show ?thesis using same admitted(4) by (simp add: frame_effect_same)
  next
    case (2 accepted store outs tm)
    obtain ops where ops: "tm = fold tm_exec ops (b_topics b1)" "set ops \<subseteq> range (\<lambda>(t, g). OpSelect t g)"
      using push_topics_effect [OF 2(3)] by blast
    have "frame_effect (c_id conn) b b'"
      using 2(4) same ops by (intro frame_effectI [of _ _ ops _ "[]"]) (auto simp: select_ops_subscribe)
    then show ?thesis using 2(5) admitted(4) by simp
  qed
qed (auto simp: same_but_limits_def frame_effect_same)

lemma HandleSubscribe_effect:
  assumes "HandleSubscribe e frame b conn = Some ((b', conn'), acts)"
  shows "frame_effect (c_id conn) b b' \<and> same_conn conn conn'"
proof (cases "parse_subscribe (e_pb e) (payload frame)")
  case None
  then show ?thesis using assms by (auto simp: HandleSubscribe_def frame_effect_same)
next
  case (Some req)
  let ?op = "OpSubscribe (subr_topic req) \<lparr>si_id = subr_subscriber_id req, si_conn_id = c_id conn\<rparr> (subr_group_id req)"
  have "b_config b' = b_config b" "b_topics b' = tm_exec ?op (b_topics b)" "b_dedup b' = b_dedup b" "conn' = conn"
    using assms Some by (auto simp: HandleSubscribe_def Let_def case_prod_unfold split: if_splits option.splits)
  then show ?thesis
    by (intro conjI frame_effectI [of _ _ "[?op]" _ "[]"]) auto
qed

lemma HandleUnsubscribe_effect:
  assumes "HandleUnsubscribe e frame b conn = Some ((b', conn'), acts)"
  shows "frame_effect (c_id conn) b b' \<and> same_conn conn conn'"
proof (cases "parse_unsubscribe (e_pb e) (payload frame)")
  case None
  then show ?thesis using assms by (auto simp: HandleUnsubscribe_def frame_effect_same)
next
  case (Some req)
  let ?op = "OpUnsubscribe (unsub_topic req) (unsub_subscriber_id req) (unsub_group_id req)"
  have "b_config b' = b_config b" "b_topics b' = tm_exec ?op (b_topics b)" "b_dedup b' = b_dedup b" "conn' = conn"
    using assms Some by (auto simp: HandleUnsubscribe_def Let_def case_prod_unfold)
  then show ?thesis
    by (intro conjI frame_effectI [of _ _ "[?op]" _ "[]"]) auto
qed

lemma HandleAdmin_effect:
  assumes "HandleAdmin e frame b conn = Some ((b', conn'), acts)"
  shows "frame_effect (c_id conn) b b' \<and> same_conn conn conn'"
proof (cases "\<exists>req. parse_admin (e_pb e) (payload frame) = Some req \<and> admin_command req = ADMIN_DELETE_TOPIC \<and> admin_topic req \<noteq> []")
  case True
  then obtain req where req: "parse_admin (e_pb e) (payload frame) = Some req" "admin_command req = ADMIN_DELETE_TOPIC"
    "admin_topic req \<noteq> []" by blast
  then have "b_config b' = b_config b" "b_topics b' = tm_exec (OpUnregister (admin_topic req)) (b_topics b)"
    "b_dedup b' = b_dedup b" "conn' = conn"
    using assms by (auto simp: HandleAdmin_def Let_def case_prod_unfold)
  then show ?thesis
    by (intro conjI frame_effectI [of _ _ "[OpUnregister (admin_topic req)]" _ "[]"]) auto
next
  case False
  then have "b_config b' = b_config b" "b_topics b' = b_topics b" "b_dedup b' = b_dedup b" "conn' = conn"
    using assms by (auto simp: HandleAdmin_def Let_def split: option.splits AdminCommandType.splits if_splits)
  then show ?thesis by (simp add: frame_effect_same)
qed

lemma quiet_effect:
  "HandlePull e frame b conn = Some ((b', conn'), acts) \<Longrightarrow> frame_effect (c_id conn) b b' \<and> same_conn conn conn'"
  "HandleAck e frame b conn = Some ((b', conn'), acts) \<Longrightarrow> frame_effect (c_id conn) b b' \<and> same_conn conn conn'"
  "HandlePing e frame b conn = Some ((b', conn'), acts) \<Longrightarrow> frame_effect (c_id conn) b b' \<and> same_conn conn conn'"
  by (auto simp: HandlePull_def HandleAck_def HandlePing_def Let_def frame_effect_same split: option.splits prod.splits)

lemmas handler_effects = HandlePublish_effect HandleBatchPublish_effect HandleSubscribe_effect
  HandleUnsubscribe_effect HandleAdmin_effect quiet_effect

lemma OnFrameReceived_effect:
  assumes "OnFrameReceived e frame b conn = Some ((b', conn'), acts)"
  shows "frame_effect (c_id conn) b b' \<and> same_conn conn conn'"
  using assms handler_effects [of e frame b conn b' conn' acts] frame_effect_same [of b b]
  unfolding OnFrameReceived_def Let_def by (auto split: if_splits)

end
