(* ===== verification/Broker_Props.thy ===== *)
theory Broker_Props
  imports Broker_Facts
begin

text \<open>
  The broker as a whole: sequences of frames, local publishes, closed connections and background
  rounds; what it guarantees of them.
\<close>

subsection \<open>Executions\<close>

datatype broker_op =
    BFrame env Frame Connection
  | BLocal TopicName Payload u64 u64
  | BClosed ConnectionId
  | BRetry "TopicName \<Rightarrow> time_point" "TopicName \<Rightarrow> u64"
  | BExpire "TopicName \<Rightarrow> u64"

fun broker_exec :: "broker_op \<Rightarrow> Broker \<Rightarrow> (action list \<times> Broker) option" where
  "broker_exec (BFrame e frame conn) b =
     (case OnFrameReceived e frame b conn of None \<Rightarrow> None | Some ((b', conn'), acts) \<Rightarrow> Some (acts, b'))"
| "broker_exec (BLocal t p ne ts) b =
     (case PublishLocal t p ne ts b of None \<Rightarrow> None | Some (ok, b') \<Rightarrow> Some ([], b'))"
| "broker_exec (BClosed c) b = Some ([], OnConnectionClosed c b)"
| "broker_exec (BRetry now now_ms) b = Some ([], b\<lparr>b_store := RetryLoop_round now now_ms (b_store b)\<rparr>)"
| "broker_exec (BExpire now_ms) b = Some ([], b\<lparr>b_store := ExpirationLoop_round now_ms (b_store b)\<rparr>)"

fun broker_run :: "broker_op list \<Rightarrow> Broker \<Rightarrow> ((broker_op \<times> action list) list \<times> Broker) option" where
  "broker_run [] b = Some ([], b)"
| "broker_run (x # xs) b =
     (case broker_exec x b of
        None \<Rightarrow> None
      | Some (acts, b1) \<Rightarrow>
          (case broker_run xs b1 of
             None \<Rightarrow> None
           | Some (trace, b2) \<Rightarrow> Some ((x, acts) # trace, b2)))"

text \<open>The publish requests a frame carries, and the payloads that they may be stored as.\<close>

definition requests :: "env \<Rightarrow> Frame \<Rightarrow> PublishRequest list" where
  "requests e f =
     (if msg_type f = FMT_Publish then
        (case parse_publish (e_pb e) (payload f) of None \<Rightarrow> [] | Some r \<Rightarrow> [r])
      else if msg_type f = FMT_BatchPublish then
        (case parse_batch_publish (e_pb e) (payload f) of None \<Rightarrow> [] | Some rs \<Rightarrow> rs)
      else [])"

definition storable :: "env \<Rightarrow> PublishRequest \<Rightarrow> (TopicName \<times> Payload) set" where
  "storable e r = {(pub_topic r, pub_payload r), (pub_topic r, Compress (e_compress2 e) (pub_payload r))}"

fun offered :: "broker_op \<Rightarrow> (TopicName \<times> Payload) set" where
  "offered (BFrame e f conn) = (\<Union>r \<in> set (requests e f). storable e r)"
| "offered (BLocal t p ne ts) = {(t, p)}"
| "offered _ = {}"

fun op_messages :: "broker_op \<Rightarrow> nat" where
  "op_messages (BFrame e f conn) = length (requests e f)"
| "op_messages (BLocal t p ne ts) = 1"
| "op_messages _ = 0"

text \<open>A frame that goes out carries no message outside \<open>S\<close>.\<close>

definition carries_only :: "(TopicName \<times> Payload) set \<Rightarrow> env \<Rightarrow> action \<Rightarrow> bool" where
  "carries_only S e a \<longleftrightarrow> \<not> is_push a \<or>
     (\<exists>m. frame_sent a = push_frame e m \<and> (push_topic m, push_payload m) \<in> S) \<or>
     (\<exists>ms. frame_sent a = batch_frame e ms \<and> (\<forall>m \<in> set ms. (push_topic m, push_payload m) \<in> S))"

definition only_from :: "(TopicName \<times> Payload) set \<Rightarrow> history" where
  "only_from S t = {c. (t, fst (snd c)) \<in> S}"

text \<open>
  \<open>served\<close>: a handler returned, the store kept its invariant for a history that stays in \<open>S\<close>, and so
  did everything that went out.
\<close>

definition served :: "(TopicName \<times> Payload) set \<Rightarrow> nat \<Rightarrow> env \<Rightarrow> handled \<Rightarrow> bool" where
  "served S n e r \<longleftrightarrow> (case r of None \<Rightarrow> False | Some ((b', conn'), acts) \<Rightarrow>
     store_inv (only_from S) n (b_store b') \<and> (\<forall>a \<in> set acts. carries_only S e a))"

lemma servedI:
  "r = Some ((b', conn'), acts) \<Longrightarrow> store_inv (only_from S) n (b_store b') \<Longrightarrow>
     (\<And>a. a \<in> set acts \<Longrightarrow> carries_only S e a) \<Longrightarrow> served S n e r"
  by (simp add: served_def)

lemma carries_answer [simp]:
  "carries_only S e (SendResponse e' ok msg i)" "carries_only S e (SendResponse_code e' code msg i)"
  "carries_only S e (SendAdminResponse e' ok msg j)" "carries_only S e (Reply (default_Frame\<lparr>msg_type := FMT_Pong\<rparr>))"
  by (simp_all add: carries_only_def is_push_def SendResponse_def SendResponse_code_def SendAdminResponse_def FMT_defs)

lemma carries_push:
  "frame_sent a = push_frame e m \<Longrightarrow> (push_topic m, push_payload m) \<in> S \<Longrightarrow> carries_only S e a"
  by (auto simp: carries_only_def)

lemma carries_batch:
  "frame_sent a = batch_frame e ms \<Longrightarrow> (\<And>m. m \<in> set ms \<Longrightarrow> (push_topic m, push_payload m) \<in> S) \<Longrightarrow> carries_only S e a"
  by (auto simp: carries_only_def)

lemma only_from_extend:
  "\<forall>(t, c) \<in> set ps. (t, fst (snd c)) \<in> S \<Longrightarrow> Message_Store_Inv.extend (only_from S) ps = only_from S"
  by (auto simp: Message_Store_Inv.extend_def only_from_def fun_eq_iff)

lemma Publish_only:
  assumes "store_inv (only_from S) n s" and "n + 2 < 2 ^ 64" and "(t, p) \<in> S"
  obtains ok mid s' where "Publish t p ttl_ms ne ts s = Some ((ok, mid), s')"
    and "store_inv (only_from S) (n + 1) s'"
proof -
  obtain ok mid s' where 1: "Publish t p ttl_ms ne ts s = Some ((ok, mid), s')"
    and 2: "step_good (only_from S) (n + 1) s
      ([], if ok then [(t, mid, p, ts, if ttl_ms > 0 then ne + ucast ttl_ms else 0)] else []) s'"
    by (rule Publish_good [OF assms(1,2)])
  have "store_inv (only_from S) (n + 1) s'"
    using 2 assms(3) by (simp add: step_good_def only_from_extend split: if_splits)
  with 1 show ?thesis by (rule that)
qed

lemma broker_payload_storable: "(pub_topic req, fst (broker_payload e b req)) \<in> storable e req"
  by (simp add: broker_payload_def storable_def Let_def)

lemma publish_admitted_None:
  "publish_admitted e req b conn = None \<longleftrightarrow>
     Publish (pub_topic req) (fst (broker_payload e b req)) (ttl_of b req) (e_system e 0) (e_system e 1) (b_store b) = None"
  by (simp add: publish_admitted_def Let_def split: option.split prod.split)

lemma HandlePublish_served:
  assumes "store_inv (only_from S) n (b_store b)" and "n + 2 < 2 ^ 64"
    and "\<And>req. parse_publish (e_pb e) (payload f) = Some req \<Longrightarrow> storable e req \<subseteq> S"
  shows "served S (n + 1) e (HandlePublish e f b conn)"
proof -
  have keep: "store_inv (only_from S) (Suc n) (b_store b)"
    using assms(1) by (rule store_inv_mono) simp_all
  show ?thesis
  proof (cases rule: HandlePublish_cases [of e f b conn, OF refl])
    case (4 req b1 conn1)
    let ?pz = "broker_payload e b1 req"
    have S: "(pub_topic req, fst ?pz) \<in> S"
      using assms(3) [OF 4(1)] broker_payload_storable by blast
    have "store_inv (only_from S) n (b_store b1)"
      using assms(1) 4(3) by (simp add: same_but_limits_def)
    then obtain ok mid s' where pub: "Publish (pub_topic req) (fst ?pz) (ttl_of b1 req) (e_system e 0) (e_system e 1) (b_store b1)
        = Some ((ok, mid), s')" and inv: "store_inv (only_from S) (n + 1) s'"
      using Publish_only [OF _ assms(2) S] by metis
    obtain b' conn' acts where r: "publish_admitted e req b1 conn1 = Some ((b', conn'), acts)"
      using pub publish_admitted_None [of e req b1 conn1] by (cases "publish_admitted e req b1 conn1") auto
    have push: "carries_only S e (Send_To c (push_frame e (publish_push e req mid' ?pz k)))" for c mid' k
      by (rule carries_push [of _ _ "publish_push e req mid' ?pz k"]) (simp_all add: publish_push_def S)
    from r have "served S (n + 1) e (publish_admitted e req b1 conn1)"
    proof (cases rule: publish_admitted_SomeE)
      case (1 m st)
      then show ?thesis using r inv pub by (intro servedI) auto
    next
      case (2 m st gp tm)
      have "\<forall>a \<in> set gp. carries_only S e a"
        using conjunct2 [OF push_groups_effect [OF 2(2)]] push by fastforce
      then show ?thesis
        using r 2 inv pub push by (intro servedI [OF r]) auto
    qed
    then show ?thesis using 4(5) by simp
  qed (auto simp: served_def keep same_but_limits_def)
qed

lemma batch_publish_served:
  assumes "store_inv (only_from S) n s" and "n + length msgs + 1 < 2 ^ 64"
    and "\<And>req. req \<in> set msgs \<Longrightarrow> storable e req \<subseteq> S"
  shows "\<exists>accepted s'. batch_publish e b msgs k s = Some (accepted, s') \<and>
    store_inv (only_from S) (n + length msgs) s' \<and>
    (\<forall>m \<in> set accepted. (sm_topic_name m, sm_payload m) \<in> S)"
  using assms
proof (induction msgs arbitrary: n s k)
  case (Cons req msgs)
  obtain p z where pz: "broker_payload e b req = (p, z)" by force
  have S: "(pub_topic req, p) \<in> S"
    using Cons.prems(3) [of req] broker_payload_storable [of req e b] pz by auto
  have n: "n + 2 < 2 ^ 64" "(n + 1) + length msgs + 1 < 2 ^ 64" using Cons.prems(2) by simp_all
  obtain ok mid s1 where pub: "Publish (pub_topic req) p
      (if ttl_enabled (cm_global_config (b_config b)) then pub_ttl_ms req else 0)
      (e_system e (3 * k)) (e_system e (3 * k + 1)) s = Some ((ok, mid), s1)"
    and inv: "store_inv (only_from S) (n + 1) s1"
    using Publish_only [OF Cons.prems(1) n(1) S] by metis
  obtain accepted s' where rest: "batch_publish e b msgs (Suc k) s1 = Some (accepted, s')"
    "store_inv (only_from S) (n + 1 + length msgs) s'" "\<forall>m \<in> set accepted. (sm_topic_name m, sm_payload m) \<in> S"
    using Cons.IH [OF inv n(2), of "Suc k"] Cons.prems(3) by auto
  then show ?case
    using pub pz S by (auto simp: Let_def)
qed simp

lemma group_by_topic_find:
  "um_find (group_by_topic ms) t = (let l = filter (\<lambda>m. sm_topic_name m = t) ms in if l = [] then None else Some l)"
  "um_wf (group_by_topic ms)"
proof -
  let ?g = "\<lambda>msg m. um_put (sm_topic_name msg) (um_at [] m (sm_topic_name msg) @ [msg]) m"
  have find: "um_find (fold ?g ms m) t = (let l = filter (\<lambda>m. sm_topic_name m = t) ms in
      if l = [] then um_find m t else Some (um_at [] m t @ l))" for m
    by (induction ms arbitrary: m) (auto simp: Let_def)
  show "um_find (group_by_topic ms) t = (let l = filter (\<lambda>m. sm_topic_name m = t) ms in if l = [] then None else Some l)"
    unfolding group_by_topic_def find by (simp add: Let_def)
  have "um_wf m \<Longrightarrow> um_wf (fold ?g ms m)" for m
    by (induction ms arbitrary: m) (auto simp: um.wf_put)
  then show "um_wf (group_by_topic ms)"
    by (simp add: group_by_topic_def)
qed

lemma group_by_topic_entry:
  "(t, l) \<in> set (group_by_topic ms) \<longleftrightarrow> l = filter (\<lambda>m. sm_topic_name m = t) ms \<and> l \<noteq> []"
  using um_find_Some_iff [OF group_by_topic_find(2), of ms t l] group_by_topic_find(1) [of ms t]
  by (auto simp: Let_def split: if_splits)

lemma push_topics_carries:
  assumes "push_topics e batch_push (group_by_topic acc) tm = (outs, tm')"
    and S: "\<forall>m \<in> set acc. (sm_topic_name m, sm_payload m) \<in> S" and a: "a \<in> set outs"
  shows "carries_only S e a"
proof -
  obtain c t l where tl: "(t, l) \<in> set (group_by_topic acc)"
    and a: "a = Send_To c (if batch_push \<and> length l > 1 then batch_frame e (map (\<lambda>m. push_of m t False) l)
      else push_frame e (push_of (hd l) t False))"
    using conjunct2 [OF push_topics_effect [OF assms(1)]] a by fastforce
  have l: "(t, sm_payload m) \<in> S" if "m \<in> set l" for m
    using tl that S by (auto simp: group_by_topic_entry)
  have "hd l \<in> set l"
    using tl hd_in_set group_by_topic_entry by metis
  then have "(push_topic (push_of (hd l) t False), push_payload (push_of (hd l) t False)) \<in> S"
    using l by (simp add: push_of_def)
  moreover have "(push_topic m, push_payload m) \<in> S" if "m \<in> set (map (\<lambda>m. push_of m t False) l)" for m
    using l that by (auto simp: push_of_def)
  ultimately show ?thesis
    unfolding a carries_only_def frame_sent.simps by (simp only: if_distrib split: if_split) blast
qed

lemma HandleBatchPublish_served:
  assumes "store_inv (only_from S) n (b_store b)"
    and "\<And>msgs. parse_batch_publish (e_pb e) (payload f) = Some msgs \<Longrightarrow>
      length msgs \<le> w \<and> (\<forall>req \<in> set msgs. storable e req \<subseteq> S)"
    and "n + w + 1 < 2 ^ 64"
  shows "served S (n + w) e (HandleBatchPublish e f b conn)"
proof -
  have keep: "store_inv (only_from S) (n + w) (b_store b)"
    using assms(1) by (rule store_inv_mono) simp_all
  show ?thesis
  proof (cases rule: HandleBatchPublish_cases [of e f b conn, OF refl])
    case (2 msgs b1 conn1)
    have "store_inv (only_from S) n (b_store b1)" "n + length msgs + 1 < 2 ^ 64"
      using assms 2(1,3) by (auto simp: same_but_limits_def)
    then obtain acc store where pub: "batch_publish e b1 msgs 0 (b_store b1) = Some (acc, store)"
      and inv': "store_inv (only_from S) (n + length msgs) store"
      and S: "\<forall>m \<in> set acc. (sm_topic_name m, sm_payload m) \<in> S"
      using batch_publish_served [of S n "b_store b1" msgs e b1 0] assms(2) [OF 2(1)] by blast
    have inv: "store_inv (only_from S) (n + w) store"
      using inv' by (rule store_inv_mono) (use assms(2) [OF 2(1)] in simp_all)
    obtain b' conn' acts where r: "batch_admitted e msgs b1 conn1 = Some ((b', conn'), acts)"
      using pub by (cases "batch_admitted e msgs b1 conn1")
        (auto simp: batch_admitted_def Let_def split: if_splits prod.splits)
    then have "served S (n + w) e (batch_admitted e msgs b1 conn1)"
    proof (cases rule: batch_admitted_SomeE)
      case (1 st)
      then show ?thesis using r inv pub by (intro servedI) auto
    next
      case (2 acc' st outs tm)
      then have "carries_only S e a" if "a \<in> set outs" for a
        using push_topics_carries [OF _ S that] pub by simp
      then show ?thesis
        using 2 inv pub by (intro servedI [OF r]) auto
    qed
    then show ?thesis using 2(5) by simp
  qed (auto simp: served_def keep same_but_limits_def)
qed

lemma HandlePull_served:
  assumes inv: "store_inv (only_from S) n (b_store b)"
  shows "served S n e (HandlePull e f b conn)"
proof (cases "parse_pull (e_pb e) (payload f)")
  case None
  then show ?thesis using inv by (simp add: HandlePull_def served_def)
next
  case (Some req)
  let ?c = "if pull_group_id req \<noteq> [] then pull_group_id req else pull_subscriber_id req"
  obtain res s' where pull: "Pull (pull_topic_name req) ?c (pull_max_messages req) (pull_group_id req \<noteq> [])
      (e_system e 0) (e_pulls e) (b_store b) = Some (res, s')"
    and good: "step_good (only_from S) n (b_store b) (map (Pair (pull_topic_name req)) res, []) s'"
    by (rule Pull_good [OF inv])
  have inv': "store_inv (only_from S) n s'"
    using good by (simp add: step_good_def)
  have S: "(pull_topic_name req, sm_payload m) \<in> S" if "m \<in> set res" for m
    using good that by (force simp: step_good_def only_from_def core_def)
  have "carries_only S e (Reply (push_frame e (push_of m (pull_topic_name req) False)))" if "m \<in> set res" for m
    using S [OF that] by (intro carries_push [of _ _ "push_of m (pull_topic_name req) False"]) (simp_all add: push_of_def)
  moreover have "carries_only S e (Reply (batch_frame e (map (\<lambda>m. push_of m (pull_topic_name req) False) res)))"
    using S by (intro carries_batch [of _ _ "map (\<lambda>m. push_of m (pull_topic_name req) False) res"])
      (auto simp: push_of_def)
  ultimately show ?thesis
    using Some pull inv' by (auto simp: HandlePull_def Let_def served_def SendPushMessage_def SendBatchPushMessage_def)
qed

lemma HandleSubscribe_served:
  assumes inv: "store_inv (only_from S) n (b_store b)"
  shows "served S n e (HandleSubscribe e f b conn)"
proof (cases "parse_subscribe (e_pb e) (payload f)")
  case None
  then show ?thesis using inv by (simp add: HandleSubscribe_def served_def)
next
  case (Some req)
  obtain ok s' where "CreateTopic (subr_topic req) (b_store b) = Some (ok, s')" "store_inv (only_from S) n s'"
    using CreateTopic_good [OF inv] by metis
  then show ?thesis
    using Some inv by (auto simp: HandleSubscribe_def Let_def served_def split: prod.split)
qed

lemma HandleAdmin_served:
  assumes inv: "store_inv (only_from S) n (b_store b)"
  shows "served S n e (HandleAdmin e f b conn)"
proof (cases "parse_admin (e_pb e) (payload f)")
  case None
  then show ?thesis using inv by (simp add: HandleAdmin_def served_def)
next
  case (Some req)
  let ?t = "admin_topic req"
  have del: "store_inv (only_from S) n (snd (DeleteTopic ?t (b_store b)))"
    using DeleteTopic_inv [OF inv] by simp
  obtain ok s' where "CreateTopic ?t (snd (DeleteTopic ?t (b_store b))) = Some (ok, s')" "store_inv (only_from S) n s'"
    using CreateTopic_good [OF del] by metis
  then show ?thesis
    using Some inv del
    by (cases "admin_command req") (auto simp: HandleAdmin_def Let_def served_def case_prod_unfold)
qed

lemma HandleAck_served:
  assumes inv: "store_inv (only_from S) n (b_store b)"
  shows "served S n e (HandleAck e f b conn)"
  using Ack_inv [OF inv] inv
  by (auto simp: HandleAck_def Let_def served_def case_prod_unfold split: option.split)

lemma HandleUnsubscribe_served:
  assumes "store_inv (only_from S) n (b_store b)"
  shows "served S n e (HandleUnsubscribe e f b conn)"
  using assms by (auto simp: HandleUnsubscribe_def Let_def served_def case_prod_unfold split: option.split)

lemma HandlePing_served:
  assumes "store_inv (only_from S) n (b_store b)"
  shows "served S n e (HandlePing e f b conn)"
  using assms by (simp add: HandlePing_def served_def)

lemmas quiet_served = HandlePull_served HandleSubscribe_served HandleAdmin_served HandleAck_served
  HandleUnsubscribe_served HandlePing_served

lemma served_mono: "served S n e r \<Longrightarrow> n \<le> n' \<Longrightarrow> served S n' e r"
  by (auto simp: served_def split: option.splits intro: store_inv_mono)

lemma OnFrameReceived_served:
  assumes inv: "store_inv (only_from S) n (b_store b)"
    and "n + length (requests e f) + 1 < 2 ^ 64" and "\<And>req. req \<in> set (requests e f) \<Longrightarrow> storable e req \<subseteq> S"
  shows "served S (n + length (requests e f)) e (OnFrameReceived e f b conn)"
proof -
  have mono: "served S n e r \<Longrightarrow> served S (n + length (requests e f)) e r" for r
    by (erule served_mono) simp
  have same: "served S n e (Some ((b, conn), [SendResponse_code e code msg i]))" "served S n e (Some ((b, conn), []))"
    for code msg i using inv by (simp_all add: served_def)
  show ?thesis
  proof (cases "msg_type f = FMT_Publish")
    case True
    then have r: "requests e f = (case parse_publish (e_pb e) (payload f) of None \<Rightarrow> [] | Some r \<Rightarrow> [r])"
      and o: "OnFrameReceived e f b conn = HandlePublish e f b conn"
      by (simp_all add: requests_def OnFrameReceived_def Let_def)
    show ?thesis
    proof (cases "parse_publish (e_pb e) (payload f)")
      case None
      then show ?thesis
        using inv by (simp add: r o HandlePublish_def served_def)
    next
      case (Some req)
      then show ?thesis
        using HandlePublish_served [OF inv, of e f conn] assms(2,3) by (simp add: r o)
    qed
  next
    case np: False
    show ?thesis
    proof (cases "msg_type f = FMT_BatchPublish")
      case True
      then have r: "requests e f = (case parse_batch_publish (e_pb e) (payload f) of None \<Rightarrow> [] | Some rs \<Rightarrow> rs)"
        by (simp add: requests_def FMT_defs)
      have "served S (n + length (requests e f)) e (HandleBatchPublish e f b conn)"
        using assms(2,3) by (intro HandleBatchPublish_served [OF inv]) (simp_all add: r)
      then show ?thesis
        using mono [OF same(1)] True by (simp add: OnFrameReceived_def Let_def FMT_defs)
    next
      case False
      then show ?thesis
        using np same quiet_served [OF inv]
        by (intro mono) (simp add: OnFrameReceived_def Let_def del: One_nat_def)
    qed
  qed
qed

subsection \<open>Safety of every execution\<close>

lemma broker_exec_served:
  assumes inv: "store_inv (only_from S) n (b_store b)" and "n + op_messages x + 1 < 2 ^ 64" and "offered x \<subseteq> S"
  shows "\<exists>acts b'. broker_exec x b = Some (acts, b') \<and> store_inv (only_from S) (n + op_messages x) (b_store b') \<and>
    (\<forall>e f conn. x = BFrame e f conn \<longrightarrow> (\<forall>a \<in> set acts. carries_only S e a))"
proof (cases x)
  case (BFrame e f conn)
  have "served S (n + length (requests e f)) e (OnFrameReceived e f b conn)"
    using assms(2,3) BFrame by (intro OnFrameReceived_served [OF inv]) auto
  then show ?thesis
    using BFrame by (auto simp: served_def split: option.splits)
next
  case (BLocal t p ne ts)
  obtain ok mid s' where "Publish t p 0 ne ts (b_store b) = Some ((ok, mid), s')" "store_inv (only_from S) (n + 1) s'"
    using Publish_only [OF inv, of t p 0 ne ts] assms(2,3) BLocal by auto
  then show ?thesis
    using BLocal by (simp add: PublishLocal_def)
next
  case (BRetry now now_ms)
  have "store_inv (only_from S) n (RetryLoop_round now now_ms (b_store b))"
    unfolding RetryLoop_round_def using retry_round_inv [OF inv] by simp
  then show ?thesis using BRetry by simp
next
  case (BExpire now_ms)
  then show ?thesis using ExpirationLoop_inv [OF inv] by simp
qed (use inv in \<open>simp add: OnConnectionClosed_def\<close>)

lemma broker_run_served:
  assumes "store_inv (only_from S) n (b_store b)" and "n + sum_list (map op_messages xs) + 1 < 2 ^ 64"
    and "\<forall>x \<in> set xs. offered x \<subseteq> S"
  shows "\<exists>trace b'. broker_run xs b = Some (trace, b') \<and>
    store_inv (only_from S) (n + sum_list (map op_messages xs)) (b_store b') \<and>
    (\<forall>e f conn acts. (BFrame e f conn, acts) \<in> set trace \<longrightarrow> (\<forall>a \<in> set acts. carries_only S e a))"
  using assms
proof (induction xs arbitrary: n b)
  case (Cons x xs)
  have n: "n + op_messages x + 1 < 2 ^ 64" "(n + op_messages x) + sum_list (map op_messages xs) + 1 < 2 ^ 64"
    using Cons.prems(2) by simp_all
  have "offered x \<subseteq> S" "\<forall>x \<in> set xs. offered x \<subseteq> S"
    using Cons.prems(3) by simp_all
  then obtain acts b1 where x: "broker_exec x b = Some (acts, b1)"
    "store_inv (only_from S) (n + op_messages x) (b_store b1)"
    "\<forall>e f conn. x = BFrame e f conn \<longrightarrow> (\<forall>a \<in> set acts. carries_only S e a)"
    using broker_exec_served [OF Cons.prems(1) n(1)] by blast
  obtain trace b2 where xs: "broker_run xs b1 = Some (trace, b2)"
    "store_inv (only_from S) ((n + op_messages x) + sum_list (map op_messages xs)) (b_store b2)"
    "\<forall>e f conn acts. (BFrame e f conn, acts) \<in> set trace \<longrightarrow> (\<forall>a \<in> set acts. carries_only S e a)"
    using Cons.IH [OF x(2) n(2) \<open>\<forall>x \<in> set xs. offered x \<subseteq> S\<close>] by blast
  show ?case
    using x xs by (auto simp: add.assoc)
qed simp

lemma OnConnectionClosed_topics:
  "b_topics (OnConnectionClosed c b) = fold tm_exec [OpDrop c] (b_topics b)"
  by (simp add: OnConnectionClosed_def)

lemma frame_effect_inv: "frame_effect c b b' \<Longrightarrow> tm_inv (b_topics b) \<Longrightarrow> tm_inv (b_topics b')"
  using tm_run by (auto simp: frame_effect_def)

lemma broker_exec_inv:
  assumes "broker_exec x b = Some (acts, b')" and "tm_inv (b_topics b)"
  shows "tm_inv (b_topics b') \<and> b_config b' = b_config b"
proof (cases x)
  case (BFrame e f conn)
  then obtain conn' where "OnFrameReceived e f b conn = Some ((b', conn'), acts)"
    using assms(1) by (auto split: option.splits)
  then show ?thesis
    using OnFrameReceived_effect frame_effect_inv assms(2) by (metis frame_effect_def)
next
  case (BClosed c)
  then show ?thesis
    using assms tm_inv_exec [of "b_topics b" "OpDrop c"] by (auto simp: OnConnectionClosed_def)
qed (use assms in \<open>auto simp: PublishLocal_def split: option.splits\<close>)

lemma broker_run_inv:
  "broker_run xs b = Some (trace, b') \<Longrightarrow> tm_inv (b_topics b) \<Longrightarrow> tm_inv (b_topics b') \<and> b_config b' = b_config b"
proof (induction xs arbitrary: b trace)
  case (Cons x xs)
  then show ?case
    by (auto split: option.splits dest!: broker_exec_inv)
qed simp

text \<open>
  C2: Everything the broker hands out was published: on a broker with a new store with rings of at
  most 16 MiB, every sequence of frames with any bytes, local publishes, closed connections and
  background rounds, with fewer than 2^64 - 1 messages in all, is served without an exception or an endless loop; each pushed message, in a push or
  a batch, on publishing or on pulling, has the topic of some publish request of the sequence and
  the payload of that request or its compression; and the subscription table keeps its invariant.
\<close>

theorem broker_hands_out_published:
  assumes "r \<le> unat kMaxPayloadSize" and "sum_list (map op_messages xs) + 1 < 2 ^ 64"
  shows "\<exists>trace b. broker_run xs (broker_new (ms_new r mr tmo) cfg now) = Some (trace, b) \<and>
    tm_inv (b_topics b) \<and>
    (\<forall>e f conn acts a. (BFrame e f conn, acts) \<in> set trace \<and> a \<in> set acts \<longrightarrow>
       carries_only (\<Union>x \<in> set xs. offered x) e a)"
proof -
  let ?S = "\<Union>x \<in> set xs. offered x" and ?b = "broker_new (ms_new r mr tmo) cfg now"
  have "store_inv (only_from ?S) 0 (b_store ?b)"
    using store_inv_mono [OF store_inv_new [OF assms(1), of mr tmo], of "only_from ?S" 0] by (simp add: broker_new_def)
  moreover have "\<forall>x \<in> set xs. offered x \<subseteq> ?S"
    by blast
  ultimately obtain trace b where "broker_run xs ?b = Some (trace, b)"
    "\<forall>e f conn acts. (BFrame e f conn, acts) \<in> set trace \<longrightarrow> (\<forall>a \<in> set acts. carries_only ?S e a)"
    using broker_run_served [of ?S 0 ?b xs] assms(2) unfolding add_0 by blast
  moreover have "tm_inv (b_topics ?b)"
    by (simp add: broker_new_def tm_inv_def tm_new_def)
  ultimately show ?thesis
    using broker_run_inv by blast
qed

subsection \<open>Every request is answered\<close>

lemma push_groups_pushes:
  assumes "push_groups topic (\<lambda>k. push_frame e (mk k)) gs k tm = (acts, tm')"
  shows "list_all is_push acts"
  using conjunct2 [OF push_groups_effect [OF assms]] by (force simp: list_all_iff)

lemma push_topics_pushes:
  assumes "push_topics e bp xs tm = (acts, tm')"
  shows "list_all is_push acts"
proof -
  have "is_push (Send_To c (if P then batch_frame e ms else push_frame e m))" for c P ms m
    by simp
  then show ?thesis
    using conjunct2 [OF push_topics_effect [OF assms]] unfolding list_all_iff by metis
qed

text \<open>\<open>answered t acts\<close>: some pushes, then exactly one answer of type \<open>t\<close> to the sender.\<close>

definition answered :: "FrameMessageType \<Rightarrow> action list \<Rightarrow> bool" where
  "answered t acts \<longleftrightarrow> (\<exists>pushes r. acts = pushes @ [r] \<and> list_all is_push pushes \<and> is_answer t r)"

lemma answeredI: "list_all is_push pushes \<Longrightarrow> is_answer t r \<Longrightarrow> acts = pushes @ [r] \<Longrightarrow> answered t acts"
  by (auto simp: answered_def)

lemma answered_one: "is_answer t r \<Longrightarrow> answered t [r]"
  by (rule answeredI [of "[]"]) simp_all

lemma HandlePublish_answered:
  assumes "HandlePublish e f b conn = Some ((b', conn'), acts)"
  shows "answered FMT_Response acts"
  using assms
proof (cases rule: HandlePublish_cases)
  case (admitted req b1 conn1)
  from admitted(5) [symmetric] show ?thesis
  proof (cases rule: publish_admitted_SomeE)
    case (2 mid store gp tm)
    let ?subs = "map (\<lambda>sub. Send_To (si_conn_id sub) (push_frame e (publish_push e req mid (broker_payload e b1 req) 0)))
       (GetSubscribers (b_topics b1) (pub_topic req))"
    have "list_all is_push (?subs @ gp)"
      using push_groups_pushes [OF 2(2)] by (auto simp: list_all_iff)
    then show ?thesis
      using 2(5) by (intro answeredI [of "?subs @ gp"]) simp_all
  qed (simp add: answered_one)
qed (simp_all add: answered_one)

lemma HandleBatchPublish_answered:
  assumes "HandleBatchPublish e f b conn = Some ((b', conn'), acts)"
  shows "answered FMT_Response acts"
  using assms
proof (cases rule: HandleBatchPublish_cases)
  case (admitted msgs b1 conn1)
  from admitted(5) [symmetric] show ?thesis
  proof (cases rule: batch_admitted_SomeE)
    case (2 accepted store outs tm)
    then show ?thesis
      using push_topics_pushes [OF 2(3)] by (intro answeredI) simp_all
  qed (simp add: answered_one)
qed (simp_all add: answered_one)

lemma HandlePull_answered:
  assumes "HandlePull e f b conn = Some ((b', conn'), acts)"
  shows "answered FMT_Response acts"
proof -
  have "answered FMT_Response (concat (map (\<lambda>msg. SendPushMessage e True msg t False) ms) @ [SendResponse e True [] i])"
    "answered FMT_Response (SendBatchPushMessage e True ms t False @ [SendResponse e True [] i])" for ms t i
    by (rule answeredI [OF _ _ refl]; simp add: SendPushMessage_def SendBatchPushMessage_def list_all_iff)+
  then show ?thesis
    using assms by (auto simp: HandlePull_def Let_def answered_one split: option.splits prod.splits if_splits)
qed

lemma other_answered:
  "HandleSubscribe e f b conn = Some ((b', conn'), acts) \<Longrightarrow> answered FMT_Response acts"
  "HandleUnsubscribe e f b conn = Some ((b', conn'), acts) \<Longrightarrow> answered FMT_Response acts"
  "HandleAck e f b conn = Some ((b', conn'), acts) \<Longrightarrow> answered FMT_Response acts"
  "HandleAdmin e f b conn = Some ((b', conn'), acts) \<Longrightarrow> answered FMT_Admin acts"
  by (auto simp: HandleSubscribe_def HandleUnsubscribe_def HandleAck_def HandleAdmin_def Let_def answered_one
      split: option.splits prod.splits if_splits AdminCommandType.splits)

lemmas handlers_answered = HandlePublish_answered HandleBatchPublish_answered HandlePull_answered other_answered

text \<open>
  C10: Every request is answered exactly once, to the connection it came from and after the pushes it
  caused: whatever the frame and the state, a handler that returns has sent some push frames and then
  one response, an admin response to an admin request; a ping is answered by a pong if and only if
  heartbeats are enabled.
\<close>

theorem every_request_answered:
  assumes "OnFrameReceived e f b conn = Some ((b', conn'), acts)"
  shows "if msg_type f = FMT_Ping
    then acts = (if heartbeat_enabled (cm_global_config (b_config b))
      then [Reply (default_Frame\<lparr>msg_type := FMT_Pong\<rparr>)] else [])
    else answered (if msg_type f = FMT_Admin then FMT_Admin else FMT_Response) acts"
proof (cases "msg_type f = FMT_Ping")
  case True
  then show ?thesis
    using assms by (auto simp: OnFrameReceived_def Let_def HandlePing_def FMT_defs split: if_splits)
next
  case False
  have "answered (if msg_type f = FMT_Admin then FMT_Admin else FMT_Response) acts"
  proof (cases "msg_type f = FMT_Admin")
    case True
    then show ?thesis
      using assms handlers_answered by (simp add: OnFrameReceived_def Let_def FMT_defs)
  next
    case nadmin: False
    have refused: "acts = [SendResponse_code e code msg i] \<Longrightarrow> answered FMT_Response acts" for code msg i
      by (simp add: answered_one)
    have "answered FMT_Response acts"
      using assms False nadmin handlers_answered [of e f b conn b' conn' acts] refused
      unfolding OnFrameReceived_def Let_def by (simp split: if_splits) metis+
    then show ?thesis using nadmin by simp
  qed
  then show ?thesis using False by simp
qed

subsection \<open>Publishing twice\<close>

lemma publish_success_marks:
  assumes "HandlePublish e f b conn = Some ((b1, conn1), acts)"
    and "parse_publish (e_pb e) (payload f) = Some req" and "pub_producer_id req \<noteq> []"
    and "dedup_enabled (cm_global_config (b_config b))"
    and "\<And>x. rd (ser_response (e_pb e) x) = resp_success x" and "rd (payload (frame_sent (last acts)))"
  shows "IsDuplicate (b_dedup b1) (pub_producer_id req) (pub_sequence_id req)"
  using assms(1)
proof (cases rule: HandlePublish_cases)
  case (duplicate req')
  then show ?thesis using assms(2) by (simp add: dup_request_def)
next
  case (admitted req' b0 conn0)
  from admitted(5) [symmetric] show ?thesis
  proof (cases rule: publish_admitted_SomeE)
    case 1
    then show ?thesis using assms(5,6) by (simp add: SendResponse_code_def response_code_def)
  next
    case (2 mid store gp tm)
    then show ?thesis
      using admitted(1,3) assms(2-4) by (simp add: marked_def same_but_limits_def dw.dup_mark)
  qed
qed (use assms(2,5,6) in \<open>simp_all add: SendResponse_code_def response_code_def\<close>)

lemma frame_effect_dup: "frame_effect c b b' \<Longrightarrow> IsDuplicate (b_dedup b) p s \<Longrightarrow> IsDuplicate (b_dedup b') p s"
  using dw.dup_persists by (auto simp: frame_effect_def)

lemma broker_exec_dup:
  assumes "broker_exec x b = Some (acts, b')" and "IsDuplicate (b_dedup b) p s"
  shows "IsDuplicate (b_dedup b') p s \<and> b_config b' = b_config b"
proof (cases x)
  case (BFrame e f conn)
  then obtain conn' where "OnFrameReceived e f b conn = Some ((b', conn'), acts)"
    using assms(1) by (auto split: option.splits)
  then show ?thesis
    using OnFrameReceived_effect frame_effect_dup assms(2) by (metis frame_effect_def)
qed (use assms in \<open>auto simp: PublishLocal_def OnConnectionClosed_def split: option.splits\<close>)

lemma broker_run_dup:
  "broker_run xs b = Some (trace, b') \<Longrightarrow> IsDuplicate (b_dedup b) p s \<Longrightarrow>
     IsDuplicate (b_dedup b') p s \<and> b_config b' = b_config b"
proof (induction xs arbitrary: b trace)
  case (Cons x xs)
  then show ?case by (auto split: option.splits dest!: broker_exec_dup)
qed simp

lemma IsDuplicate_mono: "IsDuplicate w p s \<Longrightarrow> s' \<le> s \<Longrightarrow> IsDuplicate w p s'"
  by (auto simp: IsDuplicate_def split: option.splits if_splits)

text \<open>
  C8: Publishing is idempotent: once a publish request of a named producer was answered with success
  and deduplication is enabled, every later publish request of that producer with the same or a
  smaller sequence number, whatever happened in between, is answered with success and changes
  nothing: it is not stored again, nothing is pushed and no token is taken. This also holds for a
  smaller number that was refused before and never stored.
\<close>

theorem publish_idempotent:
  assumes "msg_type f = FMT_Publish" and "parse_publish (e_pb e) (payload f) = Some req"
    and "pub_producer_id req \<noteq> []" and "dedup_enabled (cm_global_config (b_config b))"
    and "OnFrameReceived e f b conn = Some ((b1, conn1), acts)"
    and "\<And>x. rd (ser_response (e_pb e) x) = resp_success x" and "rd (payload (frame_sent (last acts)))"
    and "broker_run xs b1 = Some (trace, b2)"
    and "msg_type f' = FMT_Publish" and "parse_publish (e_pb e') (payload f') = Some req'"
    and "pub_producer_id req' = pub_producer_id req" and "pub_sequence_id req' \<le> pub_sequence_id req"
  shows "OnFrameReceived e' f' b2 conn' = Some ((b2, conn'), [SendResponse e' True [] (pub_sequence_id req')])"
proof -
  have h: "HandlePublish e f b conn = Some ((b1, conn1), acts)"
    using assms(1,5) by (simp add: OnFrameReceived_def)
  have "IsDuplicate (b_dedup b1) (pub_producer_id req) (pub_sequence_id req)"
    by (rule publish_success_marks [OF h assms(2-4,6,7)])
  then have "IsDuplicate (b_dedup b2) (pub_producer_id req') (pub_sequence_id req')" and "b_config b2 = b_config b1"
    using broker_run_dup [OF assms(8)] IsDuplicate_mono assms(11,12) by auto
  moreover have "b_config b1 = b_config b"
    using HandlePublish_effect [OF h] by (simp add: frame_effect_def)
  ultimately show ?thesis
    using assms(3,4,9-11) by (simp add: OnFrameReceived_def HandlePublish_def)
qed

subsection \<open>A sample broker, for the witnesses\<close>

definition sample_request :: "byte list \<Rightarrow> PublishRequest" where
  "sample_request p = \<lparr>pub_topic = ''t'', pub_payload = p, pub_ttl_ms = 0, pub_compressed = False,
     pub_producer_id = ''p'', pub_sequence_id = 1\<rparr>"

definition sample_pb :: protobuf where
  "sample_pb = \<lparr>parse_publish = (\<lambda>p. Some (sample_request p)),
     parse_batch_publish = (\<lambda>p. Some [sample_request p, sample_request p]),
     parse_subscribe = (\<lambda>p. Some \<lparr>subr_topic = ''t'', subr_subscriber_id = ''s'', subr_group_id = []\<rparr>),
     parse_unsubscribe = (\<lambda>p. Some \<lparr>unsub_topic = ''t'', unsub_subscriber_id = ''s'', unsub_group_id = []\<rparr>),
     parse_pull = (\<lambda>p. Some \<lparr>pull_topic_name = ''t'', pull_subscriber_id = ''s'', pull_group_id = [], pull_max_messages = 10\<rparr>),
     parse_ack = (\<lambda>p. Some \<lparr>ack_topic = ''t'', ack_subscriber_id = ''s'', ack_group_id = [], ack_message_id = 1\<rparr>),
     parse_admin = (\<lambda>p. Some \<lparr>admin_command = ADMIN_DELETE_TOPIC, admin_topic = ''t'', admin_max_messages = 0\<rparr>),
     ser_response = (\<lambda>r. [if resp_success r then 1 else 0]), ser_push = push_payload,
     ser_batch_push = (\<lambda>ms. concat (map push_payload ms)), ser_admin = (\<lambda>r. [if ares_success r then 1 else 0])\<rparr>"

definition sample_env :: env where
  "sample_env = \<lparr>e_pb = sample_pb, e_compress2 = (\<lambda>_. None), e_round = id, e_steady = (\<lambda>_. 0),
     e_system = (\<lambda>_. 100), e_pulls = (\<lambda>_. 0)\<rparr>"

definition sample_broker :: Broker where
  "sample_broker = broker_new (ms_new 64 3 5000) (default_BrokerConfig\<lparr>rate_limit_enabled := False\<rparr>) 0"

definition sample_conn :: Connection where
  "sample_conn = conn_new 1 None 0"

lemmas sample_defs = sample_request_def sample_pb_def sample_env_def sample_broker_def sample_conn_def
  broker_new_def cm_new_def default_BrokerConfig_def dw_new_def tm_new_def

lemma sample_publish: "\<exists>s'. Publish ''t'' [x] 0 ne ts (ms_new 64 3 5000) = Some ((True, 1), s')"
proof -
  obtain rb where rb: "rb_new 64 = Some rb" "rb_rep rb []" "rb_capacity rb = 65"
    using sample_ring by blast
  let ?m = "serialize 1 ts 0 [x]"
  have "rb_cells rb []" using rb(2) by (simp add: rb_rep_def)
  then have "rb_GetWritableSize rb = 64"
    using rb_writable rb(3) by (simp add: rb_entries_def)
  then have "rb_room rb ?m" "rb_valid ?m"
    by (auto simp: rb_room_def rb_entry_def serialize_def rb_valid_def)
  then have "fst (rb_Push rb ?m)"
    using rbq.push_accept [OF rb(2)] by blast
  then show ?thesis
    using rb(1) by (auto simp: Publish_def ms_new_def new_topic_def Let_def split: prod.split)
qed

lemma sample_first:
  "\<exists>b1. OnFrameReceived sample_env (frame_of FMT_Publish [7]) sample_broker sample_conn =
     Some ((b1, sample_conn), [SendResponse sample_env True [] 1])"
proof -
  have pz: "broker_payload sample_env sample_broker (sample_request [7]) = ([7], False)"
    by (simp add: broker_payload_def ShouldCompress_def sample_defs)
  obtain s' where "Publish ''t'' [7] 0 100 100 (ms_new 64 3 5000) = Some ((True, 1), s')"
    using sample_publish by blast
  then have "\<exists>b1. publish_admitted sample_env (sample_request [7]) sample_broker sample_conn =
     Some ((b1, sample_conn), [SendResponse sample_env True [] 1])"
    unfolding publish_admitted_def pz
    by (simp add: ttl_of_def sample_defs GetConsumerGroups_def GetSubscribers_def)
  moreover have "OnFrameReceived sample_env (frame_of FMT_Publish [7]) sample_broker sample_conn =
      publish_admitted sample_env (sample_request [7]) sample_broker sample_conn"
    using HandlePublish_admitted [of sample_env "frame_of FMT_Publish [7]" "sample_request [7]" sample_broker sample_conn
        sample_conn sample_broker]
    by (simp add: OnFrameReceived_def Let_def sample_defs dup_request_def IsDuplicate_def acquire_conn_def
        acquire_global_def)
  ultimately show ?thesis by simp
qed

theorem broker_hands_out_published_witness:
  "\<exists>trace b. broker_run [BFrame sample_env (frame_of FMT_Publish [7]) sample_conn,
      BFrame sample_env (frame_of FMT_Pull []) sample_conn] sample_broker = Some (trace, b) \<and>
    (\<forall>e f conn acts a. (BFrame e f conn, acts) \<in> set trace \<and> a \<in> set acts \<longrightarrow> carries_only {(''t'', [7]), (''t'', [])} e a)"
proof -
  let ?xs = "[BFrame sample_env (frame_of FMT_Publish [7]) sample_conn, BFrame sample_env (frame_of FMT_Pull []) sample_conn]"
  have "64 \<le> unat kMaxPayloadSize" and "sum_list (map op_messages ?xs) + 1 < 2 ^ 64"
    and "(\<Union>x \<in> set ?xs. offered x) = {(''t'', [7]), (''t'', [])}"
    by (simp_all add: requests_def sample_env_def sample_pb_def sample_request_def storable_def Compress_def FMT_defs)
  with broker_hands_out_published [of 64 ?xs 3 5000 "default_BrokerConfig\<lparr>rate_limit_enabled := False\<rparr>" 0]
  show ?thesis
    unfolding sample_broker_def by metis
qed

theorem every_request_answered_witness:
  "\<exists>b1 acts. OnFrameReceived sample_env (frame_of FMT_Publish [7]) sample_broker sample_conn =
     Some ((b1, sample_conn), acts) \<and> answered FMT_Response acts"
proof -
  obtain b1 acts where r: "OnFrameReceived sample_env (frame_of FMT_Publish [7]) sample_broker sample_conn =
      Some ((b1, sample_conn), acts)"
    using sample_first by blast
  from every_request_answered [OF r] have "answered FMT_Response acts"
    by (simp add: FMT_defs)
  with r show ?thesis by blast
qed

theorem publish_idempotent_witness:
  "\<exists>b1. OnFrameReceived sample_env (frame_of FMT_Publish [7]) sample_broker sample_conn =
      Some ((b1, sample_conn), [SendResponse sample_env True [] 1]) \<and>
    OnFrameReceived sample_env (frame_of FMT_Publish [8]) b1 sample_conn =
      Some ((b1, sample_conn), [SendResponse sample_env True [] 1])"
proof -
  obtain b1 where r: "OnFrameReceived sample_env (frame_of FMT_Publish [7]) sample_broker sample_conn =
      Some ((b1, sample_conn), [SendResponse sample_env True [] 1])"
    using sample_first by blast
  have "OnFrameReceived sample_env (frame_of FMT_Publish [8]) b1 sample_conn =
      Some ((b1, sample_conn), [SendResponse sample_env True [] (pub_sequence_id (sample_request [8]))])"
    by (rule publish_idempotent [where f = "frame_of FMT_Publish [7]" and req = "sample_request [7]"
          and rd = "\<lambda>bs. bs = [1]" and xs = "[]" and trace = "[]", OF _ _ _ _ r])
      (simp_all add: sample_defs SendResponse_def response_bool_def)
  then show ?thesis
    using r by (simp add: sample_request_def)
qed

end
