(* ===== verification/Broker_Push.thy ===== *)
theory Broker_Push
  imports Broker_Props
begin

text \<open>
  Where pushes go: a publish request that is not refused is stored once and pushed to every broadcast
  subscriber and to one member of every group; a closed connection receives nothing any more; what
  batches do when batch pushes are disabled.
\<close>

subsection \<open>The targets of a push\<close>

fun target :: "action \<Rightarrow> ConnectionId" where
  "target (Send_To c f) = c"
| "target (Reply f) = 0"

text \<open>The member whose turn it is; a member without a name is passed over.\<close>

definition next_conn :: "ConsumerGroup \<Rightarrow> ConnectionId" where
  "next_conn grp = (let m = members grp ! (round_robin_index grp mod length (members grp))
     in if subscriber_id m = [] then 0 else cm_conn_id m)"

lemma GetConsumerGroup_select:
  "GetConsumerGroup (snd (SelectNextMember t g tm)) t g' =
     (if g' = g then map_option (\<lambda>grp. if members grp = [] then grp else
        grp\<lparr>round_robin_index := size_add (round_robin_index grp) 1 mod length (members grp)\<rparr>) (GetConsumerGroup tm t g)
      else GetConsumerGroup tm t g')"
  by (auto simp: SelectNextMember_def GetConsumerGroup_def Let_def split: option.splits)

lemma select_conn_next:
  assumes "GetConsumerGroup tm t (group_id grp) = Some grp" and "members grp \<noteq> []"
    and "distinct (map subscriber_id (members grp))"
  shows "select_conn t grp tm = (next_conn grp, snd (SelectNextMember t (group_id grp) tm))"
proof -
  let ?i = "round_robin_index grp mod length (members grp)"
  let ?m = "members grp ! ?i"
  have i: "?i < length (members grp)" using assms(2) by simp
  have sel: "fst (SelectNextMember t (group_id grp) tm) = subscriber_id ?m"
    using assms(1,2) by (auto simp: SelectNextMember_def GetConsumerGroup_def Let_def split: option.splits)
  have "find (\<lambda>m. subscriber_id m = subscriber_id ?m) (members grp) = Some ?m"
    unfolding find_Some_iff
  proof (intro exI [of _ ?i] conjI allI impI)
    fix j assume "j < ?i"
    then show "subscriber_id (members grp ! j) \<noteq> subscriber_id ?m"
      using assms(3) i nth_eq_iff_index_eq [of "map subscriber_id (members grp)" j ?i] by auto
  qed (use i in simp_all)
  then show ?thesis
    using assms(2) sel by (simp add: select_conn_def next_conn_def Let_def case_prod_unfold)
qed

lemma push_groups_targets:
  assumes "\<And>grp. grp \<in> set gs \<Longrightarrow> GetConsumerGroup tm t (group_id grp) = Some grp \<and> members grp \<noteq> [] \<and>
      distinct (map subscriber_id (members grp))"
    and "distinct (map group_id gs)"
  shows "map target (fst (push_groups t mk gs k tm)) = filter (\<lambda>c. c \<noteq> 0) (map next_conn gs)"
  using assms
proof (induction gs arbitrary: k tm)
  case (Cons grp gs)
  have g: "GetConsumerGroup tm t (group_id grp) = Some grp" "members grp \<noteq> []"
    "distinct (map subscriber_id (members grp))"
    using Cons.prems(1) by simp_all
  let ?tm1 = "snd (SelectNextMember t (group_id grp) tm)"
  have "GetConsumerGroup ?tm1 t (group_id h) = Some h" if "h \<in> set gs" for h
  proof -
    have "group_id h \<noteq> group_id grp" using Cons.prems(2) that by (metis distinct.simps(2) image_eqI list.map(2) list.set_map)
    then show ?thesis using Cons.prems(1) that by (simp add: GetConsumerGroup_select)
  qed
  then have "map target (fst (push_groups t mk gs (Suc k) ?tm1)) = filter (\<lambda>c. c \<noteq> 0) (map next_conn gs)"
    using Cons.prems by (intro Cons.IH) auto
  then show ?case
    by (simp add: select_conn_next [OF g] case_prod_unfold Let_def)
qed simp

lemma GetConsumerGroups_facts:
  assumes "tm_inv tm"
  shows "distinct (map group_id (GetConsumerGroups tm t))"
    and "grp \<in> set (GetConsumerGroups tm t) \<Longrightarrow> GetConsumerGroup tm t (group_id grp) = Some grp \<and>
      members grp \<noteq> [] \<and> distinct (map subscriber_id (members grp))"
proof -
  have *: "map group_id (map snd groups) = map fst groups \<and> um_wf groups \<and>
      (\<forall>g grp. (g, grp) \<in> set groups \<longrightarrow> group_id grp = g \<and> um_find groups g = Some grp \<and> members grp \<noteq> [] \<and>
         distinct (map subscriber_id (members grp)))"
    if "um_find (tm_consumer_groups tm) t = Some groups" for groups
  proof -
    have "groups_ok t groups"
      using assms that by (auto simp: tm_inv_def)
    then have wf: "um_wf groups" and ok: "\<And>g grp. (g, grp) \<in> set groups \<Longrightarrow> um_find groups g = Some grp \<and> group_ok t g grp"
      by (auto simp: groups_ok_def um_find_Some_iff)
    then show ?thesis
      by (auto simp: group_ok_def)
  qed
  show "distinct (map group_id (GetConsumerGroups tm t))"
    using * by (auto simp: GetConsumerGroups_def um_wf_def split: option.splits simp del: map_map)
  show "grp \<in> set (GetConsumerGroups tm t) \<Longrightarrow> GetConsumerGroup tm t (group_id grp) = Some grp \<and>
      members grp \<noteq> [] \<and> distinct (map subscriber_id (members grp))"
    using * by (cases "um_find (tm_consumer_groups tm) t") (force simp: GetConsumerGroups_def GetConsumerGroup_def)+
qed

text \<open>A publish that passed the checks, once the message is stored.\<close>

lemma publish_stored:
  assumes "store_inv H n (b_store b)" and "n + 2 < 2 ^ 64" and "tm_inv (b_topics b)"
    and "Publish (pub_topic req) (fst (broker_payload e b1 req)) (ttl_of b1 req) (e_system e 0) (e_system e 1) (b_store b1)
      = Some ((True, mid), store)"
    and "push_groups (pub_topic req) (\<lambda>k. push_frame e (publish_push e req mid (broker_payload e b1 req) k))
      (GetConsumerGroups (b_topics b1) (pub_topic req)) 1 (b_topics b1) = (gp, tm)"
    and "acts = map (\<lambda>sub. Send_To (si_conn_id sub) (push_frame e (publish_push e req mid (broker_payload e b1 req) 0)))
      (GetSubscribers (b_topics b1) (pub_topic req)) @ gp @ [SendResponse e True [] mid]"
    and "b_store b' = store" and "same_but_limits b b1"
  shows "(\<exists>mid pushes. acts = pushes @ [SendResponse e True [] mid] \<and>
      log_of (b_store b') = (log_of (b_store b))(pub_topic req := log_of (b_store b) (pub_topic req) @
        [stored mid (e_system e 1) (expiry_of (ttl_of b req) (e_system e 0)) (fst (broker_payload e b req))]) \<and>
      map target pushes = map si_conn_id (GetSubscribers (b_topics b) (pub_topic req)) @
        filter (\<lambda>c. c \<noteq> 0) (map next_conn (GetConsumerGroups (b_topics b) (pub_topic req))) \<and>
      list_all (\<lambda>a. \<exists>k. a = Send_To (target a) (push_frame e (publish_push e req mid (broker_payload e b req) k))) pushes)"
proof -
  have eqs: "b_store b1 = b_store b" "b_topics b1 = b_topics b" "ttl_of b1 req = ttl_of b req"
    "broker_payload e b1 req = broker_payload e b req"
    using assms(8) broker_payload_same [OF assms(8)] by (simp_all add: same_but_limits_def ttl_of_def)
  note H = assms(1)
  let ?t = "pub_topic req" and ?pz = "broker_payload e b req"
  let ?mk = "\<lambda>k. push_frame e (publish_push e req mid ?pz k)"
  let ?subs = "map (\<lambda>sub. Send_To (si_conn_id sub) (?mk 0)) (GetSubscribers (b_topics b) ?t)"
  have "log_of store = (log_of (b_store b))(?t := log_of (b_store b) ?t @
      [stored mid (e_system e 1) (expiry_of (ttl_of b req) (e_system e 0)) (fst ?pz)])"
    using Publish_log [OF H assms(2), of ?t "fst ?pz" "ttl_of b req" "e_system e 0" "e_system e 1" True mid store] assms(4) eqs
    by simp
  moreover have "map target gp = filter (\<lambda>c. c \<noteq> 0) (map next_conn (GetConsumerGroups (b_topics b) ?t))"
    using push_groups_targets [OF GetConsumerGroups_facts(2,1) [OF assms(3)], of ?t ?t ?mk 1] assms(5) eqs
    by simp
  moreover have "list_all (\<lambda>a. \<exists>k. a = Send_To (target a) (?mk k)) gp"
    using conjunct2 [OF push_groups_effect [OF assms(5)]] eqs by (fastforce simp: list_all_iff)
  moreover have "map target ?subs = map si_conn_id (GetSubscribers (b_topics b) ?t)"
    "list_all (\<lambda>a. \<exists>k. a = Send_To (target a) (?mk k)) ?subs"
    by (auto simp: list_all_iff)
  moreover have "acts = (?subs @ gp) @ [SendResponse e True [] mid]" "b_store b' = store"
    using assms(6,7) eqs by simp_all
  ultimately show ?thesis
    by (intro exI [of _ mid] exI [of _ "?subs @ gp"]) simp
qed



subsection \<open>Closed connections\<close>

definition silent :: "ConnectionId \<Rightarrow> TopicManager \<Rightarrow> bool" where
  "silent c tm \<longleftrightarrow> tm_inv tm \<and> (\<forall>t g s. (s, c) \<notin> set (view tm t g))"

lemma silent_exec:
  assumes "silent c tm" and "\<And>t i g. x = OpSubscribe t i g \<Longrightarrow> si_conn_id i \<noteq> c"
  shows "silent c (tm_exec x tm)"
proof -
  have inv: "tm_inv tm" and v: "\<And>t g s. (s, c) \<notin> set (view tm t g)"
    using assms(1) by (auto simp: silent_def)
  have "(s, c) \<notin> set (spec_exec x (view tm) t g)" for t g s
    using v assms(2)
    by (cases x) (auto simp: spec_subscribe_def spec_unsubscribe_def spec_drop_def)
  then show ?thesis
    using inv by (simp add: silent_def tm_inv_exec view_exec)
qed

lemma silent_run:
  "silent c tm \<Longrightarrow> \<forall>t i g. OpSubscribe t i g \<in> set ops \<longrightarrow> si_conn_id i \<noteq> c \<Longrightarrow> silent c (fold tm_exec ops tm)"
proof (induction ops arbitrary: tm)
  case (Cons x ops)
  have "silent c (tm_exec x tm)"
    using Cons.prems by (intro silent_exec) auto
  moreover have "\<forall>t i g. OpSubscribe t i g \<in> set ops \<longrightarrow> si_conn_id i \<noteq> c"
    using Cons.prems(2) by simp
  ultimately show ?case
    using Cons.IH by simp
qed simp

lemma silent_subscribers: "silent c tm \<Longrightarrow> i \<in> set (GetSubscribers tm t) \<Longrightarrow> si_conn_id i \<noteq> c"
proof
  assume s: "silent c tm" and i: "i \<in> set (GetSubscribers tm t)" and "si_conn_id i = c"
  then have "(si_id i, c) \<in> set (view tm t [])"
    by (auto simp: view_def GetSubscribers_def um_at_def split: option.splits)
  then show False using s by (simp add: silent_def)
qed

lemma silent_members:
  assumes "silent c tm" and "grp \<in> set (GetConsumerGroups tm t)" and "m \<in> set (members grp)"
  shows "cm_conn_id m \<noteq> c"
proof
  assume c: "cm_conn_id m = c"
  obtain groups g where g: "um_find (tm_consumer_groups tm) t = Some groups" "(g, grp) \<in> set groups"
    using assms(2) by (cases "um_find (tm_consumer_groups tm) t") (auto simp: GetConsumerGroups_def)
  have "groups_ok t groups" using assms(1) g(1) by (auto simp: silent_def tm_inv_def)
  then have "um_find groups g = Some grp" "g \<noteq> []"
    using g(2) by (auto simp: groups_ok_def um_find_Some_iff group_ok_def)
  then have "(subscriber_id m, c) \<in> set (view tm t g)"
    using g(1) c assms(3) by (auto simp: view_def um_at_def)
  then show False using assms(1) by (simp add: silent_def)
qed

lemma push_groups_silent:
  assumes "\<forall>grp \<in> set gs. \<forall>m \<in> set (members grp). cm_conn_id m \<noteq> c"
  shows "Send_To c f \<notin> set (fst (push_groups t mk gs k tm))"
  using assms
proof (induction gs arbitrary: k tm)
  case (Cons grp gs)
  have "fst (select_conn t grp tm) = c \<Longrightarrow> c = 0"
    using Cons.prems
    by (auto simp: select_conn_def Let_def case_prod_unfold find_Some_iff split: if_splits option.splits)
  then show ?case
    using Cons by (auto simp: case_prod_unfold Let_def)
qed simp

lemma push_batch_silent:
  assumes "silent c tm" and "push_batch e bp t ms tm = (acts, tm')"
  shows "Send_To c f \<notin> set acts" and "silent c tm'"
proof -
  have gs: "\<forall>grp \<in> set (GetConsumerGroups tm t). \<forall>m \<in> set (members grp). cm_conn_id m \<noteq> c"
    using silent_members [OF assms(1)] by blast
  have subs: "\<forall>i \<in> set (GetSubscribers tm t). si_conn_id i \<noteq> c"
    using silent_subscribers [OF assms(1)] by blast
  show "Send_To c f \<notin> set acts"
    using assms(2) push_groups_silent [OF gs] subs
    by (auto simp: push_batch_def Let_def case_prod_unfold SendPushMessage_def SendBatchPushMessage_def split: if_splits)
  obtain ops where "tm' = fold tm_exec ops tm" "set ops \<subseteq> range (OpSelect t)"
    using push_batch_effect [OF assms(2)] by blast
  then show "silent c tm'"
    using silent_run [OF assms(1)] select_ops_subscribe by blast
qed

lemma push_topics_silent:
  "silent c tm \<Longrightarrow> push_topics e bp xs tm = (acts, tm') \<Longrightarrow> Send_To c f \<notin> set acts"
proof (induction xs arbitrary: tm acts tm')
  case (Cons x xs)
  obtain t ms where x: "x = (t, ms)" by force
  obtain a1 tm1 where b: "push_batch e bp t ms tm = (a1, tm1)" by force
  obtain a2 tm2 where r: "push_topics e bp xs tm1 = (a2, tm2)" by force
  then show ?case
    using Cons push_batch_silent [OF Cons.prems(1) b] b x by auto
qed simp

lemma frame_silent:
  assumes "silent c (b_topics b)" and "OnFrameReceived e frame b conn = Some ((b', conn'), acts)"
  shows "Send_To c f \<notin> set acts"
proof -
  have publish: "Send_To c f \<notin> set acts" if "HandlePublish e frame b conn = Some ((b', conn'), acts)"
    using that
  proof (cases rule: HandlePublish_cases)
    case (admitted req b1 conn1)
    have s: "silent c (b_topics b1)" using assms(1) admitted(3) by (simp add: same_but_limits_def)
    from admitted(5) [symmetric] show ?thesis
    proof (cases rule: publish_admitted_SomeE)
      case (2 mid store gp tm)
      have "Send_To c f \<notin> set gp"
        using push_groups_silent [of "GetConsumerGroups (b_topics b1) (pub_topic req)" c f] silent_members [OF s] 2(2)
        by (metis fst_conv)
      then show ?thesis
        using 2(5) silent_subscribers [OF s] by (auto simp: SendResponse_def)
    qed (simp add: SendResponse_code_def)
  qed (simp_all add: SendResponse_def SendResponse_code_def)
  have batch: "Send_To c f \<notin> set acts" if "HandleBatchPublish e frame b conn = Some ((b', conn'), acts)"
    using that
  proof (cases rule: HandleBatchPublish_cases)
    case (admitted msgs b1 conn1)
    have s: "silent c (b_topics b1)" using assms(1) admitted(3) by (simp add: same_but_limits_def)
    from admitted(5) [symmetric] show ?thesis
    proof (cases rule: batch_admitted_SomeE)
      case (2 accepted store outs tm)
      then show ?thesis
        using push_topics_silent [OF s 2(3)] by (simp add: SendResponse_def)
    qed (simp add: SendResponse_code_def)
  qed (simp add: SendResponse_code_def)
  have others: "HandleSubscribe e frame b conn = Some ((b', conn'), acts) \<Longrightarrow> Send_To c f \<notin> set acts"
    "HandleUnsubscribe e frame b conn = Some ((b', conn'), acts) \<Longrightarrow> Send_To c f \<notin> set acts"
    "HandlePull e frame b conn = Some ((b', conn'), acts) \<Longrightarrow> Send_To c f \<notin> set acts"
    "HandleAck e frame b conn = Some ((b', conn'), acts) \<Longrightarrow> Send_To c f \<notin> set acts"
    "HandlePing e frame b conn = Some ((b', conn'), acts) \<Longrightarrow> Send_To c f \<notin> set acts"
    "HandleAdmin e frame b conn = Some ((b', conn'), acts) \<Longrightarrow> Send_To c f \<notin> set acts"
    by (auto simp: HandleSubscribe_def HandleUnsubscribe_def HandlePull_def HandleAck_def HandlePing_def HandleAdmin_def
        Let_def SendResponse_def SendResponse_code_def SendAdminResponse_def SendPushMessage_def SendBatchPushMessage_def
        split: option.splits prod.splits if_splits AdminCommandType.splits)
  show ?thesis
    using assms(2) publish batch others
    unfolding OnFrameReceived_def Let_def by (auto simp: SendResponse_code_def split: if_splits)
qed

lemma broker_exec_silent:
  assumes "silent c (b_topics b)" and "broker_exec x b = Some (acts, b')"
    and "\<And>e f conn. x = BFrame e f conn \<Longrightarrow> c_id conn \<noteq> c"
  shows "silent c (b_topics b')" and "Send_To c f \<notin> set acts"
proof -
  have "silent c (b_topics b') \<and> Send_To c f \<notin> set acts"
  proof (cases x)
    case (BFrame e fr conn)
    then obtain conn' where h: "OnFrameReceived e fr b conn = Some ((b', conn'), acts)"
      using assms(2) by (auto split: option.splits)
    then obtain ops where "b_topics b' = fold tm_exec ops (b_topics b)"
      "\<forall>t i g. OpSubscribe t i g \<in> set ops \<longrightarrow> si_conn_id i = c_id conn"
      using OnFrameReceived_effect [OF h] by (auto simp: frame_effect_def)
    then show ?thesis
      using frame_silent [OF assms(1) h] silent_run [OF assms(1), of ops] assms(3) [OF BFrame] by metis
  next
    case (BClosed c')
    then show ?thesis
      using assms silent_exec [OF assms(1), of "OpDrop c'"] by (auto simp: OnConnectionClosed_def)
  qed (use assms in \<open>auto simp: PublishLocal_def split: option.splits\<close>)
  then show "silent c (b_topics b')" "Send_To c f \<notin> set acts" by blast+
qed

lemma broker_run_silent:
  assumes "broker_run xs b = Some (trace, b')" and "silent c (b_topics b)"
    and "\<forall>e f conn. BFrame e f conn \<in> set xs \<longrightarrow> c_id conn \<noteq> c" and "(x, acts) \<in> set trace"
  shows "Send_To c f \<notin> set acts"
  using assms
proof (induction xs arbitrary: b trace)
  case (Cons y xs)
  obtain a1 b1 tr where y: "broker_exec y b = Some (a1, b1)" "broker_run xs b1 = Some (tr, b')" "trace = (y, a1) # tr"
    using Cons.prems(1) by (auto split: option.splits)
  have "silent c (b_topics b1)" "Send_To c f \<notin> set a1"
    using broker_exec_silent [OF Cons.prems(2) y(1)] Cons.prems(3) by auto
  then show ?case
    using Cons y by auto
qed simp

text \<open>
  C9: A closed connection is left alone: after any sequence of operations on a new broker, once the broker
  was told that a connection closed, nothing is pushed to it any more, whatever follows, as long as
  no frame comes from a connection with that identifier.
\<close>

theorem closed_connection_gets_nothing:
  assumes "broker_run xs (broker_new store cfg now) = Some (trace, b)"
    and "broker_run ys (OnConnectionClosed c b) = Some (trace', b')"
    and "\<forall>e f conn. BFrame e f conn \<in> set ys \<longrightarrow> c_id conn \<noteq> c"
    and "(x, acts) \<in> set trace'"
  shows "Send_To c f \<notin> set acts"
proof -
  have "tm_inv (b_topics (broker_new store cfg now))"
    by (simp add: broker_new_def tm_inv_def tm_new_def)
  then have inv: "tm_inv (b_topics b)"
    using broker_run_inv [OF assms(1)] by simp
  then have "silent c (b_topics (OnConnectionClosed c b))"
    using reg.dropped [OF inv] tm_inv_exec [OF inv, of "OpDrop c"] by (simp add: silent_def OnConnectionClosed_def)
  then show ?thesis
    using broker_run_silent [OF assms(2)] assms(3,4) by blast
qed

theorem closed_connection_gets_nothing_witness:
  "\<exists>trace b trace' b'.
    broker_run [BFrame sample_env (frame_of FMT_Subscribe []) (conn_new 2 None 0)] sample_broker = Some (trace, b) \<and>
    broker_run [BFrame sample_env (frame_of FMT_Publish [7]) sample_conn] (OnConnectionClosed 2 b) = Some (trace', b') \<and>
    (\<forall>x acts f. (x, acts) \<in> set trace' \<longrightarrow> Send_To 2 f \<notin> set acts)"
proof -
  let ?xs = "[BFrame sample_env (frame_of FMT_Subscribe []) (conn_new 2 None 0)]"
  let ?ys = "[BFrame sample_env (frame_of FMT_Publish [7]) sample_conn]"
  let ?S = "{(''t'', [7]), (''t'', [])}"
  have "store_inv (only_from ?S) 0 (b_store sample_broker)"
    using store_inv_mono [OF store_inv_new [of 64 3 5000], of "only_from ?S" 0] by (simp add: sample_broker_def broker_new_def)
  then obtain trace b where xs: "broker_run ?xs sample_broker = Some (trace, b)" "store_inv (only_from ?S) 0 (b_store b)"
    using broker_run_served [of ?S 0 sample_broker ?xs] by (auto simp: requests_def FMT_defs)
  then obtain trace' b' where ys: "broker_run ?ys (OnConnectionClosed 2 b) = Some (trace', b')"
    using broker_run_served [of ?S 0 "OnConnectionClosed 2 b" ?ys]
    by (auto simp: requests_def FMT_defs OnConnectionClosed_def sample_env_def sample_pb_def sample_request_def
        storable_def Compress_def)
  have quiet: "\<forall>e f conn. BFrame e f conn \<in> set ?ys \<longrightarrow> c_id conn \<noteq> 2"
    by (simp add: sample_conn_def conn_new_def)
  have "Send_To 2 f \<notin> set acts" if "(x, acts) \<in> set trace'" for x acts f
    by (rule closed_connection_gets_nothing [OF xs(1) [unfolded sample_broker_def] ys quiet that])
  with xs ys show ?thesis by blast
qed

subsection \<open>Batches without batch pushes\<close>

lemma push_topics_first:
  assumes "push_topics e False xs tm = (acts, tm')" and "a \<in> set acts"
  shows "\<exists>topic ms. (topic, ms) \<in> set xs \<and> frame_sent a = push_frame e (push_of (hd ms) topic False)"
  using conjunct2 [OF push_topics_effect [OF assms(1)]] assms(2) by force

lemma batch_publish_same:
  assumes "same_but_limits b b1"
  shows "batch_publish e b1 ms = batch_publish e b ms"
proof (induction ms)
  case (Cons m ms)
  have "b_config b1 = b_config b" using assms by (simp add: same_but_limits_def)
  then show ?case
    by (intro ext) (simp only: batch_publish.simps Cons.IH broker_payload_same [OF assms])
qed (simp add: fun_eq_iff)

text \<open>
  A batch is not pushed whole when batch pushes are disabled: every push that a batch publish then
  causes carries the first accepted message of its topic, marked as not compressed whatever the
  payload is; the messages behind it are stored but pushed to nobody.
\<close>

theorem batch_pushes_only_first:
  assumes "msg_type f = FMT_BatchPublish" and "parse_batch_publish (e_pb e) (payload f) = Some msgs"
    and "\<not> batch_push_enabled (cm_global_config (b_config b))"
    and "OnFrameReceived e f b conn = Some ((b', conn'), acts)" and "a \<in> set acts" and "is_push a"
  shows "\<exists>accepted store topic. batch_publish e b msgs 0 (b_store b) = Some (accepted, store) \<and>
    frame_sent a = push_frame e (push_of (hd (filter (\<lambda>m. sm_topic_name m = topic) accepted)) topic False)"
proof -
  have answer: "\<not> is_push (SendResponse e ok msg i)" "\<not> is_push (SendResponse_code e code msg i)" for ok msg i code
    by (simp_all add: is_push_def SendResponse_def SendResponse_code_def FMT_defs)
  have "batch_publish_enabled (cm_global_config (b_config b)) \<or> acts = [SendResponse_code e InvalidRequest ''Batch publish is disabled'' 0]"
    and "batch_publish_enabled (cm_global_config (b_config b)) \<Longrightarrow> HandleBatchPublish e f b conn = Some ((b', conn'), acts)"
    using assms(1,4) by (auto simp: OnFrameReceived_def Let_def FMT_defs split: if_splits)
  then have "HandleBatchPublish e f b conn = Some ((b', conn'), acts)"
    using assms(5,6) answer by auto
  then show ?thesis
  proof (cases rule: HandleBatchPublish_cases)
    case (refused b1 conn1 code msg)
    then show ?thesis using assms(5,6) answer by simp
  next
    case (admitted msgs' b1 conn1)
    have eqs: "msgs' = msgs" "b_config b1 = b_config b" "b_store b1 = b_store b"
      using admitted(1,3) assms(2) by (simp_all add: same_but_limits_def)
    from admitted(5) [symmetric] show ?thesis
    proof (cases rule: batch_admitted_SomeE)
      case 1
      then show ?thesis using assms(5,6) answer by simp
    next
      case (2 accepted store outs tm)
      have "a \<in> set outs" using 2(6) assms(5,6) answer by auto
      then obtain topic ms where "(topic, ms) \<in> set (group_by_topic accepted)"
        and a: "frame_sent a = push_frame e (push_of (hd ms) topic False)"
        using push_topics_first 2(3) eqs(2) assms(3) by metis
      then have "ms = filter (\<lambda>m. sm_topic_name m = topic) accepted"
        by (simp add: group_by_topic_entry)
      then show ?thesis
        using 2(1) a eqs batch_publish_same [OF admitted(3)] by auto
    qed
  qed
qed

lemma push_topics_reaches:
  "push_topics e bp xs tm = (acts, tm') \<Longrightarrow> (t, ms) \<in> set xs \<Longrightarrow> i \<in> set (GetSubscribers tm t) \<Longrightarrow>
     \<exists>f. Send_To (si_conn_id i) f \<in> set acts"
proof (induction xs arbitrary: tm acts tm')
  case (Cons x xs)
  obtain t0 ms0 where x: "x = (t0, ms0)" by force
  obtain a1 tm1 where b: "push_batch e bp t0 ms0 tm = (a1, tm1)" by force
  obtain a2 tm2 where r: "push_topics e bp xs tm1 = (a2, tm2)" by force
  have acts: "acts = a1 @ a2" using Cons.prems(1) b r x by auto
  show ?case
  proof (cases "(t, ms) = x")
    case True
    then show ?thesis
      using b Cons.prems(3) acts x
      by (fastforce simp: push_batch_def Let_def case_prod_unfold)
  next
    case False
    obtain ops where "tm1 = fold tm_exec ops tm" "set ops \<subseteq> range (OpSelect t0)"
      using push_batch_effect [OF b] by blast
    moreover have "GetSubscribers (tm_exec (OpSelect t' g) tm0) t = GetSubscribers tm0 t" for t' g tm0
      by (auto simp: SelectNextMember_def GetSubscribers_def Let_def split: option.split)
    then have "set ops \<subseteq> range (OpSelect t0) \<Longrightarrow> GetSubscribers (fold tm_exec ops tm) t = GetSubscribers tm t" for ops
      by (induction ops arbitrary: tm) auto
    ultimately have "i \<in> set (GetSubscribers tm1 t)" using Cons.prems(3) by metis
    then show ?thesis
      using Cons.IH [OF r] Cons.prems(2) False acts by auto
  qed
qed simp

definition sample_batch_broker :: Broker where
  "sample_batch_broker = sample_broker
     \<lparr>b_config := cm_new (default_BrokerConfig\<lparr>rate_limit_enabled := False, batch_push_enabled := False\<rparr>),
      b_topics := tm_new\<lparr>tm_subscribers := [(''t'', [\<lparr>si_id = ''s'', si_conn_id = 5\<rparr>])]\<rparr>\<rparr>"

lemma batch_publish_accepts:
  assumes "broker_payload e b r = (p, z)"
    and "Publish (pub_topic r) p (ttl_of b r) (e_system e (3 * k)) (e_system e (3 * k + 1)) s = Some ((True, mid), s1)"
    and "batch_publish e b rs (Suc k) s1 = Some (acc, s2)"
  shows "\<exists>m. batch_publish e b (r # rs) k s = Some (m # acc, s2) \<and> sm_topic_name m = pub_topic r"
  using assms(2) unfolding ttl_of_def by (simp add: assms(1,3) Let_def)

lemma sample_batch:
  "\<exists>acts b' f. OnFrameReceived sample_env (frame_of FMT_BatchPublish [7]) sample_batch_broker sample_conn =
     Some ((b', sample_conn), acts) \<and> Send_To 5 f \<in> set acts"
proof -
  let ?b = sample_batch_broker and ?r = "sample_request [7]"
  have pz: "broker_payload sample_env ?b ?r = ([7], False)"
    by (simp add: broker_payload_def ShouldCompress_def sample_batch_broker_def sample_defs)
  obtain s1 where p1: "Publish ''t'' [7] 0 100 100 (ms_new 64 3 5000) = Some ((True, 1), s1)"
    using sample_publish by blast
  have "store_inv (only_from {(''t'', [7]), (''t'', [])}) 0 (ms_new 64 3 5000)"
    using store_inv_mono [OF store_inv_new [of 64 3 5000], of _ 0] by simp
  then have "store_inv (only_from {(''t'', [7]), (''t'', [])}) 1 s1"
    using Publish_only [of "{(''t'', [7]), (''t'', [])}" 0 "ms_new 64 3 5000" "''t''" "[7]" 0 100 100] p1 by force
  then obtain acc s2 where p2: "batch_publish sample_env ?b [?r] (Suc 0) s1 = Some (acc, s2)"
    using batch_publish_served [of "{(''t'', [7]), (''t'', [])}" 1 s1 "[?r]" sample_env ?b "Suc 0"]
    by (auto simp: storable_def sample_request_def sample_env_def Compress_def)
  have "Publish (pub_topic ?r) [7] (ttl_of ?b ?r) (e_system sample_env (3 * 0)) (e_system sample_env (3 * 0 + 1)) (b_store ?b)
      = Some ((True, 1), s1)"
    using p1 by (simp add: ttl_of_def sample_batch_broker_def sample_defs)
  then obtain m where bp: "batch_publish sample_env ?b [?r, ?r] 0 (b_store ?b) = Some (m # acc, s2)"
    and m: "sm_topic_name m = ''t''"
    using batch_publish_accepts [OF pz _ p2] by (auto simp: sample_request_def)
  obtain outs tm where push: "push_topics sample_env False (group_by_topic (m # acc)) (b_topics ?b) = (outs, tm)"
    by force
  have "(''t'', filter (\<lambda>m. sm_topic_name m = ''t'') (m # acc)) \<in> set (group_by_topic (m # acc))"
    using m by (simp add: group_by_topic_entry)
  then obtain f where "Send_To 5 f \<in> set outs"
    using push_topics_reaches [OF push, of "''t''" _ "\<lparr>si_id = ''s'', si_conn_id = 5\<rparr>"]
    by (auto simp: sample_batch_broker_def GetSubscribers_def um_find_Cons)
  moreover have "OnFrameReceived sample_env (frame_of FMT_BatchPublish [7]) ?b sample_conn =
      batch_admitted sample_env [?r, ?r] ?b sample_conn"
    using HandleBatchPublish_admitted [of sample_env "frame_of FMT_BatchPublish [7]" "[?r, ?r]" ?b sample_conn sample_conn ?b]
    by (simp add: OnFrameReceived_def Let_def FMT_defs acquire_conn_def acquire_global_def
        sample_batch_broker_def sample_defs word_less_nat_alt)
  moreover have "batch_push_enabled (cm_global_config (b_config ?b)) = False"
    by (simp add: sample_batch_broker_def cm_new_def)
  ultimately show ?thesis
    using bp push by (auto simp: batch_admitted_def Let_def)
qed

theorem batch_pushes_only_first_witness:
  "\<exists>accepted store topic. batch_publish sample_env sample_batch_broker [sample_request [7], sample_request [7]] 0
      (b_store sample_batch_broker) = Some (accepted, store) \<and>
    (\<exists>b' acts a. OnFrameReceived sample_env (frame_of FMT_BatchPublish [7]) sample_batch_broker sample_conn =
       Some ((b', sample_conn), acts) \<and> a \<in> set acts \<and> is_push a \<and>
     frame_sent a = push_frame sample_env (push_of (hd (filter (\<lambda>m. sm_topic_name m = topic) accepted)) topic False))"
proof -
  obtain acts b' f where r: "OnFrameReceived sample_env (frame_of FMT_BatchPublish [7]) sample_batch_broker sample_conn =
     Some ((b', sample_conn), acts)" and a: "Send_To 5 f \<in> set acts"
    using sample_batch by blast
  have "answered FMT_Response acts"
    using r by (intro HandleBatchPublish_answered)
      (auto simp: OnFrameReceived_def FMT_defs sample_batch_broker_def sample_defs)
  then have push: "is_push (Send_To 5 f)"
    using a by (auto simp: answered_def is_answer_def list_all_iff)
  have "parse_batch_publish (e_pb sample_env) (payload (frame_of FMT_BatchPublish [7])) =
      Some [sample_request [7], sample_request [7]]"
    and "\<not> batch_push_enabled (cm_global_config (b_config sample_batch_broker))"
    by (simp_all add: sample_env_def sample_pb_def sample_batch_broker_def cm_new_def)
  then show ?thesis
    using batch_pushes_only_first [OF _ _ _ r a push, of "[sample_request [7], sample_request [7]]"] r a push
    by fastforce
qed

end
