(* ===== verification/Broker_Interference.thy ===== *)
theory Broker_Interference
  imports Broker_Push
begin

text \<open>
  Publishing while connections go away. The handlers of the broker run on the event thread, one at a
  time; beside them the heartbeat thread calls \<open>OnConnectionClosed\<close> for every idle connection, which is
  one call of \<open>UnsubscribeByConnId\<close>, atomic under the lock of the topic manager. \<open>HandlePublish\<close> calls the topic
  manager several times, and these calls can fall between any two of its own. The definitions here
  take the connections that are dropped in each gap as an argument.
\<close>

subsection \<open>Publishing with gaps\<close>

text \<open>
  Gap 0 is everything before \<open>GetSubscribers\<close>: up to there the handler reads of the topic manager only the
  configurations of topics, which \<open>UnsubscribeByConnId\<close> does not write. Gap 1 is between \<open>GetSubscribers\<close> and
  \<open>GetConsumerGroups\<close>, gap \<open>k + 1\<close> before \<open>SelectNextMember\<close> for the \<open>k\<close>-th group, and the last one after it.
\<close>

type_synonym gaps = "nat \<Rightarrow> ConnectionId list"

definition drop_conns :: "ConnectionId list \<Rightarrow> TopicManager \<Rightarrow> TopicManager" where
  "drop_conns cs tm = fold (\<lambda>c t. snd (UnsubscribeByConnId c t)) cs tm"

fun push_groups_gaps :: "gaps \<Rightarrow> string \<Rightarrow> (nat \<Rightarrow> Frame) \<Rightarrow> ConsumerGroup list \<Rightarrow> nat \<Rightarrow> TopicManager
    \<Rightarrow> action list \<times> TopicManager" where
  "push_groups_gaps ds topic mk [] k tm = ([], drop_conns (ds (Suc k)) tm)"
| "push_groups_gaps ds topic mk (grp # groups) k tm =
     (let (target_conn_id, tm1) = select_conn topic grp (drop_conns (ds (Suc k)) tm);
          (outs, tm2) = push_groups_gaps ds topic mk groups (Suc k) tm1
      in (if target_conn_id \<noteq> 0 then Send_To target_conn_id (mk k) # outs else outs, tm2))"

definition HandlePublish_gaps :: "env \<Rightarrow> gaps \<Rightarrow> Frame \<Rightarrow> Broker \<Rightarrow> Connection \<Rightarrow> handled" where
  "HandlePublish_gaps e ds frame b0 conn =
     (let b = b0\<lparr>b_topics := drop_conns (ds 0) (b_topics b0)\<rparr> in
      case parse_publish (e_pb e) (payload frame) of
        None \<Rightarrow> Some ((b, conn), [SendResponse_code e InvalidRequest ''Failed to parse publish request'' 0])
      | Some req \<Rightarrow>
          let config = cm_global_config (b_config b) in
          if dedup_enabled config \<and> pub_producer_id req \<noteq> [] \<and>
             IsDuplicate (b_dedup b) (pub_producer_id req) (pub_sequence_id req)
          then Some ((b, conn), [SendResponse e True [] (pub_sequence_id req)])
          else
            let (ok1, conn1) = acquire_conn e 1 b conn in
            if \<not> ok1 then Some ((b, conn1), [SendResponse_code e RateLimitExceeded ''Rate limit exceeded'' 0])
            else
              let (ok2, b1) = acquire_global e 1 b in
              if \<not> ok2 then
                Some ((b1, conn1), [SendResponse_code e RateLimitExceeded ''Global rate limit exceeded'' 0])
              else
                let (p, is_compressed) = broker_payload e b1 req;
                    ttl_ms = (if ttl_enabled config then pub_ttl_ms req else 0)
                in (case Publish (pub_topic req) p ttl_ms (e_system e 0) (e_system e 1) (b_store b1) of
                      None \<Rightarrow> None
                    | Some ((success, msg_id), store) \<Rightarrow>
                        if \<not> success then
                          Some ((b1\<lparr>b_store := store\<rparr>, conn1),
                            [SendResponse_code e BufferFull ''Backpressure: buffer full'' 0])
                        else
                          let mk = (\<lambda>k. push_frame e \<lparr>push_message_id = msg_id, push_topic = pub_topic req,
                                push_payload = p, push_timestamp = e_system e (2 + k), push_retry_count = 0,
                                push_compressed = is_compressed\<rparr>);
                              pushes = map (\<lambda>sub. Send_To (si_conn_id sub) (mk 0))
                                (GetSubscribers (b_topics b1) (pub_topic req));
                              tm1 = drop_conns (ds 1) (b_topics b1);
                              (group_pushes, tm) = push_groups_gaps ds (pub_topic req) mk
                                (GetConsumerGroups tm1 (pub_topic req)) 1 tm1;
                              dedup = (if dedup_enabled config \<and> pub_producer_id req \<noteq> []
                                then MarkProcessed (pub_producer_id req) (pub_sequence_id req) (e_steady e 3)
                                  (b_dedup b1)
                                else b_dedup b1)
                          in Some ((b1\<lparr>b_store := store, b_topics := tm, b_dedup := dedup\<rparr>, conn1),
                               pushes @ group_pushes @ [SendResponse e True [] msg_id])))"

text \<open>Without drops this is the handler.\<close>

lemma drop_conns_Nil [simp]: "drop_conns [] tm = tm"
  by (simp add: drop_conns_def)

lemma push_groups_no_gaps: "push_groups_gaps (\<lambda>_. []) topic mk gs k tm = push_groups topic mk gs k tm"
  by (induction gs arbitrary: k tm) simp_all

lemma HandlePublish_no_gaps: "HandlePublish_gaps e (\<lambda>_. []) f b conn = HandlePublish e f b conn"
proof -
  have "b\<lparr>b_topics := b_topics b\<rparr> = b" by simp
  then show ?thesis
    by (simp only: HandlePublish_gaps_def HandlePublish_def push_groups_no_gaps drop_conns_Nil Let_def)
qed

subsection \<open>What dropping leaves of a group\<close>

definition remain :: "ConnectionId set \<Rightarrow> ConsumerGroup \<Rightarrow> ConsumerGroup option" where
  "remain gone grp = (let ms = filter (\<lambda>m. cm_conn_id m \<notin> gone) (members grp)
     in if ms = [] then None else Some (grp\<lparr>members := ms\<rparr>))"

lemma keep_group_remain: "keep_group c = remain {c}"
  by (simp add: keep_group_def remain_def fun_eq_iff)

lemma remain_empty: "members grp \<noteq> [] \<Longrightarrow> remain {} grp = Some grp"
  by (simp add: remain_def)

lemma remain_remain: "Option.bind (remain A grp) (remain B) = remain (A \<union> B) grp"
  by (auto simp: remain_def Let_def filter_empty_conv)

lemma remain_SomeD: "remain gone grp = Some grp' \<Longrightarrow>
    grp' = grp\<lparr>members := filter (\<lambda>m. cm_conn_id m \<notin> gone) (members grp)\<rparr> \<and> members grp' \<noteq> []"
  by (auto simp: remain_def Let_def split: if_splits)

lemma GetConsumerGroup_at: "GetConsumerGroup tm t g = um_find (um_at [] (tm_consumer_groups tm) t) g"
  by (simp add: GetConsumerGroup_def um_at_def split: option.split)

lemma GetSubscribers_at: "GetSubscribers tm t = um_at [] (tm_subscribers tm) t"
  by (simp add: GetSubscribers_def um_at_def split: option.split)

lemma GetConsumerGroups_at: "GetConsumerGroups tm t = map snd (um_at [] (tm_consumer_groups tm) t)"
  by (simp add: GetConsumerGroups_def um_at_def split: option.split)

lemma snd_um_prune: "map snd (um_prune f m) = List.map_filter f (map snd m)"
  by (induction f m rule: um_prune.induct) (auto split: option.splits)

lemma dropped_parts:
  assumes "tm_inv tm"
  shows "GetConsumerGroup (snd (UnsubscribeByConnId c tm)) t g = Option.bind (GetConsumerGroup tm t g) (remain {c})"
    and "GetSubscribers (snd (UnsubscribeByConnId c tm)) t = filter (\<lambda>i. si_conn_id i \<notin> {c}) (GetSubscribers tm t)"
    and "GetConsumerGroups (snd (UnsubscribeByConnId c tm)) t = List.map_filter (remain {c}) (GetConsumerGroups tm t)"
proof -
  note inv = tm_invD [OF assms]
  show "GetConsumerGroup (snd (UnsubscribeByConnId c tm)) t g = Option.bind (GetConsumerGroup tm t g) (remain {c})"
    using keep_groups_find [of tm t c g] inv(3,6)
    by (auto simp: GetConsumerGroup_at UnsubscribeByConnId_def purge_prune keep_group_remain groups_ok_def)
  show "GetSubscribers (snd (UnsubscribeByConnId c tm)) t = filter (\<lambda>i. si_conn_id i \<notin> {c}) (GetSubscribers tm t)"
    by (auto simp: GetSubscribers_at UnsubscribeByConnId_def purge_prune um_at_def um_find_prune [OF inv(2)]
        keep_subs_def Let_def split: option.splits)
  show "GetConsumerGroups (snd (UnsubscribeByConnId c tm)) t = List.map_filter (remain {c}) (GetConsumerGroups tm t)"
  proof (cases "um_find (tm_consumer_groups tm) t")
    case None
    then show ?thesis
      by (simp add: GetConsumerGroups_at UnsubscribeByConnId_def purge_prune um_at_def um_find_prune [OF inv(3)])
  next
    case (Some gs)
    then show ?thesis
      using snd_um_prune [of "keep_group c" gs]
      by (auto simp: GetConsumerGroups_at UnsubscribeByConnId_def purge_prune um_at_def um_find_prune [OF inv(3)]
          keep_groups_def keep_group_remain Let_def)
  qed
qed

lemma drop_conns_Cons: "drop_conns (c # cs) tm = drop_conns cs (snd (UnsubscribeByConnId c tm))"
  by (simp add: drop_conns_def)

lemma map_filter_bind: "List.map_filter f (List.map_filter g xs) = List.map_filter (\<lambda>x. Option.bind (g x) f) xs"
  by (induction xs) (auto simp: List.map_filter_def split: option.splits)

lemma drop_conns_inv: "tm_inv tm \<Longrightarrow> tm_inv (drop_conns cs tm) \<and> view (drop_conns cs tm) = fold spec_drop cs (view tm)"
  by (induction cs arbitrary: tm) (simp_all add: drop_conns_Cons tm_inv_UnsubscribeByConnId UnsubscribeByConnId_view)

lemma drop_conns_subscribers:
  "tm_inv tm \<Longrightarrow> GetSubscribers (drop_conns cs tm) t = filter (\<lambda>i. si_conn_id i \<notin> set cs) (GetSubscribers tm t)"
  by (induction cs arbitrary: tm) (auto simp: drop_conns_Cons tm_inv_UnsubscribeByConnId dropped_parts(2) intro: filter_cong)

lemma remain_bind: "Option.bind (Option.bind x (remain A)) (remain B) = Option.bind x (remain (A \<union> B))"
  by (cases x) (simp_all add: remain_remain)

lemma drop_conns_group:
  assumes "tm_inv tm" and "GetConsumerGroup tm t g = remain gone grp"
  shows "GetConsumerGroup (drop_conns cs tm) t g = remain (gone \<union> set cs) grp"
  using assms
proof (induction cs arbitrary: tm gone)
  case (Cons c cs)
  have "GetConsumerGroup (snd (UnsubscribeByConnId c tm)) t g = remain (gone \<union> {c}) grp"
    using Cons.prems by (simp add: dropped_parts(1) remain_remain)
  with Cons show ?case by (simp add: drop_conns_Cons tm_inv_UnsubscribeByConnId)
qed simp

lemma drop_conns_groups:
  assumes "tm_inv tm"
  shows "GetConsumerGroups (drop_conns cs tm) t = List.map_filter (remain (set cs)) (GetConsumerGroups tm t)"
  using assms
proof (induction cs arbitrary: tm)
  case Nil
  have "remain {} grp = Some grp" if "grp \<in> set (GetConsumerGroups tm t)" for grp
    using GetConsumerGroups_facts(2) [OF Nil that] remain_empty by blast
  then have "List.map_filter (remain {}) gs = gs" if "set gs \<subseteq> set (GetConsumerGroups tm t)" for gs
    using that by (induction gs) (simp_all add: List.map_filter_simps)
  then show ?case by simp
next
  case (Cons c cs)
  then show ?case
    by (simp add: drop_conns_Cons tm_inv_UnsubscribeByConnId dropped_parts(3) map_filter_bind remain_remain)
qed

subsection \<open>Who is pushed to\<close>

text \<open>
  The connections that have been dropped by the end of gap \<open>j\<close>, and the connection that a group pushes to
  once the connections \<open>gone\<close> have been dropped: that of the remaining member whose turn it is, and 0, which is no
  connection, when none remains. \<open>turns ds j gs\<close> lists it for the groups \<open>gs\<close> one after the other, the first after gap \<open>j\<close>.
\<close>

definition dropped_by :: "gaps \<Rightarrow> nat \<Rightarrow> ConnectionId set" where
  "dropped_by ds j = set (concat (map ds [0..<Suc j]))"

definition turn :: "ConnectionId set \<Rightarrow> ConsumerGroup \<Rightarrow> ConnectionId" where
  "turn gone grp = (case remain gone grp of None \<Rightarrow> 0 | Some g \<Rightarrow> next_conn g)"

fun turns :: "gaps \<Rightarrow> nat \<Rightarrow> ConsumerGroup list \<Rightarrow> ConnectionId list" where
  "turns ds j [] = []"
| "turns ds j (grp # gs) = turn (dropped_by ds j) grp # turns ds (Suc j) gs"

lemma dropped_by_Suc: "dropped_by ds (Suc j) = dropped_by ds j \<union> set (ds (Suc j))"
  unfolding dropped_by_def upt_Suc_append [OF le0] map_append concat_append set_append by simp

text \<open>Nothing is ever pushed to a connection that was dropped before the turn of its group.\<close>

lemma turn_member:
  assumes "turn gone grp \<noteq> 0"
  shows "turn gone grp \<notin> gone \<and> turn gone grp \<in> cm_conn_id ` set (members grp)"
proof -
  obtain g where g: "remain gone grp = Some g" and t: "turn gone grp = next_conn g"
    using assms by (auto simp: turn_def split: option.splits)
  define m where "m = members g ! (round_robin_index g mod length (members g))"
  note left = remain_SomeD [OF g]
  have "m \<in> set (members g)" unfolding m_def using conjunct2 [OF left] by (intro nth_mem) simp
  then have "m \<in> set (filter (\<lambda>m. cm_conn_id m \<notin> gone) (members grp))"
    using arg_cong [OF conjunct1 [OF left], of members] by simp
  moreover have "turn gone grp = cm_conn_id m"
    using assms t by (auto simp: next_conn_def m_def Let_def split: if_splits)
  ultimately show ?thesis by auto
qed

lemma SelectNextMember_at:
  "fst (SelectNextMember t g tm) = (case GetConsumerGroup tm t g of None \<Rightarrow> [] | Some grp \<Rightarrow>
     if members grp = [] then [] else subscriber_id (members grp ! (round_robin_index grp mod length (members grp))))"
  by (auto simp: SelectNextMember_def GetConsumerGroup_def Let_def split: option.splits)

lemma find_distinct:
  assumes "distinct (map f xs)" and "x \<in> set xs"
  shows "find (\<lambda>y. f y = f x) xs = Some x"
  using assms by (induction xs) (auto simp: rev_image_eqI)

lemma select_conn_turn:
  assumes "GetConsumerGroup tm t (group_id grp) = remain gone grp"
    and "members grp \<noteq> []" and "distinct (map subscriber_id (members grp))"
  shows "fst (select_conn t grp tm) = turn gone grp"
proof (cases "remain gone grp")
  case None
  then have "fst (SelectNextMember t (group_id grp) tm) = []"
    using assms(1) by (simp add: SelectNextMember_at)
  then show ?thesis using assms(2) None by (simp add: select_conn_def turn_def case_prod_unfold Let_def)
next
  case (Some grp')
  define m where "m = members grp' ! (round_robin_index grp' mod length (members grp'))"
  note left = remain_SomeD [OF Some]
  have "m \<in> set (members grp')" unfolding m_def using conjunct2 [OF left] by (intro nth_mem) simp
  then have "m \<in> set (filter (\<lambda>m. cm_conn_id m \<notin> gone) (members grp))"
    using arg_cong [OF conjunct1 [OF left], of members] by simp
  then have m: "m \<in> set (members grp)" by simp
  have "fst (SelectNextMember t (group_id grp) tm) = subscriber_id m"
    using assms(1) Some conjunct2 [OF left] by (simp add: SelectNextMember_at m_def)
  then have "fst (select_conn t grp tm) = (if subscriber_id m = [] then 0 else cm_conn_id m)"
    using assms(2) find_distinct [OF assms(3) m] by (simp add: select_conn_def case_prod_unfold Let_def)
  then show ?thesis by (simp add: turn_def Some next_conn_def m_def Let_def)
qed

lemma select_conn_kept:
  assumes "GetConsumerGroup tm t g = remain gone grp" and "g \<noteq> group_id h"
  shows "GetConsumerGroup (snd (select_conn t h tm)) t g = remain gone grp"
  using assms by (simp add: select_conn_def case_prod_unfold Let_def GetConsumerGroup_select split: option.split)

lemma select_conn_inv: "tm_inv tm \<Longrightarrow> tm_inv (snd (select_conn t h tm)) \<and> view (snd (select_conn t h tm)) = view tm"
  by (simp add: select_conn_def case_prod_unfold Let_def tm_inv_SelectNextMember view_SelectNextMember split: option.split)

lemma push_groups_gaps_inv:
  "tm_inv tm \<Longrightarrow> tm_inv (snd (push_groups_gaps ds t mk gs k tm)) \<and>
     view (snd (push_groups_gaps ds t mk gs k tm)) =
       fold spec_drop (concat (map ds [Suc k ..< Suc (Suc k) + length gs])) (view tm)"
proof (induction gs arbitrary: k tm)
  case (Cons grp gs)
  have step: "[Suc k ..< Suc (Suc k) + length (grp # gs)] = Suc k # [Suc (Suc k) ..< Suc (Suc (Suc k)) + length gs]"
    using upt_conv_Cons [of "Suc k" "Suc (Suc k) + length (grp # gs)"] by simp
  let ?tm1 = "snd (select_conn t grp (drop_conns (ds (Suc k)) tm))"
  have "tm_inv ?tm1" "view ?tm1 = fold spec_drop (ds (Suc k)) (view tm)"
    using drop_conns_inv [OF Cons.prems] select_conn_inv by simp_all
  then show ?case
    using Cons.IH [of ?tm1 "Suc k"] unfolding step by (simp add: case_prod_unfold Let_def)
qed (simp add: drop_conns_inv)

lemma push_groups_gaps_turns:
  assumes "tm_inv tm"
    and "\<And>grp. grp \<in> set gs \<Longrightarrow> GetConsumerGroup tm t (group_id grp) = remain (dropped_by ds k) grp \<and>
      members grp \<noteq> [] \<and> distinct (map subscriber_id (members grp))"
    and "distinct (map group_id gs)"
  shows "map target (fst (push_groups_gaps ds t mk gs k tm)) = filter (\<lambda>c. c \<noteq> 0) (turns ds (Suc k) gs)"
  using assms
proof (induction gs arbitrary: k tm)
  case (Cons grp gs)
  define tm0 where "tm0 = drop_conns (ds (Suc k)) tm"
  obtain c tm1 where s: "select_conn t grp tm0 = (c, tm1)" by force
  have at0: "GetConsumerGroup tm0 t (group_id h) = remain (dropped_by ds (Suc k)) h" if "h \<in> set (grp # gs)" for h
    unfolding tm0_def dropped_by_Suc using Cons.prems(1,2) that by (intro drop_conns_group) auto
  have "tm_inv tm1"
    using drop_conns_inv [OF Cons.prems(1)] select_conn_inv [of tm0 t grp] s by (simp add: tm0_def)
  moreover have "GetConsumerGroup tm1 t (group_id h) = remain (dropped_by ds (Suc k)) h" if "h \<in> set gs" for h
  proof -
    have "group_id h \<noteq> group_id grp" using Cons.prems(3) that by (metis distinct.simps(2) image_eqI list.map(2) list.set_map)
    then show ?thesis using select_conn_kept [of tm0 t "group_id h" _ h grp] at0 that s by simp
  qed
  ultimately have "map target (fst (push_groups_gaps ds t mk gs (Suc k) tm1)) = filter (\<lambda>c. c \<noteq> 0) (turns ds (Suc (Suc k)) gs)"
    using Cons.prems by (intro Cons.IH) auto
  moreover have "c = turn (dropped_by ds (Suc k)) grp"
    using select_conn_turn [OF at0, of grp] Cons.prems(2) [of grp] s by simp
  ultimately show ?case
    using s by (simp add: tm0_def [symmetric] case_prod_unfold Let_def)
qed simp

lemma push_groups_gaps_frames:
  "a \<in> set (fst (push_groups_gaps ds t mk gs k tm)) \<Longrightarrow> \<exists>j. a = Send_To (target a) (mk j)"
  by (induction gs arbitrary: k tm) (auto simp: case_prod_unfold Let_def split: if_splits)

text \<open>The groups that \<open>GetConsumerGroups\<close> returns after gaps 0 and 1: the copies that the loop of the handler runs over.\<close>

definition group_copies :: "gaps \<Rightarrow> TopicManager \<Rightarrow> string \<Rightarrow> ConsumerGroup list" where
  "group_copies ds tm t = List.map_filter (remain (dropped_by ds 1)) (GetConsumerGroups tm t)"

lemma remain_copied: "grp \<in> set (group_copies ds tm t) \<Longrightarrow> remain (dropped_by ds 1) grp = Some grp"
  by (auto simp: group_copies_def List.map_filter_def dest!: remain_SomeD) (auto simp: remain_def)

subsection \<open>The handler\<close>

text \<open>The broker as it is after gap 0, and the groups' part of a publish after it.\<close>

definition after_gap :: "gaps \<Rightarrow> Broker \<Rightarrow> Broker" where
  "after_gap ds b = b\<lparr>b_topics := drop_conns (ds 0) (b_topics b)\<rparr>"

definition publish_admitted_gaps :: "env \<Rightarrow> gaps \<Rightarrow> PublishRequest \<Rightarrow> Broker \<Rightarrow> Connection \<Rightarrow> handled" where
  "publish_admitted_gaps e ds req b conn =
     (case Publish (pub_topic req) (fst (broker_payload e b req)) (ttl_of b req) (e_system e 0) (e_system e 1)
         (b_store b) of
        None \<Rightarrow> None
      | Some ((ok, mid), store) \<Rightarrow>
          if \<not> ok then
            Some ((b\<lparr>b_store := store\<rparr>, conn), [SendResponse_code e BufferFull ''Backpressure: buffer full'' 0])
          else
            let mk = (\<lambda>k. push_frame e (publish_push e req mid (broker_payload e b req) k));
                tm1 = drop_conns (ds 1) (b_topics b);
                (group_pushes, tm) = push_groups_gaps ds (pub_topic req) mk
                  (GetConsumerGroups tm1 (pub_topic req)) 1 tm1
            in Some ((b\<lparr>b_store := store, b_topics := tm, b_dedup := marked e b req\<rparr>, conn),
                 map (\<lambda>sub. Send_To (si_conn_id sub) (mk 0)) (GetSubscribers (b_topics b) (pub_topic req)) @
                 group_pushes @ [SendResponse e True [] mid]))"

lemma HandlePublish_gaps_admitted:
  assumes "parse_publish (e_pb e) (payload frame) = Some req" and "\<not> dup_request b req"
    and "acquire_conn e 1 (after_gap ds b) conn = (True, conn1)" and "acquire_global e 1 (after_gap ds b) = (True, b1)"
  shows "HandlePublish_gaps e ds frame b conn = publish_admitted_gaps e ds req b1 conn1"
proof -
  have same: "b_config b1 = b_config (after_gap ds b)" "b_dedup b1 = b_dedup (after_gap ds b)"
    using acquire_global_parts [OF assms(4)] by simp_all
  obtain p z where pz: "broker_payload e b1 req = (p, z)" by force
  have nd: "(dedup_enabled (cm_global_config (b_config (after_gap ds b))) \<and> pub_producer_id req \<noteq> [] \<and>
     IsDuplicate (b_dedup (after_gap ds b)) (pub_producer_id req) (pub_sequence_id req)) = False"
    using assms(2) by (simp add: dup_request_def after_gap_def)
  show ?thesis
    unfolding HandlePublish_gaps_def after_gap_def [symmetric] publish_admitted_gaps_def Let_def assms(1,3,4)
      option.case prod.case not_True_eq_False if_False pz fst_conv ttl_of_def marked_def publish_push_def snd_conv same nd
    by (rule refl)
qed

lemma HandlePublish_gaps_limited:
  assumes "parse_publish (e_pb e) (payload frame) = Some req" and "\<not> dup_request b req"
    and "acquire_conn e 1 (after_gap ds b) conn = (ok1, conn1)" and "acquire_global e 1 (after_gap ds b) = (ok2, b1)"
    and "\<not> (ok1 \<and> ok2)"
  shows "\<exists>b2 msg. HandlePublish_gaps e ds frame b conn =
    Some ((b2, conn1), [SendResponse_code e RateLimitExceeded msg 0]) \<and> same_but_limits (after_gap ds b) b2"
proof -
  have nd: "(dedup_enabled (cm_global_config (b_config (after_gap ds b))) \<and> pub_producer_id req \<noteq> [] \<and>
     IsDuplicate (b_dedup (after_gap ds b)) (pub_producer_id req) (pub_sequence_id req)) = False"
    using assms(2) by (simp add: dup_request_def after_gap_def)
  have "same_but_limits (after_gap ds b) (after_gap ds b)" "same_but_limits (after_gap ds b) b1"
    using acquire_global_same [OF assms(4)] by (simp_all add: same_but_limits_def)
  then show ?thesis
    using assms(5) unfolding HandlePublish_gaps_def after_gap_def [symmetric] Let_def assms(1,3,4) option.case prod.case nd
    by auto
qed

text \<open>A publish whose message was stored, with the connections \<open>ds\<close> going away in its gaps.\<close>

lemma publish_admitted_gaps_stored:
  assumes "tm_inv tm" and "tm0 = drop_conns (ds 0) tm" and "tm1 = drop_conns (ds 1) tm0"
    and "push_groups_gaps ds t mk (GetConsumerGroups tm1 t) 1 tm1 = (gp, tm2)"
  shows "GetSubscribers tm0 t = filter (\<lambda>i. si_conn_id i \<notin> set (ds 0)) (GetSubscribers tm t)"
    and "map target gp = filter (\<lambda>c. c \<noteq> 0) (turns ds 2 (group_copies ds tm t))"
    and "view tm2 = fold spec_drop (concat (map ds [0..<3 + length (group_copies ds tm t)])) (view tm)"
proof -
  note inv0 = drop_conns_inv [OF assms(1), of "ds 0", folded assms(2)]
  note inv1 = drop_conns_inv [OF conjunct1 [OF inv0], of "ds 1", folded assms(3)]
  show "GetSubscribers tm0 t = filter (\<lambda>i. si_conn_id i \<notin> set (ds 0)) (GetSubscribers tm t)"
    unfolding assms(2) by (rule drop_conns_subscribers [OF assms(1)])
  have "tm1 = drop_conns (ds 0 @ ds 1) tm" by (simp add: assms(2,3) drop_conns_def)
  moreover have "set (ds 0 @ ds 1) = dropped_by ds 1"
    by (auto simp: dropped_by_def)
  ultimately have groups: "GetConsumerGroups tm1 t = group_copies ds tm t"
    using drop_conns_groups [OF assms(1), of "ds 0 @ ds 1" t] by (simp add: group_copies_def)
  note facts = GetConsumerGroups_facts [OF conjunct1 [OF inv1], where t = t, unfolded groups]
  show "map target gp = filter (\<lambda>c. c \<noteq> 0) (turns ds 2 (group_copies ds tm t))"
    using push_groups_gaps_turns [OF conjunct1 [OF inv1], of "group_copies ds tm t" t ds 1 mk] facts assms(4)
    by (simp add: remain_copied [unfolded One_nat_def] groups numeral_2_eq_2)
  have "view tm2 = fold spec_drop (concat (map ds [2 ..< 3 + length (group_copies ds tm t)])) (view tm1)"
    using push_groups_gaps_inv [OF conjunct1 [OF inv1], of ds t mk "GetConsumerGroups tm1 t" 1] assms(4)
    by (simp add: groups numeral_2_eq_2 numeral_3_eq_3)
  moreover have "[0 ..< 3 + length (group_copies ds tm t)] = 0 # 1 # [2 ..< 3 + length (group_copies ds tm t)]"
    by (simp add: upt_conv_Cons numeral_2_eq_2)
  ultimately show "view tm2 = fold spec_drop (concat (map ds [0..<3 + length (group_copies ds tm t)])) (view tm)"
    using inv0 inv1 by simp
qed

lemma publish_admitted_gaps_SomeE:
  assumes "publish_admitted_gaps e ds req b conn = Some ((b', conn'), acts)"
  obtains mid store where
    "Publish (pub_topic req) (fst (broker_payload e b req)) (ttl_of b req) (e_system e 0) (e_system e 1) (b_store b)
       = Some ((False, mid), store)"
    "b' = b\<lparr>b_store := store\<rparr>" "conn' = conn"
    "acts = [SendResponse_code e BufferFull ''Backpressure: buffer full'' 0]"
  | mid store group_pushes tm where
    "Publish (pub_topic req) (fst (broker_payload e b req)) (ttl_of b req) (e_system e 0) (e_system e 1) (b_store b)
       = Some ((True, mid), store)"
    "push_groups_gaps ds (pub_topic req) (\<lambda>k. push_frame e (publish_push e req mid (broker_payload e b req) k))
       (GetConsumerGroups (drop_conns (ds 1) (b_topics b)) (pub_topic req)) 1 (drop_conns (ds 1) (b_topics b)) = (group_pushes, tm)"
    "b' = b\<lparr>b_store := store, b_topics := tm, b_dedup := marked e b req\<rparr>" "conn' = conn"
    "acts = map (\<lambda>sub. Send_To (si_conn_id sub) (push_frame e (publish_push e req mid (broker_payload e b req) 0)))
       (GetSubscribers (b_topics b) (pub_topic req)) @ group_pushes @ [SendResponse e True [] mid]"
  using assms
  by (auto simp: publish_admitted_gaps_def Let_def split: option.splits prod.splits if_splits)

lemma drop_conns_configs: "tm_topic_configs (drop_conns cs tm) = tm_topic_configs tm"
  by (induction cs arbitrary: tm) (simp_all add: drop_conns_Cons UnsubscribeByConnId_def case_prod_unfold Let_def)

lemma broker_payload_after_gap: "broker_payload e (after_gap ds b) req = broker_payload e b req"
  by (simp add: broker_payload_def ShouldCompress_def after_gap_def GetTopicConfig_def drop_conns_configs)

lemma after_gap_same:
  assumes "same_but_limits (after_gap ds b) b1"
  shows "b_store b1 = b_store b" and "b_topics b1 = drop_conns (ds 0) (b_topics b)" and "b_dedup b1 = b_dedup b"
    and "ttl_of b1 req = ttl_of b req" and "broker_payload e b1 req = broker_payload e b req"
  using assms broker_payload_same [OF assms] broker_payload_after_gap
  by (simp_all add: same_but_limits_def ttl_of_def after_gap_def)

lemma HandlePublish_gaps_cases [consumes 3, case_names limited admitted]:
  assumes "parse_publish (e_pb e) (payload f) = Some req" and "\<not> dup_request b req"
    and "HandlePublish_gaps e ds f b conn = Some ((b', conn'), acts)"
  obtains msg where "acts = [SendResponse_code e RateLimitExceeded msg 0]" "same_but_limits (after_gap ds b) b'"
  | b1 conn1 where "same_but_limits (after_gap ds b) b1" "publish_admitted_gaps e ds req b1 conn1 = Some ((b', conn'), acts)"
proof -
  obtain ok1 conn1 where ac: "acquire_conn e 1 (after_gap ds b) conn = (ok1, conn1)" by force
  obtain ok2 b1 where ag: "acquire_global e 1 (after_gap ds b) = (ok2, b1)" by force
  show ?thesis
  proof (cases "ok1 \<and> ok2")
    case True
    then show ?thesis
      using that(2) [OF acquire_global_same [OF ag]] HandlePublish_gaps_admitted [OF assms(1,2)] ac ag assms(3) by simp
  next
    case False
    then show ?thesis
      using that(1) HandlePublish_gaps_limited [OF assms(1,2) ac ag] assms(3) by auto
  qed
qed

lemma push_groups_gaps_all:
  assumes "push_groups_gaps ds t mk gs k tm = (gp, tm')"
  shows "list_all (\<lambda>a. \<exists>j. a = Send_To (target a) (mk j)) (map (\<lambda>sub. Send_To (si_conn_id sub) (mk 0)) subs @ gp)"
  using push_groups_gaps_frames [of _ ds t mk gs k tm] assms by (fastforce simp: list_all_iff)

text \<open>
  C7: Connections may go idle while a publish request is handled. For a broker whose message store and
  topic manager are well formed (the invariants that all their operations keep; the rings are at most
  16 MiB) and that has given out fewer than 2^64 - 2 message identifiers per topic, and whatever connections the heartbeat thread drops
  between the handler's calls of the topic manager, a request that is not a duplicate is still refused
  with one error and an unchanged log, or stored exactly once, with exactly these pushes, in this order: one to
  every broadcast subscriber whose connection was there when the subscribers were read, and one for every consumer
  group that still had a member when the groups were read, to the member whose turn it is among those whose connections
  had not been dropped when that group is served (to nobody when none is left, or when that member has no name). The
  subscriptions afterwards are the earlier ones without those of all the connections dropped in the gaps.
\<close>

theorem publish_interrupted:
  assumes "store_ok n (b_store b)" and "n + 2 < 2 ^ 64" and "tm_inv (b_topics b)"
    and "parse_publish (e_pb e) (payload f) = Some req" and "\<not> dup_request b req"
    and "HandlePublish_gaps e ds f b conn = Some ((b', conn'), acts)"
  shows "(\<exists>code msg. code \<noteq> Success \<and> acts = [SendResponse_code e code msg 0] \<and>
        log_of (b_store b') = log_of (b_store b) \<and> b_dedup b' = b_dedup b \<and>
        view (b_topics b') = fold spec_drop (ds 0) (view (b_topics b))) \<or>
      (\<exists>mid pushes. acts = pushes @ [SendResponse e True [] mid] \<and>
        log_of (b_store b') = (log_of (b_store b))(pub_topic req := log_of (b_store b) (pub_topic req) @
          [stored mid (e_system e 1) (expiry_of (ttl_of b req) (e_system e 0)) (fst (broker_payload e b req))]) \<and>
        map target pushes = map si_conn_id (filter (\<lambda>i. si_conn_id i \<notin> set (ds 0)) (GetSubscribers (b_topics b) (pub_topic req))) @
          filter (\<lambda>c. c \<noteq> 0) (turns ds 2 (group_copies ds (b_topics b) (pub_topic req))) \<and>
        list_all (\<lambda>a. \<exists>k. a = Send_To (target a) (push_frame e (publish_push e req mid (broker_payload e b req) k))) pushes \<and>
        view (b_topics b') = fold spec_drop
          (concat (map ds [0..<3 + length (group_copies ds (b_topics b) (pub_topic req))])) (view (b_topics b)))"
proof -
  let ?t = "pub_topic req" and ?b0 = "after_gap ds b"
  obtain H where H: "store_inv H n (b_store b)" using assms(1) by (auto simp: store_ok_def)
  have view0: "view (b_topics ?b0) = fold spec_drop (ds 0) (view (b_topics b))"
    using drop_conns_inv [OF assms(3), of "ds 0"] by (simp add: after_gap_def)
  from assms(4,5,6) show ?thesis
  proof (cases rule: HandlePublish_gaps_cases)
    case (limited msg)
    then show ?thesis
      using view0 by (auto simp: same_but_limits_def after_gap_def)
  next
    case (admitted b1 conn1)
    note eqs = after_gap_same [OF admitted(1)]
    from admitted(2) show ?thesis
    proof (cases rule: publish_admitted_gaps_SomeE)
      case (1 mid store)
      then have "log_of store = log_of (b_store b)"
        using Publish_log [OF H assms(2)] eqs by fastforce
      then show ?thesis using 1 eqs view0 by (auto simp: after_gap_def)
    next
      case (2 mid store gp tm)
      note pushed = publish_admitted_gaps_stored [OF assms(3) eqs(2) refl 2(2)]
      let ?subs = "map (\<lambda>sub. Send_To (si_conn_id sub) (push_frame e (publish_push e req mid (broker_payload e b req) 0)))
        (GetSubscribers (b_topics b1) ?t)"
      have "log_of store = (log_of (b_store b))(?t := log_of (b_store b) ?t @
          [stored mid (e_system e 1) (expiry_of (ttl_of b req) (e_system e 0)) (fst (broker_payload e b req))])"
        using Publish_log [OF H assms(2), of ?t] 2(1) eqs by simp
      moreover note push_groups_gaps_all [OF 2(2) [unfolded eqs(5)], of "GetSubscribers (b_topics b1) ?t"]
      moreover have "acts = (?subs @ gp) @ [SendResponse e True [] mid]"
        using 2(5) eqs by simp
      moreover have "map target ?subs = map si_conn_id (filter (\<lambda>i. si_conn_id i \<notin> set (ds 0)) (GetSubscribers (b_topics b) ?t))"
        using pushed(1) by simp
      moreover have "b_store b' = store" "b_topics b' = tm" using 2(3) by simp_all
      ultimately show ?thesis using pushed(2,3)
        by (intro disjI2 exI [of _ mid] exI [of _ "?subs @ gp"] conjI) (simp_all only: map_append)
    qed
  qed
qed

definition sample_gaps :: gaps where
  "sample_gaps = (\<lambda>_. [])(0 := [5], 1 := [7])"

definition sample_group :: ConsumerGroup where
  "sample_group = \<lparr>group_id = ''g'', cg_topic_name = ''t'',
     members = [\<lparr>subscriber_id = ''a'', cm_conn_id = 7\<rparr>, \<lparr>subscriber_id = ''b'', cm_conn_id = 8\<rparr>], round_robin_index = 0\<rparr>"

definition sample_gaps_broker :: Broker where
  "sample_gaps_broker = sample_broker\<lparr>b_topics := tm_new
     \<lparr>tm_topics := [(''t'', \<lparr>ti_name = ''t'', ti_create_time = 0, ti_message_count = 0\<rparr>)],
      tm_subscribers := [(''t'', [\<lparr>si_id = ''s'', si_conn_id = 5\<rparr>, \<lparr>si_id = ''u'', si_conn_id = 6\<rparr>])],
      tm_consumer_groups := [(''t'', [(''g'', sample_group)])]\<rparr>\<rparr>"

lemma sample_gaps_run:
  "\<exists>b1 outs. HandlePublish_gaps sample_env sample_gaps (frame_of FMT_Publish [7]) sample_gaps_broker sample_conn =
     Some ((b1, sample_conn), outs @ [SendResponse sample_env True [] 1])"
proof -
  let ?b = "after_gap sample_gaps sample_gaps_broker" and ?r = "sample_request [7]"
  have pz: "broker_payload sample_env ?b ?r = ([7], False)"
    unfolding broker_payload_after_gap
    by (simp add: broker_payload_def ShouldCompress_def sample_gaps_broker_def sample_defs)
  obtain s' where "Publish ''t'' [7] 0 100 100 (ms_new 64 3 5000) = Some ((True, 1), s')"
    using sample_publish by blast
  then have pub: "Publish (pub_topic ?r) [7] (ttl_of ?b ?r) (e_system sample_env 0) (e_system sample_env 1) (b_store ?b) = Some ((True, 1), s')"
    by (simp add: ttl_of_def after_gap_def sample_gaps_broker_def sample_defs)
  have "\<exists>b1 outs. publish_admitted_gaps sample_env sample_gaps ?r ?b sample_conn =
     Some ((b1, sample_conn), outs @ [SendResponse sample_env True [] 1])"
    unfolding publish_admitted_gaps_def pz fst_conv pub Let_def option.case prod.case by (simp add: case_prod_unfold)
  moreover have "acquire_conn sample_env 1 ?b sample_conn = (True, sample_conn)" "acquire_global sample_env 1 ?b = (True, ?b)"
    and "\<not> dup_request sample_gaps_broker ?r"
    by (simp_all add: acquire_conn_def acquire_global_def after_gap_def dup_request_def IsDuplicate_def
        sample_gaps_broker_def sample_defs)
  ultimately show ?thesis
    using HandlePublish_gaps_admitted [of sample_env "frame_of FMT_Publish [7]" ?r sample_gaps_broker sample_gaps sample_conn
        sample_conn ?b]
    by (simp add: sample_env_def sample_pb_def)
qed

lemma sample_gaps_facts:
  shows "store_ok 0 (b_store sample_gaps_broker)" and "tm_inv (b_topics sample_gaps_broker)"
    and "\<not> dup_request sample_gaps_broker (sample_request [7])"
    and "parse_publish (e_pb sample_env) (payload (frame_of FMT_Publish [7])) = Some (sample_request [7])"
    and "fst (broker_payload sample_env sample_gaps_broker (sample_request [7])) = [7]"
    and "ttl_of sample_gaps_broker (sample_request [7]) = 0" and "log_of (b_store sample_gaps_broker) ''t'' = []"
    and "GetSubscribers (b_topics sample_gaps_broker) ''t'' = [\<lparr>si_id = ''s'', si_conn_id = 5\<rparr>, \<lparr>si_id = ''u'', si_conn_id = 6\<rparr>]"
    and "GetConsumerGroups (b_topics sample_gaps_broker) ''t'' = [sample_group]"
proof -
  show "store_ok 0 (b_store sample_gaps_broker)"
    unfolding store_ok_def using store_inv_new [of 64 3 5000]
    by (auto simp: sample_gaps_broker_def sample_broker_def broker_new_def)
  show "tm_inv (b_topics sample_gaps_broker)"
    by (simp add: sample_gaps_broker_def sample_group_def sample_defs tm_inv_def um_find_Cons groups_ok_def group_ok_def um_has_def)
qed (simp_all add: sample_gaps_broker_def sample_defs dup_request_def IsDuplicate_def broker_payload_def ShouldCompress_def
    ttl_of_def log_of_def ms_new_def GetSubscribers_def GetConsumerGroups_def um_find_Cons)

lemma sample_turns: "turns sample_gaps 2 (group_copies sample_gaps (b_topics sample_gaps_broker) ''t'') = [8]"
  unfolding group_copies_def sample_gaps_facts(9)
  by (simp add: turn_def remain_def dropped_by_def sample_gaps_def sample_group_def next_conn_def
      List.map_filter_simps upt_rec)

lemma sample_answer: "code \<noteq> Success \<Longrightarrow> SendResponse sample_env True [] 1 \<noteq> SendResponse_code sample_env code msg 0"
  by (simp add: SendResponse_def SendResponse_code_def response_bool_def response_code_def frame_of_def
      default_Frame_def sample_env_def sample_pb_def)

theorem publish_interrupted_witness:
  "\<exists>b1 mid pushes. HandlePublish_gaps sample_env sample_gaps (frame_of FMT_Publish [7]) sample_gaps_broker sample_conn =
      Some ((b1, sample_conn), pushes @ [SendResponse sample_env True [] mid]) \<and>
    log_of (b_store b1) ''t'' = [stored mid 100 0 [7]] \<and> map target pushes = [6, 8]"
proof -
  let ?b = sample_gaps_broker and ?r = "sample_request [7]"
  obtain b1 outs where r: "HandlePublish_gaps sample_env sample_gaps (frame_of FMT_Publish [7]) ?b sample_conn =
      Some ((b1, sample_conn), outs @ [SendResponse sample_env True [] 1])"
    using sample_gaps_run by blast
  have t: "pub_topic ?r = ''t''" "e_system sample_env 0 = 100" "e_system sample_env 1 = 100" "expiry_of 0 100 = 0"
    "set (sample_gaps 0) = {5}"
    by (simp_all add: sample_request_def sample_env_def expiry_of_def sample_gaps_def)
  have "0 + 2 < (2::nat) ^ 64" by simp
  from publish_interrupted [OF sample_gaps_facts(1) this sample_gaps_facts(2,4,3) r,
    unfolded sample_gaps_facts(5,6) t sample_gaps_facts(8) sample_turns]
  show ?thesis
  proof (elim disjE exE conjE, goal_cases)
    case (1 code msg)
    then show ?case using sample_answer by auto
  next
    case (2 mid pushes)
    then show ?case
      using r sample_gaps_facts(7) by (intro exI [of _ b1] exI [of _ mid] exI [of _ pushes]) simp
  qed
qed

end
