(* ===== verification/Tcp_Server.thy ===== *)
theory Tcp_Server
  imports Broker_Push
begin

text \<open>
  \<^verbatim>\<open>network/tcp_server.h\<close> and \<^verbatim>\<open>.cpp\<close>: the table of connections, accepting, reading, sending, the
  heartbeat, and their composition with the broker. Connections are shared objects: \<open>ts_objects\<close>
  holds every connection that was accepted, \<open>ts_connections\<close> is the table \<open>connections_\<close>, so a
  handler that still holds a connection which left the table works on the same object. The results
  of system calls are arguments. \<open>connections_mutex_\<close> is not recursive: a thread that locks it twice
  never goes on, which is the result \<open>None\<close> of the operations that send under the lock.
\<close>

subsection \<open>State\<close>

record TcpServer =
  ts_config :: BrokerConfig
  ts_listening :: bool
  ts_epoll :: bool
  ts_running :: bool
  ts_objects :: "ConnectionId \<Rightarrow> Connection option"
  ts_connections :: "ConnectionId list"
  ts_next_conn_id :: ConnectionId

definition ts_new :: "BrokerConfig \<Rightarrow> TcpServer" where
  "ts_new cfg = \<lparr>ts_config = cfg, ts_listening = False, ts_epoll = False, ts_running = False,
     ts_objects = (\<lambda>_. None), ts_connections = [], ts_next_conn_id = 1\<rparr>"

text \<open>\<open>Start\<close>, given which of \<open>socket\<close>, \<open>bind\<close>, \<open>listen\<close> and \<open>epoll_create1\<close> succeed.\<close>

definition Start :: "bool \<Rightarrow> bool \<Rightarrow> bool \<Rightarrow> bool \<Rightarrow> TcpServer \<Rightarrow> bool \<times> TcpServer" where
  "Start socket_ok bind_ok listen_ok epoll_ok s =
     (let s1 = s\<lparr>ts_listening := socket_ok\<rparr> in
      if \<not> socket_ok then (False, s1)
      else if \<not> bind_ok then (False, s1\<lparr>ts_listening := False\<rparr>)
      else if \<not> listen_ok then (False, s1\<lparr>ts_listening := False\<rparr>)
      else
        let s2 = s1\<lparr>ts_epoll := epoll_ok\<rparr> in
        if \<not> epoll_ok then (False, s2\<lparr>ts_listening := False\<rparr>)
        else (True, s2\<lparr>ts_running := True\<rparr>))"

text \<open>Closing a connection: the close handler takes it out of the table.\<close>

definition close_conn :: "ConnectionId \<Rightarrow> TcpServer \<Rightarrow> TcpServer" where
  "close_conn cid s =
     (case ts_objects s cid of
        None \<Rightarrow> s
      | Some c \<Rightarrow>
          if c_closed c then s
          else s\<lparr>ts_objects := (ts_objects s)(cid \<mapsto> Close c),
                 ts_connections := filter (\<lambda>i. i \<noteq> cid) (ts_connections s)\<rparr>)"

definition Stop :: "TcpServer \<Rightarrow> TcpServer" where
  "Stop s =
     (let conns_to_close = ts_connections s;
          s1 = s\<lparr>ts_running := False, ts_listening := False, ts_epoll := False, ts_connections := []\<rparr>
      in fold close_conn conns_to_close s1)"

subsection \<open>Sending\<close>

text \<open>
  \<open>send_locked\<close> is \<open>SendFrame\<close> on a connection of the table while the lock is held: a failing send
  closes the connection, whose close handler locks again. \<open>send_direct\<close> is \<open>SendFrame\<close> without the
  lock, as the handlers call it. Both give the bytes that went out.
\<close>

definition send_locked :: "ConnectionId \<Rightarrow> Frame \<Rightarrow> send_result list \<Rightarrow> TcpServer
    \<Rightarrow> (bool \<times> byte list \<times> TcpServer) option" where
  "send_locked cid frame rs s =
     (case ts_objects s cid of
        None \<Rightarrow> Some (False, [], s)
      | Some c \<Rightarrow>
          let (ok, out, c') = SendFrame frame rs c in
          if c_closed c' \<and> \<not> c_closed c then None
          else Some (ok, out, s\<lparr>ts_objects := (ts_objects s)(cid \<mapsto> c')\<rparr>))"

definition SendTo :: "ConnectionId \<Rightarrow> Frame \<Rightarrow> send_result list \<Rightarrow> TcpServer
    \<Rightarrow> (bool \<times> byte list \<times> TcpServer) option" where
  "SendTo cid frame rs s =
     (if cid \<in> set (ts_connections s) then send_locked cid frame rs s else Some (False, [], s))"

fun broadcast_loop :: "Frame \<Rightarrow> (ConnectionId \<Rightarrow> send_result list) \<Rightarrow> ConnectionId list \<Rightarrow> TcpServer
    \<Rightarrow> ((ConnectionId \<times> byte list) list \<times> TcpServer) option" where
  "broadcast_loop frame rss [] s = Some ([], s)"
| "broadcast_loop frame rss (cid # cids) s =
     (case send_locked cid frame (rss cid) s of
        None \<Rightarrow> None
      | Some (ok, out, s1) \<Rightarrow>
          map_option (\<lambda>(outs, s2). ((cid, out) # outs, s2)) (broadcast_loop frame rss cids s1))"

definition Broadcast :: "Frame \<Rightarrow> (ConnectionId \<Rightarrow> send_result list) \<Rightarrow> TcpServer
    \<Rightarrow> ((ConnectionId \<times> byte list) list \<times> TcpServer) option" where
  "Broadcast frame rss s = broadcast_loop frame rss (ts_connections s) s"

definition send_direct :: "ConnectionId \<Rightarrow> Frame \<Rightarrow> send_result list \<Rightarrow> TcpServer
    \<Rightarrow> bool \<times> byte list \<times> TcpServer" where
  "send_direct cid frame rs s =
     (case ts_objects s cid of
        None \<Rightarrow> (False, [], s)
      | Some c \<Rightarrow>
          let (ok, out, c') = SendFrame frame rs c;
              s1 = s\<lparr>ts_objects := (ts_objects s)(cid \<mapsto> c')\<rparr>
          in (ok, out, if c_closed c' \<and> \<not> c_closed c
                then s1\<lparr>ts_connections := filter (\<lambda>i. i \<noteq> cid) (ts_connections s1)\<rparr> else s1))"

subsection \<open>The loops\<close>

text \<open>One accepted connection of \<open>AcceptLoop\<close>.\<close>

definition accept_conn :: "time_point \<Rightarrow> TcpServer \<Rightarrow> ConnectionId \<times> TcpServer" where
  "accept_conn now s =
     (let conn_id = ts_next_conn_id s;
          conn = conn_new conn_id (Some (ts_config s)) now
      in (conn_id, s\<lparr>ts_next_conn_id := conn_id + 1,
            ts_objects := (ts_objects s)(conn_id \<mapsto> conn),
            ts_connections := filter (\<lambda>i. i \<noteq> conn_id) (ts_connections s) @ [conn_id]\<rparr>))"

text \<open>
  \<open>AcceptLoop\<close> on the results of its calls of \<open>accept\<close>, and whether it goes on: any error other than
  \<open>EAGAIN\<close> ends the loop, without ending the server.
\<close>

datatype accept_result = Accepted time_point | Accept_Again | Accept_Error

fun AcceptLoop :: "accept_result list \<Rightarrow> TcpServer \<Rightarrow> bool \<times> TcpServer" where
  "AcceptLoop [] s = (ts_running s, s)"
| "AcceptLoop (r # rs) s =
     (if \<not> ts_running s then (False, s)
      else case r of
          Accepted now \<Rightarrow> AcceptLoop rs (snd (accept_conn now s))
        | Accept_Again \<Rightarrow> AcceptLoop rs s
        | Accept_Error \<Rightarrow> (False, s))"

text \<open>One event of \<open>EventLoop\<close>: the frames for the frame handler.\<close>

definition on_event :: "ConnectionId \<Rightarrow> recv_result list \<Rightarrow> time_point \<Rightarrow> TcpServer \<Rightarrow> Frame list \<times> TcpServer" where
  "on_event cid rs now s =
     (if cid \<in> set (ts_connections s) then
        case ts_objects s cid of
          None \<Rightarrow> ([], s)
        | Some c \<Rightarrow>
            let (frames, c') = OnRead rs now c;
                s1 = s\<lparr>ts_objects := (ts_objects s)(cid \<mapsto> c')\<rparr>
            in (frames, if c_closed c' \<and> \<not> c_closed c
                  then s1\<lparr>ts_connections := filter (\<lambda>i. i \<noteq> cid) (ts_connections s1)\<rparr> else s1)
      else ([], s))"

text \<open>
  One round of \<open>HeartbeatLoop\<close>: the connections that are idle for too long; each is first reported to
  the idle-timeout handler and then closed.
\<close>

definition is_idle :: "time_point \<Rightarrow> TcpServer \<Rightarrow> ConnectionId \<Rightarrow> bool" where
  "is_idle now s cid =
     (case ts_objects s cid of
        None \<Rightarrow> False
      | Some c \<Rightarrow> \<not> c_closed c \<and>
          duration_ms (now - GetLastActiveTime c) \<ge> int (unat (heartbeat_timeout_ms (ts_config s))))"

definition idle_conns :: "time_point \<Rightarrow> TcpServer \<Rightarrow> ConnectionId list" where
  "idle_conns now s = filter (is_idle now s) (ts_connections s)"

definition heartbeat_round :: "time_point \<Rightarrow> (ConnectionId \<Rightarrow> 'b \<Rightarrow> 'b) \<Rightarrow> TcpServer \<times> 'b \<Rightarrow> TcpServer \<times> 'b" where
  "heartbeat_round now idle_timeout_handler sb =
     (let (s, b) = sb; ids = idle_conns now s
      in (fold close_conn ids s, fold idle_timeout_handler ids b))"

subsection \<open>The table and its objects\<close>

text \<open>
  \<open>srv_ok\<close>: every connection in the table has an object of the same identifier that is open, the
  open objects are exactly those of the table, and nothing is listed twice.
\<close>

definition srv_ok :: "TcpServer \<Rightarrow> bool" where
  "srv_ok s \<longleftrightarrow> distinct (ts_connections s) \<and>
     (\<forall>cid. cid \<in> set (ts_connections s) \<longleftrightarrow> (\<exists>c. ts_objects s cid = Some c \<and> \<not> c_closed c)) \<and>
     (\<forall>cid c. ts_objects s cid = Some c \<longrightarrow> c_id c = cid)"

lemma srv_ok_new: "srv_ok (ts_new cfg)"
  by (simp add: srv_ok_def ts_new_def)

lemma SendFrame_id: "SendFrame f rs c = (ok, out, c') \<Longrightarrow> c_id c' = c_id c"
  by (auto simp: SendFrame_def Let_def Close_def split: if_splits prod.splits send_result.splits)

lemma SendFrame_keeps_closed: "SendFrame f rs c = (ok, out, c') \<Longrightarrow> c_closed c \<Longrightarrow> c_closed c'"
  by (auto simp: SendFrame_closed)

lemma OnRead_id: "OnRead rs now c = (fs, c') \<Longrightarrow> c_id c' = c_id c"
  by (auto simp: OnRead_def Let_def Close_def UpdateLastActiveTime_def split: if_splits prod.splits)

lemma OnRead_keeps_closed: "OnRead rs now c = (fs, c') \<Longrightarrow> c_closed c \<Longrightarrow> c_closed c'"
  by (auto simp: OnRead_def)

text \<open>Replacing an object by one of the same identifier, and dropping it from the table if that closed it.\<close>

lemma srv_ok_replace:
  assumes "srv_ok s" and "ts_objects s cid = Some c" and "c_id c' = cid" and "c_closed c \<Longrightarrow> c_closed c'"
  shows "srv_ok (if c_closed c' \<and> \<not> c_closed c
    then s\<lparr>ts_objects := (ts_objects s)(cid \<mapsto> c'), ts_connections := filter (\<lambda>i. i \<noteq> cid) (ts_connections s)\<rparr>
    else s\<lparr>ts_objects := (ts_objects s)(cid \<mapsto> c')\<rparr>)"
  using assms by (auto simp: srv_ok_def)

lemma srv_ok_send_locked:
  assumes "srv_ok s" and "send_locked cid f rs s = Some (ok, out, s')"
  shows "srv_ok s'"
proof (cases "ts_objects s cid")
  case None
  then show ?thesis using assms by (simp add: send_locked_def)
next
  case (Some c)
  obtain ok' out' c' where r: "SendFrame f rs c = (ok', out', c')" by (cases "SendFrame f rs c")
  have "c_id c = cid" using assms(1) Some by (simp add: srv_ok_def)
  then have "srv_ok (if c_closed c' \<and> \<not> c_closed c
    then s\<lparr>ts_objects := (ts_objects s)(cid \<mapsto> c'), ts_connections := filter (\<lambda>i. i \<noteq> cid) (ts_connections s)\<rparr>
    else s\<lparr>ts_objects := (ts_objects s)(cid \<mapsto> c')\<rparr>)"
    using SendFrame_id [OF r] SendFrame_keeps_closed [OF r] by (intro srv_ok_replace [OF assms(1) Some]) simp_all
  then show ?thesis
    using assms(2) Some r by (auto simp: send_locked_def split: if_splits)
qed

lemma srv_ok_SendTo: "srv_ok s \<Longrightarrow> SendTo cid f rs s = Some (ok, out, s') \<Longrightarrow> srv_ok s'"
  by (auto simp: SendTo_def srv_ok_send_locked split: if_splits)

lemma srv_ok_send_direct:
  assumes "srv_ok s" and "send_direct cid f rs s = (ok, out, s')"
  shows "srv_ok s'"
proof (cases "ts_objects s cid")
  case None
  then show ?thesis using assms by (simp add: send_direct_def)
next
  case (Some c)
  obtain ok' out' c' where r: "SendFrame f rs c = (ok', out', c')" by (cases "SendFrame f rs c")
  have "c_id c = cid" using assms(1) Some by (simp add: srv_ok_def)
  then show ?thesis
    using srv_ok_replace [OF assms(1) Some, of c'] SendFrame_id [OF r] SendFrame_keeps_closed [OF r] assms(2) Some r
    by (auto simp: send_direct_def Let_def split: if_splits)
qed

lemma srv_ok_on_event:
  assumes "srv_ok s" and "on_event cid rs now s = (fs, s')"
  shows "srv_ok s'"
proof (cases "cid \<in> set (ts_connections s)")
  case False
  then show ?thesis using assms by (simp add: on_event_def)
next
  case True
  then obtain c where Some: "ts_objects s cid = Some c" using assms(1) by (auto simp: srv_ok_def)
  obtain fs' c' where r: "OnRead rs now c = (fs', c')" by force
  have "c_id c = cid" using assms(1) Some by (simp add: srv_ok_def)
  then show ?thesis
    using srv_ok_replace [OF assms(1) Some, of c'] OnRead_id [OF r] OnRead_keeps_closed [OF r] assms(2) Some r True
    by (auto simp: on_event_def Let_def split: if_splits)
qed

lemma srv_ok_close: "srv_ok s \<Longrightarrow> srv_ok (close_conn cid s)"
  by (auto simp: srv_ok_def close_conn_def Close_def split: option.split)

lemma srv_ok_close_all: "srv_ok s \<Longrightarrow> srv_ok (fold close_conn cids s)"
  by (induction cids arbitrary: s) (simp_all add: srv_ok_close)

lemma srv_ok_accept:
  assumes "srv_ok s"
  shows "srv_ok (snd (accept_conn now s))"
  using assms by (auto simp: srv_ok_def accept_conn_def Let_def conn_new_def)

lemma srv_ok_Start:
  "srv_ok s \<Longrightarrow> srv_ok (snd (Start socket_ok bind_ok listen_ok epoll_ok s))"
  by (simp add: Start_def srv_ok_def Let_def)

lemma close_all_objects:
  "ts_objects (fold close_conn cids s) cid =
     (if cid \<in> set cids then map_option Close (ts_objects s cid) else ts_objects s cid)"
proof (induction cids arbitrary: s)
  case (Cons c cids)
  have "ts_objects (close_conn c s) cid = (if cid = c then map_option Close (ts_objects s cid) else ts_objects s cid)"
    by (auto simp: close_conn_def Close_def split: option.split)
  moreover have "map_option Close (map_option Close x) = map_option Close x" for x
    by (cases x) (simp_all add: Close_def)
  ultimately show ?case
    using Cons.IH [of "close_conn c s"] by (cases "cid = c") auto
qed simp

text \<open>In a consistent server the table is determined by which objects are open.\<close>

lemma close_all_connections:
  assumes "srv_ok s"
  shows "ts_connections (fold close_conn cids s) = filter (\<lambda>i. i \<notin> set cids) (ts_connections s)"
  using assms
proof (induction cids arbitrary: s)
  case (Cons c cids)
  have "ts_connections (close_conn c s) = filter (\<lambda>i. i \<noteq> c) (ts_connections s)"
  proof (cases "c \<in> set (ts_connections s)")
    case True
    then show ?thesis using Cons.prems by (auto simp: srv_ok_def close_conn_def)
  next
    case False
    then have "filter (\<lambda>i. i \<noteq> c) (ts_connections s) = ts_connections s"
      by (auto intro: filter_True)
    moreover have "close_conn c s = s"
      using False Cons.prems by (auto simp: srv_ok_def close_conn_def split: option.split)
    ultimately show ?thesis by simp
  qed
  then show ?case
    using Cons.IH [OF srv_ok_close [OF Cons.prems]] by (auto intro: filter_cong)
qed simp

text \<open>Stopping closes every connection and empties the table.\<close>

lemma Stop_effect:
  assumes "srv_ok s"
  shows "srv_ok (Stop s) \<and> ts_connections (Stop s) = [] \<and> \<not> ts_running (Stop s) \<and>
    (\<forall>cid c. ts_objects (Stop s) cid = Some c \<longrightarrow> c_closed c)"
proof -
  let ?s = "s\<lparr>ts_running := False, ts_listening := False, ts_epoll := False, ts_connections := []\<rparr>"
  have stop: "Stop s = fold close_conn (ts_connections s) ?s" by (simp add: Stop_def)
  have keep: "ts_connections (fold close_conn cids x) = [] \<and> ts_running (fold close_conn cids x) = ts_running x"
    if "ts_connections x = []" for cids x
    using that
  proof (induction cids arbitrary: x)
    case (Cons c cids)
    have "ts_connections (close_conn c x) = [] \<and> ts_running (close_conn c x) = ts_running x"
      using Cons.prems by (simp add: close_conn_def split: option.split)
    then show ?case using Cons.IH [of "close_conn c x"] by simp
  qed simp
  have closed: "c_closed c" if obj: "ts_objects (Stop s) cid = Some c" for cid c
  proof (cases "cid \<in> set (ts_connections s)")
    case True
    then obtain c0 where "c = Close c0" using obj by (auto simp: stop close_all_objects)
    then show ?thesis by (simp add: Close_def)
  next
    case False
    then show ?thesis using that assms by (auto simp: stop close_all_objects srv_ok_def)
  qed
  have id: "c_id c = cid" if "ts_objects (Stop s) cid = Some c" for cid c
    using that assms by (auto simp: stop close_all_objects srv_ok_def Close_def split: if_splits)
  have table: "ts_connections (Stop s) = []" "\<not> ts_running (Stop s)"
    using keep [of ?s "ts_connections s"] by (simp_all add: stop)
  then show ?thesis
    using closed id unfolding srv_ok_def by auto
qed

text \<open>The connections that one run of \<open>AcceptLoop\<close> adds; an error ends it for good.\<close>

lemma srv_ok_AcceptLoop: "srv_ok s \<Longrightarrow> srv_ok (snd (AcceptLoop rs s))"
  by (induction rs arbitrary: s) (auto simp: srv_ok_accept split: accept_result.splits)

lemma AcceptLoop_error: "\<not> fst (AcceptLoop (as @ Accept_Error # rs) s) \<and>
    snd (AcceptLoop (as @ Accept_Error # rs) s) = snd (AcceptLoop (as @ [Accept_Error]) s)"
  by (induction as arbitrary: s) (auto split: accept_result.splits)

text \<open>
  \<open>SendTo\<close> does not return (it locks the connection mutex again in the
  close handler) if and only if the connection is in the table and this send closes it; in
  particular whenever the kernel reports an error on the first send to an open connection with an
  empty write buffer on which sending without a copy is enabled. What this does to the other threads is the
  property \<open>failed_send_blocks_server\<close> of \<open>Server_Shutdown\<close>, where the mutex and its holder are explicit.
\<close>

theorem SendTo_deadlock:
  assumes "srv_ok s"
  shows "(SendTo cid f rs s = None \<longleftrightarrow>
      (\<exists>c. ts_objects s cid = Some c \<and> \<not> c_closed c \<and> c_closed (snd (snd (SendFrame f rs c))))) \<and>
    (\<forall>c rs'. rs = Send_Error # rs' \<and> ts_objects s cid = Some c \<and> \<not> c_closed c \<and> c_write_buffer c = [] \<and> zero_copy c
      \<longrightarrow> SendTo cid f rs s = None)"
proof -
  have iff: "SendTo cid f rs s = None \<longleftrightarrow>
      (\<exists>c. ts_objects s cid = Some c \<and> \<not> c_closed c \<and> c_closed (snd (snd (SendFrame f rs c))))"
    using assms by (auto simp: SendTo_def send_locked_def srv_ok_def case_prod_unfold Let_def split: option.splits if_splits)
  have "c_closed (snd (snd (SendFrame f (Send_Error # rs') c)))"
    if "\<not> c_closed c" "c_write_buffer c = []" "zero_copy c" for c rs'
    using that by (simp add: SendFrame_def header_bytes Close_def)
  with iff show ?thesis by auto
qed

theorem SendTo_deadlock_witness:
  "SendTo 1 default_Frame [Send_Error] (snd (accept_conn 0 (ts_new default_BrokerConfig))) = None"
proof -
  let ?s = "snd (accept_conn 0 (ts_new default_BrokerConfig))"
  have "srv_ok ?s" by (rule srv_ok_accept [OF srv_ok_new])
  from SendTo_deadlock [OF this, of 1 default_Frame "[Send_Error]"] show ?thesis
    by (simp add: accept_conn_def ts_new_def conn_new_def zero_copy_def default_BrokerConfig_def Let_def)
qed

text \<open>Starting leaves both descriptors open or none.\<close>

lemma Start_clean:
  assumes "\<not> ts_running s" and "\<not> ts_epoll s"
  shows "case Start socket_ok bind_ok listen_ok epoll_ok s of (ok, s') \<Rightarrow>
    (ok \<longleftrightarrow> socket_ok \<and> bind_ok \<and> listen_ok \<and> epoll_ok) \<and>
    ts_running s' = ok \<and> ts_listening s' = ok \<and> ts_epoll s' = ok"
  using assms by (auto simp: Start_def Let_def)

subsection \<open>Events of the listening socket\<close>

text \<open>
  \<open>Start\<close> registers the listening socket with \<open>data.fd\<close>, \<open>AcceptLoop\<close> registers connections with
  \<open>data.u64\<close>, and \<open>EventLoop\<close> reads \<open>data.u64\<close> of every event: the identifier it looks up for an event of
  the listening socket is the number of that socket (on a little-endian machine, where the two members
  of the union share their low bytes).
\<close>

datatype epoll_source = Listening_Socket | Of_Connection ConnectionId

definition event_id :: "nat \<Rightarrow> epoll_source \<Rightarrow> ConnectionId" where
  "event_id listen_fd e = (case e of Listening_Socket \<Rightarrow> of_nat listen_fd | Of_Connection cid \<Rightarrow> cid)"

lemma is_idle_after_read:
  assumes "0 \<le> now" and "now div 1000000 < 2 ^ 64" and "now' < now + int ms * 1000000" and "ms + 1 \<le> unat (heartbeat_timeout_ms (ts_config s))"
    and "ts_objects s cid = Some c" and "c_last_active_ms c = ms_of now"
  shows "\<not> is_idle now' s cid"
proof -
  have last: "GetLastActiveTime c = now div 1000000 * 1000000"
    using assms(1,2,6) by (simp add: GetLastActiveTime_def ms_of_def uint_word_of_int pos_imp_zdiv_nonneg_iff)
  have "now' - now div 1000000 * 1000000 < (int ms + 1) * 1000000"
    using assms(3) by (simp add: algebra_simps)
  moreover have "duration_ms x < int ms + 1" if "x < (int ms + 1) * 1000000" for x
  proof (cases "0 \<le> x")
    case True
    then show ?thesis using that by (simp add: duration_ms_def div_less_iff_less_mult)
  next
    case False
    then have "0 \<le> (- x) div 1000000" by (simp add: pos_imp_zdiv_nonneg_iff)
    then show ?thesis using False by (simp add: duration_ms_def)
  qed
  ultimately have "duration_ms (now' - now div 1000000 * 1000000) < int ms + 1" by blast
  moreover have "int (ms + 1) \<le> int (unat (heartbeat_timeout_ms (ts_config s)))"
    using assms(4) by (rule iffD2 [OF of_nat_le_iff])
  ultimately show ?thesis
    using assms(5) last by (simp add: is_idle_def)
qed

text \<open>
  A connection attempt of anyone keeps one connection alive: the event of the listening socket is
  dispatched to the connection whose identifier is the number of that socket, and although there is
  nothing to read the connection counts as active from then on, so the heartbeat does not find it
  idle before its timeout has passed again.
\<close>

theorem listener_keeps_alive:
  assumes "srv_ok s" and "of_nat listen_fd \<in> set (ts_connections s)"
    and "on_event (event_id listen_fd Listening_Socket) [Recv_Block] now s = (frames, s')"
    and "0 \<le> now" and "now div 1000000 < 2 ^ 64"
    and "now' < now + int ms * 1000000" and "ms + 1 \<le> unat (heartbeat_timeout_ms (ts_config s))"
  shows "of_nat listen_fd \<in> set (ts_connections s') \<and> of_nat listen_fd \<notin> set (idle_conns now' s')"
proof -
  obtain c where c: "ts_objects s (of_nat listen_fd) = Some c" "\<not> c_closed c"
    using assms(1,2) by (auto simp: srv_ok_def)
  obtain fs codec where "sc_drain (AppendData (c_codec c) (c_read_buffer c)) = (fs, codec)" by fastforce
  moreover define c' where "c' = c\<lparr>c_last_active_ms := ms_of now, c_read_buffer := [], c_codec := codec\<rparr>"
  ultimately have s': "s' = s\<lparr>ts_objects := (ts_objects s)(of_nat listen_fd \<mapsto> c')\<rparr>"
    using assms(2,3) c by (simp add: on_event_def event_id_def OnRead_def UpdateLastActiveTime_def Let_def)
  have active: "c_last_active_ms c' = ms_of now" by (simp add: c'_def)
  have "\<not> is_idle now' s' (of_nat listen_fd)"
    using assms(4-7) active by (intro is_idle_after_read [where now = now and ms = ms and c = c']) (simp_all add: s')
  then show ?thesis using assms(2) by (simp add: s' idle_conns_def)
qed

theorem listener_keeps_alive_witness:
  "\<exists>fs s'. on_event (event_id 1 Listening_Socket) [Recv_Block] 20000000000 (snd (accept_conn 0 (ts_new default_BrokerConfig))) = (fs, s') \<and>
     1 \<notin> set (idle_conns 24000000000 s')"
proof -
  let ?s = "snd (accept_conn 0 (ts_new default_BrokerConfig))"
  obtain fs s' where run: "on_event (event_id 1 Listening_Socket) [Recv_Block] 20000000000 ?s = (fs, s')" by fastforce
  have "srv_ok ?s" by (rule srv_ok_accept [OF srv_ok_new])
  moreover have "of_nat 1 \<in> set (ts_connections ?s)" by (simp add: accept_conn_def ts_new_def Let_def)
  moreover have "4001 + 1 \<le> unat (heartbeat_timeout_ms (ts_config ?s))"
    by (simp add: accept_conn_def ts_new_def Let_def default_BrokerConfig_def)
  ultimately have "of_nat 1 \<notin> set (idle_conns 24000000000 s')"
    using listener_keeps_alive [OF _ _ run, where now' = 24000000000 and ms = 4001] by simp
  with run show ?thesis by auto
qed

end
