(* ===== verification/Server_Shutdown.thy ===== *)
theory Server_Shutdown
  imports Prelude
begin

text \<open>
  The threads of the server program: \<open>AcceptLoop\<close>, \<open>EventLoop\<close> and \<open>HeartbeatLoop\<close> of
  \<^verbatim>\<open>network/tcp_server.cpp\<close>, the loop of \<open>main\<close> in \<^verbatim>\<open>main/server_main.cpp\<close> that waits for the broker to
  stop, and \<open>TcpServer::Stop\<close>, which the signal handler calls on whatever thread the signal is
  delivered to, the two background threads of the store among them. A step relation interleaves them; what the loops do to
  connections is in \<open>Tcp_Server\<close>, here the table of connections is its size. Every lock of
  \<open>connections_mutex_\<close> and every unlock is a step of its own. The mutex is not recursive: a thread that wants it waits
  until no thread holds it, the thread itself included. Of the mutexes of the topic manager and of the
  store only what a shutdown depends on is represented: one that the interrupted thread holds stays locked.

  Proved here: once \<open>running_\<close> is cleared every execution of the program ends, and in which ways: \<open>Stop\<close> has
  returned with all threads joined, or a thread has joined itself and the program ends in
  \<open>std::terminate\<close>, or \<open>Stop\<close> hangs, for one of three reasons. One of these is the failed send of
  \<open>TcpServer::SendTo\<close>, which blocks the event thread with the mutex locked, also without any shutdown. And \<open>Stop\<close> can return with a
  connection in the table, which the accept thread added after \<open>Stop\<close> had emptied it.

  Not represented: a second signal while \<open>Stop\<close> runs (the two calls would race on the thread objects), the locks inside the
  C library and the output streams, and what follows the loop of \<open>main\<close>.
\<close>

subsection \<open>Threads\<close>

text \<open>\<open>StoreThread\<close> is the retry or the expiration thread; both live until the store is destroyed.\<close>

datatype server_thread = MainThread | AcceptThread | EventThread | HeartbeatThread | StoreThread

datatype other_mutex = Topic_Mutex | Store_Mutex

text \<open>In \<open>A_Add\<close> the accepted connection is about to be put into the table, in \<open>A_Adding\<close> the mutex is locked for it.\<close>

datatype accept_pc = A_Top | A_Call | A_Sleep | A_Add | A_Adding | A_Done

text \<open>
  What a frame handler does that matters here, in order: it may close its connection (when the peer has, or
  when a reply fails), call \<open>SendTo\<close>, or lock a mutex of the topic manager or of the store. \<open>E_Events uss\<close>
  are the events of the batch that are left, \<open>E_Find\<close> looks the connection up, \<open>E_Handler us uss\<close> is in the handler
  with \<open>us\<close> to do, \<open>E_Closing\<close> in the close handler, \<open>E_Sending\<close> in \<open>SendTo\<close>, \<open>E_Relock\<close> in the close handler that a failed
  send calls from inside \<open>SendTo\<close>, and \<open>E_Using\<close> has another mutex locked.
\<close>

datatype handler_use = Closes | Sends | Uses other_mutex

datatype event_pc = E_Top | E_Wait | E_Events "handler_use list list"
  | E_Find "handler_use list" "handler_use list list" | E_Handler "handler_use list" "handler_use list list"
  | E_Closing "handler_use list" "handler_use list list" | E_Sending "handler_use list" "handler_use list list"
  | E_Relock "handler_use list" "handler_use list list" | E_Using other_mutex "handler_use list" "handler_use list list"
  | E_Done

text \<open>\<open>H_Notify j k\<close>: of \<open>k\<close> idle connections, \<open>j\<close> are still to be reported to the broker; then they are closed.\<close>

datatype heartbeat_pc = H_Off | H_Top | H_Sleep | H_Check | H_Scan | H_Scanning | H_Notify nat nat | H_Notifying nat nat
  | H_Close nat | H_Closing nat | H_Done

datatype main_pc = M_Top | M_Sleep | M_Done

datatype stop_pc = S_None | S_Flag | S_Listen | S_Epoll | S_Copy | S_Copying | S_Close nat | S_Closing nat | S_Join_Accept
  | S_Join_Event | S_Join_Heartbeat | S_Return | S_Terminate

text \<open>\<open>held\<close> is the other mutex that the thread held when the signal interrupted it.\<close>

record ServerThreads =
  running :: bool
  listening :: bool
  epoll_open :: bool
  table :: nat
  accept_pc :: accept_pc
  event_pc :: event_pc
  heartbeat_pc :: heartbeat_pc
  main_pc :: main_pc
  stop_pc :: stop_pc
  stop_caller :: server_thread
  held :: "other_mutex option"

text \<open>After \<open>Start\<close> has succeeded.\<close>

definition threads_started :: "bool \<Rightarrow> ServerThreads" where
  "threads_started heartbeat_enabled =
     \<lparr>running = True, listening = True, epoll_open = True, table = 0, accept_pc = A_Top, event_pc = E_Top,
      heartbeat_pc = (if heartbeat_enabled then H_Top else H_Off), main_pc = M_Top, stop_pc = S_None,
      stop_caller = MainThread, held = None\<rparr>"

text \<open>Who holds \<open>connections_mutex_\<close>.\<close>

fun accept_holds :: "accept_pc \<Rightarrow> bool" where
  "accept_holds A_Adding \<longleftrightarrow> True"
| "accept_holds _ \<longleftrightarrow> False"

fun event_holds :: "event_pc \<Rightarrow> bool" where
  "event_holds (E_Find us uss) \<longleftrightarrow> True"
| "event_holds (E_Closing us uss) \<longleftrightarrow> True"
| "event_holds (E_Sending us uss) \<longleftrightarrow> True"
| "event_holds (E_Relock us uss) \<longleftrightarrow> True"
| "event_holds _ \<longleftrightarrow> False"

fun heartbeat_holds :: "heartbeat_pc \<Rightarrow> bool" where
  "heartbeat_holds H_Scanning \<longleftrightarrow> True"
| "heartbeat_holds (H_Closing k) \<longleftrightarrow> True"
| "heartbeat_holds _ \<longleftrightarrow> False"

fun stop_holds :: "stop_pc \<Rightarrow> bool" where
  "stop_holds S_Copying \<longleftrightarrow> True"
| "stop_holds (S_Closing k) \<longleftrightarrow> True"
| "stop_holds _ \<longleftrightarrow> False"

definition unlocked :: "ServerThreads \<Rightarrow> bool" where
  "unlocked s \<longleftrightarrow> \<not> accept_holds (accept_pc s) \<and> \<not> event_holds (event_pc s) \<and>
     \<not> heartbeat_holds (heartbeat_pc s) \<and> \<not> stop_holds (stop_pc s)"

subsection \<open>Steps\<close>

text \<open>In the step relations \<open>mx\<close> says that \<open>connections_mutex_\<close> is unlocked, \<open>n\<close> is the size of the table.\<close>

inductive accept_step :: "bool \<Rightarrow> bool \<Rightarrow> bool \<Rightarrow> accept_pc \<times> nat \<Rightarrow> accept_pc \<times> nat \<Rightarrow> bool"
  for run :: bool and listen :: bool and mx :: bool where
  a_top: "accept_step run listen mx (A_Top, n) (if run then A_Call else A_Done, n)"
| a_accepted: "listen \<Longrightarrow> accept_step run listen mx (A_Call, n) (A_Add, n)"
| a_again: "listen \<Longrightarrow> accept_step run listen mx (A_Call, n) (A_Sleep, n)"
| a_error: "accept_step run listen mx (A_Call, n) (A_Done, n)"
| a_slept: "accept_step run listen mx (A_Sleep, n) (A_Top, n)"
| a_lock: "mx \<Longrightarrow> accept_step run listen mx (A_Add, n) (A_Adding, n)"
| a_add: "accept_step run listen mx (A_Adding, n) (A_Top, Suc n)"

text \<open>
  A wait for events ends with some events, by its time limit with none, interrupted, or with an error. \<open>SendTo\<close>
  sends with the mutex locked: the call returns if the send succeeds, is refused for a full buffer or finds no connection; a
  send that fails closes the connection, whose close handler locks the mutex again.
\<close>

inductive event_step :: "bool \<Rightarrow> bool \<Rightarrow> other_mutex option \<Rightarrow> event_pc \<times> nat \<Rightarrow> event_pc \<times> nat \<Rightarrow> bool"
  for run :: bool and mx :: bool and stuck :: "other_mutex option" where
  e_top: "event_step run mx stuck (E_Top, n) (if run then E_Wait else E_Done, n)"
| e_events: "length uss \<le> 64 \<Longrightarrow> event_step run mx stuck (E_Wait, n) (E_Events uss, n)"
| e_interrupted: "event_step run mx stuck (E_Wait, n) (E_Top, n)"
| e_error: "event_step run mx stuck (E_Wait, n) (E_Done, n)"
| e_batch_done: "event_step run mx stuck (E_Events [], n) (E_Top, n)"
| e_lookup: "mx \<Longrightarrow> event_step run mx stuck (E_Events (us # uss), n) (E_Find us uss, n)"
| e_unknown: "event_step run mx stuck (E_Find us uss, n) (E_Events uss, n)"
| e_found: "event_step run mx stuck (E_Find us uss, n) (E_Handler us uss, n)"
| e_close: "mx \<Longrightarrow> event_step run mx stuck (E_Handler (Closes # us) uss, n) (E_Closing us uss, n)"
| e_closed: "m = n \<or> m = n - 1 \<Longrightarrow> event_step run mx stuck (E_Closing us uss, n) (E_Handler us uss, m)"
| e_send: "mx \<Longrightarrow> event_step run mx stuck (E_Handler (Sends # us) uss, n) (E_Sending us uss, n)"
| e_sent: "event_step run mx stuck (E_Sending us uss, n) (E_Handler us uss, n)"
| e_send_failed: "n > 0 \<Longrightarrow> event_step run mx stuck (E_Sending us uss, n) (E_Relock us uss, n)"
| e_relock: "mx \<Longrightarrow> event_step run mx stuck (E_Relock us uss, n) (E_Closing us uss, n)"
| e_use: "stuck \<noteq> Some mu \<Longrightarrow> event_step run mx stuck (E_Handler (Uses mu # us) uss, n) (E_Using mu us uss, n)"
| e_used: "event_step run mx stuck (E_Using mu us uss, n) (E_Handler us uss, n)"
| e_handled: "event_step run mx stuck (E_Handler [] uss, n) (E_Events uss, n)"

text \<open>A connection that something else has closed is not closed again, and its close handler is not called.\<close>

inductive heartbeat_step :: "bool \<Rightarrow> bool \<Rightarrow> other_mutex option \<Rightarrow> heartbeat_pc \<times> nat \<Rightarrow> heartbeat_pc \<times> nat \<Rightarrow> bool"
  for run :: bool and mx :: bool and stuck :: "other_mutex option" where
  h_top: "heartbeat_step run mx stuck (H_Top, n) (if run then H_Sleep else H_Done, n)"
| h_slept: "heartbeat_step run mx stuck (H_Sleep, n) (H_Check, n)"
| h_check: "heartbeat_step run mx stuck (H_Check, n) (if run then H_Scan else H_Done, n)"
| h_scan: "mx \<Longrightarrow> heartbeat_step run mx stuck (H_Scan, n) (H_Scanning, n)"
| h_scanned: "k \<le> n \<Longrightarrow> heartbeat_step run mx stuck (H_Scanning, n) (H_Notify k k, n)"
| h_notify: "stuck \<noteq> Some Topic_Mutex \<Longrightarrow> heartbeat_step run mx stuck (H_Notify (Suc j) k, n) (H_Notifying j k, n)"
| h_notified: "heartbeat_step run mx stuck (H_Notifying j k, n) (H_Notify j k, n)"
| h_all_notified: "heartbeat_step run mx stuck (H_Notify 0 k, n) (H_Close k, n)"
| h_skip: "heartbeat_step run mx stuck (H_Close (Suc k), n) (H_Close k, n)"
| h_close: "mx \<Longrightarrow> heartbeat_step run mx stuck (H_Close (Suc k), n) (H_Closing k, n)"
| h_closed: "m = n \<or> m = n - 1 \<Longrightarrow> heartbeat_step run mx stuck (H_Closing k, n) (H_Close k, m)"
| h_again: "heartbeat_step run mx stuck (H_Close 0, n) (H_Top, n)"

inductive main_step :: "bool \<Rightarrow> main_pc \<Rightarrow> main_pc \<Rightarrow> bool" for run :: bool where
  m_top: "main_step run M_Top (if run then M_Sleep else M_Done)"
| m_slept: "main_step run M_Sleep M_Top"

text \<open>
  \<open>Stop\<close>. Joining the thread it runs on is the exception \<open>std::system_error\<close>, which nothing catches. When it returns, the
  interrupted thread goes on and unlocks what it held.
\<close>

inductive stop_step :: "ServerThreads \<Rightarrow> ServerThreads \<Rightarrow> bool" where
  s_flag: "stop_pc s = S_Flag \<Longrightarrow> stop_step s (s\<lparr>running := False, stop_pc := S_Listen\<rparr>)"
| s_listen: "stop_pc s = S_Listen \<Longrightarrow> stop_step s (s\<lparr>listening := False, stop_pc := S_Epoll\<rparr>)"
| s_epoll: "stop_pc s = S_Epoll \<Longrightarrow> stop_step s (s\<lparr>epoll_open := False, stop_pc := S_Copy\<rparr>)"
| s_copy: "stop_pc s = S_Copy \<Longrightarrow> unlocked s \<Longrightarrow> stop_step s (s\<lparr>stop_pc := S_Copying\<rparr>)"
| s_copied: "stop_pc s = S_Copying \<Longrightarrow> stop_step s (s\<lparr>table := 0, stop_pc := S_Close (table s)\<rparr>)"
| s_skip: "stop_pc s = S_Close (Suc k) \<Longrightarrow> stop_step s (s\<lparr>stop_pc := S_Close k\<rparr>)"
| s_close: "stop_pc s = S_Close (Suc k) \<Longrightarrow> unlocked s \<Longrightarrow> stop_step s (s\<lparr>stop_pc := S_Closing k\<rparr>)"
| s_closed: "stop_pc s = S_Closing k \<Longrightarrow> stop_step s (s\<lparr>stop_pc := S_Close k\<rparr>)"
| s_all_closed: "stop_pc s = S_Close 0 \<Longrightarrow> stop_step s (s\<lparr>stop_pc := S_Join_Accept\<rparr>)"
| s_accept: "stop_pc s = S_Join_Accept \<Longrightarrow> stop_caller s \<noteq> AcceptThread \<Longrightarrow> accept_pc s = A_Done \<Longrightarrow>
    stop_step s (s\<lparr>stop_pc := S_Join_Event\<rparr>)"
| s_event: "stop_pc s = S_Join_Event \<Longrightarrow> stop_caller s \<noteq> EventThread \<Longrightarrow> event_pc s = E_Done \<Longrightarrow>
    stop_step s (s\<lparr>stop_pc := S_Join_Heartbeat\<rparr>)"
| s_heartbeat: "stop_pc s = S_Join_Heartbeat \<Longrightarrow> stop_caller s \<noteq> HeartbeatThread \<Longrightarrow>
    heartbeat_pc s \<in> {H_Off, H_Done} \<Longrightarrow> stop_step s (s\<lparr>stop_pc := S_Return, held := None\<rparr>)"
| s_self: "(stop_pc s, stop_caller s) \<in> {(S_Join_Accept, AcceptThread), (S_Join_Event, EventThread),
      (S_Join_Heartbeat, HeartbeatThread)} \<Longrightarrow> stop_step s (s\<lparr>stop_pc := S_Terminate\<rparr>)"

text \<open>A thread that is executing the signal handler does nothing else until \<open>Stop\<close> returns.\<close>

definition free :: "server_thread \<Rightarrow> ServerThreads \<Rightarrow> bool" where
  "free t s \<longleftrightarrow> stop_pc s \<noteq> S_Terminate \<and> (stop_caller s = t \<longrightarrow> stop_pc s \<in> {S_None, S_Return})"

fun alive :: "ServerThreads \<Rightarrow> server_thread \<Rightarrow> bool" where
  "alive s MainThread \<longleftrightarrow> main_pc s \<noteq> M_Done"
| "alive s AcceptThread \<longleftrightarrow> accept_pc s \<noteq> A_Done"
| "alive s EventThread \<longleftrightarrow> event_pc s \<noteq> E_Done"
| "alive s HeartbeatThread \<longleftrightarrow> heartbeat_pc s \<notin> {H_Off, H_Done}"
| "alive s StoreThread \<longleftrightarrow> True"

text \<open>The other mutex that a thread may hold where the signal finds it; of the store's threads it is open whether they hold one.\<close>

fun holds_other :: "ServerThreads \<Rightarrow> server_thread \<Rightarrow> other_mutex option \<Rightarrow> bool" where
  "holds_other s EventThread h \<longleftrightarrow> h = (case event_pc s of E_Using mu us uss \<Rightarrow> Some mu | _ \<Rightarrow> None)"
| "holds_other s HeartbeatThread h \<longleftrightarrow> h = (case heartbeat_pc s of H_Notifying j k \<Rightarrow> Some Topic_Mutex | _ \<Rightarrow> None)"
| "holds_other s StoreThread h \<longleftrightarrow> h \<noteq> Some Topic_Mutex"
| "holds_other s _ h \<longleftrightarrow> h = None"

inductive server_step :: "ServerThreads \<Rightarrow> ServerThreads \<Rightarrow> bool" where
  accepting: "free AcceptThread s \<Longrightarrow>
    accept_step (running s) (listening s) (unlocked s) (accept_pc s, table s) (pc, n) \<Longrightarrow>
    server_step s (s\<lparr>accept_pc := pc, table := n\<rparr>)"
| handling: "free EventThread s \<Longrightarrow>
    event_step (running s) (unlocked s) (held s) (event_pc s, table s) (pc, n) \<Longrightarrow>
    server_step s (s\<lparr>event_pc := pc, table := n\<rparr>)"
| beating: "free HeartbeatThread s \<Longrightarrow>
    heartbeat_step (running s) (unlocked s) (held s) (heartbeat_pc s, table s) (pc, n) \<Longrightarrow>
    server_step s (s\<lparr>heartbeat_pc := pc, table := n\<rparr>)"
| waiting: "free MainThread s \<Longrightarrow> main_step (running s) (main_pc s) pc \<Longrightarrow> server_step s (s\<lparr>main_pc := pc\<rparr>)"
| signal: "stop_pc s = S_None \<Longrightarrow> alive s t \<Longrightarrow> holds_other s t h \<Longrightarrow>
    server_step s (s\<lparr>stop_pc := S_Flag, stop_caller := t, held := h\<rparr>)"
| stopping: "stop_step s s' \<Longrightarrow> server_step s s'"

abbreviation server_reach :: "bool \<Rightarrow> ServerThreads \<Rightarrow> bool" where
  "server_reach heartbeat_enabled s \<equiv> server_step\<^sup>*\<^sup>* (threads_started heartbeat_enabled) s"

inductive_cases accept_stepE: "accept_step run listen mx (pc, n) (pc', n')"
inductive_cases event_stepE: "event_step run mx stuck (pc, n) (pc', n')"
inductive_cases heartbeat_stepE: "heartbeat_step run mx stuck (pc, n) (pc', n')"
inductive_cases main_stepE: "main_step run pc pc'"

inductive_simps accept_step_simps [simp]:
  "accept_step run listen mx (A_Top, n) r" "accept_step run listen mx (A_Call, n) r" "accept_step run listen mx (A_Sleep, n) r"
  "accept_step run listen mx (A_Add, n) r" "accept_step run listen mx (A_Adding, n) r" "accept_step run listen mx (A_Done, n) r"

inductive_simps event_step_simps [simp]:
  "event_step run mx stuck (E_Top, n) r" "event_step run mx stuck (E_Wait, n) r"
  "event_step run mx stuck (E_Events [], n) r" "event_step run mx stuck (E_Events (us # uss), n) r"
  "event_step run mx stuck (E_Find us uss, n) r" "event_step run mx stuck (E_Handler [] uss, n) r"
  "event_step run mx stuck (E_Handler (Closes # us) uss, n) r" "event_step run mx stuck (E_Handler (Sends # us) uss, n) r"
  "event_step run mx stuck (E_Handler (Uses mu # us) uss, n) r" "event_step run mx stuck (E_Closing us uss, n) r"
  "event_step run mx stuck (E_Sending us uss, n) r" "event_step run mx stuck (E_Relock us uss, n) r"
  "event_step run mx stuck (E_Using mu us uss, n) r" "event_step run mx stuck (E_Done, n) r"

inductive_simps heartbeat_step_simps [simp]:
  "heartbeat_step run mx stuck (H_Top, n) r" "heartbeat_step run mx stuck (H_Sleep, n) r"
  "heartbeat_step run mx stuck (H_Check, n) r" "heartbeat_step run mx stuck (H_Scan, n) r"
  "heartbeat_step run mx stuck (H_Scanning, n) r" "heartbeat_step run mx stuck (H_Notify 0 k, n) r"
  "heartbeat_step run mx stuck (H_Notify (Suc j) k, n) r" "heartbeat_step run mx stuck (H_Notifying j k, n) r"
  "heartbeat_step run mx stuck (H_Close 0, n) r" "heartbeat_step run mx stuck (H_Close (Suc k), n) r"
  "heartbeat_step run mx stuck (H_Closing k, n) r" "heartbeat_step run mx stuck (H_Off, n) r" "heartbeat_step run mx stuck (H_Done, n) r"

inductive_simps main_step_simps [simp]:
  "main_step run M_Top pc" "main_step run M_Sleep pc" "main_step run M_Done pc"

subsection \<open>Invariant\<close>

text \<open>A thread takes the mutex only when it is unlocked, and only who holds it changes the table.\<close>

lemma accept_step_mutex: "accept_step run listen mx (pc, n) (pc', n') \<Longrightarrow>
    (accept_holds pc' \<longrightarrow> accept_holds pc \<or> mx) \<and> (n' \<noteq> n \<longrightarrow> accept_holds pc)"
  by (erule accept_stepE) auto

lemma event_step_mutex: "event_step run mx stuck (pc, n) (pc', n') \<Longrightarrow>
    (event_holds pc' \<longrightarrow> event_holds pc \<or> mx) \<and> (n' \<noteq> n \<longrightarrow> event_holds pc)"
  by (erule event_stepE) auto

lemma heartbeat_step_mutex: "heartbeat_step run mx stuck (pc, n) (pc', n') \<Longrightarrow>
    (heartbeat_holds pc' \<longrightarrow> heartbeat_holds pc \<or> mx) \<and> (n' \<noteq> n \<longrightarrow> heartbeat_holds pc)"
  by (erule heartbeat_stepE) auto

lemma stop_step_mutex: "stop_step s s' \<Longrightarrow>
    (stop_holds (stop_pc s') \<longrightarrow> stop_holds (stop_pc s) \<or> unlocked s) \<and> (table s' \<noteq> table s \<longrightarrow> stop_holds (stop_pc s))"
  by (induction rule: stop_step.induct) auto

definition exclusive :: "ServerThreads \<Rightarrow> bool" where
  "exclusive s \<longleftrightarrow> (of_bool (accept_holds (accept_pc s)) + of_bool (event_holds (event_pc s)) +
     of_bool (heartbeat_holds (heartbeat_pc s)) + of_bool (stop_holds (stop_pc s)) :: nat) \<le> 1"

lemma exclusive_started: "exclusive (threads_started hb)"
  by (simp add: exclusive_def threads_started_def)

lemma stop_step_frame: "stop_step s s' \<Longrightarrow> stop_caller s' = stop_caller s \<and>
    accept_pc s' = accept_pc s \<and> event_pc s' = event_pc s \<and> heartbeat_pc s' = heartbeat_pc s \<and> main_pc s' = main_pc s"
  by (induction rule: stop_step.induct) auto

lemma exclusive_step: "server_step s s' \<Longrightarrow> exclusive s \<Longrightarrow> exclusive s'"
proof (induction rule: server_step.induct)
  case (accepting s pc n)
  then show ?case
    using accept_step_mutex [OF accepting(2)] by (cases "accept_holds pc") (auto simp: exclusive_def unlocked_def of_bool_def split: if_splits)
next
  case (handling s pc n)
  then show ?case
    using event_step_mutex [OF handling(2)] by (cases "event_holds pc") (auto simp: exclusive_def unlocked_def of_bool_def split: if_splits)
next
  case (beating s pc n)
  then show ?case
    using heartbeat_step_mutex [OF beating(2)] by (cases "heartbeat_holds pc") (auto simp: exclusive_def unlocked_def of_bool_def split: if_splits)
next
  case (stopping s s')
  then show ?case
    using stop_step_mutex [OF stopping(1)] stop_step_frame [OF stopping(1)]
    by (cases "stop_holds (stop_pc s')") (auto simp: exclusive_def unlocked_def of_bool_def split: if_splits)
qed (simp_all add: exclusive_def)

text \<open>
  What \<open>Stop\<close> has done so far, and which threads it has joined; on a thread of the server it never
  gets past joining that thread, which is suspended where it was.
\<close>

definition threads_ok :: "ServerThreads \<Rightarrow> bool" where
  "threads_ok s \<longleftrightarrow>
     (running s \<longleftrightarrow> stop_pc s \<in> {S_None, S_Flag}) \<and>
     (stop_pc s \<in> {S_Join_Event, S_Join_Heartbeat, S_Return} \<longrightarrow> accept_pc s = A_Done \<and> stop_caller s \<noteq> AcceptThread) \<and>
     (stop_pc s \<in> {S_Join_Heartbeat, S_Return} \<longrightarrow> event_pc s = E_Done \<and> stop_caller s \<noteq> EventThread) \<and>
     (stop_pc s = S_Return \<longrightarrow> heartbeat_pc s \<in> {H_Off, H_Done} \<and> stop_caller s \<noteq> HeartbeatThread) \<and>
     (stop_pc s = S_Terminate \<longrightarrow> stop_caller s \<in> {AcceptThread, EventThread, HeartbeatThread}) \<and>
     (stop_pc s = S_None \<longrightarrow> held s = None) \<and>
     (held s = Some Topic_Mutex \<longrightarrow> stop_caller s \<in> {EventThread, HeartbeatThread})"

lemma threads_ok_started: "threads_ok (threads_started hb)"
  by (simp add: threads_ok_def threads_started_def)

lemma threads_ok_stop: "stop_step s s' \<Longrightarrow> threads_ok s \<Longrightarrow> threads_ok s'"
proof (induction rule: stop_step.induct)
  case (s_self s)
  then show ?case by (elim insertE emptyE) (simp_all add: threads_ok_def)
qed (simp_all add: threads_ok_def)

lemma heartbeat_step_on: "heartbeat_step run mx stuck (pc, n) (pc', n') \<Longrightarrow> pc \<noteq> H_Off \<and> pc \<noteq> H_Done"
  by (erule heartbeat_stepE) simp_all

lemma threads_ok_step: "server_step s s' \<Longrightarrow> threads_ok s \<Longrightarrow> threads_ok s'"
proof (induction rule: server_step.induct)
  case (accepting s pc n)
  then show ?case by (cases "accept_pc s = A_Done") (simp_all add: threads_ok_def)
next
  case (handling s pc n)
  then show ?case by (cases "event_pc s = E_Done") (simp_all add: threads_ok_def)
next
  case (beating s pc n)
  have "stop_pc s \<noteq> S_Return"
    using heartbeat_step_on [OF beating(2)] beating(3) unfolding threads_ok_def by blast
  then show ?case using beating(3) by (cases "stop_pc s") (auto simp: threads_ok_def)
next
  case (signal s t h)
  then have "h = Some Topic_Mutex \<longrightarrow> t \<in> {EventThread, HeartbeatThread}" by (cases t) auto
  then show ?case using signal by (simp add: threads_ok_def)
next
  case (stopping s s')
  then show ?case by (rule threads_ok_stop)
qed (simp_all add: threads_ok_def)

lemma threads_ok_reach: "server_step\<^sup>*\<^sup>* s s' \<Longrightarrow> threads_ok s \<Longrightarrow> threads_ok s'"
  by (induction rule: rtranclp_induct) (auto intro: threads_ok_step)

lemma exclusive_reach: "server_step\<^sup>*\<^sup>* s s' \<Longrightarrow> exclusive s \<Longrightarrow> exclusive s'"
  by (induction rule: rtranclp_induct) (auto intro: exclusive_step)

subsection \<open>Every shutdown comes to an end\<close>

text \<open>
  Once \<open>running_\<close> is cleared, each step takes a thread to a later phase, or leaves all phases as they
  are and does one unit of the work that the phase has left.
\<close>

fun accept_phase :: "accept_pc \<Rightarrow> nat" where
  "accept_phase A_Done = 0"
| "accept_phase A_Top = 1"
| "accept_phase A_Sleep = 2"
| "accept_phase A_Adding = 2"
| "accept_phase A_Add = 3"
| "accept_phase A_Call = 4"

fun event_phase :: "event_pc \<Rightarrow> nat" where
  "event_phase E_Done = 0"
| "event_phase E_Top = 1"
| "event_phase E_Wait = 3"
| "event_phase _ = 2"

definition batch_work :: "handler_use list list \<Rightarrow> nat" where
  "batch_work uss = sum_list (map (\<lambda>us. 4 * length us + 3) uss)"

lemma batch_work_simps [simp]:
  "batch_work [] = 0" "batch_work (us # uss) = 4 * length us + 3 + batch_work uss"
  by (simp_all add: batch_work_def)

fun event_work :: "event_pc \<Rightarrow> nat" where
  "event_work (E_Events uss) = batch_work uss"
| "event_work (E_Find us uss) = 4 * length us + 2 + batch_work uss"
| "event_work (E_Handler us uss) = 4 * length us + 1 + batch_work uss"
| "event_work (E_Closing us uss) = 4 * length us + 2 + batch_work uss"
| "event_work (E_Using mu us uss) = 4 * length us + 2 + batch_work uss"
| "event_work (E_Relock us uss) = 4 * length us + 3 + batch_work uss"
| "event_work (E_Sending us uss) = 4 * length us + 4 + batch_work uss"
| "event_work _ = 0"

fun heartbeat_phase :: "heartbeat_pc \<Rightarrow> nat" where
  "heartbeat_phase H_Off = 0"
| "heartbeat_phase H_Done = 0"
| "heartbeat_phase H_Top = 1"
| "heartbeat_phase H_Scanning = 3"
| "heartbeat_phase H_Scan = 4"
| "heartbeat_phase H_Check = 5"
| "heartbeat_phase H_Sleep = 6"
| "heartbeat_phase _ = 2"

fun heartbeat_work :: "heartbeat_pc \<Rightarrow> nat" where
  "heartbeat_work (H_Notify j k) = 2 * j + 2 * k + 1"
| "heartbeat_work (H_Notifying j k) = 2 * j + 2 * k + 2"
| "heartbeat_work (H_Close k) = 2 * k"
| "heartbeat_work (H_Closing k) = 2 * k + 1"
| "heartbeat_work _ = 0"

fun main_phase :: "main_pc \<Rightarrow> nat" where
  "main_phase M_Done = 0"
| "main_phase M_Top = 1"
| "main_phase M_Sleep = 2"

fun stop_phase :: "stop_pc \<Rightarrow> nat" where
  "stop_phase S_None = 10"
| "stop_phase S_Flag = 9"
| "stop_phase S_Listen = 8"
| "stop_phase S_Epoll = 7"
| "stop_phase S_Copy = 6"
| "stop_phase S_Copying = 5"
| "stop_phase (S_Close k) = 4"
| "stop_phase (S_Closing k) = 4"
| "stop_phase S_Join_Accept = 3"
| "stop_phase S_Join_Event = 2"
| "stop_phase S_Join_Heartbeat = 1"
| "stop_phase S_Return = 0"
| "stop_phase S_Terminate = 0"

fun stop_work :: "stop_pc \<Rightarrow> nat" where
  "stop_work (S_Close k) = 2 * k"
| "stop_work (S_Closing k) = 2 * k + 1"
| "stop_work _ = 0"

definition phases_left :: "ServerThreads \<Rightarrow> nat" where
  "phases_left s = accept_phase (accept_pc s) + event_phase (event_pc s) + heartbeat_phase (heartbeat_pc s) +
     main_phase (main_pc s) + stop_phase (stop_pc s)"

definition work_left :: "ServerThreads \<Rightarrow> nat" where
  "work_left s = event_work (event_pc s) + heartbeat_work (heartbeat_pc s) + stop_work (stop_pc s)"

definition less_left :: "(ServerThreads \<times> ServerThreads) set" where
  "less_left = inv_image (less_than <*lex*> less_than) (\<lambda>s. (phases_left s, work_left s))"

lemma wf_less_left: "wf less_left"
  by (simp add: less_left_def wf_lex_prod)

lemma in_less_left: "(s', s) \<in> less_left \<longleftrightarrow>
    phases_left s' < phases_left s \<or> phases_left s' = phases_left s \<and> work_left s' < work_left s"
  by (simp add: less_left_def)

lemma accept_step_left: "accept_step False listen mx (pc, n) (pc', n') \<Longrightarrow> accept_phase pc' < accept_phase pc"
  by (erule accept_stepE) auto

lemma event_step_left: "event_step False mx stuck (pc, n) (pc', n') \<Longrightarrow>
    event_phase pc' < event_phase pc \<or> event_phase pc' = event_phase pc \<and> event_work pc' < event_work pc"
  by (erule event_stepE) auto

lemma heartbeat_step_left: "heartbeat_step False mx stuck (pc, n) (pc', n') \<Longrightarrow>
    heartbeat_phase pc' < heartbeat_phase pc \<or> heartbeat_phase pc' = heartbeat_phase pc \<and> heartbeat_work pc' < heartbeat_work pc"
  by (erule heartbeat_stepE) auto

lemma main_step_left: "main_step False pc pc' \<Longrightarrow> main_phase pc' < main_phase pc"
  by (erule main_stepE) auto

lemma stop_step_left: "stop_step s s' \<Longrightarrow>
    (stop_phase (stop_pc s') < stop_phase (stop_pc s) \<or>
     stop_phase (stop_pc s') = stop_phase (stop_pc s) \<and> stop_work (stop_pc s') < stop_work (stop_pc s)) \<and>
    (\<not> running s \<longrightarrow> \<not> running s')"
  by (induction rule: stop_step.induct) auto

lemma server_step_left:
  assumes "server_step s s'" and "threads_ok s" and "\<not> running s"
  shows "(s', s) \<in> less_left \<and> \<not> running s'"
  using assms
proof (induction rule: server_step.induct)
  case (accepting s pc n)
  then show ?case
    using accept_step_left [of "listening s" "unlocked s" "accept_pc s" "table s" pc n]
    by (simp add: in_less_left phases_left_def)
next
  case (handling s pc n)
  then show ?case
    using event_step_left [of "unlocked s" "held s" "event_pc s" "table s" pc n]
    by (auto simp: in_less_left phases_left_def work_left_def)
next
  case (beating s pc n)
  then show ?case
    using heartbeat_step_left [of "unlocked s" "held s" "heartbeat_pc s" "table s" pc n]
    by (auto simp: in_less_left phases_left_def work_left_def)
next
  case (waiting s pc)
  then show ?case
    using main_step_left [of "main_pc s" pc] by (simp add: in_less_left phases_left_def)
next
  case (signal s t h)
  then show ?case by (simp add: threads_ok_def)
next
  case (stopping s s')
  then show ?case
    using stop_step_left [OF stopping(1)] stop_step_frame [OF stopping(1)]
    by (auto simp: in_less_left phases_left_def work_left_def)
qed

lemma shutdown_keeps:
  assumes "server_reach hb s" and "\<not> running s" and "server_step\<^sup>*\<^sup>* s s'"
  shows "threads_ok s' \<and> \<not> running s'"
  using assms(3)
proof (induction rule: rtranclp_induct)
  case base
  then show ?case using threads_ok_reach [OF assms(1) threads_ok_started] assms(2) by simp
next
  case (step s' s'')
  then show ?case using threads_ok_step server_step_left by blast
qed

lemma shutdown_finite:
  assumes "server_reach hb s" and "\<not> running s" and "f 0 = s" and "\<And>i. server_step (f i) (f (Suc i))"
  shows False
proof -
  have "server_step\<^sup>*\<^sup>* s (f i)" for i
    using assms(3,4) by (induction i) (auto intro: rtranclp.rtrancl_into_rtrancl)
  then have "(f (Suc i), f i) \<in> less_left" for i
    using shutdown_keeps [OF assms(1,2)] server_step_left [OF assms(4)] by blast
  then show False using wf_less_left by (auto simp: wf_iff_no_infinite_down_chain)
qed

subsection \<open>Where a shutdown can end\<close>

text \<open>
  The three reasons for which \<open>Stop\<close> may never return: the event thread is in the close handler of a send that failed inside
  \<open>SendTo\<close>; the thread that \<open>Stop\<close> runs on had \<open>connections_mutex_\<close> locked when the signal interrupted it; that thread had another
  mutex locked, which the event thread now waits for.
\<close>

fun relocks :: "event_pc \<Rightarrow> bool" where
  "relocks (E_Relock us uss) \<longleftrightarrow> True"
| "relocks _ \<longleftrightarrow> False"

fun holds_mutex :: "ServerThreads \<Rightarrow> server_thread \<Rightarrow> bool" where
  "holds_mutex s AcceptThread \<longleftrightarrow> accept_holds (accept_pc s)"
| "holds_mutex s EventThread \<longleftrightarrow> event_holds (event_pc s)"
| "holds_mutex s HeartbeatThread \<longleftrightarrow> heartbeat_holds (heartbeat_pc s)"
| "holds_mutex s _ \<longleftrightarrow> False"

fun wants :: "event_pc \<Rightarrow> other_mutex option" where
  "wants (E_Handler (Uses mu # us) uss) = Some mu"
| "wants _ = None"

definition hangs :: "ServerThreads \<Rightarrow> bool" where
  "hangs s \<longleftrightarrow> stop_pc s \<notin> {S_Return, S_Terminate} \<and>
     (relocks (event_pc s) \<or> holds_mutex s (stop_caller s) \<or> held s \<noteq> None \<and> wants (event_pc s) = held s)"

definition returned :: "ServerThreads \<Rightarrow> bool" where
  "returned s \<longleftrightarrow> stop_pc s = S_Return \<and> stop_caller s \<in> {MainThread, StoreThread} \<and> accept_pc s = A_Done \<and>
     event_pc s = E_Done \<and> heartbeat_pc s \<in> {H_Off, H_Done} \<and> main_pc s = M_Done"

definition terminated :: "ServerThreads \<Rightarrow> bool" where
  "terminated s \<longleftrightarrow> stop_pc s = S_Terminate \<and> stop_caller s \<in> {AcceptThread, EventThread, HeartbeatThread}"

text \<open>A thread that has not ended can move, unless it waits for a mutex.\<close>

lemma accept_moves:
  assumes "free AcceptThread s" and "accept_pc s \<noteq> A_Done" and "unlocked s \<or> accept_holds (accept_pc s)"
  shows "\<exists>s'. server_step s s'"
proof -
  have "\<exists>pc n. accept_step (running s) (listening s) (unlocked s) (accept_pc s, table s) (pc, n)"
    using assms(2,3) by (cases "accept_pc s") auto
  then show ?thesis using accepting [OF assms(1)] by blast
qed

lemma event_thread_moves:
  assumes "free EventThread s" and "event_pc s \<noteq> E_Done" and "unlocked s \<or> event_holds (event_pc s)"
    and "\<not> relocks (event_pc s)" and "held s = None \<or> wants (event_pc s) \<noteq> held s"
  shows "\<exists>s'. server_step s s'"
proof -
  have "\<exists>pc n. event_step (running s) (unlocked s) (held s) (event_pc s, table s) (pc, n)"
  proof (cases "event_pc s")
    case (E_Events uss)
    then show ?thesis using assms(3) by (cases uss) auto
  next
    case (E_Handler us uss)
    show ?thesis
    proof (cases us)
      case (Cons u us')
      then show ?thesis using E_Handler assms(3,5) by (cases u) auto
    qed (use E_Handler in simp)
  qed (use assms(2,4) in auto)
  then show ?thesis using handling [OF assms(1)] by blast
qed

lemma heartbeat_moves:
  assumes "free HeartbeatThread s" and "heartbeat_pc s \<notin> {H_Off, H_Done}" and "unlocked s \<or> heartbeat_holds (heartbeat_pc s)"
    and "held s \<noteq> Some Topic_Mutex \<or> heartbeat_holds (heartbeat_pc s)"
  shows "\<exists>s'. server_step s s'"
proof -
  have "\<exists>pc n. heartbeat_step (running s) (unlocked s) (held s) (heartbeat_pc s, table s) (pc, n)"
  proof (cases "heartbeat_pc s")
    case (H_Notify j k)
    then show ?thesis using assms(4) by (cases j) auto
  next
    case (H_Close k)
    then show ?thesis by (cases k) auto
  qed (use assms(2,3) in auto)
  then show ?thesis using beating [OF assms(1)] by blast
qed

lemma main_moves: "free MainThread s \<Longrightarrow> main_pc s \<noteq> M_Done \<Longrightarrow> \<exists>s'. server_step s s'"
proof -
  assume f: "free MainThread s" and "main_pc s \<noteq> M_Done"
  then have "\<exists>pc. main_step (running s) (main_pc s) pc" by (cases "main_pc s") auto
  then show ?thesis using waiting [OF f] by blast
qed

lemma stop_moves: "stop_step s s' \<Longrightarrow> \<exists>s'. server_step s s'"
  by (blast intro: stopping)

text \<open>In a state without a step in which \<open>Stop\<close> runs and does not hang, the mutex is unlocked and the other threads have ended.\<close>

lemma stuck_unlocked:
  assumes stuck: "\<nexists>s'. server_step s s'" and pc: "stop_pc s \<notin> {S_None, S_Return, S_Terminate}" and "\<not> hangs s"
  shows "unlocked s"
proof (rule ccontr)
  assume locked: "\<not> unlocked s"
  have free: "free t s" if "stop_caller s \<noteq> t" for t using pc that by (simp add: free_def)
  have no: "\<not> relocks (event_pc s)" "\<not> holds_mutex s (stop_caller s)" using assms(2,3) by (auto simp: hangs_def)
  consider "accept_holds (accept_pc s)" | "event_holds (event_pc s)" | "heartbeat_holds (heartbeat_pc s)" | "stop_holds (stop_pc s)"
    using locked by (auto simp: unlocked_def)
  then show False
  proof cases
    case 1
    then have "stop_caller s \<noteq> AcceptThread" "accept_pc s \<noteq> A_Done" using no(2) by auto
    note this(2) free [OF this(1)]
    then show False using accept_moves 1 stuck by blast
  next
    case 2
    then have "stop_caller s \<noteq> EventThread" "event_pc s \<noteq> E_Done" "wants (event_pc s) = None"
      using no(2) by (auto elim: event_holds.elims)
    then show False using event_thread_moves [OF free [of EventThread]] 2 no(1) stuck by (cases "held s") auto
  next
    case 3
    then have "stop_caller s \<noteq> HeartbeatThread" "heartbeat_pc s \<notin> {H_Off, H_Done}" using no(2) by auto
    note this(2) free [OF this(1)]
    then show False using heartbeat_moves 3 stuck by blast
  next
    case 4
    then show False using stop_moves [OF s_copied] stop_moves [OF s_closed] stuck by (cases "stop_pc s") auto
  qed
qed

lemma stuck_stopped:
  assumes ok: "threads_ok s" and stopped: "\<not> running s" and stuck: "\<nexists>s'. server_step s s'"
  shows "returned s \<or> terminated s \<or> hangs s"
proof (rule ccontr)
  assume not_ended: "\<not> ?thesis"
  have pc: "stop_pc s \<notin> {S_None, S_Flag}" using ok stopped by (simp add: threads_ok_def)
  have "stop_pc s \<noteq> S_Terminate" using ok not_ended by (auto simp: threads_ok_def terminated_def)
  moreover have "stop_pc s \<noteq> S_Return"
  proof
    assume r: "stop_pc s = S_Return"
    then have "main_pc s = M_Done" using stuck main_moves [of s] by (auto simp: free_def)
    then show False using ok r not_ended by (cases "stop_caller s") (auto simp: threads_ok_def returned_def)
  qed
  ultimately have running: "stop_pc s \<notin> {S_None, S_Return, S_Terminate}" using pc by auto
  then have un: "unlocked s" using stuck_unlocked [OF stuck] not_ended by blast
  have free: "free t s" if "stop_caller s \<noteq> t" for t using running that by (simp add: free_def)
  have no: "\<not> relocks (event_pc s)" "held s = None \<or> wants (event_pc s) \<noteq> held s"
    using not_ended running by (auto simp: hangs_def)
  show False
  proof (cases "stop_pc s")
    case S_Listen
    then show False using stuck stop_moves [OF s_listen] by blast
  next
    case S_Epoll
    then show False using stuck stop_moves [OF s_epoll] by blast
  next
    case S_Copy
    then show False using stuck stop_moves [OF s_copy] un by blast
  next
    case S_Copying
    then show False using un by (simp add: unlocked_def)
  next
    case (S_Close k)
    then show False using stuck stop_moves [OF s_skip] stop_moves [OF s_all_closed] by (cases k) blast+
  next
    case (S_Closing k)
    then show False using un by (simp add: unlocked_def)
  next
    case S_Join_Accept
    then show False
      using stuck stop_moves [OF s_accept] stop_moves [OF s_self] accept_moves [OF free [of AcceptThread]] un by auto
  next
    case S_Join_Event
    then show False
      using stuck stop_moves [OF s_event] stop_moves [OF s_self] event_thread_moves [OF free [of EventThread] _ _ no] un by auto
  next
    case S_Join_Heartbeat
    then have "held s = Some Topic_Mutex \<longrightarrow> stop_caller s = HeartbeatThread" using ok by (auto simp: threads_ok_def)
    then show False
      using S_Join_Heartbeat stuck stop_moves [OF s_heartbeat] stop_moves [OF s_self]
        heartbeat_moves [OF free [of HeartbeatThread]] un by auto
  qed (use running pc in auto)
qed


text \<open>The event thread executes the signal handler, and \<open>Stop\<close> has cleared the flag.\<close>

definition interrupted :: "server_thread \<Rightarrow> ServerThreads" where
  "interrupted t = (threads_started True)\<lparr>running := False, stop_pc := S_Listen, stop_caller := t\<rparr>"

lemma interrupted_reachable: "server_reach True (interrupted t)"
proof -
  let ?s = "(threads_started True)\<lparr>stop_pc := S_Flag, stop_caller := t\<rparr>"
  have "server_step (threads_started True) ?s"
    using signal [of "threads_started True" t None] by (cases t) (simp_all add: threads_started_def)
  moreover have "server_step ?s (interrupted t)"
    using stopping [OF s_flag, of ?s] by (simp add: interrupted_def threads_started_def)
  ultimately show ?thesis by (meson rtranclp.rtrancl_refl rtranclp.rtrancl_into_rtrancl)
qed


subsection \<open>A failed send blocks the server\<close>

lemma relock_stays:
  assumes "server_step s s'" and "threads_ok s" and "exclusive s" and pc: "event_pc s = E_Relock us uss"
  shows "event_pc s' = E_Relock us uss \<and> table s' = table s \<and>
    (stop_pc s \<in> {S_None, S_Flag, S_Listen, S_Epoll, S_Copy} \<longrightarrow> stop_pc s' \<in> {S_None, S_Flag, S_Listen, S_Epoll, S_Copy})"
proof -
  have alone: "\<not> accept_holds (accept_pc s)" "\<not> heartbeat_holds (heartbeat_pc s)" "\<not> stop_holds (stop_pc s)" "\<not> unlocked s"
    using assms(3) pc by (auto simp: exclusive_def unlocked_def of_bool_def split: if_splits)
  from assms(1) show ?thesis
  proof (cases rule: server_step.cases)
    case (accepting pc n)
    then show ?thesis using accept_step_mutex [OF accepting(3)] alone pc by auto
  next
    case (handling pc' n)
    then show ?thesis using pc alone by simp
  next
    case (beating pc n)
    then show ?thesis using heartbeat_step_mutex [OF beating(3)] alone pc by auto
  next
    case stopping
    then have "stop_pc s \<in> {S_Flag, S_Listen, S_Epoll, S_Copy} \<longrightarrow> stop_pc s' \<in> {S_Flag, S_Listen, S_Epoll, S_Copy}"
      using alone by (cases rule: stop_step.cases) auto
    then show ?thesis
      using stop_step_mutex [OF stopping] stop_step_frame [OF stopping] alone pc stopping by (auto elim: stop_step.cases)
  qed (use pc in auto)
qed

text \<open>
  C36: A failed send blocks the server for good. \<open>SendTo\<close> holds \<open>connections_mutex_\<close> while it sends; if the send fails, the connection
  closes and its close handler locks the same mutex again. From any reachable state in which the event thread is
  there, whatever happens afterwards: the event thread never leaves that place, so no event is handled any more; the
  table of connections never changes, so no connection is added or removed; \<open>Stop\<close> never
  returns, and if it has not taken its copy of the table yet it never gets past that point, so that it neither
  ends nor aborts the program.
\<close>

theorem failed_send_blocks_server:
  assumes "server_reach hb s" and "event_pc s = E_Relock us uss" and "server_step\<^sup>*\<^sup>* s s'"
  shows "event_pc s' = E_Relock us uss \<and> table s' = table s \<and> \<not> unlocked s' \<and> stop_pc s' \<noteq> S_Return \<and>
    (stop_pc s \<in> {S_None, S_Flag, S_Listen, S_Epoll, S_Copy} \<longrightarrow> stop_pc s' \<in> {S_None, S_Flag, S_Listen, S_Epoll, S_Copy})"
proof -
  have "event_pc s' = E_Relock us uss \<and> table s' = table s \<and> threads_ok s' \<and> exclusive s' \<and>
    (stop_pc s \<in> {S_None, S_Flag, S_Listen, S_Epoll, S_Copy} \<longrightarrow> stop_pc s' \<in> {S_None, S_Flag, S_Listen, S_Epoll, S_Copy})"
    using assms(3)
  proof (induction rule: rtranclp_induct)
    case base
    show ?case
      using assms(2) threads_ok_reach [OF assms(1) threads_ok_started] exclusive_reach [OF assms(1) exclusive_started] by blast
  next
    case (step s' s'')
    then show ?case
      using relock_stays [OF step(2)] threads_ok_step [OF step(2)] exclusive_step [OF step(2)] by metis
  qed
  then have stays: "event_pc s' = E_Relock us uss" "table s' = table s" "threads_ok s'"
    "stop_pc s \<in> {S_None, S_Flag, S_Listen, S_Epoll, S_Copy} \<longrightarrow> stop_pc s' \<in> {S_None, S_Flag, S_Listen, S_Epoll, S_Copy}"
    by blast+
  then have "stop_pc s' \<noteq> S_Return" "\<not> unlocked s'" by (auto simp: threads_ok_def unlocked_def)
  with stays show ?thesis by blast
qed

text \<open>A connection is accepted, and its first request makes the broker push to a peer that is gone.\<close>

definition blocked_server :: ServerThreads where
  "blocked_server = (threads_started False)\<lparr>table := 1, event_pc := E_Relock [] []\<rparr>"

lemma blocked_server_reachable: "server_reach False blocked_server"
proof -
  let ?s = "\<lambda>n a v. \<lparr>running = True, listening = True, epoll_open = True, table = n, accept_pc = a, event_pc = v,
    heartbeat_pc = H_Off, main_pc = M_Top, stop_pc = S_None, stop_caller = MainThread, held = None\<rparr>"
  have eq: "free t (?s n a v)" "unlocked (?s n a v) \<longleftrightarrow> \<not> accept_holds a \<and> \<not> event_holds v" for n a v t
    by (simp_all add: free_def unlocked_def)
  have acc: "server_step (?s n a v) (?s n' a' v)"
    if "accept_step True True (\<not> accept_holds a \<and> \<not> event_holds v) (a, n) (a', n')" for n n' a a' v
    using accepting [of "?s n a v" a' n'] that eq by simp
  have ev: "server_step (?s n a v) (?s n' a v')"
    if "event_step True (\<not> accept_holds a \<and> \<not> event_holds v) None (v, n) (v', n')" for n n' a v v'
    using handling [of "?s n a v" v' n'] that eq by simp
  have "server_step (?s 0 A_Top E_Top) (?s 0 A_Call E_Top)" by (rule acc) simp
  moreover have "server_step (?s 0 A_Call E_Top) (?s 0 A_Add E_Top)" by (rule acc) simp
  moreover have "server_step (?s 0 A_Add E_Top) (?s 0 A_Adding E_Top)" by (rule acc) simp
  moreover have "server_step (?s 0 A_Adding E_Top) (?s 1 A_Top E_Top)" by (rule acc) simp
  moreover have "server_step (?s 1 A_Top E_Top) (?s 1 A_Top E_Wait)" by (rule ev) simp
  moreover have "server_step (?s 1 A_Top E_Wait) (?s 1 A_Top (E_Events [[Sends]]))" by (rule ev) simp
  moreover have "server_step (?s 1 A_Top (E_Events [[Sends]])) (?s 1 A_Top (E_Find [Sends] []))" by (rule ev) simp
  moreover have "server_step (?s 1 A_Top (E_Find [Sends] [])) (?s 1 A_Top (E_Handler [Sends] []))" by (rule ev) simp
  moreover have "server_step (?s 1 A_Top (E_Handler [Sends] [])) (?s 1 A_Top (E_Sending [] []))" by (rule ev) simp
  moreover have "server_step (?s 1 A_Top (E_Sending [] [])) (?s 1 A_Top (E_Relock [] []))" by (rule ev) simp
  moreover have "?s 0 A_Top E_Top = threads_started False" "?s 1 A_Top (E_Relock [] []) = blocked_server"
    by (simp_all add: threads_started_def blocked_server_def)
  ultimately show ?thesis by (metis (no_types, lifting) rtranclp.rtrancl_refl converse_rtranclp_into_rtranclp)
qed

theorem failed_send_blocks_server_witness:
  "\<exists>s. server_reach False s \<and> stop_pc s = S_None \<and> table s = 1 \<and>
    (\<forall>s'. server_step\<^sup>*\<^sup>* s s' \<longrightarrow> table s' = 1 \<and> stop_pc s' \<noteq> S_Return \<and> stop_pc s' \<noteq> S_Terminate)"
proof -
  have "event_pc blocked_server = E_Relock [] []" "stop_pc blocked_server = S_None" "table blocked_server = 1"
    by (simp_all add: blocked_server_def threads_started_def)
  with failed_send_blocks_server [OF blocked_server_reachable this(1)] blocked_server_reachable show ?thesis
    by (intro exI [of _ blocked_server]) fastforce
qed

subsection \<open>A connection that outlives \<open>Stop\<close>\<close>

definition late_connection :: ServerThreads where
  "late_connection = (threads_started False)\<lparr>running := False, listening := False, epoll_open := False, table := 1,
     accept_pc := A_Done, event_pc := E_Done, stop_pc := S_Return\<rparr>"

text \<open>The accept thread has accepted a connection when \<open>Stop\<close> empties the table, and adds it afterwards.\<close>

lemma late_connection_reachable: "server_reach False late_connection"
proof -
  let ?s = "\<lambda>r l e n a v p. \<lparr>running = r, listening = l, epoll_open = e, table = n, accept_pc = a, event_pc = v,
    heartbeat_pc = H_Off, main_pc = M_Top, stop_pc = p, stop_caller = MainThread, held = None\<rparr>"
  have acc: "server_step (?s r l e n a E_Top p) (?s r l e n' a' E_Top p)"
    if "accept_step r l (\<not> accept_holds a \<and> \<not> stop_holds p) (a, n) (a', n')" "p \<noteq> S_Terminate" for r l e n n' a a' p
    using accepting [of "?s r l e n a E_Top p" a' n'] that by (simp add: free_def unlocked_def)
  have un: "unlocked (?s False False False 0 A_Add E_Top S_Copy)" by (simp add: unlocked_def)
  have "server_step (?s True True True 0 A_Top E_Top S_None) (?s True True True 0 A_Call E_Top S_None)" by (rule acc) simp_all
  moreover have "server_step (?s True True True 0 A_Call E_Top S_None) (?s True True True 0 A_Add E_Top S_None)" by (rule acc) simp_all
  moreover have "server_step (?s True True True 0 A_Add E_Top S_None) (?s True True True 0 A_Add E_Top S_Flag)"
    using signal [of "?s True True True 0 A_Add E_Top S_None" MainThread None] by simp
  moreover have "server_step (?s True True True 0 A_Add E_Top S_Flag) (?s False True True 0 A_Add E_Top S_Listen)"
    using stopping [OF s_flag, of "?s True True True 0 A_Add E_Top S_Flag"] by simp
  moreover have "server_step (?s False True True 0 A_Add E_Top S_Listen) (?s False False True 0 A_Add E_Top S_Epoll)"
    using stopping [OF s_listen, of "?s False True True 0 A_Add E_Top S_Listen"] by simp
  moreover have "server_step (?s False False True 0 A_Add E_Top S_Epoll) (?s False False False 0 A_Add E_Top S_Copy)"
    using stopping [OF s_epoll, of "?s False False True 0 A_Add E_Top S_Epoll"] by simp
  moreover have "server_step (?s False False False 0 A_Add E_Top S_Copy) (?s False False False 0 A_Add E_Top S_Copying)"
    using stopping [OF s_copy, OF _ un] by simp
  moreover have "server_step (?s False False False 0 A_Add E_Top S_Copying) (?s False False False 0 A_Add E_Top (S_Close 0))"
    using stopping [OF s_copied, of "?s False False False 0 A_Add E_Top S_Copying"] by simp
  moreover have "server_step (?s False False False 0 A_Add E_Top (S_Close 0)) (?s False False False 0 A_Add E_Top S_Join_Accept)"
    using stopping [OF s_all_closed, of "?s False False False 0 A_Add E_Top (S_Close 0)"] by simp
  moreover have "server_step (?s False False False 0 A_Add E_Top S_Join_Accept) (?s False False False 0 A_Adding E_Top S_Join_Accept)" by (rule acc) simp_all
  moreover have "server_step (?s False False False 0 A_Adding E_Top S_Join_Accept) (?s False False False 1 A_Top E_Top S_Join_Accept)" by (rule acc) simp_all
  moreover have "server_step (?s False False False 1 A_Top E_Top S_Join_Accept) (?s False False False 1 A_Done E_Top S_Join_Accept)" by (rule acc) simp_all
  moreover have "server_step (?s False False False 1 A_Done E_Top S_Join_Accept) (?s False False False 1 A_Done E_Top S_Join_Event)"
    using stopping [OF s_accept, of "?s False False False 1 A_Done E_Top S_Join_Accept"] by simp
  moreover have "server_step (?s False False False 1 A_Done E_Top S_Join_Event) (?s False False False 1 A_Done E_Done S_Join_Event)"
    using handling [of "?s False False False 1 A_Done E_Top S_Join_Event" E_Done 1] by (simp add: free_def)
  moreover have "server_step (?s False False False 1 A_Done E_Done S_Join_Event) (?s False False False 1 A_Done E_Done S_Join_Heartbeat)"
    using stopping [OF s_event, of "?s False False False 1 A_Done E_Done S_Join_Event"] by simp
  moreover have "server_step (?s False False False 1 A_Done E_Done S_Join_Heartbeat) late_connection"
    using stopping [OF s_heartbeat, of "?s False False False 1 A_Done E_Done S_Join_Heartbeat"]
    by (simp add: late_connection_def threads_started_def)
  moreover have "?s True True True 0 A_Top E_Top S_None = threads_started False" by (simp add: threads_started_def)
  ultimately show ?thesis by (metis (no_types, lifting) rtranclp.rtrancl_refl converse_rtranclp_into_rtranclp)
qed

lemma stop_step_not_returned: "stop_step s s' \<Longrightarrow> stop_pc s \<noteq> S_Return"
  by (induction rule: stop_step.induct) auto

lemma returned_keeps_table:
  assumes "server_step s s'" and "threads_ok s" and "stop_pc s = S_Return"
  shows "table s' = table s \<and> stop_pc s' = S_Return"
  using assms by (cases rule: server_step.cases) (auto simp: threads_ok_def dest: stop_step_not_returned)

text \<open>
  C28: \<open>Stop\<close> can leave a connection behind: with heartbeats disabled, a state can be reached in which \<open>Stop\<close> has returned and every
  thread of the server has ended with a connection in the table, and from there on no thread ever
  takes it out; only another call of \<open>Stop\<close> would, from the destructor.
\<close>

theorem stop_leaves_connection:
  "\<exists>s. server_reach False s \<and> stop_pc s = S_Return \<and> accept_pc s = A_Done \<and> event_pc s = E_Done \<and>
    (\<forall>s'. server_step\<^sup>*\<^sup>* s s' \<longrightarrow> table s' = 1)"
proof -
  have ok: "threads_ok late_connection"
    using threads_ok_reach [OF late_connection_reachable threads_ok_started] .
  have "table s' = 1 \<and> stop_pc s' = S_Return \<and> threads_ok s'" if "server_step\<^sup>*\<^sup>* late_connection s'" for s'
    using that
  proof (induction rule: rtranclp_induct)
    case base
    then show ?case using ok by (simp add: late_connection_def)
  next
    case (step s s')
    then show ?case using returned_keeps_table [of s s'] threads_ok_step [of s s'] by simp
  qed
  moreover have "stop_pc late_connection = S_Return" "accept_pc late_connection = A_Done" "event_pc late_connection = E_Done"
    by (simp_all add: late_connection_def)
  ultimately show ?thesis using late_connection_reachable by blast
qed

theorem stop_leaves_connection_witness:
  "\<exists>s. server_reach False s \<and> stop_pc s = S_Return \<and> event_pc s = E_Done \<and> table s = 1"
  using stop_leaves_connection by blast

end
