(* ===== verification/Descriptor_Race.thy ===== *)
theory Descriptor_Race
  imports Prelude
begin

text \<open>
  The descriptors of connections under threads. \<open>Connection::Close\<close> may be called by several threads at
  once (the event thread after an error, the heartbeat thread, the thread of \<open>Stop\<close>), while the event
  thread is inside \<open>OnRead\<close> or \<open>SendFrame\<close> of the same connection; the member \<open>fd_\<close> is a plain \<open>int\<close> without
  a lock. The steps are the accesses to \<open>closed_\<close> and \<open>fd_\<close> and the system calls. Of the kernel, the model
  relies on what POSIX says: \<open>close\<close> frees the descriptor, and \<open>accept\<close> gives the lowest descriptor that
  is not open. Accesses to \<open>fd_\<close> are taken as sequentially consistent.
\<close>

subsection \<open>State\<close>

text \<open>An open descriptor refers to the socket of an accepted connection or to another file of the program.\<close>

datatype open_file = Socket nat | Own_File

text \<open>
  Where a thread is. In \<open>OnRead\<close> or \<open>SendFrame\<close> of connection \<open>c\<close>: past the test of \<open>closed_\<close>, or with the
  value of \<open>fd_\<close> (\<open>None\<close> for \<open>-1\<close>) as the argument of the system call. In \<open>Close\<close>: at the exchange of \<open>closed_\<close>,
  at the test of \<open>fd_\<close>, at the call of \<open>close\<close>, at the reset of \<open>fd_\<close>.
\<close>

datatype fd_pc =
    FIdle
  | FChecked nat
  | FCalling nat "nat option"
  | FExchange nat
  | FTest nat
  | FClose nat nat
  | FReset nat

text \<open>
  Connections are numbered as they are accepted. \<open>touched\<close> records each \<open>recv\<close> or \<open>send\<close> with the connection
  it was made for and what its descriptor referred to, \<open>released\<close> the same for each \<open>close\<close>.
\<close>

record Descriptors =
  files :: "nat \<Rightarrow> open_file option"
  fd_of :: "nat \<Rightarrow> nat option"
  closed_of :: "nat \<Rightarrow> bool"
  accepted :: nat
  touched :: "(nat \<times> open_file option) list"
  released :: "(nat \<times> open_file option) list"
  pc_of :: "nat \<Rightarrow> fd_pc"

definition goto :: "nat \<Rightarrow> fd_pc \<Rightarrow> Descriptors \<Rightarrow> Descriptors" where
  "goto t p s = s\<lparr>pc_of := (pc_of s)(t := p)\<rparr>"

text \<open>The program starts with its standard streams, the listening socket and the epoll instance.\<close>

definition descriptors_start :: "nat \<Rightarrow> Descriptors" where
  "descriptors_start k =
     \<lparr>files = (\<lambda>fd. if fd < k then Some Own_File else None), fd_of = (\<lambda>_. None), closed_of = (\<lambda>_. False),
      accepted = 0, touched = [], released = [], pc_of = (\<lambda>_. FIdle)\<rparr>"

subsection \<open>Steps\<close>

text \<open>
  Reading and sending. After a call the loop calls again, or the method ends, or it goes into \<open>Close\<close> (end
  of stream or error); a call on \<open>-1\<close> fails and goes into \<open>Close\<close>.
\<close>

inductive io_step :: "nat \<Rightarrow> Descriptors \<Rightarrow> Descriptors \<Rightarrow> bool" for t where
  io_enter: "pc_of s t = FIdle \<Longrightarrow> c < accepted s \<Longrightarrow> \<not> closed_of s c \<Longrightarrow> io_step t s (goto t (FChecked c) s)"
| io_load: "pc_of s t = FChecked c \<Longrightarrow> io_step t s (goto t (FCalling c (fd_of s c)) s)"
| io_call: "pc_of s t = FCalling c (Some fd) \<Longrightarrow> p \<in> {FChecked c, FIdle, FExchange c} \<Longrightarrow>
    io_step t s (goto t p (s\<lparr>touched := (c, files s fd) # touched s\<rparr>))"
| io_bad: "pc_of s t = FCalling c None \<Longrightarrow> io_step t s (goto t (FExchange c) s)"

text \<open>\<open>Close\<close>: the exchange lets one caller through.\<close>

inductive close_step :: "nat \<Rightarrow> Descriptors \<Rightarrow> Descriptors \<Rightarrow> bool" for t where
  close_won: "pc_of s t = FExchange c \<Longrightarrow> \<not> closed_of s c \<Longrightarrow>
    close_step t s (goto t (FTest c) (s\<lparr>closed_of := (closed_of s)(c := True)\<rparr>))"
| close_lost: "pc_of s t = FExchange c \<Longrightarrow> closed_of s c \<Longrightarrow> close_step t s (goto t FIdle s)"
| close_none: "pc_of s t = FTest c \<Longrightarrow> fd_of s c = None \<Longrightarrow> close_step t s (goto t FIdle s)"
| close_some: "pc_of s t = FTest c \<Longrightarrow> fd_of s c = Some fd \<Longrightarrow> close_step t s (goto t (FClose c fd) s)"
| close_call: "pc_of s t = FClose c fd \<Longrightarrow>
    close_step t s (goto t (FReset c)
      (s\<lparr>files := (files s)(fd := None), released := (c, files s fd) # released s\<rparr>))"
| close_reset: "pc_of s t = FReset c \<Longrightarrow>
    close_step t s (goto t FIdle (s\<lparr>fd_of := (fd_of s)(c := None)\<rparr>))"

text \<open>\<open>AcceptLoop\<close>: a new connection with the lowest descriptor that is free.\<close>

inductive accept_fd :: "Descriptors \<Rightarrow> Descriptors \<Rightarrow> bool" where
  accept_new: "files s fd = None \<Longrightarrow> \<forall>fd' < fd. files s fd' \<noteq> None \<Longrightarrow>
    accept_fd s (s\<lparr>files := (files s)(fd := Some (Socket (accepted s))), fd_of := (fd_of s)(accepted s := Some fd),
      closed_of := (closed_of s)(accepted s := False), accepted := Suc (accepted s)\<rparr>)"

text \<open>
  All threads together: those in \<open>io\<close> read and send, those in \<open>closers\<close> call \<open>Close\<close> on their own account, a
  thread inside \<open>Close\<close> goes on.
\<close>

inductive fd_step :: "nat set \<Rightarrow> nat set \<Rightarrow> Descriptors \<Rightarrow> Descriptors \<Rightarrow> bool" for io closers where
  by_io: "t \<in> io \<Longrightarrow> io_step t s s' \<Longrightarrow> fd_step io closers s s'"
| by_close: "close_step t s s' \<Longrightarrow> fd_step io closers s s'"
| begin_close: "t \<in> closers \<Longrightarrow> pc_of s t = FIdle \<Longrightarrow> c < accepted s \<Longrightarrow> fd_step io closers s (goto t (FExchange c) s)"
| by_accept: "accept_fd s s' \<Longrightarrow> fd_step io closers s s'"

inductive_cases io_stepE: "io_step t s s'"
inductive_cases close_stepE: "close_step t s s'"
inductive_cases accept_fdE: "accept_fd s s'"

abbreviation fd_reach :: "nat set \<Rightarrow> nat set \<Rightarrow> nat \<Rightarrow> Descriptors \<Rightarrow> bool" where
  "fd_reach io closers k s \<equiv> (fd_step io closers)\<^sup>*\<^sup>* (descriptors_start k) s"

lemma goto_simps [simp]:
  "files (goto t p s) = files s" "fd_of (goto t p s) = fd_of s" "closed_of (goto t p s) = closed_of s"
  "accepted (goto t p s) = accepted s" "touched (goto t p s) = touched s" "released (goto t p s) = released s"
  "pc_of (goto t p s) = (pc_of s)(t := p)"
  by (simp_all add: goto_def)

subsection \<open>Who is closing\<close>

text \<open>
  \<open>closing c p\<close>: a thread at \<open>p\<close> has won the exchange for \<open>c\<close>. \<open>fds_ok\<close>: at most one thread is closing a
  connection, and the connection is marked closed then; up to the call of \<open>close\<close> the descriptor of a
  connection refers to its socket, and nothing else does; after it nothing refers to the socket.
\<close>

fun closing :: "nat \<Rightarrow> fd_pc \<Rightarrow> bool" where
  "closing c (FTest c') = (c' = c)"
| "closing c (FClose c' fd) = (c' = c)"
| "closing c (FReset c') = (c' = c)"
| "closing c _ = False"

fun about :: "fd_pc \<Rightarrow> nat option" where
  "about FIdle = None"
| "about (FChecked c) = Some c"
| "about (FCalling c fd) = Some c"
| "about (FExchange c) = Some c"
| "about (FTest c) = Some c"
| "about (FClose c fd) = Some c"
| "about (FReset c) = Some c"

definition holds :: "Descriptors \<Rightarrow> nat \<Rightarrow> bool" where
  "holds s c \<longleftrightarrow> (\<exists>fd. fd_of s c = Some fd \<and> files s fd = Some (Socket c))"

definition fds_ok :: "Descriptors \<Rightarrow> bool" where
  "fds_ok s \<longleftrightarrow>
     (\<forall>t c. about (pc_of s t) = Some c \<longrightarrow> c < accepted s) \<and>
     (\<forall>t c. closing c (pc_of s t) \<longrightarrow> closed_of s c) \<and>
     (\<forall>t t' c. closing c (pc_of s t) \<and> closing c (pc_of s t') \<longrightarrow> t = t') \<and>
     (\<forall>fd c. files s fd = Some (Socket c) \<longrightarrow> c < accepted s \<and> fd_of s c = Some fd) \<and>
     (\<forall>c < accepted s. \<not> closed_of s c \<longrightarrow> holds s c) \<and>
     (\<forall>t c. pc_of s t = FTest c \<longrightarrow> holds s c) \<and>
     (\<forall>t c fd. pc_of s t = FClose c fd \<longrightarrow> fd_of s c = Some fd \<and> files s fd = Some (Socket c)) \<and>
     (\<forall>t c fd. pc_of s t = FReset c \<longrightarrow> files s fd \<noteq> Some (Socket c)) \<and>
     (\<forall>c < accepted s. closed_of s c \<and> (\<forall>t. \<not> closing c (pc_of s t)) \<longrightarrow> fd_of s c = None) \<and>
     (\<forall>(c, f) \<in> set (released s). f = Some (Socket c) \<and> c < accepted s \<and> closed_of s c \<and> (\<forall>fd. files s fd \<noteq> Some (Socket c))) \<and>
     distinct (map fst (released s))"

lemma holds_cong [simp]:
  "holds (goto t p s) c = holds s c" "holds (s\<lparr>closed_of := x\<rparr>) c = holds s c"
  by (simp_all add: holds_def)

lemma fds_ok_start: "fds_ok (descriptors_start k)"
  by (auto simp: fds_ok_def descriptors_start_def split: if_splits)

lemma fds_okD:
  assumes "fds_ok s"
  shows "about (pc_of s t) = Some c \<Longrightarrow> c < accepted s"
    and "closing c (pc_of s t) \<Longrightarrow> closed_of s c"
    and "closing c (pc_of s t) \<Longrightarrow> closing c (pc_of s u) \<Longrightarrow> u = t"
    and "files s fd = Some (Socket c) \<Longrightarrow> c < accepted s \<and> fd_of s c = Some fd"
    and "c < accepted s \<Longrightarrow> \<not> closed_of s c \<Longrightarrow> holds s c"
    and "pc_of s t = FTest c \<Longrightarrow> holds s c"
    and "pc_of s t = FClose c fd \<Longrightarrow> fd_of s c = Some fd \<and> files s fd = Some (Socket c)"
    and "pc_of s t = FReset c \<Longrightarrow> files s fd \<noteq> Some (Socket c)"
    and "c < accepted s \<Longrightarrow> closed_of s c \<Longrightarrow> \<forall>t. \<not> closing c (pc_of s t) \<Longrightarrow> fd_of s c = None"
    and "\<forall>(c, f) \<in> set (released s). f = Some (Socket c) \<and> c < accepted s \<and> closed_of s c \<and> (\<forall>fd. files s fd \<noteq> Some (Socket c))"
    and "distinct (map fst (released s))"
  using assms unfolding fds_ok_def by (elim conjE, iprover)+

lemma fds_ok_about: "fds_ok s \<Longrightarrow> pc_of s t = p \<Longrightarrow> about p = Some c \<Longrightarrow> c < accepted s"
  using fds_okD(1) by blast

lemma fds_ok_closing:
  assumes "fds_ok s" and "pc_of s t = p" and "closing c p"
  shows "closed_of s c" and "c < accepted s" and "u \<noteq> t \<Longrightarrow> \<not> closing c (pc_of s u)"
proof -
  have "about p = Some c" using assms(3) by (cases p) auto
  then show "c < accepted s" using fds_ok_about [OF assms(1,2)] by simp
  show "closed_of s c" "u \<noteq> t \<Longrightarrow> \<not> closing c (pc_of s u)"
    using assms fds_okD(2,3) [OF assms(1), of c t] by auto
qed

lemma fds_ok_unreleased: "fds_ok s \<Longrightarrow> files s fd = Some (Socket c) \<Longrightarrow> c \<notin> fst ` set (released s)"
  using fds_okD(10) [of s] by fastforce

lemma fds_ok_done:
  assumes "fds_ok s" and "c < accepted s" and "closed_of s c" and "\<not> closing c (pc_of s t)"
    and "\<forall>u. u \<noteq> t \<longrightarrow> \<not> closing c (pc_of s u)"
  shows "fd_of s c = None"
proof -
  have "\<not> closing c (pc_of s u)" for u using assms(4,5) by (cases "u = t") auto
  then show ?thesis using fds_okD(9) [OF assms(1-3)] by blast
qed

lemma fds_ok_moved:
  assumes "fds_ok s" and "\<And>c. \<not> closing c (pc_of s t)" and "\<And>c. \<not> closing c p"
    and "\<And>c. about p = Some c \<Longrightarrow> c < accepted s"
  shows "fds_ok (goto t p s)"
proof -
  have quiet: "\<not> closing c p" "p \<noteq> FTest c" "p \<noteq> FClose c fd" "p \<noteq> FReset c" for c fd
    using assms(3) [of c] by auto
  note D = fds_okD [OF assms(1)]
  show ?thesis unfolding fds_ok_def
  proof (intro conjI, goal_cases)
    case 1 show ?case using D(1) assms(4) by (auto split: if_splits)
  next
    case 2 show ?case using D(2) quiet(1) by (auto split: if_splits)
  next
    case 3 show ?case using D(3) quiet(1) by (auto split: if_splits)
  next
    case 4 show ?case using D(4) by (auto split: if_splits)
  next
    case 5 show ?case using D(5) by (auto split: if_splits)
  next
    case 6 show ?case using D(6) quiet by (auto split: if_splits)
  next
    case 7 show ?case using D(7) quiet by (auto split: if_splits)
  next
    case 8 show ?case using D(8) quiet by (auto split: if_splits)
  next
    case 9 show ?case using fds_ok_done [OF assms(1), of _ t] assms(2) by (auto split: if_splits)
  next
    case 10 show ?case using D(10) by (auto split: if_splits)
  next
    case 11 show ?case using D(11) by (auto split: if_splits)
  qed
qed

lemma fds_ok_touched: "fds_ok (s\<lparr>touched := xs\<rparr>) = fds_ok s"
  by (simp add: fds_ok_def holds_def)

lemma fds_ok_io: "io_step t s s' \<Longrightarrow> fds_ok s \<Longrightarrow> fds_ok s'"
proof (induction rule: io_step.induct)
  case (io_enter s c)
  then show ?case by (intro fds_ok_moved) auto
next
  case (io_load s c)
  then show ?case by (intro fds_ok_moved) (auto dest: fds_ok_about)
next
  case (io_call s c fd p)
  have "c < accepted s" using fds_ok_about [OF io_call(3,1)] by simp
  with io_call show ?case by (intro fds_ok_moved) (auto simp: fds_ok_touched)
next
  case (io_bad s c)
  then show ?case by (intro fds_ok_moved) (auto dest: fds_ok_about)
qed

text \<open>\<open>Close\<close>, step by step: the exchange, the test of \<open>fd_\<close>, the call of \<open>close\<close>, the reset.\<close>

lemma fds_ok_won:
  assumes "fds_ok s" and "pc_of s t = FExchange c" and "\<not> closed_of s c"
  shows "fds_ok (goto t (FTest c) (s\<lparr>closed_of := (closed_of s)(c := True)\<rparr>))"
proof -
  note D = fds_okD [OF assms(1)] and ended = fds_ok_done [OF assms(1), of _ t]
  have c: "c < accepted s" using D(1) [of t] assms(2) by simp
  have none: "\<not> closing c (pc_of s u)" for u using D(2) assms(3) by blast
  have own: "holds s c" by (rule D(5) [OF c assms(3)])
  show ?thesis unfolding fds_ok_def
  proof (intro conjI, goal_cases)
    case 1 show ?case using D(1) c by (auto split: if_splits)
  next
    case 2 show ?case using D(2) by (auto split: if_splits)
  next
    case 3 show ?case using D(3) none by (auto split: if_splits)
  next
    case 4 show ?case using D(4) by (auto split: if_splits)
  next
    case 5 show ?case using D(5) by (auto split: if_splits)
  next
    case 6 show ?case using D(6) own by (auto split: if_splits)
  next
    case 7 show ?case using D(7) by (auto split: if_splits)
  next
    case 8 show ?case using D(8) by (auto split: if_splits)
  next
    case 9 show ?case using ended assms(2) by (auto split: if_splits)
  next
    case 10 show ?case using D(10) by (auto split: if_splits)
  next
    case 11 show ?case using D(11) by (auto split: if_splits)
  qed
qed

lemma fds_ok_taken:
  assumes "fds_ok s" and "pc_of s t = FTest c" and "fd_of s c = Some fd"
  shows "fds_ok (goto t (FClose c fd) s)"
proof -
  note D = fds_okD [OF assms(1)] and ended = fds_ok_done [OF assms(1), of _ t]
  note now = fds_ok_closing [OF assms(1,2), of c, simplified]
  have own: "files s fd = Some (Socket c)" using D(6) [OF assms(2)] assms(3) by (simp add: holds_def)
  show ?thesis unfolding fds_ok_def
  proof (intro conjI, goal_cases)
    case 1 show ?case using D(1) now(2) by (auto split: if_splits)
  next
    case 2 show ?case using D(2) now(1) by (auto split: if_splits)
  next
    case 3 show ?case using D(3) now(3) by (auto split: if_splits)
  next
    case 4 show ?case using D(4) by (auto split: if_splits)
  next
    case 5 show ?case using D(5) by (auto split: if_splits)
  next
    case 6 show ?case using D(6) by (auto split: if_splits)
  next
    case 7 show ?case using D(7) own assms(3) by (auto split: if_splits)
  next
    case 8 show ?case using D(8) by (auto split: if_splits)
  next
    case 9 show ?case using ended assms(2) by (auto split: if_splits)
  next
    case 10 show ?case using D(10) by (auto split: if_splits)
  next
    case 11 show ?case using D(11) by (auto split: if_splits)
  qed
qed

lemma fds_ok_released:
  assumes "fds_ok s" and "pc_of s t = FClose c fd"
  shows "fds_ok (goto t (FReset c) (s\<lparr>files := (files s)(fd := None), released := (c, files s fd) # released s\<rparr>))"
proof -
  note D = fds_okD [OF assms(1)]
  note now = fds_ok_closing [OF assms, of c, simplified]
  have own: "fd_of s c = Some fd" "files s fd = Some (Socket c)" using D(7) [OF assms(2)] by simp_all
  have alone: "c' \<noteq> c" if "u \<noteq> t" "closing c' (pc_of s u)" for c' u
    using now(3) that by blast
  have gone: "((files s)(fd := None)) g \<noteq> Some (Socket c)" for g
    using D(4) [of g c] own by auto
  have kept: "holds (goto t p (s\<lparr>files := (files s)(fd := None), released := r\<rparr>)) c'" if kept: "holds s c'" "c' \<noteq> c" for c' p r
  proof -
    obtain g where "fd_of s c' = Some g" "files s g = Some (Socket c')" using kept(1) by (auto simp: holds_def)
    then show ?thesis using kept(2) own unfolding holds_def by (intro exI [of _ g]) auto
  qed
  show ?thesis unfolding fds_ok_def
  proof (intro conjI, goal_cases)
    case 1 show ?case using D(1) now(2) by auto
  next
    case 2 show ?case using D(2) now(1) by auto
  next
    case 3 show ?case using D(3) now(3) by (auto split: if_splits)
  next
    case 4 show ?case using D(4) by (auto split: if_splits)
  next
    case 5 show ?case using D(5) now(1) kept by auto
  next
    case 6 show ?case using D(6) alone kept by (auto split: if_splits)
  next
    case 7 show ?case using D(7) alone own by (auto split: if_splits)
  next
    case 8 show ?case using D(8) gone by (auto split: if_splits)
  next
    case 9 show ?case using fds_ok_done [OF assms(1), of _ t] assms(2) by (auto split: if_splits)
  next
    case 10 show ?case using D(10) gone now own by (auto split: if_splits)
  next
    case 11 show ?case using D(11) fds_ok_unreleased [OF assms(1) own(2)] by simp
  qed
qed

lemma fds_ok_reset:
  assumes "fds_ok s" and "pc_of s t = FReset c"
  shows "fds_ok (goto t FIdle (s\<lparr>fd_of := (fd_of s)(c := None)\<rparr>))"
proof -
  note D = fds_okD [OF assms(1)] and ended = fds_ok_done [OF assms(1), of _ t]
  note now = fds_ok_closing [OF assms, of c, simplified]
  have alone: "c' \<noteq> c" if "u \<noteq> t" "closing c' (pc_of s u)" for c' u
    using now(3) that by blast
  have kept: "holds (goto t p (s\<lparr>fd_of := (fd_of s)(c := None)\<rparr>)) c'" if "holds s c'" "c' \<noteq> c" for c' p
    using that by (simp add: holds_def)
  show ?thesis unfolding fds_ok_def
  proof (intro conjI, goal_cases)
    case 1 show ?case using D(1) by (auto split: if_splits)
  next
    case 2 show ?case using D(2) by (auto split: if_splits)
  next
    case 3 show ?case using D(3) by (auto split: if_splits)
  next
    case 4 show ?case using D(4) D(8) [OF assms(2)] by (auto split: if_splits)
  next
    case 5 show ?case using D(5) now(1) kept by (auto split: if_splits)
  next
    case 6 show ?case using D(6) alone kept by (auto split: if_splits)
  next
    case 7 show ?case using D(7) alone by (auto split: if_splits)
  next
    case 8 show ?case using D(8) by (auto split: if_splits)
  next
    case 9 show ?case using ended assms(2) by (auto split: if_splits)
  next
    case 10 show ?case using D(10) by (auto split: if_splits)
  next
    case 11 show ?case using D(11) by (auto split: if_splits)
  qed
qed

lemma fds_ok_close: "close_step t s s' \<Longrightarrow> fds_ok s \<Longrightarrow> fds_ok s'"
proof (induction rule: close_step.induct)
  case (close_lost s c)
  then show ?case by (intro fds_ok_moved) auto
next
  case (close_none s c)
  then show ?case using fds_okD(6) [OF close_none(3,1)] by (simp add: holds_def)
qed (rule fds_ok_won fds_ok_taken fds_ok_released fds_ok_reset; assumption)+

lemma fds_ok_accept: "accept_fd s s' \<Longrightarrow> fds_ok s \<Longrightarrow> fds_ok s'"
proof (induction rule: accept_fd.induct)
  case (accept_new s fd)
  let ?n = "accepted s"
  let ?s = "s\<lparr>files := (files s)(fd := Some (Socket ?n)), fd_of := (fd_of s)(?n := Some fd),
      closed_of := (closed_of s)(?n := False), accepted := Suc ?n\<rparr>"
  note D = fds_okD [OF accept_new(3)]
  have known: "c < ?n" if "closing c (pc_of s t)" for c t
    using fds_ok_closing(2) [OF accept_new(3) refl that] .
  have at: "pc_of s t \<noteq> FClose ?n g" "pc_of s t \<noteq> FReset ?n" for t g
    using known [of ?n t] by auto
  have new: "files s g \<noteq> Some (Socket ?n)" for g using D(4) [of g ?n] by auto
  have kept: "holds ?s c" if "holds s c" for c
  proof -
    obtain g where g: "fd_of s c = Some g" "files s g = Some (Socket c)" using \<open>holds s c\<close> by (auto simp: holds_def)
    then have "c \<noteq> ?n" "g \<noteq> fd" using D(4) [of g c] accept_new(1) by auto
    with g show ?thesis by (simp add: holds_def)
  qed
  have fresh: "holds ?s ?n" by (simp add: holds_def)
  show ?case unfolding fds_ok_def
  proof (intro conjI, goal_cases)
    case 1 show ?case using D(1) by (auto intro: less_SucI)
  next
    case 2 show ?case using D(2) known by fastforce
  next
    case 3 show ?case using D(3) by auto
  next
    case 4 show ?case using D(4) accept_new(1) by (auto simp: less_Suc_eq split: if_splits)
  next
    case 5 show ?case using D(5) kept fresh by (auto simp: less_Suc_eq)
  next
    case 6 show ?case using D(6) kept by auto
  next
    case 7 show ?case using D(7) at accept_new(1) by (auto split: if_splits)
  next
    case 8 show ?case using D(8) at by (auto split: if_splits)
  next
    case 9 show ?case using D(9) by (auto simp: less_Suc_eq)
  next
    case 10 show ?case using D(10) by (auto simp: less_Suc_eq split: prod.splits)
  next
    case 11 show ?case using D(11) by simp
  qed
qed

lemma fds_ok_step: "fd_step io closers s s' \<Longrightarrow> fds_ok s \<Longrightarrow> fds_ok s'"
proof (induction rule: fd_step.induct)
  case (begin_close t s c)
  then show ?case by (intro fds_ok_moved) auto
qed (auto intro: fds_ok_io fds_ok_close fds_ok_accept)

lemma fds_ok_reach: "fd_reach io closers k s \<Longrightarrow> fds_ok s"
  by (induction rule: rtranclp_induct) (auto intro: fds_ok_start fds_ok_step)

lemma own_files: "fd_reach io closers k s \<Longrightarrow> fd < k \<Longrightarrow> files s fd = Some Own_File"
proof (induction rule: rtranclp_induct)
  case base
  then show ?case by (simp add: descriptors_start_def)
next
  case (step s s')
  have ok: "fds_ok s" by (rule fds_ok_reach [OF step(1)])
  have own: "files s fd = Some Own_File" using step by blast
  have "pc_of s t \<noteq> FClose c fd" for t c
    using fds_okD(7) [OF ok] own by fastforce
  then show ?case
    using step(2) own by (auto elim!: fd_step.cases io_stepE close_stepE accept_fdE)
qed

subsection \<open>One thread\<close>

text \<open>
  \<open>single r\<close>: thread \<open>r\<close> is the only one that works on connections; past the test of \<open>closed_\<close> the connection
  stays open and \<open>fd_\<close> keeps its value until the call.
\<close>

definition single :: "nat \<Rightarrow> Descriptors \<Rightarrow> bool" where
  "single r s \<longleftrightarrow> (\<forall>t. t \<noteq> r \<longrightarrow> pc_of s t = FIdle) \<and>
     (\<forall>c. pc_of s r = FChecked c \<longrightarrow> \<not> closed_of s c) \<and>
     (\<forall>c x. pc_of s r = FCalling c x \<longrightarrow> \<not> closed_of s c \<and> x = fd_of s c) \<and>
     (\<forall>(c, f) \<in> set (touched s). f = Some (Socket c))"

lemma single_step:
  assumes "fd_step io closers s s'" and "io \<union> closers \<subseteq> {r}" and "fds_ok s" and "single r s"
  shows "single r s'"
  using assms(1)
proof (cases rule: fd_step.cases)
  case (by_io t)
  then have "t = r" using assms(2) by blast
  have called: "files s fd = Some (Socket c)" "\<not> closed_of s c" if "pc_of s r = FCalling c (Some fd)" for c fd
  proof -
    have c: "\<not> closed_of s c" "fd_of s c = Some fd" using assms(4) that by (auto simp: single_def)
    moreover have "c < accepted s" using fds_ok_about [OF assms(3) that] by simp
    ultimately show "files s fd = Some (Socket c)" "\<not> closed_of s c"
      using fds_okD(5) [OF assms(3), of c] by (auto simp: holds_def)
  qed
  show ?thesis
    using by_io(2) unfolding \<open>t = r\<close>
  proof (cases rule: io_step.cases)
    case (io_call c fd p)
    then show ?thesis using called [OF io_call(2)] assms(4) by (auto simp: single_def)
  qed (use assms(4) in \<open>auto simp: single_def\<close>)
next
  case (by_close t)
  then have "pc_of s t \<noteq> FIdle" by (auto elim: close_stepE)
  then have "t = r" using assms(4) by (auto simp: single_def)
  show ?thesis
    using by_close assms(4) unfolding \<open>t = r\<close> by (cases rule: close_step.cases) (auto simp: single_def)
next
  case (begin_close t c)
  then show ?thesis using assms(2,4) by (auto simp: single_def)
next
  case by_accept
  then show ?thesis
  proof (cases rule: accept_fd.cases)
    case (accept_new fd)
    have "c \<noteq> accepted s" if "pc_of s r = FChecked c \<or> pc_of s r = FCalling c x" for c x
      using fds_ok_about [OF assms(3) refl, of r c] that by auto
    then show ?thesis using accept_new assms(4) by (auto simp: single_def)
  qed
qed

subsection \<open>Properties\<close>

text \<open>
  C24: However many threads call \<open>Close\<close>, at whatever moments, every connection's descriptor is closed at
  most once and while it still refers to the connection's own socket; the files of the program itself
  are never closed. When no thread is inside a call, every connection that is closed has given its
  descriptor back, and every other one has its socket.
\<close>

theorem descriptor_closed_once:
  assumes "fd_reach io closers k s"
  shows "distinct (map fst (released s)) \<and> (\<forall>(c, f) \<in> set (released s). f = Some (Socket c)) \<and>
    (\<forall>fd < k. files s fd = Some Own_File) \<and>
    ((\<forall>t. pc_of s t = FIdle) \<longrightarrow> (\<forall>c < accepted s.
       if closed_of s c then fd_of s c = None \<and> (\<forall>fd. files s fd \<noteq> Some (Socket c))
       else \<exists>fd. fd_of s c = Some fd \<and> files s fd = Some (Socket c)))"
proof -
  note ok = fds_okD [OF fds_ok_reach [OF assms]]
  have "if closed_of s c then fd_of s c = None \<and> (\<forall>fd. files s fd \<noteq> Some (Socket c))
       else \<exists>fd. fd_of s c = Some fd \<and> files s fd = Some (Socket c)" if "\<forall>t. pc_of s t = FIdle" "c < accepted s" for c
    using ok(4) [of _ c] ok(5,9) [OF that(2)] that(1) by (auto simp: holds_def)
  then show ?thesis
    using ok(10,11) own_files [OF assms] by auto
qed

text \<open>
  C25: As long as one thread does all the reading, sending and closing, as in a server without heartbeats
  until \<open>Stop\<close>, every \<open>recv\<close> and \<open>send\<close> of a connection reaches the connection's own socket.
\<close>

theorem single_thread_own_socket:
  assumes "fd_reach io closers k s" and "io \<union> closers \<subseteq> {r}" and "(c, f) \<in> set (touched s)"
  shows "f = Some (Socket c)"
proof -
  have "single r s"
    using assms(1)
  proof (induction rule: rtranclp_induct)
    case base
    then show ?case by (simp add: single_def descriptors_start_def)
  next
    case (step s s')
    then show ?case using single_step assms(2) fds_ok_reach by blast
  qed
  then show ?thesis using assms(3) by (auto simp: single_def)
qed

subsection \<open>Two threads\<close>

text \<open>
  Thread 0 reads connection 0, thread 1 closes it. \<open>reading k\<close>: thread 0 has the value of \<open>fd_\<close> and has not called
  yet. \<open>closed_under k\<close>: thread 1 has closed the descriptor. \<open>reused k\<close>: another client has connected.
\<close>

definition accept_at :: "nat \<Rightarrow> Descriptors \<Rightarrow> Descriptors" where
  "accept_at fd s = s\<lparr>files := (files s)(fd := Some (Socket (accepted s))), fd_of := (fd_of s)(accepted s := Some fd),
     closed_of := (closed_of s)(accepted s := False), accepted := Suc (accepted s)\<rparr>"

definition reading :: "nat \<Rightarrow> Descriptors" where
  "reading k = goto 0 (FCalling 0 (Some k)) (goto 0 (FChecked 0) (accept_at k (descriptors_start k)))"

definition exchanged :: "nat \<Rightarrow> Descriptors" where
  "exchanged k = goto 1 (FTest 0) ((goto 1 (FExchange 0) (reading k))
     \<lparr>closed_of := (closed_of (goto 1 (FExchange 0) (reading k)))(0 := True)\<rparr>)"

definition closed_under :: "nat \<Rightarrow> Descriptors" where
  "closed_under k = goto 1 (FReset 0) ((goto 1 (FClose 0 k) (exchanged k))
     \<lparr>files := (files (goto 1 (FClose 0 k) (exchanged k)))(k := None),
      released := (0, files (goto 1 (FClose 0 k) (exchanged k)) k) # released (goto 1 (FClose 0 k) (exchanged k))\<rparr>)"

definition reused :: "nat \<Rightarrow> Descriptors" where
  "reused k = accept_at k (closed_under k)"

lemmas reuse_defs = descriptors_start_def accept_at_def reading_def exchanged_def closed_under_def reused_def

lemma fd_accept:
  "files s fd = None \<Longrightarrow> \<forall>fd' < fd. files s fd' \<noteq> None \<Longrightarrow> fd_step io closers s (accept_at fd s)"
  unfolding accept_at_def by (intro fd_step.by_accept accept_new)

lemma reading_reachable: "fd_reach {0} closers k (reading k)"
proof -
  let ?s = "accept_at k (descriptors_start k)"
  have "fd_step {0} closers (descriptors_start k) ?s"
    by (rule fd_accept) (auto simp: descriptors_start_def)
  moreover have "fd_step {0} closers ?s (goto 0 (FChecked 0) ?s)"
    by (intro fd_step.by_io [of 0] io_enter) (simp_all add: reuse_defs)
  moreover have "fd_step {0} closers (goto 0 (FChecked 0) ?s) (reading k)"
    using fd_step.by_io [of 0 "{0}" _ _ closers, OF _ io_load [of "goto 0 (FChecked 0) ?s" 0 0]] by (simp add: reuse_defs)
  ultimately show ?thesis by (meson rtranclp.rtrancl_refl rtranclp.rtrancl_into_rtrancl)
qed

lemma closed_under_reachable: "(fd_step io {1})\<^sup>*\<^sup>* (reading k) (closed_under k)"
proof -
  let ?a = "goto 1 (FExchange 0) (reading k)" and ?b = "goto 1 (FClose 0 k) (exchanged k)"
  have "fd_step io {1} (reading k) ?a"
    by (rule fd_step.begin_close) (simp_all add: reuse_defs)
  moreover have "fd_step io {1} ?a (exchanged k)"
    unfolding exchanged_def by (intro fd_step.by_close [of 1] close_won) (simp_all add: reuse_defs)
  moreover have "fd_step io {1} (exchanged k) ?b"
    by (intro fd_step.by_close [of 1] close_some) (simp_all add: reuse_defs)
  moreover have "fd_step io {1} ?b (closed_under k)"
    unfolding closed_under_def by (intro fd_step.by_close [of 1] close_call) simp
  ultimately show ?thesis by (meson rtranclp.rtrancl_refl converse_rtranclp_into_rtranclp)
qed

text \<open>
  C26: With a heartbeat thread this fails: the event thread can read \<open>fd_\<close> of an idle connection, the heartbeat
  thread close the connection, a client connect and get the same descriptor, and the event thread then
  receives from, or sends to, the new client in the name of the old connection.
\<close>

theorem descriptor_reused:
  "\<exists>s. fd_reach {0} {1} k s \<and> (0, Some (Socket 1)) \<in> set (touched s) \<and> closed_of s 0 \<and> \<not> closed_of s 1"
proof -
  let ?s = "goto 0 FIdle ((reused k)\<lparr>touched := (0, files (reused k) k) # touched (reused k)\<rparr>)"
  have "fd_step {0} {1} (closed_under k) (reused k)"
    unfolding reused_def by (rule fd_accept) (simp_all add: reuse_defs)
  moreover have "fd_step {0} {1} (reused k) ?s"
    by (intro fd_step.by_io [of 0] io_call) (simp_all add: reuse_defs)
  ultimately have "fd_reach {0} {1} k ?s"
    using reading_reachable [of "{1}" k] closed_under_reachable [of "{0}" k] by (meson rtranclp.rtrancl_into_rtrancl rtranclp_trans)
  moreover have "(0, Some (Socket 1)) \<in> set (touched ?s)" "closed_of ?s 0" "\<not> closed_of ?s 1"
    by (simp_all add: reuse_defs)
  ultimately show ?thesis by blast
qed

theorem descriptor_closed_once_witness:
  "released (closed_under 5) = [(0, Some (Socket 0))] \<and> distinct (map fst (released (closed_under 5))) \<and>
    files (closed_under 5) 4 = Some Own_File"
proof -
  have "fd_reach {0} {1} 5 (closed_under 5)"
    using reading_reachable closed_under_reachable by (rule rtranclp_trans)
  from descriptor_closed_once [OF this] show ?thesis by (simp add: reuse_defs)
qed

theorem single_thread_own_socket_witness:
  "\<exists>s. fd_reach {0} {0} 5 s \<and> (0, Some (Socket 0)) \<in> set (touched s) \<and> (\<forall>f. (0, f) \<in> set (touched s) \<longrightarrow> f = Some (Socket 0))"
proof -
  let ?s = "goto 0 FIdle ((reading 5)\<lparr>touched := (0, files (reading 5) 5) # touched (reading 5)\<rparr>)"
  have "fd_step {0} {0} (reading 5) ?s"
    by (intro fd_step.by_io [of 0] io_call) (simp_all add: reuse_defs)
  with reading_reachable [of "{0}" 5] have run: "fd_reach {0} {0} 5 ?s" by (rule rtranclp.rtrancl_into_rtrancl)
  have "f = Some (Socket 0)" if "(0, f) \<in> set (touched ?s)" for f
    by (rule single_thread_own_socket [OF run _ that, of 0]) simp
  moreover have "(0, Some (Socket 0)) \<in> set (touched ?s)"
    by (simp add: reuse_defs)
  ultimately show ?thesis using run by blast
qed

end
