(* ===== verification/Broker_System.thy ===== *)
theory Broker_System
  imports Tcp_Server
begin

text \<open>
  The server and the broker together, as \<open>Broker::Start\<close> wires them: the frame handler of the server is
  \<open>Broker::OnFrameReceived\<close>, its idle-timeout handler is \<open>Broker::OnConnectionClosed\<close>. A step of the
  system is an accepted connection, an event with all the frames it yields, a round of the heartbeat
  or of the background scans, or a local publish. \<open>None\<close> is an exception or a thread that blocks on
  its own lock.
\<close>

subsection \<open>Steps\<close>

record System =
  sys_server :: TcpServer
  sys_broker :: Broker

definition sys_new :: "MemoryMessageStore \<Rightarrow> BrokerConfig \<Rightarrow> time_point \<Rightarrow> System" where
  "sys_new store cfg now = \<lparr>sys_server = ts_new cfg, sys_broker = broker_new store cfg now\<rparr>"

text \<open>The sends of a handler, in order; \<open>rss k\<close> are the results of the system calls of the \<open>k\<close>-th.\<close>

fun perform :: "ConnectionId \<Rightarrow> (nat \<Rightarrow> send_result list) \<Rightarrow> nat \<Rightarrow> action list \<Rightarrow> TcpServer
    \<Rightarrow> ((ConnectionId \<times> byte list) list \<times> TcpServer) option" where
  "perform cid rss k [] s = Some ([], s)"
| "perform cid rss k (Reply f # acts) s =
     (let (ok, out, s1) = send_direct cid f (rss k) s
      in map_option (\<lambda>(outs, s2). ((cid, out) # outs, s2)) (perform cid rss (Suc k) acts s1))"
| "perform cid rss k (Send_To c f # acts) s =
     (case SendTo c f (rss k) s of
        None \<Rightarrow> None
      | Some (ok, out, s1) \<Rightarrow>
          map_option (\<lambda>(outs, s2). ((c, out) # outs, s2)) (perform cid rss (Suc k) acts s1))"

text \<open>
  The frame handler on one frame: a handler may change the limiter of the connection it works on, the
  sends follow. Every frame has its environment and its results of sends.
\<close>

definition handle_frame :: "env \<Rightarrow> (nat \<Rightarrow> send_result list) \<Rightarrow> ConnectionId \<Rightarrow> Frame \<Rightarrow> System
    \<Rightarrow> ((ConnectionId \<times> byte list) list \<times> System) option" where
  "handle_frame e rss cid frame sys =
     (case ts_objects (sys_server sys) cid of
        None \<Rightarrow> Some ([], sys)
      | Some conn \<Rightarrow>
          (case OnFrameReceived e frame (sys_broker sys) conn of
             None \<Rightarrow> None
           | Some ((b, conn'), acts) \<Rightarrow>
               let srv = sys_server sys;
                   srv1 = srv\<lparr>ts_objects := (ts_objects srv)(cid \<mapsto> conn')\<rparr>
               in map_option (\<lambda>(outs, srv2). (outs, sys\<lparr>sys_server := srv2, sys_broker := b\<rparr>))
                    (perform cid rss 0 acts srv1)))"

fun handle_frames :: "(nat \<Rightarrow> env) \<Rightarrow> (nat \<Rightarrow> nat \<Rightarrow> send_result list) \<Rightarrow> nat \<Rightarrow> ConnectionId \<Rightarrow> Frame list \<Rightarrow> System
    \<Rightarrow> ((ConnectionId \<times> byte list) list \<times> System) option" where
  "handle_frames es rss k cid [] sys = Some ([], sys)"
| "handle_frames es rss k cid (f # fs) sys =
     (case handle_frame (es k) (rss k) cid f sys of
        None \<Rightarrow> None
      | Some (outs, sys1) \<Rightarrow>
          map_option (\<lambda>(outs', sys2). (outs @ outs', sys2)) (handle_frames es rss (Suc k) cid fs sys1))"

definition Broker_Start :: "bool \<Rightarrow> bool \<Rightarrow> bool \<Rightarrow> bool \<Rightarrow> System \<Rightarrow> bool \<times> System" where
  "Broker_Start socket_ok bind_ok listen_ok epoll_ok sys =
     (let (ok, srv) = Start socket_ok bind_ok listen_ok epoll_ok (sys_server sys) in (ok, sys\<lparr>sys_server := srv\<rparr>))"

definition Broker_Stop :: "System \<Rightarrow> System" where
  "Broker_Stop sys = sys\<lparr>sys_server := Stop (sys_server sys)\<rparr>"

definition IsRunning :: "System \<Rightarrow> bool" where
  "IsRunning sys = ts_running (sys_server sys)"

text \<open>
  The steps of the system. Accepting and events need a running server, the heartbeat thread exists
  only if heartbeats are enabled; the threads of the store run from its construction.
\<close>

datatype sys_op =
    SysStart bool bool bool bool
  | SysStop
  | SysAccept time_point
  | SysEvent "nat \<Rightarrow> env" "nat \<Rightarrow> nat \<Rightarrow> send_result list" ConnectionId "recv_result list" time_point
  | SysHeartbeat time_point
  | SysLocal TopicName Payload u64 u64
  | SysRetry "TopicName \<Rightarrow> time_point" "TopicName \<Rightarrow> u64"
  | SysExpire "TopicName \<Rightarrow> u64"

fun sys_exec :: "sys_op \<Rightarrow> System \<Rightarrow> ((ConnectionId \<times> byte list) list \<times> System) option" where
  "sys_exec (SysStart socket_ok bind_ok listen_ok epoll_ok) sys =
     Some ([], snd (Broker_Start socket_ok bind_ok listen_ok epoll_ok sys))"
| "sys_exec SysStop sys = Some ([], Broker_Stop sys)"
| "sys_exec (SysAccept now) sys =
     Some ([], if ts_running (sys_server sys) then sys\<lparr>sys_server := snd (accept_conn now (sys_server sys))\<rparr> else sys)"
| "sys_exec (SysEvent es rss cid rs now) sys =
     (if ts_running (sys_server sys) then
        let (frames, srv) = on_event cid rs now (sys_server sys)
        in handle_frames es rss 0 cid frames (sys\<lparr>sys_server := srv\<rparr>)
      else Some ([], sys))"
| "sys_exec (SysHeartbeat now) sys =
     (if ts_running (sys_server sys) \<and> heartbeat_enabled (ts_config (sys_server sys)) then
        let (srv, b) = heartbeat_round now OnConnectionClosed (sys_server sys, sys_broker sys)
        in Some ([], sys\<lparr>sys_server := srv, sys_broker := b\<rparr>)
      else Some ([], sys))"
| "sys_exec (SysLocal t p ne ts) sys =
     map_option (\<lambda>(ok, b). ([], sys\<lparr>sys_broker := b\<rparr>)) (PublishLocal t p ne ts (sys_broker sys))"
| "sys_exec (SysRetry now now_ms) sys =
     Some ([], sys\<lparr>sys_broker := (sys_broker sys)\<lparr>b_store := RetryLoop_round now now_ms (b_store (sys_broker sys))\<rparr>\<rparr>)"
| "sys_exec (SysExpire now_ms) sys =
     Some ([], sys\<lparr>sys_broker := (sys_broker sys)\<lparr>b_store := ExpirationLoop_round now_ms (b_store (sys_broker sys))\<rparr>\<rparr>)"

fun sys_run :: "sys_op list \<Rightarrow> System \<Rightarrow> ((ConnectionId \<times> byte list) list \<times> System) option" where
  "sys_run [] sys = Some ([], sys)"
| "sys_run (x # xs) sys =
     (case sys_exec x sys of
        None \<Rightarrow> None
      | Some (outs, sys1) \<Rightarrow> map_option (\<lambda>(outs', sys2). (outs @ outs', sys2)) (sys_run xs sys1))"

subsection \<open>The system keeps its invariants\<close>

lemma perform_ok:
  "perform cid rss k acts s = Some (outs, s') \<Longrightarrow> srv_ok s \<Longrightarrow> srv_ok s'"
proof (induction cid rss k acts s arbitrary: outs rule: perform.induct)
  case (2 cid rss k f acts s)
  obtain ok out s1 where s1: "send_direct cid f (rss k) s = (ok, out, s1)" by (cases "send_direct cid f (rss k) s")
  with 2 srv_ok_send_direct [OF 2(3) s1] show ?case by auto
next
  case (3 cid rss k c f acts s)
  then show ?case by (auto split: option.splits dest: srv_ok_SendTo)
qed simp

lemma handle_frame_broker:
  assumes "handle_frame e rss cid frame sys = Some (outs, sys')" and "srv_ok (sys_server sys)"
  shows "srv_ok (sys_server sys') \<and>
    (sys_broker sys' = sys_broker sys \<or>
     (\<exists>conn acts. c_id conn = cid \<and> broker_exec (BFrame e frame conn) (sys_broker sys) = Some (acts, sys_broker sys')))"
proof (cases "ts_objects (sys_server sys) cid")
  case None
  then show ?thesis using assms by (simp add: handle_frame_def)
next
  case (Some conn)
  obtain b conn' acts where h: "OnFrameReceived e frame (sys_broker sys) conn = Some ((b, conn'), acts)"
    using assms(1) Some by (auto simp: handle_frame_def split: option.splits)
  let ?srv = "(sys_server sys)\<lparr>ts_objects := (ts_objects (sys_server sys))(cid \<mapsto> conn')\<rparr>"
  obtain srv2 where p: "perform cid rss 0 acts ?srv = Some (outs, srv2)"
    and sys': "sys' = sys\<lparr>sys_server := srv2, sys_broker := b\<rparr>"
    using assms(1) Some h by (auto simp: handle_frame_def Let_def)
  have id: "c_id conn = cid" using assms(2) Some by (simp add: srv_ok_def)
  note same = OnFrameReceived_effect [OF h, THEN conjunct2, THEN same_connD(1)]
    OnFrameReceived_effect [OF h, THEN conjunct2, THEN same_connD(2)]
  have "srv_ok ?srv"
    using srv_ok_replace [OF assms(2) Some, of conn'] same id by simp
  then have "srv_ok srv2" by (rule perform_ok [OF p])
  moreover have "broker_exec (BFrame e frame conn) (sys_broker sys) = Some (acts, b)"
    using h by simp
  ultimately show ?thesis
    using sys' id by auto
qed

lemma handle_frames_broker:
  "handle_frames es rss k cid fs sys = Some (outs, sys') \<Longrightarrow> srv_ok (sys_server sys) \<Longrightarrow>
     srv_ok (sys_server sys') \<and>
     (\<exists>ops trace. broker_run ops (sys_broker sys) = Some (trace, sys_broker sys') \<and>
        (\<forall>x \<in> set ops. \<exists>e f conn. x = BFrame e f conn \<and> c_id conn = cid))"
proof (induction es rss k cid fs sys arbitrary: outs rule: handle_frames.induct)
  case (1 es rss k cid sys)
  then show ?case by (auto intro: exI [of _ "[]"])
next
  case (2 es rss k cid f fs sys)
  obtain o1 sys1 where f: "handle_frame (es k) (rss k) cid f sys = Some (o1, sys1)"
    using 2(2) by (auto split: option.splits)
  obtain o2 where fs: "handle_frames es rss (Suc k) cid fs sys1 = Some (o2, sys')"
    using 2(2) f by auto
  note one = handle_frame_broker [OF f 2(3)]
  obtain ops trace where rest: "broker_run ops (sys_broker sys1) = Some (trace, sys_broker sys')"
    "\<forall>x \<in> set ops. \<exists>e f conn. x = BFrame e f conn \<and> c_id conn = cid" and ok: "srv_ok (sys_server sys')"
    using 2(1) [OF f refl fs] one by blast
  from one consider "sys_broker sys1 = sys_broker sys"
    | conn acts where "c_id conn = cid" "broker_exec (BFrame (es k) f conn) (sys_broker sys) = Some (acts, sys_broker sys1)"
    by blast
  then show ?case
  proof cases
    case 1
    then show ?thesis using rest ok by auto
  next
    case (2 conn acts)
    then have "broker_run (BFrame (es k) f conn # ops) (sys_broker sys) =
        Some ((BFrame (es k) f conn, acts) # trace, sys_broker sys')"
      using rest(1) by simp
    then show ?thesis
      using rest(2) 2(1) ok by (intro conjI exI [of _ "BFrame (es k) f conn # ops"] exI) auto
  qed
qed

lemma broker_run_append:
  "broker_run xs b = Some (t1, b1) \<Longrightarrow> broker_run ys b1 = Some (t2, b2) \<Longrightarrow>
     broker_run (xs @ ys) b = Some (t1 @ t2, b2)"
proof (induction xs arbitrary: b t1)
  case (Cons x xs)
  then show ?case by (force split: option.splits)
qed simp

lemma broker_run_closes:
  "\<exists>trace. broker_run (map BClosed cids) b = Some (trace, fold OnConnectionClosed cids b)"
proof (induction cids arbitrary: b)
  case (Cons c cids)
  from Cons.IH [of "OnConnectionClosed c b"] obtain trace where
    "broker_run (map BClosed cids) (OnConnectionClosed c b) = Some (trace, fold OnConnectionClosed cids (OnConnectionClosed c b))"
    by blast
  then show ?case by simp
qed simp

lemma sys_event_broker:
  assumes "sys_exec (SysEvent es rss cid rs now) sys = Some (outs, sys')" and "srv_ok (sys_server sys)"
  shows "srv_ok (sys_server sys') \<and>
    (\<exists>ops trace. broker_run ops (sys_broker sys) = Some (trace, sys_broker sys'))"
proof (cases "ts_running (sys_server sys)")
  case False
  then show ?thesis using assms by (auto intro: exI [of _ "[]"])
next
  case True
  obtain frames srv where ev: "on_event cid rs now (sys_server sys) = (frames, srv)" by force
  then have "handle_frames es rss 0 cid frames (sys\<lparr>sys_server := srv\<rparr>) = Some (outs, sys')"
    using assms(1) True by simp
  moreover have "srv_ok (sys_server (sys\<lparr>sys_server := srv\<rparr>))"
    using srv_ok_on_event [OF assms(2) ev] by simp
  ultimately show ?thesis
    using handle_frames_broker by fastforce
qed

lemma sys_heartbeat_broker:
  assumes "sys_exec (SysHeartbeat now) sys = Some (outs, sys')" and "srv_ok (sys_server sys)"
  shows "srv_ok (sys_server sys') \<and>
    (\<exists>ops trace. broker_run ops (sys_broker sys) = Some (trace, sys_broker sys'))"
proof (cases "ts_running (sys_server sys) \<and> heartbeat_enabled (ts_config (sys_server sys))")
  case True
  then have "sys_server sys' = fold close_conn (idle_conns now (sys_server sys)) (sys_server sys)"
    "sys_broker sys' = fold OnConnectionClosed (idle_conns now (sys_server sys)) (sys_broker sys)"
    using assms(1) by (auto simp: heartbeat_round_def Let_def)
  then show ?thesis
    using srv_ok_close_all [OF assms(2)] broker_run_closes by metis
next
  case False
  then show ?thesis using assms by (auto intro: exI [of _ "[]"])
qed

lemma sys_exec_broker:
  assumes "sys_exec x sys = Some (outs, sys')" and "srv_ok (sys_server sys)"
  shows "srv_ok (sys_server sys') \<and>
    (\<exists>ops trace. broker_run ops (sys_broker sys) = Some (trace, sys_broker sys'))"
proof (cases x)
  case (SysStart socket_ok bind_ok listen_ok epoll_ok)
  then show ?thesis
    using assms srv_ok_Start [OF assms(2), of socket_ok bind_ok listen_ok epoll_ok]
    by (auto simp: Broker_Start_def split_beta intro: exI [of _ "[]"])
next
  case SysStop
  then show ?thesis
    using assms Stop_effect [OF assms(2)] by (auto simp: Broker_Stop_def intro: exI [of _ "[]"])
next
  case (SysAccept now)
  then show ?thesis
    using assms srv_ok_accept by (auto intro: exI [of _ "[]"])
next
  case (SysEvent es rss cid rs now)
  then show ?thesis using sys_event_broker assms by blast
next
  case (SysHeartbeat now)
  then show ?thesis using sys_heartbeat_broker assms by blast
next
  case (SysLocal t p ne ts)
  then obtain ok where "PublishLocal t p ne ts (sys_broker sys) = Some (ok, sys_broker sys')" "sys_server sys' = sys_server sys"
    using assms(1) by auto
  then have "broker_run [BLocal t p ne ts] (sys_broker sys) = Some ([(BLocal t p ne ts, [])], sys_broker sys')"
    by simp
  then show ?thesis
    using assms(2) \<open>sys_server sys' = sys_server sys\<close> by metis
next
  case (SysRetry now now_ms)
  then have "broker_run [BRetry now now_ms] (sys_broker sys) = Some ([(BRetry now now_ms, [])], sys_broker sys')"
    "sys_server sys' = sys_server sys"
    using assms(1) by auto
  then show ?thesis using assms(2) by metis
next
  case (SysExpire now_ms)
  then have "broker_run [BExpire now_ms] (sys_broker sys) = Some ([(BExpire now_ms, [])], sys_broker sys')"
    "sys_server sys' = sys_server sys"
    using assms(1) by auto
  then show ?thesis using assms(2) by metis
qed

subsection \<open>Heartbeats\<close>

lemma heartbeat_effect:
  assumes "srv_ok (sys_server sys)" and "tm_inv (b_topics (sys_broker sys))"
    and "ts_running (sys_server sys)" and "heartbeat_enabled (ts_config (sys_server sys))"
    and "sys_exec (SysHeartbeat now) sys = Some (outs, sys')"
  shows "ts_connections (sys_server sys') =
      filter (\<lambda>cid. \<not> is_idle now (sys_server sys) cid) (ts_connections (sys_server sys)) \<and>
    (\<forall>cid. ts_objects (sys_server sys') cid =
      (if is_idle now (sys_server sys) cid then map_option Close (ts_objects (sys_server sys) cid)
       else ts_objects (sys_server sys) cid)) \<and>
    (\<forall>t g. view (b_topics (sys_broker sys')) t g =
      filter (\<lambda>e. \<not> is_idle now (sys_server sys) (snd e)) (view (b_topics (sys_broker sys)) t g))"
proof -
  let ?s = "sys_server sys" and ?b = "sys_broker sys"
  let ?ids = "idle_conns now ?s"
  have s': "sys_server sys' = fold close_conn ?ids ?s" "sys_broker sys' = fold OnConnectionClosed ?ids ?b"
    using assms(3-5) by (auto simp: heartbeat_round_def Let_def)
  have ids: "cid \<in> set ?ids \<longleftrightarrow> is_idle now ?s cid" for cid
    using assms(1) by (auto simp: idle_conns_def is_idle_def srv_ok_def split: option.splits)
  have "tm_inv (b_topics b) \<Longrightarrow> tm_inv (b_topics (fold OnConnectionClosed cs b)) \<and>
      view (b_topics (fold OnConnectionClosed cs b)) t g = filter (\<lambda>e. snd e \<notin> set cs) (view (b_topics b) t g)" for cs b t g
  proof (induction cs arbitrary: b)
    case (Cons c cs)
    have "tm_inv (b_topics (OnConnectionClosed c b))"
      "view (b_topics (OnConnectionClosed c b)) t g = filter (\<lambda>e. snd e \<noteq> c) (view (b_topics b) t g)"
      using tm_inv_exec [OF Cons.prems, of "OpDrop c"] reg.drop_spec [OF Cons.prems, of c]
      by (simp_all add: OnConnectionClosed_def spec_drop_def)
    then show ?case
      using Cons.IH by (simp add: conj_commute)
  qed simp
  then have "view (b_topics (sys_broker sys')) t g = filter (\<lambda>e. \<not> is_idle now ?s (snd e)) (view (b_topics ?b) t g)" for t g
    using assms(2) by (simp add: s' ids)
  then show ?thesis
    using ids close_all_connections [OF assms(1), of ?ids] by (simp add: s' close_all_objects)
qed

lemma heartbeats_total: "\<exists>outs sys'. sys_run (map SysHeartbeat ts) sys = Some (outs, sys')"
proof (induction ts arbitrary: sys)
  case (Cons now ts)
  have "sys_exec (SysHeartbeat now) sys \<noteq> None"
    by (simp add: split_beta Let_def)
  then obtain o1 sys1 where x: "sys_exec (SysHeartbeat now) sys = Some (o1, sys1)"
    by auto
  then show ?case using Cons.IH [of sys1] by (auto simp del: sys_exec.simps)
qed simp

text \<open>Heartbeats do not touch a connection that is closed already, nor its subscriptions.\<close>

lemma heartbeats_skip_closed:
  "sys_run (map SysHeartbeat ts) sys = Some (outs, sys') \<Longrightarrow> srv_ok (sys_server sys) \<Longrightarrow>
     tm_inv (b_topics (sys_broker sys)) \<Longrightarrow> cid \<notin> set (ts_connections (sys_server sys)) \<Longrightarrow>
     cid \<notin> set (ts_connections (sys_server sys')) \<and>
     filter (\<lambda>e. snd e = cid) (view (b_topics (sys_broker sys')) t g) =
       filter (\<lambda>e. snd e = cid) (view (b_topics (sys_broker sys)) t g)"
proof (induction ts arbitrary: sys outs)
  case (Cons now ts)
  obtain o1 sys1 where x: "sys_exec (SysHeartbeat now) sys = Some (o1, sys1)"
    using Cons.prems(1) by (auto split: option.splits simp del: sys_exec.simps)
  obtain o2 where xs: "sys_run (map SysHeartbeat ts) sys1 = Some (o2, sys')"
    using Cons.prems(1) x by (auto simp del: sys_exec.simps)
  obtain ops trace where ok: "srv_ok (sys_server sys1)"
    and run: "broker_run ops (sys_broker sys) = Some (trace, sys_broker sys1)"
    using sys_exec_broker [OF x Cons.prems(2)] by blast
  have tm: "tm_inv (b_topics (sys_broker sys1))"
    using broker_run_inv [OF run] Cons.prems(3) by blast
  have idle: "\<not> is_idle now (sys_server sys) cid"
    using Cons.prems(2,4) by (auto simp: is_idle_def srv_ok_def split: option.splits)
  have "cid \<notin> set (ts_connections (sys_server sys1)) \<and>
      filter (\<lambda>e. snd e = cid) (view (b_topics (sys_broker sys1)) t g) =
      filter (\<lambda>e. snd e = cid) (view (b_topics (sys_broker sys)) t g)"
  proof (cases "ts_running (sys_server sys) \<and> heartbeat_enabled (ts_config (sys_server sys))")
    case True
    with heartbeat_effect [OF Cons.prems(2,3) _ _ x] idle Cons.prems(4) show ?thesis
      by (auto intro: filter_cong)
  next
    case False
    then have "sys1 = sys" using x by auto
    then show ?thesis using Cons.prems(4) by simp
  qed
  then show ?case
    using Cons.IH [OF xs ok tm] by simp
qed simp

subsection \<open>Properties\<close>

text \<open>
  C23: The heartbeat of a running server, whose connection table and topic manager satisfy their invariants (every
  step keeps them), closes exactly the idle connections: after a round, the connections that were open and
  silent for the configured time are closed and out of the table, and no topic or group has them
  any more; every other connection is untouched and keeps its subscriptions in order.
\<close>

theorem heartbeat_closes_idle:
  assumes "srv_ok (sys_server sys)" and "tm_inv (b_topics (sys_broker sys))"
    and "ts_running (sys_server sys)" and "heartbeat_enabled (ts_config (sys_server sys))"
    and "sys_exec (SysHeartbeat now) sys = Some (outs, sys')"
  shows "ts_connections (sys_server sys') =
      filter (\<lambda>cid. \<not> is_idle now (sys_server sys) cid) (ts_connections (sys_server sys)) \<and>
    (\<forall>cid. ts_objects (sys_server sys') cid =
      (if is_idle now (sys_server sys) cid then map_option Close (ts_objects (sys_server sys) cid)
       else ts_objects (sys_server sys) cid)) \<and>
    (\<forall>t g. view (b_topics (sys_broker sys')) t g =
      filter (\<lambda>e. \<not> is_idle now (sys_server sys) (snd e)) (view (b_topics (sys_broker sys)) t g))"
  by (rule heartbeat_effect [OF assms])

text \<open>Two connections, one silent since time 0 and one since 20 s, each with a subscriber of topic \<open>t\<close>.\<close>

definition sample_subscribed :: System where
  "sample_subscribed =
     \<lparr>sys_server = snd (accept_conn 20000000000 (snd (accept_conn 0 (snd (Start True True True True (ts_new default_BrokerConfig)))))),
      sys_broker = (broker_new (ms_new 64 3 5000) default_BrokerConfig 0)\<lparr>b_topics :=
        tm_exec (OpSubscribe ''t'' \<lparr>si_id = ''b'', si_conn_id = 2\<rparr> [])
          (tm_exec (OpSubscribe ''t'' \<lparr>si_id = ''a'', si_conn_id = 1\<rparr> []) tm_new)\<rparr>\<rparr>"

lemma sample_subscribed_ok:
  "srv_ok (sys_server sample_subscribed)" "tm_inv (b_topics (sys_broker sample_subscribed))"
proof -
  have "tm_inv tm_new" by (simp add: tm_inv_def tm_new_def)
  then show "tm_inv (b_topics (sys_broker sample_subscribed))"
    by (simp add: sample_subscribed_def tm_inv_exec del: tm_exec.simps)
  show "srv_ok (sys_server sample_subscribed)"
    by (simp add: sample_subscribed_def srv_ok_accept srv_ok_Start srv_ok_new)
qed

lemma sample_subscribed_view:
  "view (b_topics (sys_broker sample_subscribed)) ''t'' [] = [(''a'', 1), (''b'', 2)]"
  "ts_connections (sys_server sample_subscribed) = [1, 2]" "ts_running (sys_server sample_subscribed)"
  "heartbeat_enabled (ts_config (sys_server sample_subscribed))"
  by (simp_all add: Start_def default_BrokerConfig_def sample_subscribed_def Subscribe_def view_def tm_new_def accept_conn_def ts_new_def Let_def
      um_at_def um_find_def um_put_def)

theorem heartbeat_closes_idle_witness:
  "\<exists>sys. sys_exec (SysHeartbeat 21000000000) sample_subscribed = Some ([], sys) \<and>
    ts_connections (sys_server sys) = [2] \<and> view (b_topics (sys_broker sys)) ''t'' [] = [(''b'', 2)]"
proof -
  obtain sys where x: "sys_exec (SysHeartbeat 21000000000) sample_subscribed = Some ([], sys)"
    by (simp add: heartbeat_round_def Let_def sample_subscribed_view)
  have "is_idle 21000000000 (sys_server sample_subscribed) 1" "\<not> is_idle 21000000000 (sys_server sample_subscribed) 2"
    by (simp_all add: sample_subscribed_def is_idle_def accept_conn_def Start_def ts_new_def conn_new_def Let_def
        GetLastActiveTime_def ms_of_def duration_ms_def default_BrokerConfig_def)
  then show ?thesis
    using x heartbeat_closes_idle [OF sample_subscribed_ok sample_subscribed_view(3,4) x]
    by (auto simp: sample_subscribed_view)
qed

text \<open>
  C27: A peer that closes its connection leaves its subscriptions behind: on a running server whose connection
  table and topic manager satisfy their invariants (every step keeps them), the connection leaves the
  table and sends to it fail from then on, but the broker is not told, and no later heartbeat tells
  it either, however long the connection is gone. Only the timeout of an open connection cleans up.
\<close>

theorem peer_close_leaks:
  assumes "srv_ok (sys_server sys)" and "tm_inv (b_topics (sys_broker sys))" and "[] \<notin> set ds"
    and "ts_running (sys_server sys)"
    and "sys_run (SysEvent es rss cid (map Data ds @ [Peer_Closed]) now # map SysHeartbeat later) sys = Some (outs, sys')"
  shows "cid \<notin> set (ts_connections (sys_server sys')) \<and>
    SendTo cid f rs (sys_server sys') = Some (False, [], sys_server sys') \<and>
    filter (\<lambda>e. snd e = cid) (view (b_topics (sys_broker sys')) t g) =
      filter (\<lambda>e. snd e = cid) (view (b_topics (sys_broker sys)) t g)"
proof -
  let ?s = "sys_server sys"
  obtain frames srv where ev: "on_event cid (map Data ds @ [Peer_Closed]) now ?s = (frames, srv)" by force
  have closes: "OnRead (map Data ds @ [Peer_Closed]) now c = ([], Close (c\<lparr>c_read_buffer := c_read_buffer c @ concat ds\<rparr>))"
    if "\<not> c_closed c" for c
    using that assms(3) by (simp add: OnRead_def recv_loop_data)
  have gone: "frames = [] \<and> cid \<notin> set (ts_connections srv)"
    using assms(1) ev closes
    by (auto simp: on_event_def srv_ok_def Let_def Close_def split: if_splits option.splits)
  then obtain o2 where "sys_run (map SysHeartbeat later) (sys\<lparr>sys_server := srv\<rparr>) = Some (o2, sys')"
    using assms(4,5) ev by auto
  from heartbeats_skip_closed [OF this, of cid t g] srv_ok_on_event [OF assms(1) ev] assms(2) gone
  show ?thesis by (simp add: SendTo_def)
qed

theorem peer_close_leaks_witness:
  "\<exists>outs sys. sys_run (SysEvent (\<lambda>_. sample_env) (\<lambda>_ _. []) 1 (map Data [] @ [Peer_Closed]) 5 # map SysHeartbeat [60000000000])
      sample_subscribed = Some (outs, sys) \<and>
    SendTo 1 default_Frame [] (sys_server sys) = Some (False, [], sys_server sys) \<and>
    filter (\<lambda>e. snd e = 1) (view (b_topics (sys_broker sys)) ''t'' []) = [(''a'', 1)]"
proof -
  let ?es = "\<lambda>_::nat. sample_env" and ?rss = "\<lambda>(_::nat) (_::nat). [] :: send_result list"
  have "ts_objects (sys_server sample_subscribed) 1 = Some (conn_new 1 (Some default_BrokerConfig) 0)"
    by (simp add: sample_subscribed_def accept_conn_def Start_def ts_new_def Let_def)
  then have "fst (on_event 1 [Peer_Closed] 5 (sys_server sample_subscribed)) = []"
    using sample_subscribed_view(2) by (simp add: on_event_def OnRead_def conn_new_def Let_def)
  then obtain outs sys where run: "sys_run (SysEvent ?es ?rss 1 (map Data [] @ [Peer_Closed]) 5 # map SysHeartbeat [60000000000])
      sample_subscribed = Some (outs, sys)"
    using heartbeats_total [of "[60000000000]" "sample_subscribed\<lparr>sys_server := snd (on_event 1 [Peer_Closed] 5 (sys_server sample_subscribed))\<rparr>"]
    by (auto simp: split_beta sample_subscribed_view simp del: sys_exec.simps(5))
  have "[] \<notin> set ([] :: byte list list)" by simp
  from peer_close_leaks [OF sample_subscribed_ok this sample_subscribed_view(3) run, of default_Frame "[]" "''t''" "[]"] run
  show ?thesis by (auto simp: sample_subscribed_view)
qed

end
