(* ===== verification/System_Refinement.thy ===== *)
theory System_Refinement
  imports Broker_System
begin

text \<open>
  The running system refines the broker. Which broker operations a run of the system amounts to is a
  function of the run (\<open>sys_ops\<close>): the frames that the connections' decoders yield, each with the connection object as
  it then is, the connections that the heartbeat drops, the local publishes and the background rounds, in the
  order of the steps. Shown here: the broker inside the server executes exactly these operations, every
  action of its handlers becomes one send, in order, to the connection that it names, and what each connection puts on
  the wire is what \<open>SendFrame\<close> makes of the frames sent to that connection, from its acceptance on.
\<close>

subsection \<open>The broker operations and the sends of a run\<close>

text \<open>Every operation comes with the results of the system calls of its sends.\<close>

type_synonym tagged_op = "broker_op \<times> (nat \<Rightarrow> send_result list)"

fun frames_ops :: "(nat \<Rightarrow> env) \<Rightarrow> (nat \<Rightarrow> nat \<Rightarrow> send_result list) \<Rightarrow> nat \<Rightarrow> ConnectionId \<Rightarrow> Frame list \<Rightarrow> System
    \<Rightarrow> tagged_op list" where
  "frames_ops es rss k cid [] sys = []"
| "frames_ops es rss k cid (f # fs) sys =
     (case ts_objects (sys_server sys) cid of None \<Rightarrow> [] | Some conn \<Rightarrow> [(BFrame (es k) f conn, rss k)]) @
     (case handle_frame (es k) (rss k) cid f sys of
        None \<Rightarrow> []
      | Some (outs, sys1) \<Rightarrow> frames_ops es rss (Suc k) cid fs sys1)"

definition untagged :: "broker_op \<Rightarrow> tagged_op" where
  "untagged x = (x, \<lambda>_. [])"

fun op_ops :: "sys_op \<Rightarrow> System \<Rightarrow> tagged_op list" where
  "op_ops (SysEvent es rss cid rs now) sys =
     (if ts_running (sys_server sys) then
        let (frames, srv) = on_event cid rs now (sys_server sys)
        in frames_ops es rss 0 cid frames (sys\<lparr>sys_server := srv\<rparr>)
      else [])"
| "op_ops (SysHeartbeat now) sys =
     (if ts_running (sys_server sys) \<and> heartbeat_enabled (ts_config (sys_server sys))
      then map (\<lambda>cid. untagged (BClosed cid)) (idle_conns now (sys_server sys)) else [])"
| "op_ops (SysLocal t p ne ts) sys = [untagged (BLocal t p ne ts)]"
| "op_ops (SysRetry now now_ms) sys = [untagged (BRetry now now_ms)]"
| "op_ops (SysExpire now_ms) sys = [untagged (BExpire now_ms)]"
| "op_ops _ sys = []"

fun sys_ops :: "sys_op list \<Rightarrow> System \<Rightarrow> tagged_op list" where
  "sys_ops [] sys = []"
| "sys_ops (x # xs) sys = op_ops x sys @ (case sys_exec x sys of None \<Rightarrow> [] | Some (outs, sys1) \<Rightarrow> sys_ops xs sys1)"

text \<open>
  The sends of an operation: the connection, the frame and the results of the system calls. A reply
  goes to the connection that the frame came from.
\<close>

type_synonym send = "ConnectionId \<times> Frame \<times> send_result list"

fun action_send :: "ConnectionId \<Rightarrow> (nat \<Rightarrow> send_result list) \<Rightarrow> nat \<times> action \<Rightarrow> send" where
  "action_send cid rs (k, Reply f) = (cid, f, rs k)"
| "action_send cid rs (k, Send_To c f) = (c, f, rs k)"

definition action_sends :: "ConnectionId \<Rightarrow> (nat \<Rightarrow> send_result list) \<Rightarrow> action list \<Rightarrow> send list" where
  "action_sends cid rs acts = map (action_send cid rs) (enumerate 0 acts)"

fun op_sends :: "tagged_op \<Rightarrow> action list \<Rightarrow> send list" where
  "op_sends (BFrame e f conn, rs) acts = action_sends (c_id conn) rs acts"
| "op_sends _ acts = []"

text \<open>The sends of a run, from its operations and the actions that the broker's handlers took for them.\<close>

definition all_sends :: "tagged_op list \<Rightarrow> (broker_op \<times> action list) list \<Rightarrow> send list" where
  "all_sends ops trace = concat (map2 op_sends ops (map snd trace))"

definition sends_to :: "ConnectionId \<Rightarrow> send list \<Rightarrow> (Frame \<times> send_result list) list" where
  "sends_to c ss = map snd (filter (\<lambda>s. fst s = c) ss)"

definition bytes_to :: "ConnectionId \<Rightarrow> (ConnectionId \<times> byte list) list \<Rightarrow> byte list" where
  "bytes_to c outs = concat (map snd (filter (\<lambda>s. fst s = c) outs))"

lemma sends_to_append [simp]: "sends_to c (xs @ ys) = sends_to c xs @ sends_to c ys"
  by (simp add: sends_to_def)

lemma bytes_to_append [simp]: "bytes_to c (xs @ ys) = bytes_to c xs @ bytes_to c ys"
  by (simp add: bytes_to_def)

lemma sends_to_one [simp]: "sends_to c [(c', f, rs)] = (if c' = c then [(f, rs)] else [])"
  by (simp add: sends_to_def)

lemma bytes_to_one [simp]: "bytes_to c [(c', out)] = (if c' = c then out else [])"
  by (simp add: bytes_to_def)

lemma sends_to_Nil [simp]: "sends_to c [] = []"
  by (simp add: sends_to_def)

lemma bytes_to_Nil [simp]: "bytes_to c [] = []"
  by (simp add: bytes_to_def)

lemma all_sends_append:
  "length ops = length trace \<Longrightarrow> all_sends (ops @ ops') (trace @ trace') = all_sends ops trace @ all_sends ops' trace'"
  by (simp add: all_sends_def)

lemma all_sends_silent:
  assumes "list_all (\<lambda>(x, rs). \<forall>e f conn. x \<noteq> BFrame e f conn) ops"
  shows "all_sends ops trace = []"
proof -
  have "list_all (\<lambda>xs. xs = []) (map2 op_sends ops as)" for as
    using assms
  proof (induction ops arbitrary: as)
    case (Cons x ops)
    then show ?case by (cases as; cases x; cases "fst x") auto
  qed simp
  then show ?thesis by (auto simp: all_sends_def list_all_iff)
qed

subsection \<open>What a connection has sent\<close>

text \<open>
  \<open>replays cfg ss out conn\<close>: the bytes \<open>out\<close> and the write buffer of \<open>conn\<close> are those of a new connection on which
  \<open>SendFrame\<close> is called for the sends \<open>ss\<close> one after the other, all of them if \<open>conn\<close> is open, those
  up to some point if it has closed.
\<close>

definition replays :: "BrokerConfig \<Rightarrow> (Frame \<times> send_result list) list \<Rightarrow> byte list \<Rightarrow> Connection \<Rightarrow> bool" where
  "replays cfg ss out conn \<longleftrightarrow> (\<exists>n accepted conn'. n \<le> length ss \<and>
     send_all (take n ss) (conn_new (c_id conn) (Some cfg) 0) = (accepted, out, conn') \<and>
     c_write_buffer conn' = c_write_buffer conn \<and> (\<not> c_closed conn \<longrightarrow> n = length ss \<and> \<not> c_closed conn'))"

definition same_wire :: "Connection \<Rightarrow> Connection \<Rightarrow> bool" where
  "same_wire c d \<longleftrightarrow> c_closed c = c_closed d \<and> c_write_buffer c = c_write_buffer d \<and> c_config c = c_config d"

lemma SendFrame_same_wire:
  assumes "same_wire c d" and "SendFrame f rs c = (ok, out, c')"
  shows "\<exists>d'. SendFrame f rs d = (ok, out, d') \<and> same_wire c' d'"
proof -
  have eqs: "c_closed c = c_closed d" "c_write_buffer c = c_write_buffer d" "zero_copy c = zero_copy d"
    "max_write_buffer c = max_write_buffer d" "c_config c = c_config d"
    using assms(1) by (simp_all add: same_wire_def zero_copy_def max_write_buffer_def)
  show ?thesis
  proof (cases "c_closed c \<or> c_write_buffer c \<noteq> [] \<or> \<not> zero_copy c")
    case True
    then show ?thesis
      using assms(2) eqs unfolding SendFrame_def same_wire_def Let_def
      by (auto simp: Close_def split: if_splits prod.splits)
  next
    case False
    obtain r where r: "(case rs of [] \<Rightarrow> Would_Block | r # _ \<Rightarrow> r) = r" by blast
    show ?thesis
      using assms(2) eqs False r unfolding SendFrame_def same_wire_def Let_def header_bytes
      by (cases r) (auto simp: Close_def split: if_splits)
  qed
qed

lemma SendFrame_config: "SendFrame f rs c = (ok, out, c') \<Longrightarrow> c_config c' = c_config c"
  by (auto simp: SendFrame_def Let_def Close_def split: if_splits prod.splits send_result.splits)

lemma send_all_config: "send_all xs c = (fs, out, c') \<Longrightarrow> c_config c' = c_config c"
proof (induction xs arbitrary: c fs out c')
  case (Cons x xs)
  obtain f rs where x: "x = (f, rs)" by force
  obtain ok o1 c1 where s: "SendFrame f rs c = (ok, o1, c1)" by (cases "SendFrame f rs c")
  obtain gs o2 c2 where r: "send_all xs c1 = (gs, o2, c2)" by (cases "send_all xs c1")
  show ?case using Cons.prems Cons.IH [OF r] SendFrame_config [OF s] x s r by simp
qed simp

lemma send_all_append:
  "send_all xs c = (fs, out, c1) \<Longrightarrow> send_all ys c1 = (gs, out', c2) \<Longrightarrow> send_all (xs @ ys) c = (fs @ gs, out @ out', c2)"
proof (induction xs arbitrary: c fs out)
  case (Cons x xs)
  obtain f rs where x: "x = (f, rs)" by force
  obtain ok o1 c' where s: "SendFrame f rs c = (ok, o1, c')" by (cases "SendFrame f rs c")
  obtain hs o2 c2' where r: "send_all xs c' = (hs, o2, c2')" by (cases "send_all xs c'")
  then show ?case using Cons.prems Cons.IH [of c' hs o2] x s by auto
qed simp

text \<open>One more send, and the things that can happen to a connection otherwise.\<close>

lemma replays_send:
  assumes "replays cfg ss out conn" and "c_config conn = Some cfg" and "SendFrame f rs conn = (ok, o1, conn1)"
  shows "replays cfg (ss @ [(f, rs)]) (out @ o1) conn1"
proof -
  obtain n accepted conn' where n: "n \<le> length ss"
    and run: "send_all (take n ss) (conn_new (c_id conn) (Some cfg) 0) = (accepted, out, conn')"
    and wb: "c_write_buffer conn' = c_write_buffer conn" and op: "\<not> c_closed conn \<longrightarrow> n = length ss \<and> \<not> c_closed conn'"
    using assms(1) unfolding replays_def by blast
  have id: "c_id conn1 = c_id conn" by (rule SendFrame_id [OF assms(3)])
  show ?thesis
  proof (cases "c_closed conn")
    case True
    then have "o1 = []" "conn1 = conn" using assms(3) by (simp_all add: SendFrame_closed)
    then show ?thesis
      unfolding replays_def using True n run wb by (intro exI [of _ n] exI [of _ accepted] exI [of _ conn']) simp
  next
    case False
    have "same_wire conn conn'"
      using False op wb assms(2) send_all_config [OF run] by (simp add: same_wire_def conn_new_def)
    from SendFrame_same_wire [OF this assms(3)] obtain conn1' where
      s: "SendFrame f rs conn' = (ok, o1, conn1')" "same_wire conn1 conn1'" by blast
    then have "send_all [(f, rs)] conn' = (if ok then [f] else [], o1, conn1')" by simp
    from send_all_append [OF run this] have
      "send_all (take (Suc n) (ss @ [(f, rs)])) (conn_new (c_id conn1) (Some cfg) 0) = (accepted @ (if ok then [f] else []), out @ o1, conn1')"
      using False op id by simp
    then show ?thesis
      unfolding replays_def using s(2) False op
      by (intro exI [of _ "Suc n"] exI [of _ "accepted @ (if ok then [f] else [])"] exI [of _ conn1']) (auto simp: same_wire_def)
  qed
qed

lemma replays_same:
  assumes "replays cfg ss out conn" and "c_id conn' = c_id conn" and "c_write_buffer conn' = c_write_buffer conn"
    and "c_closed conn \<Longrightarrow> c_closed conn'"
  shows "replays cfg ss out conn'"
  using assms unfolding replays_def by metis

subsection \<open>The sends of the server\<close>

text \<open>
  \<open>wired cfg ss outs s\<close>: the sends \<open>ss\<close> and their results \<open>outs\<close> explain every connection of the server.
\<close>

definition wired :: "BrokerConfig \<Rightarrow> send list \<Rightarrow> (ConnectionId \<times> byte list) list \<Rightarrow> TcpServer \<Rightarrow> bool" where
  "wired cfg ss outs s \<longleftrightarrow> map fst outs = map fst ss \<and>
     (\<forall>c. case ts_objects s c of
        None \<Rightarrow> sends_to c ss = [] \<and> bytes_to c outs = []
      | Some conn \<Rightarrow> c_id conn = c \<and> c_config conn = Some cfg \<and> replays cfg (sends_to c ss) (bytes_to c outs) conn)"

lemma wiredD:
  assumes "wired cfg ss outs s"
  shows "map fst outs = map fst ss"
    and "ts_objects s c = None \<Longrightarrow> sends_to c ss = [] \<and> bytes_to c outs = []"
    and "ts_objects s c = Some conn \<Longrightarrow>
      c_id conn = c \<and> c_config conn = Some cfg \<and> replays cfg (sends_to c ss) (bytes_to c outs) conn"
  using conjunct1 [OF assms [unfolded wired_def]] spec [OF conjunct2 [OF assms [unfolded wired_def]], of c]
  by simp_all

text \<open>A change of one object that sends nothing.\<close>

lemma wired_replace:
  assumes "wired cfg ss outs s" and "ts_objects s cid = Some conn"
    and "c_id conn' = c_id conn" "c_config conn' = c_config conn" "c_write_buffer conn' = c_write_buffer conn"
    and "c_closed conn \<Longrightarrow> c_closed conn'" and "ts_objects s' = (ts_objects s)(cid \<mapsto> conn')"
  shows "wired cfg ss outs s'"
  using assms(1) wiredD(3) [OF assms(1,2)] replays_same [OF _ assms(3,5,6)] assms(3,4)
  unfolding wired_def assms(7) by auto

lemma wired_accept:
  assumes "wired cfg ss outs s" and "ts_objects s cid = None"
    and "ts_objects s' = (ts_objects s)(cid \<mapsto> conn_new cid (Some cfg) now)"
  shows "wired cfg ss outs s'"
proof -
  have "replays cfg [] [] (conn_new cid (Some cfg) now)"
    by (simp add: replays_def conn_new_def)
  then show ?thesis
    using assms(1) wiredD(2) [OF assms(1,2)] unfolding wired_def assms(3) by (auto simp: conn_new_def)
qed

text \<open>A send to a connection that was accepted at some time.\<close>

lemma wired_SendFrame:
  assumes "wired cfg ss outs s" and "ts_objects s cid = Some conn" and "SendFrame f rs conn = (ok, out, conn')"
    and "ts_objects s' = (ts_objects s)(cid \<mapsto> conn')"
  shows "wired cfg (ss @ [(cid, f, rs)]) (outs @ [(cid, out)]) s'"
proof -
  note D = wiredD(3) [OF assms(1,2)]
  have "replays cfg (sends_to cid ss @ [(f, rs)]) (bytes_to cid outs @ out) conn'"
    using D by (intro replays_send [OF _ _ assms(3)]) simp_all
  moreover have "sends_to c (ss @ [(cid, f, rs)]) = sends_to c ss" "bytes_to c (outs @ [(cid, out)]) = bytes_to c outs"
    if "c \<noteq> cid" for c
    using that by simp_all
  ultimately show ?thesis
    using wiredD(1) [OF assms(1)] conjunct2 [OF assms(1) [unfolded wired_def]] D SendFrame_id [OF assms(3)]
      SendFrame_config [OF assms(3)]
    unfolding wired_def assms(4) by (simp cong: option.case_cong)
qed

lemma wired_send_direct:
  assumes "wired cfg ss outs s" and "ts_objects s cid \<noteq> None" and "send_direct cid f rs s = (ok, out, s')"
  shows "wired cfg (ss @ [(cid, f, rs)]) (outs @ [(cid, out)]) s'"
proof -
  obtain conn where conn: "ts_objects s cid = Some conn" using assms(2) by blast
  obtain ok' out' conn' where r: "SendFrame f rs conn = (ok', out', conn')" by (cases "SendFrame f rs conn")
  have "out = out'" "ts_objects s' = (ts_objects s)(cid \<mapsto> conn')"
    using assms(3) conn r by (auto simp: send_direct_def Let_def split: if_splits)
  then show ?thesis using wired_SendFrame [OF assms(1) conn r] by simp
qed

lemma wired_SendTo:
  assumes "wired cfg ss outs s" and "srv_ok s" and "ts_objects s cid \<noteq> None" and "SendTo cid f rs s = Some (ok, out, s')"
  shows "wired cfg (ss @ [(cid, f, rs)]) (outs @ [(cid, out)]) s'"
proof -
  obtain conn where conn: "ts_objects s cid = Some conn" using assms(3) by blast
  obtain ok' out' conn' where r: "SendFrame f rs conn = (ok', out', conn')" by (cases "SendFrame f rs conn")
  have "out = out' \<and> ts_objects s' = (ts_objects s)(cid \<mapsto> conn')"
  proof (cases "cid \<in> set (ts_connections s)")
    case True
    then show ?thesis using assms(4) conn r by (auto simp: SendTo_def send_locked_def split: if_splits)
  next
    case False
    then have "c_closed conn" using assms(2) conn by (auto simp: srv_ok_def)
    then have "out' = []" "conn' = conn" using r by (simp_all add: SendFrame_closed)
    then show ?thesis using False assms(4) conn by (auto simp: SendTo_def fun_upd_idem)
  qed
  then show ?thesis using wired_SendFrame [OF assms(1) conn r] by simp
qed

subsection \<open>Every step of the system\<close>

text \<open>
  The invariant of a run: besides \<open>wired\<close>, the identifiers that have not been given out have no object
  and no subscription.
\<close>

definition sys_good :: "BrokerConfig \<Rightarrow> nat \<Rightarrow> send list \<Rightarrow> (ConnectionId \<times> byte list) list \<Rightarrow> System \<Rightarrow> bool" where
  "sys_good cfg n ss outs sys \<longleftrightarrow> srv_ok (sys_server sys) \<and> ts_config (sys_server sys) = cfg \<and>
     wired cfg ss outs (sys_server sys) \<and> tm_inv (b_topics (sys_broker sys)) \<and>
     (\<forall>c. ts_objects (sys_server sys) c = None \<longrightarrow> silent c (b_topics (sys_broker sys))) \<and>
     (\<forall>c. ts_next_conn_id (sys_server sys) \<le> c \<longrightarrow> ts_objects (sys_server sys) c = None) \<and>
     unat (ts_next_conn_id (sys_server sys)) \<le> n + 1"

lemma sys_goodD:
  assumes "sys_good cfg n ss outs sys"
  shows "srv_ok (sys_server sys)" and "ts_config (sys_server sys) = cfg" and "wired cfg ss outs (sys_server sys)"
    and "tm_inv (b_topics (sys_broker sys))"
    and "ts_objects (sys_server sys) c = None \<Longrightarrow> silent c (b_topics (sys_broker sys))"
    and "ts_next_conn_id (sys_server sys) \<le> c \<Longrightarrow> ts_objects (sys_server sys) c = None"
    and "unat (ts_next_conn_id (sys_server sys)) \<le> n + 1"
  using assms by (simp_all add: sys_good_def)

text \<open>Servers that differ in the table and in objects of the same identifiers.\<close>

definition same_ids :: "TcpServer \<Rightarrow> TcpServer \<Rightarrow> bool" where
  "same_ids s s' \<longleftrightarrow> ts_config s' = ts_config s \<and> ts_next_conn_id s' = ts_next_conn_id s \<and>
     (\<forall>c. ts_objects s' c = None \<longleftrightarrow> ts_objects s c = None)"

lemma same_ids_refl [simp]: "same_ids s s"
  by (simp add: same_ids_def)

lemma same_ids_trans: "same_ids s s1 \<Longrightarrow> same_ids s1 s2 \<Longrightarrow> same_ids s s2"
  by (simp add: same_ids_def)

lemma send_direct_ids: "send_direct cid f rs s = (ok, out, s') \<Longrightarrow> same_ids s s'"
  by (auto simp: send_direct_def same_ids_def Let_def split: option.splits if_splits prod.splits)

lemma SendTo_ids: "SendTo cid f rs s = Some (ok, out, s') \<Longrightarrow> same_ids s s'"
  by (auto simp: SendTo_def send_locked_def same_ids_def Let_def split: option.splits if_splits prod.splits)

lemma sys_good_change:
  assumes "sys_good cfg n ss outs sys" and "same_ids (sys_server sys) (sys_server sys')" and "srv_ok (sys_server sys')"
    and "wired cfg ss' outs' (sys_server sys')" and "tm_inv (b_topics (sys_broker sys'))"
    and "\<And>c. ts_objects (sys_server sys) c = None \<Longrightarrow> silent c (b_topics (sys_broker sys))
      \<Longrightarrow> silent c (b_topics (sys_broker sys'))"
  shows "sys_good cfg n ss' outs' sys'"
  using assms unfolding sys_good_def same_ids_def by auto

lemma perform_wired:
  assumes "perform cid rss k acts s = Some (outs', s')" and "wired cfg ss outs s" and "srv_ok s"
    and "ts_objects s cid \<noteq> None" and "\<forall>c f. Send_To c f \<in> set acts \<longrightarrow> ts_objects s c \<noteq> None"
  shows "wired cfg (ss @ map (action_send cid rss) (enumerate k acts)) (outs @ outs') s' \<and> same_ids s s'"
  using assms
proof (induction cid rss k acts s arbitrary: ss outs outs' rule: perform.induct)
  case (2 cid rss k f acts s)
  obtain ok out s1 where s1: "send_direct cid f (rss k) s = (ok, out, s1)" by (cases "send_direct cid f (rss k) s")
  then obtain o2 where p: "perform cid rss (Suc k) acts s1 = Some (o2, s')" "outs' = (cid, out) # o2"
    using 2(2) by auto
  have ids: "same_ids s s1" by (rule send_direct_ids [OF s1])
  then have "wired cfg ((ss @ [(cid, f, rss k)]) @ map (action_send cid rss) (enumerate (Suc k) acts)) ((outs @ [(cid, out)]) @ o2) s' \<and> same_ids s1 s'"
    using 2(3-6) wired_send_direct [OF 2(3,5) s1] srv_ok_send_direct [OF 2(4) s1] s1
    by (intro 2(1) [OF _ _ _ p(1)]) (auto simp: same_ids_def)
  then show ?case using p(2) ids by (auto intro: same_ids_trans)
next
  case (3 cid rss k c f acts s)
  then obtain ok out s1 where s1: "SendTo c f (rss k) s = Some (ok, out, s1)" by (auto split: option.splits)
  then obtain o2 where p: "perform cid rss (Suc k) acts s1 = Some (o2, s')" "outs' = (c, out) # o2"
    using 3(2) by auto
  have ids: "same_ids s s1" by (rule SendTo_ids [OF s1])
  have obj: "ts_objects s c \<noteq> None" using 3(6) by simp
  then have "wired cfg ((ss @ [(c, f, rss k)]) @ map (action_send cid rss) (enumerate (Suc k) acts)) ((outs @ [(c, out)]) @ o2) s' \<and> same_ids s1 s'"
    using 3(3-6) ids wired_SendTo [OF 3(3,4) obj s1] srv_ok_SendTo [OF 3(4) s1] s1
    by (intro 3(1) [OF _ _ _ p(1)]) (auto simp: same_ids_def)
  then show ?case using p(2) ids by (auto intro: same_ids_trans)
qed simp

text \<open>\<open>refines n n' sys ops outs sys'\<close>: the broker goes through \<open>ops\<close>, and the sends of their handlers explain \<open>outs\<close>.\<close>

definition refines :: "BrokerConfig \<Rightarrow> nat \<Rightarrow> nat \<Rightarrow> System \<Rightarrow> tagged_op list \<Rightarrow> (ConnectionId \<times> byte list) list \<Rightarrow> System \<Rightarrow> bool" where
  "refines cfg n n' sys ops o1 sys' \<longleftrightarrow> (\<forall>ss outs. sys_good cfg n ss outs sys \<longrightarrow>
     (\<exists>trace. broker_run (map fst ops) (sys_broker sys) = Some (trace, sys_broker sys') \<and>
        sys_good cfg n' (ss @ all_sends ops trace) (outs @ o1) sys'))"

lemma broker_run_length: "broker_run xs b = Some (trace, b') \<Longrightarrow> length trace = length xs"
  by (induction xs arbitrary: b trace) (auto split: option.splits)

lemma refines_trans:
  assumes "refines cfg n n1 sys ops o1 sys1" and "refines cfg n1 n2 sys1 ops' o2 sys2"
  shows "refines cfg n n2 sys (ops @ ops') (o1 @ o2) sys2"
  unfolding refines_def
proof (intro allI impI)
  fix ss outs assume "sys_good cfg n ss outs sys"
  then obtain t1 where t1: "broker_run (map fst ops) (sys_broker sys) = Some (t1, sys_broker sys1)"
    and "sys_good cfg n1 (ss @ all_sends ops t1) (outs @ o1) sys1"
    using assms(1) unfolding refines_def by blast
  then obtain t2 where t2: "broker_run (map fst ops') (sys_broker sys1) = Some (t2, sys_broker sys2)"
    and "sys_good cfg n2 ((ss @ all_sends ops t1) @ all_sends ops' t2) ((outs @ o1) @ o2) sys2"
    using assms(2) unfolding refines_def by blast
  moreover have "all_sends (ops @ ops') (t1 @ t2) = all_sends ops t1 @ all_sends ops' t2"
    using broker_run_length [OF t1] by (intro all_sends_append) simp
  ultimately show "\<exists>trace. broker_run (map fst (ops @ ops')) (sys_broker sys) = Some (trace, sys_broker sys2) \<and>
      sys_good cfg n2 (ss @ all_sends (ops @ ops') trace) (outs @ o1 @ o2) sys2"
    using broker_run_append [OF t1 t2] by (intro exI [of _ "t1 @ t2"]) simp
qed

text \<open>A step in which the server changes and the broker does not.\<close>

lemma refines_server:
  assumes "\<And>ss outs. sys_good cfg n ss outs sys \<Longrightarrow> sys_good cfg n' ss outs sys'" and "sys_broker sys' = sys_broker sys"
  shows "refines cfg n n' sys [] [] sys'"
  using assms by (simp add: refines_def all_sends_def)

lemma handle_frame_refines:
  assumes h: "handle_frame e rss cid f sys = Some (outs', sys')"
  shows "refines cfg n n sys (case ts_objects (sys_server sys) cid of None \<Rightarrow> [] | Some conn \<Rightarrow> [(BFrame e f conn, rss)]) outs' sys'"
proof (cases "ts_objects (sys_server sys) cid")
  case None
  then show ?thesis using h refines_server [of cfg n sys n sys'] by (simp add: handle_frame_def)
next
  case (Some conn)
  obtain b conn' acts where r: "OnFrameReceived e f (sys_broker sys) conn = Some ((b, conn'), acts)"
    using h Some by (auto simp: handle_frame_def split: option.splits)
  define srv where "srv = (sys_server sys)\<lparr>ts_objects := (ts_objects (sys_server sys))(cid \<mapsto> conn')\<rparr>"
  obtain srv2 where p: "perform cid rss 0 acts srv = Some (outs', srv2)" and sys': "sys' = sys\<lparr>sys_server := srv2, sys_broker := b\<rparr>"
    using h Some r by (auto simp: handle_frame_def Let_def srv_def)
  have same: "c_id conn' = c_id conn" "c_closed conn' = c_closed conn" "c_config conn' = c_config conn" "c_write_buffer conn' = c_write_buffer conn"
    using OnFrameReceived_effect [OF r, THEN conjunct2] by (metis same_conn_def Connection.select_convs Connection.surjective Connection.update_convs(7))+
  have run: "broker_exec (BFrame e f conn) (sys_broker sys) = Some (acts, b)" using r by simp
  have "sys_good cfg n (ss @ action_sends cid rss acts) (outs @ outs') sys'" "c_id conn = cid" if good: "sys_good cfg n ss outs sys" for ss outs
  proof -
    note D = sys_goodD [OF good]
    show id: "c_id conn = cid" using D(1) Some by (simp add: srv_ok_def)
    have ids: "same_ids (sys_server sys) srv" using Some by (simp add: same_ids_def srv_def)
    have "srv_ok srv" unfolding srv_def using srv_ok_replace [OF D(1) Some, of conn'] same id by simp
    moreover have w: "wired cfg ss outs srv" using same by (intro wired_replace [OF D(3) Some]) (simp_all add: srv_def)
    moreover have "ts_objects srv c \<noteq> None" if "Send_To c g \<in> set acts" for c g
    proof -
      have "silent c (b_topics (sys_broker sys)) \<Longrightarrow> Send_To c g \<notin> set acts" by (rule frame_silent [OF _ r])
      then show ?thesis using that D(5) [of c] ids by (auto simp: same_ids_def)
    qed
    moreover have "ts_objects srv cid \<noteq> None" by (simp add: srv_def)
    ultimately have done': "wired cfg (ss @ action_sends cid rss acts) (outs @ outs') srv2" "same_ids srv srv2" "srv_ok srv2"
      using perform_wired [OF p w] perform_ok [OF p] by (simp_all add: action_sends_def)
    moreover have "silent c (b_topics b)" if "ts_objects (sys_server sys) c = None" "silent c (b_topics (sys_broker sys))" for c
    proof (rule broker_exec_silent(1) [OF that(2) run])
      show "c_id conn1 \<noteq> c" if "BFrame e f conn = BFrame e1 f1 conn1" for e1 f1 conn1
        using that \<open>ts_objects (sys_server sys) c = None\<close> Some id by auto
    qed
    moreover have "tm_inv (b_topics b)"
      using broker_run_inv [of "[BFrame e f conn]" "sys_broker sys" "[(BFrame e f conn, acts)]" b] run D(4) by simp
    ultimately show "sys_good cfg n (ss @ action_sends cid rss acts) (outs @ outs') sys'"
      by (intro sys_good_change [OF good]) (simp_all add: sys' same_ids_trans [OF ids])
  qed
  then show ?thesis
    using Some run sys' unfolding refines_def
    by (intro allI impI exI [of _ "[(BFrame e f conn, acts)]"]) (simp add: all_sends_def)
qed

lemma handle_frames_refines:
  "handle_frames es rss k cid fs sys = Some (outs', sys') \<Longrightarrow>
     refines cfg n n sys (frames_ops es rss k cid fs sys) outs' sys'"
proof (induction es rss k cid fs sys arbitrary: outs' rule: handle_frames.induct)
  case (1 es rss k cid sys)
  then show ?case using refines_server [of cfg n sys n sys'] by simp
next
  case (2 es rss k cid f fs sys)
  then obtain o1 sys1 where f: "handle_frame (es k) (rss k) cid f sys = Some (o1, sys1)"
    by (auto split: option.splits)
  then obtain o2 where fs: "handle_frames es rss (Suc k) cid fs sys1 = Some (o2, sys')" "outs' = o1 @ o2"
    using 2(2) by auto
  show ?case
    using refines_trans [OF handle_frame_refines [OF f] 2(1) [OF f refl fs(1)]] f fs(2) by simp
qed

lemma wired_on_event:
  assumes "wired cfg ss outs s" and "on_event cid rs now s = (fs, s')"
  shows "wired cfg ss outs s' \<and> same_ids s s'"
proof (cases "cid \<in> set (ts_connections s) \<and> ts_objects s cid \<noteq> None")
  case False
  then show ?thesis using assms by (auto simp: on_event_def split: if_splits)
next
  case True
  then obtain conn where conn: "ts_objects s cid = Some conn" by blast
  obtain fs' conn' where r: "OnRead rs now conn = (fs', conn')" by force
  have s': "ts_objects s' = (ts_objects s)(cid \<mapsto> conn')" "ts_config s' = ts_config s" "ts_next_conn_id s' = ts_next_conn_id s"
    using assms(2) True conn r by (auto simp: on_event_def Let_def)
  have "c_id conn' = c_id conn" "c_config conn' = c_config conn" "c_write_buffer conn' = c_write_buffer conn"
    "c_closed conn \<Longrightarrow> c_closed conn'"
    using r by (auto simp: OnRead_def Let_def Close_def UpdateLastActiveTime_def split: if_splits prod.splits)
  from wired_replace [OF assms(1) conn this s'(1)] show ?thesis
    using s' conn by (auto simp: same_ids_def)
qed

lemma wired_closes: "wired cfg ss outs s \<Longrightarrow> wired cfg ss outs (fold close_conn cids s) \<and> same_ids s (fold close_conn cids s)"
proof (induction cids arbitrary: s)
  case (Cons c cids)
  have "wired cfg ss outs (close_conn c s) \<and> same_ids s (close_conn c s)"
  proof (cases "ts_objects s c")
    case (Some conn)
    then show ?thesis
      using Cons.prems wired_replace [OF Cons.prems Some, of "Close conn" "close_conn c s"]
      by (auto simp: close_conn_def Close_def same_ids_def)
  qed (use Cons.prems in \<open>simp add: close_conn_def\<close>)
  then show ?case using Cons.IH [of "close_conn c s"] by (auto intro: same_ids_trans)
qed simp

lemma wired_same_objects: "wired cfg ss outs s \<Longrightarrow> ts_objects s' = ts_objects s \<Longrightarrow> wired cfg ss outs s'"
  by (simp add: wired_def)

lemma sys_good_mono: "sys_good cfg n ss outs sys \<Longrightarrow> n \<le> n' \<Longrightarrow> sys_good cfg n' ss outs sys"
  by (simp add: sys_good_def)

lemma start_refines: "refines cfg n n sys [] [] (snd (Broker_Start a b c d sys))"
proof (rule refines_server)
  fix ss outs assume good: "sys_good cfg n ss outs sys"
  have "ts_objects (snd (Start a b c d (sys_server sys))) = ts_objects (sys_server sys)"
    "ts_config (snd (Start a b c d (sys_server sys))) = ts_config (sys_server sys)"
    "ts_next_conn_id (snd (Start a b c d (sys_server sys))) = ts_next_conn_id (sys_server sys)"
    by (simp_all add: Start_def Let_def)
  then show "sys_good cfg n ss outs (snd (Broker_Start a b c d sys))"
    using srv_ok_Start [OF sys_goodD(1) [OF good], of a b c d] sys_goodD(3,4) [OF good] wired_same_objects
    by (intro sys_good_change [OF good]) (simp_all add: Broker_Start_def case_prod_unfold Let_def same_ids_def)
qed (simp add: Broker_Start_def case_prod_unfold Let_def)

lemma stop_refines: "refines cfg n n sys [] [] (Broker_Stop sys)"
proof (rule refines_server)
  fix ss outs assume good: "sys_good cfg n ss outs sys"
  let ?s = "(sys_server sys)\<lparr>ts_running := False, ts_listening := False, ts_epoll := False, ts_connections := []\<rparr>"
  have "wired cfg ss outs ?s" by (rule wired_same_objects [OF sys_goodD(3) [OF good]]) simp
  from wired_closes [OF this, of "ts_connections (sys_server sys)"]
  show "sys_good cfg n ss outs (Broker_Stop sys)"
    using Stop_effect [OF sys_goodD(1) [OF good]] sys_goodD(4) [OF good]
    by (intro sys_good_change [OF good]) (simp_all add: Broker_Stop_def Stop_def Let_def same_ids_def)
qed (simp add: Broker_Stop_def)

lemma accept_refines:
  assumes "n + 2 < 2 ^ 64"
  shows "refines cfg n (Suc n) sys [] [] (sys\<lparr>sys_server := snd (accept_conn now (sys_server sys))\<rparr>)"
proof (rule refines_server)
  fix ss outs assume good: "sys_good cfg n ss outs sys"
  let ?s = "sys_server sys" and ?id = "ts_next_conn_id (sys_server sys)"
  let ?s' = "snd (accept_conn now ?s)"
  note D = sys_goodD [OF good]
  have fresh: "ts_objects ?s ?id = None" using D(6) [of ?id] by simp
  have obj: "ts_objects ?s' = (ts_objects ?s)(?id \<mapsto> conn_new ?id (Some cfg) now)"
    using D(2) by (simp add: accept_conn_def Let_def)
  have next_id: "unat (?id + 1) = unat ?id + 1"
    using D(7) assms by (simp add: unat_word_ariths(1))
  then have "?id + 1 \<le> c \<Longrightarrow> ?id \<le> c \<and> c \<noteq> ?id" for c
    by (auto simp: word_le_nat_alt)
  moreover have "srv_ok ?s'" by (rule srv_ok_accept [OF D(1)])
  moreover have "wired cfg ss outs ?s'" by (rule wired_accept [OF D(3) fresh obj])
  ultimately show "sys_good cfg (Suc n) ss outs (sys\<lparr>sys_server := ?s'\<rparr>)"
    using D next_id obj unfolding sys_good_def by (simp add: accept_conn_def Let_def)
qed simp

lemma event_refines:
  assumes "on_event cid rs now (sys_server sys) = (fs, srv)"
    and "handle_frames es rss 0 cid fs (sys\<lparr>sys_server := srv\<rparr>) = Some (outs', sys')"
  shows "refines cfg n n sys (frames_ops es rss 0 cid fs (sys\<lparr>sys_server := srv\<rparr>)) outs' sys'"
proof -
  have "refines cfg n n sys [] [] (sys\<lparr>sys_server := srv\<rparr>)"
  proof (rule refines_server)
    fix ss outs assume good: "sys_good cfg n ss outs sys"
    show "sys_good cfg n ss outs (sys\<lparr>sys_server := srv\<rparr>)"
      using wired_on_event [OF sys_goodD(3) [OF good] assms(1)] srv_ok_on_event [OF sys_goodD(1) [OF good] assms(1)]
        sys_goodD(4) [OF good] by (intro sys_good_change [OF good]) simp_all
  qed simp
  from refines_trans [OF this handle_frames_refines [OF assms(2)]] show ?thesis by simp
qed

text \<open>A step that sends nothing and in which the broker goes through operations without frames.\<close>

definition frameless :: "broker_op \<Rightarrow> bool" where
  "frameless x \<longleftrightarrow> (\<forall>e f conn. x \<noteq> BFrame e f conn)"

lemma frameless_silent:
  "broker_run xs b = Some (trace, b') \<Longrightarrow> list_all frameless xs \<Longrightarrow> silent c (b_topics b) \<Longrightarrow> silent c (b_topics b')"
proof (induction xs arbitrary: b trace)
  case (Cons x xs)
  then obtain acts b1 tr where "broker_exec x b = Some (acts, b1)" "broker_run xs b1 = Some (tr, b')"
    by (auto split: option.splits)
  then show ?case
    using Cons.IH [of b1 tr] Cons.prems(2,3) broker_exec_silent(1) [of c b x acts b1] by (simp add: frameless_def)
qed simp

lemma frameless_refines:
  assumes "broker_run xs (sys_broker sys) = Some (trace, sys_broker sys')" and "list_all frameless xs"
    and "\<And>ss outs. wired cfg ss outs (sys_server sys) \<Longrightarrow>
      wired cfg ss outs (sys_server sys') \<and> same_ids (sys_server sys) (sys_server sys')"
    and "srv_ok (sys_server sys) \<Longrightarrow> srv_ok (sys_server sys')"
  shows "refines cfg n n sys (map untagged xs) [] sys'"
  unfolding refines_def
proof (intro allI impI)
  fix ss outs assume good: "sys_good cfg n ss outs sys"
  have "all_sends (map untagged xs) trace = []"
    using assms(2) by (intro all_sends_silent) (simp add: list_all_iff untagged_def frameless_def)
  moreover have "sys_good cfg n ss outs sys'"
    using assms(3) [OF sys_goodD(3) [OF good]] assms(4) [OF sys_goodD(1) [OF good]] frameless_silent [OF assms(1,2)]
      broker_run_inv [OF assms(1) sys_goodD(4) [OF good]] by (intro sys_good_change [OF good]) simp_all
  moreover have "map fst (map untagged xs) = xs" by (simp add: untagged_def comp_def)
  ultimately show "\<exists>trace. broker_run (map fst (map untagged xs)) (sys_broker sys) = Some (trace, sys_broker sys') \<and>
      sys_good cfg n (ss @ all_sends (map untagged xs) trace) (outs @ []) sys'"
    using assms(1) by (intro exI [of _ trace]) simp
qed

lemma refines_none: "refines cfg n n sys [] [] sys"
  by (rule refines_server) simp_all

lemma refines_weaken: "refines cfg n n1 sys ops o1 sys' \<Longrightarrow> n1 \<le> n2 \<Longrightarrow> refines cfg n n2 sys ops o1 sys'"
  unfolding refines_def using sys_good_mono by blast

lemma exec_refines:
  assumes x: "sys_exec x sys = Some (outs', sys')" and n: "n + 2 < 2 ^ 64"
  shows "refines cfg n (Suc n) sys (op_ops x sys) outs' sys'"
proof (cases x)
  case (SysStart a b c d)
  then show ?thesis using x start_refines [of cfg n sys a b c d] by (auto intro: refines_weaken)
next
  case SysStop
  then show ?thesis using x stop_refines [of cfg n sys] by (auto intro: refines_weaken)
next
  case (SysAccept now)
  then show ?thesis
    using x accept_refines [OF n, of cfg sys now] refines_weaken [OF refines_none [of cfg n sys], of "Suc n"] by (auto split: if_splits)
next
  case (SysEvent es rss cid rs now)
  then show ?thesis
    using x event_refines [of cid rs now sys _ _ es rss outs' sys' cfg n] refines_weaken [OF refines_none [of cfg n sys], of "Suc n"]
    by (cases "on_event cid rs now (sys_server sys)") (auto split: if_splits intro: refines_weaken)
next
  case (SysHeartbeat now)
  show ?thesis
  proof (cases "ts_running (sys_server sys) \<and> heartbeat_enabled (ts_config (sys_server sys))")
    case True
    let ?ids = "idle_conns now (sys_server sys)"
    have s': "outs' = []" "sys_server sys' = fold close_conn ?ids (sys_server sys)"
      "sys_broker sys' = fold OnConnectionClosed ?ids (sys_broker sys)"
      using x True SysHeartbeat by (auto simp: heartbeat_round_def Let_def)
    obtain trace where "broker_run (map BClosed ?ids) (sys_broker sys) = Some (trace, sys_broker sys')"
      using broker_run_closes s'(3) by metis
    from frameless_refines [OF this, of cfg n] have "refines cfg n n sys (map untagged (map BClosed ?ids)) [] sys'"
      using wired_closes srv_ok_close_all s'(2) by (simp add: list_all_iff frameless_def)
    then show ?thesis using SysHeartbeat True s'(1) by (auto simp: comp_def intro: refines_weaken)
  next
    case False
    then show ?thesis
      using x SysHeartbeat refines_weaken [OF refines_none [of cfg n sys], of "Suc n"] by (auto split: if_splits)
  qed
next
  case (SysLocal t p ne ts)
  then have s': "outs' = []" "sys_server sys' = sys_server sys"
    "broker_run [BLocal t p ne ts] (sys_broker sys) = Some ([(BLocal t p ne ts, [])], sys_broker sys')"
    using x by auto
  show ?thesis
    using frameless_refines [OF s'(3), of cfg n] s'(1,2) SysLocal by (auto simp: frameless_def intro: refines_weaken)
next
  case (SysRetry now now_ms)
  then have s': "outs' = []" "sys_server sys' = sys_server sys"
    "broker_run [BRetry now now_ms] (sys_broker sys) = Some ([(BRetry now now_ms, [])], sys_broker sys')"
    using x by auto
  show ?thesis
    using frameless_refines [OF s'(3), of cfg n] s'(1,2) SysRetry by (auto simp: frameless_def intro: refines_weaken)
next
  case (SysExpire now_ms)
  then have s': "outs' = []" "sys_server sys' = sys_server sys"
    "broker_run [BExpire now_ms] (sys_broker sys) = Some ([(BExpire now_ms, [])], sys_broker sys')"
    using x by auto
  show ?thesis
    using frameless_refines [OF s'(3), of cfg n] s'(1,2) SysExpire by (auto simp: frameless_def intro: refines_weaken)
qed

lemma run_refines:
  "sys_run xs sys = Some (outs', sys') \<Longrightarrow> n + length xs + 1 < 2 ^ 64 \<Longrightarrow>
     refines cfg n (n + length xs) sys (sys_ops xs sys) outs' sys'"
proof (induction xs arbitrary: sys outs' n)
  case Nil
  then show ?case using refines_none by simp
next
  case (Cons x xs)
  obtain o1 sys1 where x: "sys_exec x sys = Some (o1, sys1)"
    using Cons.prems(1) by (auto split: option.splits)
  obtain o2 where xs: "sys_run xs sys1 = Some (o2, sys')" "outs' = o1 @ o2"
    using Cons.prems(1) x by auto
  have "n + 2 < 2 ^ 64" "Suc n + length xs + 1 < 2 ^ 64" using Cons.prems(2) by simp_all
  from refines_trans [OF exec_refines [OF x this(1)] Cons.IH [OF xs(1) this(2)]]
  show ?case using x xs(2) by simp
qed

lemma sys_good_new: "sys_good cfg 0 [] [] (sys_new store cfg now)"
proof -
  have "tm_inv tm_new" by (simp add: tm_inv_def tm_new_def)
  moreover have "view tm_new t g = []" for t g
    by (simp add: view_def tm_new_def um_at_def um_find_def)
  ultimately show ?thesis
    by (simp add: sys_good_def sys_new_def srv_ok_new wired_def ts_new_def broker_new_def silent_def srv_ok_new [of cfg, unfolded ts_new_def])
qed

subsection \<open>The property\<close>

text \<open>
  C3: The running system refines the broker: in every run of fewer than 2^64 - 1 steps in which no handler hangs (a send under the
  connection lock that fails does hang, and then no run of steps describes the server any more), whatever
  connections are accepted, bytes arrive, sends achieve and rounds run, the broker inside the server has executed exactly
  these operations, in this order: every frame that the decoder of a connection yields, as a frame of that connection,
  every idle connection as a closed one, every local publish and every background round. Every action that its
  handlers took for them is one send, in the same order: a push to the connection it names, a reply to the connection of
  the request. Each open connection has put on the wire, and holds in its write buffer, exactly what SendFrame
  makes of all the frames sent to it since it was accepted; a closed one what it makes of those up to some point. Nothing
  is sent to an identifier that no connection has. The
  connection table lists exactly the open connections, each once; the subscription table keeps its invariant.
\<close>

theorem system_refines_broker:
  assumes "sys_run xs (sys_new store cfg now) = Some (outs, sys)" and "length xs + 1 < 2 ^ 64"
  shows "\<exists>trace. broker_run (map fst (sys_ops xs (sys_new store cfg now))) (broker_new store cfg now) =
      Some (trace, sys_broker sys) \<and>
    (let sends = all_sends (sys_ops xs (sys_new store cfg now)) trace in
       map fst outs = map fst sends \<and>
       (\<forall>c. case ts_objects (sys_server sys) c of
          None \<Rightarrow> sends_to c sends = []
        | Some conn \<Rightarrow> c_id conn = c \<and> replays cfg (sends_to c sends) (bytes_to c outs) conn)) \<and>
    srv_ok (sys_server sys) \<and> tm_inv (b_topics (sys_broker sys))"
proof -
  have "0 + length xs + 1 < 2 ^ 64" using assms(2) by simp
  from run_refines [OF assms(1) this, unfolded refines_def, rule_format, OF sys_good_new] obtain trace where
    trace: "broker_run (map fst (sys_ops xs (sys_new store cfg now))) (broker_new store cfg now) = Some (trace, sys_broker sys)"
    and good: "sys_good cfg (length xs) (all_sends (sys_ops xs (sys_new store cfg now)) trace) outs sys"
    by (auto simp: sys_new_def)
  note w = wiredD [OF sys_goodD(3) [OF good]]
  show ?thesis
    using trace w(1) w(2,3) sys_goodD(1,4) [OF good]
    by (intro exI [of _ trace]) (auto simp: Let_def split: option.split)
qed

text \<open>A client connects and sends a ping; of the answer the kernel takes four bytes.\<close>

definition ping_run :: "sys_op list" where
  "ping_run = [SysStart True True True True, SysAccept 0,
     SysEvent (\<lambda>_. sample_env) (\<lambda>_ _. [Sent 4]) 1 [Data (Encode (default_Frame\<lparr>msg_type := FMT_Ping\<rparr>))] 5]"

lemma ping_received:
  "OnRead [Data (Encode (default_Frame\<lparr>msg_type := FMT_Ping\<rparr>))] 5 (conn_new 1 (Some cfg) 0) =
     ([default_Frame\<lparr>msg_type := FMT_Ping\<rparr>], UpdateLastActiveTime 5 (conn_new 1 (Some cfg) 0))"
proof -
  let ?f = "default_Frame\<lparr>msg_type := FMT_Ping\<rparr>"
  have f: "wf_frame ?f" "decoded ?f = ?f" "Encode ?f \<noteq> []"
    by (simp_all add: wf_frame_def decoded_def default_Frame_def Encode_header kFrameHeaderSize_def flip: length_0_conv)
  have "sc_drain (AppendData sc_init (Encode ?f)) = ([?f], sc_init)"
    using sc_drain_frames [of "[?f]"] f by (simp add: AppendData_def at_frame_start_def sc_init_def)
  then show ?thesis
    using f(3) by (simp add: OnRead_def conn_new_def UpdateLastActiveTime_def Let_def)
qed

lemma ping_result:
  "\<exists>sys. sys_run ping_run (sys_new (ms_new 64 3 5000) default_BrokerConfig 0) = Some ([(1, [0xDE, 0xAD, 0xBE, 0xEF])], sys) \<and>
     sys_ops ping_run (sys_new (ms_new 64 3 5000) default_BrokerConfig 0) =
       [(BFrame sample_env (default_Frame\<lparr>msg_type := FMT_Ping\<rparr>) (UpdateLastActiveTime 5 (conn_new 1 (Some default_BrokerConfig) 0)), \<lambda>_. [Sent 4])]"
proof -
  let ?cfg = default_BrokerConfig and ?f = "default_Frame\<lparr>msg_type := FMT_Ping\<rparr>"
  let ?conn = "conn_new 1 (Some ?cfg) 0"
  let ?sys0 = "sys_new (ms_new 64 3 5000) ?cfg 0"
  let ?srv = "\<lparr>ts_config = ?cfg, ts_listening = True, ts_epoll = True, ts_running = True, ts_objects = [1 \<mapsto> ?conn],
     ts_connections = [1], ts_next_conn_id = 2\<rparr>"
  let ?sys1 = "?sys0\<lparr>sys_server := ?srv\<rparr>"
  let ?ev = "SysEvent (\<lambda>_. sample_env) (\<lambda>_ _. [Sent 4]) 1 [Data (Encode ?f)] 5"
  let ?conn1 = "UpdateLastActiveTime 5 ?conn"
  have start: "sys_run (SysStart True True True True # SysAccept 0 # xs) ?sys0 = sys_run xs ?sys1"
    "sys_ops (SysStart True True True True # SysAccept 0 # xs) ?sys0 = sys_ops xs ?sys1" for xs
    by (simp_all add: Broker_Start_def Start_def sys_new_def ts_new_def accept_conn_def Let_def option.map_id)
  have ev: "on_event 1 [Data (Encode ?f)] 5 ?srv = ([?f], ?srv\<lparr>ts_objects := [1 \<mapsto> ?conn1]\<rparr>)"
    by (simp add: on_event_def ping_received) (simp add: UpdateLastActiveTime_def conn_new_def)
  have hb: "heartbeat_enabled (cm_global_config (b_config (sys_broker ?sys0)))"
    by (simp add: sys_new_def broker_new_def cm_new_def default_BrokerConfig_def)
  have "OnFrameReceived sample_env ?f (sys_broker ?sys0) ?conn1 =
      Some ((sys_broker ?sys0, ?conn1), [Reply (default_Frame\<lparr>msg_type := FMT_Pong\<rparr>)])"
    using hb by (simp add: OnFrameReceived_def HandlePing_def FMT_defs)
  moreover have "\<exists>c'. SendFrame (default_Frame\<lparr>msg_type := FMT_Pong\<rparr>) [Sent 4] ?conn1 = (True, [0xDE, 0xAD, 0xBE, 0xEF], c')"
    by (simp add: SendFrame_def UpdateLastActiveTime_def conn_new_def zero_copy_def default_BrokerConfig_def header_bytes
        frame_header_def be_bytes_4 byte_of_def default_Frame_def kFrameMagic_def kFrameVersion_def Let_def)
  ultimately show ?thesis
    unfolding ping_run_def start
    by (auto simp: ev handle_frame_def send_direct_def Let_def simp del: broker_run.simps)
qed

theorem system_refines_broker_witness:
  "\<exists>outs trace sys. sys_run ping_run (sys_new (ms_new 64 3 5000) default_BrokerConfig 0) = Some (outs, sys) \<and>
     broker_run [BFrame sample_env (default_Frame\<lparr>msg_type := FMT_Ping\<rparr>) (UpdateLastActiveTime 5 (conn_new 1 (Some default_BrokerConfig) 0))]
       (broker_new (ms_new 64 3 5000) default_BrokerConfig 0) = Some (trace, sys_broker sys) \<and>
     outs = [(1, [0xDE, 0xAD, 0xBE, 0xEF])] \<and> srv_ok (sys_server sys)"
proof -
  obtain sys where run: "sys_run ping_run (sys_new (ms_new 64 3 5000) default_BrokerConfig 0) = Some ([(1, [0xDE, 0xAD, 0xBE, 0xEF])], sys)"
    and ops: "sys_ops ping_run (sys_new (ms_new 64 3 5000) default_BrokerConfig 0) =
       [(BFrame sample_env (default_Frame\<lparr>msg_type := FMT_Ping\<rparr>) (UpdateLastActiveTime 5 (conn_new 1 (Some default_BrokerConfig) 0)), \<lambda>_. [Sent 4])]"
    using ping_result by blast
  have "length ping_run + 1 < 2 ^ 64" by (simp add: ping_run_def)
  from system_refines_broker [OF run this, unfolded ops list.map fst_conv] run show ?thesis by blast
qed

end
