(* ===== verification/Heartbeat_Race.thy ===== *)
theory Heartbeat_Race
  imports Broker_System
begin

text \<open>
  The heartbeat thread beside the event thread. \<open>Broker_System\<close> takes a round of the heartbeat and an
  event with its frames as one step each; here \<open>HeartbeatLoop\<close> moves by the pieces between which it
  holds no lock (the scan, one idle-timeout call at a time, one \<open>Close\<close> at a time), and the event thread
  by a read and one frame at a time. The other threads are left out: they do not touch connections
  that exist.
\<close>

subsection \<open>The two threads\<close>

text \<open>
  Where the heartbeat thread is: asleep, calling the handler for the rest of the identifiers (with all
  of them kept for the closing), or closing the rest of the connections.
\<close>

datatype heartbeat_phase =
    Asleep
  | Notifying "ConnectionId list" "ConnectionId list"
  | Closing "ConnectionId list"

fun heartbeat_turn :: "time_point \<Rightarrow> heartbeat_phase \<Rightarrow> System \<Rightarrow> heartbeat_phase \<times> System" where
  "heartbeat_turn now Asleep sys =
     (if ts_running (sys_server sys) \<and> heartbeat_enabled (ts_config (sys_server sys)) then
        let ids = idle_conns now (sys_server sys) in (Notifying ids ids, sys)
      else (Asleep, sys))"
| "heartbeat_turn now (Notifying [] ids) sys = (Closing ids, sys)"
| "heartbeat_turn now (Notifying (c # cs) ids) sys =
     (Notifying cs ids, sys\<lparr>sys_broker := OnConnectionClosed c (sys_broker sys)\<rparr>)"
| "heartbeat_turn now (Closing []) sys = (Asleep, sys)"
| "heartbeat_turn now (Closing (c # cs)) sys =
     (Closing cs, sys\<lparr>sys_server := close_conn c (sys_server sys)\<rparr>)"

text \<open>The event thread holds the connection it works on and the frames it has not handled yet.\<close>

record Threads =
  th_system :: System
  th_heartbeat :: heartbeat_phase
  th_reader :: ConnectionId
  th_frames :: "Frame list"

datatype turn =
    THeartbeat time_point
  | TRead ConnectionId "recv_result list" time_point
  | TFrame env "nat \<Rightarrow> send_result list"

text \<open>
  \<open>TRead\<close> waits while frames are left, and \<open>TFrame\<close> handles the next of them; nothing between the two
  looks at whether the connection is still open.
\<close>

fun turn_exec :: "turn \<Rightarrow> Threads \<Rightarrow> ((ConnectionId \<times> byte list) list \<times> Threads) option" where
  "turn_exec (THeartbeat now) t =
     (let (p, sys) = heartbeat_turn now (th_heartbeat t) (th_system t)
      in Some ([], t\<lparr>th_system := sys, th_heartbeat := p\<rparr>))"
| "turn_exec (TRead cid rs now) t =
     (if th_frames t = [] \<and> ts_running (sys_server (th_system t)) then
        let (fs, srv) = on_event cid rs now (sys_server (th_system t))
        in Some ([], t\<lparr>th_system := (th_system t)\<lparr>sys_server := srv\<rparr>, th_reader := cid, th_frames := fs\<rparr>)
      else Some ([], t))"
| "turn_exec (TFrame e rss) t =
     (case th_frames t of
        [] \<Rightarrow> Some ([], t)
      | f # fs \<Rightarrow>
          map_option (\<lambda>(outs, sys). (outs, t\<lparr>th_system := sys, th_frames := fs\<rparr>))
            (handle_frame e rss (th_reader t) f (th_system t)))"

fun turns_run :: "turn list \<Rightarrow> Threads \<Rightarrow> ((ConnectionId \<times> byte list) list \<times> Threads) option" where
  "turns_run [] t = Some ([], t)"
| "turns_run (x # xs) t =
     (case turn_exec x t of
        None \<Rightarrow> None
      | Some (outs, t1) \<Rightarrow> map_option (\<lambda>(outs', t2). (outs @ outs', t2)) (turns_run xs t1))"

lemma turns_run_append:
  "turns_run xs t = Some (o1, t1) \<Longrightarrow> turns_run ys t1 = Some (o2, t2) \<Longrightarrow>
     turns_run (xs @ ys) t = Some (o1 @ o2, t2)"
proof (induction xs arbitrary: t o1)
  case (Cons x xs)
  then show ?case by (force split: option.splits)
qed simp

lemma turns_run_ConsE:
  assumes "turns_run (x # xs) t = Some (outs, t')"
  obtains o1 t1 o2 where "turn_exec x t = Some (o1, t1)" and "turns_run xs t1 = Some (o2, t')" and "outs = o1 @ o2"
  using assms by (auto split: option.splits)

subsection \<open>Undisturbed, the turns are the steps of the system\<close>

lemma notify_all:
  "th_heartbeat t = Notifying cs ids \<Longrightarrow>
     turns_run (replicate (Suc (length cs)) (THeartbeat now)) t =
       Some ([], t\<lparr>th_heartbeat := Closing ids,
         th_system := (th_system t)\<lparr>sys_broker := fold OnConnectionClosed cs (sys_broker (th_system t))\<rparr>\<rparr>)"
proof (induction cs arbitrary: t)
  case (Cons c cs)
  let ?t = "t\<lparr>th_system := (th_system t)\<lparr>sys_broker := OnConnectionClosed c (sys_broker (th_system t))\<rparr>,
    th_heartbeat := Notifying cs ids\<rparr>"
  from Cons.IH [of ?t] Cons.prems show ?case by simp
qed simp

lemma close_all_turns:
  "th_heartbeat t = Closing cs \<Longrightarrow>
     turns_run (replicate (Suc (length cs)) (THeartbeat now)) t =
       Some ([], t\<lparr>th_heartbeat := Asleep,
         th_system := (th_system t)\<lparr>sys_server := fold close_conn cs (sys_server (th_system t))\<rparr>\<rparr>)"
proof (induction cs arbitrary: t)
  case (Cons c cs)
  let ?t = "t\<lparr>th_system := (th_system t)\<lparr>sys_server := close_conn c (sys_server (th_system t))\<rparr>,
    th_heartbeat := Closing cs\<rparr>"
  from Cons.IH [of ?t] Cons.prems show ?case by simp
qed simp

lemma replicate_round: "[x] @ replicate (Suc n) x @ replicate (Suc n) x = replicate (2 * n + 3) x"
proof -
  have "2 * n + 3 = 1 + (Suc n + Suc n)" by simp
  then show ?thesis by (simp only: replicate_add) simp
qed

lemma heartbeat_undisturbed:
  assumes "th_heartbeat t = Asleep" and "ts_running (sys_server (th_system t))"
    and "heartbeat_enabled (ts_config (sys_server (th_system t)))"
  shows "map_option (\<lambda>(outs, sys). (outs, t\<lparr>th_system := sys\<rparr>)) (sys_exec (SysHeartbeat now) (th_system t)) =
    turns_run (replicate (2 * length (idle_conns now (sys_server (th_system t))) + 3) (THeartbeat now)) t"
proof -
  let ?ids = "idle_conns now (sys_server (th_system t))"
  define t1 where "t1 = t\<lparr>th_heartbeat := Notifying ?ids ?ids\<rparr>"
  define t2 where "t2 = t1\<lparr>th_heartbeat := Closing ?ids,
    th_system := (th_system t1)\<lparr>sys_broker := fold OnConnectionClosed ?ids (sys_broker (th_system t1))\<rparr>\<rparr>"
  have scan: "turns_run [THeartbeat now] t = Some ([], t1)"
    using assms by (simp add: t1_def Let_def)
  have notify: "turns_run (replicate (Suc (length ?ids)) (THeartbeat now)) t1 = Some ([], t2)"
    using notify_all [of t1 ?ids ?ids now] by (simp add: t1_def t2_def)
  have "turns_run (replicate (Suc (length ?ids)) (THeartbeat now)) t2 = Some ([], t2\<lparr>th_heartbeat := Asleep,
      th_system := (th_system t2)\<lparr>sys_server := fold close_conn ?ids (sys_server (th_system t2))\<rparr>\<rparr>)"
    by (rule close_all_turns) (simp add: t2_def)
  note run = turns_run_append [OF turns_run_append [OF scan notify] this, unfolded append_assoc replicate_round]
  show ?thesis
    unfolding run using assms by (simp add: heartbeat_round_def Let_def t1_def t2_def)
qed

text \<open>A read and its frames, with no turn of the heartbeat between them.\<close>

definition frame_turns :: "(nat \<Rightarrow> env) \<Rightarrow> (nat \<Rightarrow> nat \<Rightarrow> send_result list) \<Rightarrow> nat \<Rightarrow> nat \<Rightarrow> turn list" where
  "frame_turns es rss k n = map (\<lambda>i. TFrame (es i) (rss i)) [k..<k + n]"

lemma frames_undisturbed:
  "turns_run (frame_turns es rss k (length (th_frames t))) t =
     map_option (\<lambda>(outs, sys). (outs, t\<lparr>th_system := sys, th_frames := []\<rparr>))
       (handle_frames es rss k (th_reader t) (th_frames t) (th_system t))"
proof (induction "th_frames t" arbitrary: k t)
  case Nil
  then have "t\<lparr>th_system := th_system t, th_frames := []\<rparr> = t" by simp
  with Nil [symmetric] show ?case by (simp add: frame_turns_def)
next
  case (Cons f fs)
  have turns: "frame_turns es rss k (Suc (length fs)) = TFrame (es k) (rss k) # frame_turns es rss (Suc k) (length fs)"
    by (simp add: frame_turns_def upt_conv_Cons del: upt_Suc)
  show ?case
  proof (cases "handle_frame (es k) (rss k) (th_reader t) f (th_system t)")
    case None
    then show ?thesis by (simp add: turns Cons(2) [symmetric])
  next
    case (Some r)
    obtain o1 sys1 where r: "r = (o1, sys1)" by force
    let ?t1 = "t\<lparr>th_system := sys1, th_frames := fs\<rparr>"
    have "turns_run (frame_turns es rss (Suc k) (length fs)) ?t1 =
        map_option (\<lambda>(outs, sys). (outs, t\<lparr>th_system := sys, th_frames := []\<rparr>))
          (handle_frames es rss (Suc k) (th_reader t) fs sys1)"
      using Cons(1) [of ?t1 "Suc k"] by simp
    then show ?thesis
      using Some by (auto simp: turns r Cons(2) [symmetric] option.map_comp o_def split_beta intro!: option.map_cong)
  qed
qed

lemma event_undisturbed:
  assumes "th_frames t = []" and "ts_running (sys_server (th_system t))"
  shows "turns_run (TRead cid rs now # frame_turns es rss 0 (length (fst (on_event cid rs now (sys_server (th_system t)))))) t =
    map_option (\<lambda>(outs, sys). (outs, t\<lparr>th_system := sys, th_reader := cid, th_frames := []\<rparr>))
      (sys_exec (SysEvent es rss cid rs now) (th_system t))"
proof -
  obtain fs srv where ev: "on_event cid rs now (sys_server (th_system t)) = (fs, srv)" by force
  let ?t = "t\<lparr>th_system := (th_system t)\<lparr>sys_server := srv\<rparr>, th_reader := cid, th_frames := fs\<rparr>"
  show ?thesis
    using assms frames_undisturbed [of es rss 0 ?t] ev by (auto simp: option.map_comp o_def split_beta intro!: option.map_cong)
qed

subsection \<open>What a round of the heartbeat leaves of a connection\<close>

lemma perform_shrinks:
  "perform cid rss k acts s = Some (outs, s') \<Longrightarrow> set (ts_connections s') \<subseteq> set (ts_connections s)"
proof (induction cid rss k acts s arbitrary: outs rule: perform.induct)
  case (2 cid rss k f acts s)
  obtain ok out s1 where s1: "send_direct cid f (rss k) s = (ok, out, s1)" by (cases "send_direct cid f (rss k) s")
  then have "set (ts_connections s1) \<subseteq> set (ts_connections s)"
    by (auto simp: send_direct_def Let_def split: option.splits prod.splits if_splits)
  then show ?case using 2 s1 by fastforce
next
  case (3 cid rss k c f acts s)
  obtain ok out s1 where s1: "SendTo c f (rss k) s = Some (ok, out, s1)"
    using 3(2) by (auto split: option.splits)
  then have "set (ts_connections s1) \<subseteq> set (ts_connections s)"
    by (auto simp: SendTo_def send_locked_def split: option.splits prod.splits if_splits)
  then show ?case using 3 s1 by fastforce
qed simp

lemma handle_frame_shrinks:
  "handle_frame e rss cid frame sys = Some (outs, sys') \<Longrightarrow>
     set (ts_connections (sys_server sys')) \<subseteq> set (ts_connections (sys_server sys))"
  by (auto simp: handle_frame_def Let_def split: option.splits prod.splits dest!: perform_shrinks)

lemma on_event_shrinks:
  "on_event cid rs now s = (fs, s') \<Longrightarrow> set (ts_connections s') \<subseteq> set (ts_connections s)"
  by (auto simp: on_event_def Let_def split: option.splits prod.splits if_splits)

lemma close_conn_connections: "srv_ok s \<Longrightarrow> ts_connections (close_conn c s) = filter (\<lambda>i. i \<noteq> c) (ts_connections s)"
  using close_all_connections [of s "[c]"] by simp

text \<open>
  \<open>swept c\<close>: as far as the heartbeat has come, connection \<open>c\<close> is about to be reported and closed, or
  has been; what has been done stays done.
\<close>

definition swept :: "ConnectionId \<Rightarrow> Threads \<Rightarrow> bool" where
  "swept c t \<longleftrightarrow>
     (let srv = sys_server (th_system t); quiet = silent c (b_topics (sys_broker (th_system t)));
          gone = c \<notin> set (ts_connections srv)
      in srv_ok srv \<and> tm_inv (b_topics (sys_broker (th_system t))) \<and> (th_frames t \<noteq> [] \<longrightarrow> th_reader t \<noteq> c) \<and>
         (case th_heartbeat t of
            Asleep \<Rightarrow> quiet \<and> gone
          | Notifying cs ids \<Rightarrow> (c \<in> set cs \<or> quiet) \<and> (c \<in> set ids \<or> gone)
          | Closing cs \<Rightarrow> quiet \<and> (c \<in> set cs \<or> gone)))"

lemma OnConnectionClosed_silent:
  assumes "tm_inv (b_topics b)" and "c' = c \<or> silent c (b_topics b)"
  shows "silent c (b_topics (OnConnectionClosed c' b))" and "tm_inv (b_topics (OnConnectionClosed c' b))"
proof -
  show inv: "tm_inv (b_topics (OnConnectionClosed c' b))"
    using tm_inv_exec [OF assms(1), of "OpDrop c'"] by (simp add: OnConnectionClosed_def)
  show "silent c (b_topics (OnConnectionClosed c' b))"
  proof (cases "c' = c")
    case True
    then show ?thesis
      using inv reg.dropped [OF assms(1)] by (simp add: silent_def OnConnectionClosed_def)
  next
    case False
    then show ?thesis
      using assms(2) silent_exec [of c "b_topics b" "OpDrop c'"] by (simp add: OnConnectionClosed_def)
  qed
qed

lemma swept_heartbeat:
  assumes "swept c t" and "turn_exec (THeartbeat now) t = Some (outs, t')"
  shows "swept c t'"
proof -
  let ?b = "sys_broker (th_system t)" and ?s = "sys_server (th_system t)"
  have ok: "srv_ok ?s" "tm_inv (b_topics ?b)" and frames: "th_frames t \<noteq> [] \<longrightarrow> th_reader t \<noteq> c"
    using assms(1) by (simp_all add: swept_def Let_def)
  note closed = OnConnectionClosed_silent [OF ok(2)] tm_inv_exec [OF ok(2)]
  show ?thesis
  proof (cases "th_heartbeat t")
    case Asleep
    then show ?thesis
      using assms by (auto simp: swept_def Let_def split: if_splits)
  next
    case (Notifying cs ids)
    note phase = this
    show ?thesis
    proof (cases cs)
      case Nil
      then show ?thesis using assms phase by (auto simp: swept_def Let_def)
    next
      case (Cons x xs)
      then have "tm_inv (b_topics (OnConnectionClosed x ?b))" "c = x \<or> silent c (b_topics ?b) \<Longrightarrow> silent c (b_topics (OnConnectionClosed x ?b))"
        using closed(1,2) [of x] OnConnectionClosed_silent(2) [OF ok(2), of x x] by auto
      then show ?thesis using assms phase Cons by (auto simp: swept_def Let_def)
    qed
  next
    case (Closing cs)
    then show ?thesis
      using assms srv_ok_close [OF ok(1)] close_conn_connections [OF ok(1)]
      by (cases cs) (auto simp: swept_def Let_def)
  qed
qed

lemma swept_read:
  assumes "swept c t" and "turn_exec (TRead cid rs now) t = Some (outs, t')" and "cid \<noteq> c"
  shows "swept c t'"
proof (cases "th_frames t = [] \<and> ts_running (sys_server (th_system t))")
  case True
  obtain fs srv where ev: "on_event cid rs now (sys_server (th_system t)) = (fs, srv)" by force
  have "srv_ok srv"
    using srv_ok_on_event [OF _ ev] assms(1) by (simp add: swept_def Let_def)
  moreover have "t' = t\<lparr>th_system := (th_system t)\<lparr>sys_server := srv\<rparr>, th_reader := cid, th_frames := fs\<rparr>"
    using assms(2) True ev by simp
  ultimately show ?thesis
    using assms(1,3) on_event_shrinks [OF ev] by (auto simp: swept_def Let_def split: heartbeat_phase.splits)
next
  case False
  then show ?thesis using assms by auto
qed

lemma swept_frame:
  assumes "swept c t" and "turn_exec (TFrame e rss) t = Some (outs, t')"
  shows "swept c t'"
proof (cases "th_frames t")
  case Nil
  then show ?thesis using assms by simp
next
  case (Cons f fs)
  obtain sys' where h: "handle_frame e rss (th_reader t) f (th_system t) = Some (outs, sys')"
    and t': "t' = t\<lparr>th_system := sys', th_frames := fs\<rparr>"
    using assms(2) Cons by auto
  let ?b = "sys_broker (th_system t)" and ?b' = "sys_broker sys'"
  have ok: "srv_ok (sys_server (th_system t))" "tm_inv (b_topics ?b)" and other: "th_reader t \<noteq> c"
    using assms(1) Cons by (simp_all add: swept_def Let_def)
  note effect = handle_frame_broker [OF h ok(1)]
  have "tm_inv (b_topics ?b') \<and> (silent c (b_topics ?b) \<longrightarrow> silent c (b_topics ?b'))"
  proof (cases "?b' = ?b")
    case False
    then obtain conn acts where id: "c_id conn = th_reader t" and x: "broker_exec (BFrame e f conn) ?b = Some (acts, ?b')"
      using effect by blast
    show ?thesis
      using broker_exec_inv [OF x ok(2)] broker_exec_silent(1) [OF _ x, of c] id other by auto
  qed (simp add: ok)
  then show ?thesis
    using assms(1) conjunct1 [OF effect] handle_frame_shrinks [OF h] Cons
    by (auto simp: swept_def t' Let_def split: heartbeat_phase.splits)
qed

lemma swept_run:
  "turns_run xs t = Some (outs, t') \<Longrightarrow> swept c t \<Longrightarrow> \<forall>rs now. TRead c rs now \<notin> set xs \<Longrightarrow> swept c t'"
proof (induction xs arbitrary: t outs)
  case (Cons x xs)
  obtain o1 t1 o2 where x: "turn_exec x t = Some (o1, t1)" and xs: "turns_run xs t1 = Some (o2, t')"
    using Cons.prems(1) by (rule turns_run_ConsE)
  have "swept c t1"
  proof (cases x)
    case (THeartbeat now)
    then show ?thesis using swept_heartbeat Cons.prems(2) x by blast
  next
    case (TRead cid rs now)
    then show ?thesis using swept_read Cons.prems(2,3) x by (metis list.set_intros(1))
  next
    case (TFrame e rss)
    then show ?thesis using swept_frame Cons.prems(2) x by blast
  qed
  then show ?case using Cons.IH [OF xs] Cons.prems(3) by simp
qed simp

text \<open>
  \<open>stranded\<close>: connection \<open>c\<close> is out of the table, its entry for topic \<open>tp\<close> and group \<open>g\<close> is held by the
  broker, and the heartbeat has no report of it left to make.
\<close>

definition stranded :: "ConnectionId \<Rightarrow> SubscriberId \<Rightarrow> string \<Rightarrow> string \<Rightarrow> Threads \<Rightarrow> bool" where
  "stranded c i tp g t \<longleftrightarrow>
     srv_ok (sys_server (th_system t)) \<and> tm_inv (b_topics (sys_broker (th_system t))) \<and>
     c \<notin> set (ts_connections (sys_server (th_system t))) \<and>
     (i, c) \<in> set (view (b_topics (sys_broker (th_system t))) tp g) \<and>
     (\<forall>cs ids. th_heartbeat t = Notifying cs ids \<longrightarrow> c \<notin> set cs)"

lemma OnConnectionClosed_view:
  "tm_inv (b_topics b) \<Longrightarrow> view (b_topics (OnConnectionClosed c b)) tp g = filter (\<lambda>e. snd e \<noteq> c) (view (b_topics b) tp g)"
  by (simp add: OnConnectionClosed_def reg.drop_spec spec_drop_def)

lemma stranded_turn:
  assumes "stranded c i tp g t" and "turn_exec (THeartbeat now) t = Some (outs, t')"
  shows "stranded c i tp g t'"
proof -
  let ?b = "sys_broker (th_system t)" and ?s = "sys_server (th_system t)"
  have ok: "srv_ok ?s" "tm_inv (b_topics ?b)"
    using assms(1) by (simp_all add: stranded_def)
  show ?thesis
  proof (cases "th_heartbeat t")
    case Asleep
    then show ?thesis using assms by (auto simp: stranded_def Let_def idle_conns_def split: if_splits)
  next
    case (Notifying cs ids)
    show ?thesis
    proof (cases cs)
      case Nil
      then show ?thesis using assms Notifying by (auto simp: stranded_def)
    next
      case (Cons x xs)
      have "tm_inv (b_topics (OnConnectionClosed x ?b))"
        using OnConnectionClosed_silent(2) [OF ok(2), of x x] by simp
      then show ?thesis
        using assms Notifying Cons by (auto simp: stranded_def OnConnectionClosed_view)
    qed
  next
    case (Closing cs)
    then show ?thesis
      using assms srv_ok_close [OF ok(1)] close_conn_connections [OF ok(1)] by (cases cs) (auto simp: stranded_def)
  qed
qed

lemma stranded_run:
  "turns_run (map THeartbeat ts) t = Some (outs, t') \<Longrightarrow> stranded c i tp g t \<Longrightarrow> stranded c i tp g t'"
proof (induction ts arbitrary: t outs)
  case (Cons now ts)
  then obtain o1 t1 o2 where "turn_exec (THeartbeat now) t = Some (o1, t1)" "turns_run (map THeartbeat ts) t1 = Some (o2, t')"
    by (auto elim: turns_run_ConsE simp del: turns_run.simps turn_exec.simps)
  then show ?case using Cons.IH Cons.prems(2) stranded_turn by blast
qed simp

lemma heartbeat_turns_total: "\<exists>t'. turns_run (map THeartbeat ts) t = Some ([], t')"
proof (induction ts arbitrary: t)
  case (Cons now ts)
  obtain p sys where "heartbeat_turn now (th_heartbeat t) (th_system t) = (p, sys)" by force
  then show ?case using Cons.IH [of "t\<lparr>th_system := sys, th_heartbeat := p\<rparr>"] by auto
qed simp

lemma HandleSubscribe_view:
  assumes "HandleSubscribe e frame b conn = Some ((b', conn'), acts)" and "tm_inv (b_topics b)"
    and "parse_subscribe (e_pb e) (payload frame) = Some req"
    and "subr_subscriber_id req \<notin> fst ` set (view (b_topics b) (subr_topic req) (subr_group_id req))"
  shows "(subr_subscriber_id req, c_id conn) \<in> set (view (b_topics b') (subr_topic req) (subr_group_id req))"
proof -
  let ?i = "\<lparr>si_id = subr_subscriber_id req, si_conn_id = c_id conn\<rparr>"
  have "b_topics b' = snd (Subscribe (subr_topic req) ?i (subr_group_id req) (b_topics b))"
    using assms(1,3) by (auto simp: HandleSubscribe_def Let_def case_prod_unfold split: if_splits option.splits)
  then show ?thesis
    using reg.subscribe_spec [OF assms(2), of "subr_topic req" ?i "subr_group_id req"] assms(4)
    by (simp add: spec_subscribe_def)
qed

lemma late_subscribe_handled:
  assumes "srv_ok (sys_server sys)" and "tm_inv (b_topics (sys_broker sys))" and "c \<in> set (ts_connections (sys_server sys))"
    and "msg_type f = FMT_Subscribe" and "parse_subscribe (e_pb e) (payload f) = Some req"
    and "subr_subscriber_id req \<notin> fst ` set (view (b_topics (sys_broker sys)) (subr_topic req) (subr_group_id req))"
    and "handle_frame e rss c f sys = Some (outs, sys')"
  shows "(subr_subscriber_id req, c) \<in> set (view (b_topics (sys_broker sys')) (subr_topic req) (subr_group_id req))"
    and "srv_ok (sys_server sys')" and "tm_inv (b_topics (sys_broker sys'))"
proof -
  obtain conn where conn: "ts_objects (sys_server sys) c = Some conn" "c_id conn = c"
    using assms(1,3) by (auto simp: srv_ok_def)
  obtain b conn' acts where g: "OnFrameReceived e f (sys_broker sys) conn = Some ((b, conn'), acts)" and b: "sys_broker sys' = b"
    using assms(7) conn by (auto simp: handle_frame_def Let_def split: option.splits)
  then have "HandleSubscribe e f (sys_broker sys) conn = Some ((b, conn'), acts)"
    using assms(4) by (simp add: OnFrameReceived_def FMT_defs)
  from HandleSubscribe_view [OF this assms(2,5,6)]
  show "(subr_subscriber_id req, c) \<in> set (view (b_topics (sys_broker sys')) (subr_topic req) (subr_group_id req))"
    by (simp add: b conn)
  show "srv_ok (sys_server sys')"
    using handle_frame_broker [OF assms(7,1)] by blast
  show "tm_inv (b_topics (sys_broker sys'))"
    using OnFrameReceived_effect [OF g] frame_effect_inv assms(2) b by blast
qed

subsection \<open>Properties\<close>

text \<open>
  C21: A round reaches every idle connection, whatever the event thread does meanwhile: on a running server with heartbeats, whose
  connection table and topic manager satisfy their invariants (every step keeps them), when the scan
  finds a connection idle and no read of that connection falls into the round, then at the end of the
  round, with any reads and frames of other connections between its turns, the connection is out of
  the table, the broker has no subscription of it, and a send to it fails.
\<close>

theorem round_reaches_idle:
  assumes "srv_ok (sys_server (th_system t))" and "tm_inv (b_topics (sys_broker (th_system t)))"
    and "th_heartbeat t = Asleep" and "ts_running (sys_server (th_system t))"
    and "heartbeat_enabled (ts_config (sys_server (th_system t)))"
    and "is_idle now (sys_server (th_system t)) c" and "th_frames t \<noteq> [] \<longrightarrow> th_reader t \<noteq> c"
    and "\<forall>rs now. TRead c rs now \<notin> set xs"
    and "turns_run (THeartbeat now # xs) t = Some (outs, t')" and "th_heartbeat t' = Asleep"
  shows "c \<notin> set (ts_connections (sys_server (th_system t'))) \<and>
    (\<forall>tp g i. (i, c) \<notin> set (view (b_topics (sys_broker (th_system t'))) tp g)) \<and>
    SendTo c f rs (sys_server (th_system t')) = Some (False, [], sys_server (th_system t'))"
proof -
  let ?ids = "idle_conns now (sys_server (th_system t))"
  have "c \<in> set ?ids"
    using assms(1,6) by (auto simp: idle_conns_def is_idle_def srv_ok_def split: option.splits)
  then have "swept c (t\<lparr>th_heartbeat := Notifying ?ids ?ids\<rparr>)"
    using assms(1,2,7) by (simp add: swept_def Let_def)
  moreover obtain o2 where "turns_run xs (t\<lparr>th_heartbeat := Notifying ?ids ?ids\<rparr>) = Some (o2, t')"
    using assms(3-5,9) by (auto simp: Let_def)
  ultimately have "swept c t'"
    using swept_run assms(8) by blast
  then show ?thesis
    using assms(10) by (simp add: swept_def silent_def SendTo_def Let_def)
qed

text \<open>
  C22: A subscription can slip through: on a server whose connection table and topic manager satisfy
  their invariants (every step keeps them), when the event thread handles the subscribe frame of a new subscriber from an idle
  connection between the moment the heartbeat has reported the connection to the broker and the moment
  it closes it, then, whatever becomes of the answer, the connection is closed and out of the
  table, and the subscription stays, for no later turn of the heartbeat, however many there are, reports
  the connection again.
\<close>

theorem late_subscribe_stranded:
  assumes "srv_ok (sys_server (th_system t))" and "tm_inv (b_topics (sys_broker (th_system t)))"
    and "th_heartbeat t = Closing (th_reader t # cs)" and "th_reader t \<in> set (ts_connections (sys_server (th_system t)))"
    and "th_frames t = [f]" and "msg_type f = FMT_Subscribe" and "parse_subscribe (e_pb e) (payload f) = Some req"
    and "subr_subscriber_id req \<notin> fst ` set (view (b_topics (sys_broker (th_system t))) (subr_topic req) (subr_group_id req))"
    and "turns_run (TFrame e rss # THeartbeat now # map THeartbeat later) t = Some (outs, t')"
  shows "th_reader t \<notin> set (ts_connections (sys_server (th_system t'))) \<and>
    (subr_subscriber_id req, th_reader t) \<in>
      set (view (b_topics (sys_broker (th_system t'))) (subr_topic req) (subr_group_id req))"
proof -
  let ?c = "th_reader t" and ?sys = "th_system t"
  obtain o1 t1 o2 where f: "turn_exec (TFrame e rss) t = Some (o1, t1)"
    and rest: "turns_run (map THeartbeat (now # later)) t1 = Some (o2, t')"
    using assms(9) by (auto elim: turns_run_ConsE simp del: turns_run.simps turn_exec.simps)
  obtain sys1 where h: "handle_frame e rss ?c f ?sys = Some (o1, sys1)" and t1: "t1 = t\<lparr>th_system := sys1, th_frames := []\<rparr>"
    using f assms(5) by auto
  note handled = late_subscribe_handled [OF assms(1,2,4,6,7,8) h]
  obtain o3 where "turns_run (map THeartbeat later)
      (t1\<lparr>th_system := sys1\<lparr>sys_server := close_conn ?c (sys_server sys1)\<rparr>, th_heartbeat := Closing cs\<rparr>) = Some (o3, t')"
    using rest assms(3) by (auto simp: t1)
  moreover have "stranded ?c (subr_subscriber_id req) (subr_topic req) (subr_group_id req)
      (t1\<lparr>th_system := sys1\<lparr>sys_server := close_conn ?c (sys_server sys1)\<rparr>, th_heartbeat := Closing cs\<rparr>)"
    using handled srv_ok_close [OF handled(2)] close_conn_connections [OF handled(2)] by (simp add: stranded_def)
  ultimately have "stranded ?c (subr_subscriber_id req) (subr_topic req) (subr_group_id req) t'"
    using stranded_run by blast
  then show ?thesis by (simp add: stranded_def)
qed

subsection \<open>Two runs\<close>

text \<open>Connection 1 is silent since time 0 and connection 2 since 20 s; the scan comes at 21 s.\<close>

definition sample_threads :: Threads where
  "sample_threads = \<lparr>th_system = sample_subscribed, th_heartbeat = Asleep, th_reader = 0, th_frames = []\<rparr>"

lemma sample_idle:
  "is_idle 21000000000 (sys_server sample_subscribed) 1" "idle_conns 21000000000 (sys_server sample_subscribed) = [1]"
proof -
  show "is_idle 21000000000 (sys_server sample_subscribed) 1"
    by (simp add: sample_subscribed_def is_idle_def accept_conn_def Start_def ts_new_def conn_new_def Let_def
        GetLastActiveTime_def ms_of_def duration_ms_def default_BrokerConfig_def)
  moreover have "\<not> is_idle 21000000000 (sys_server sample_subscribed) 2"
    by (simp add: sample_subscribed_def is_idle_def accept_conn_def Start_def ts_new_def conn_new_def Let_def
        GetLastActiveTime_def ms_of_def duration_ms_def default_BrokerConfig_def)
  ultimately show "idle_conns 21000000000 (sys_server sample_subscribed) = [1]"
    by (simp add: idle_conns_def sample_subscribed_view)
qed

lemma sample_threads_ready:
  "srv_ok (sys_server (th_system sample_threads))" "tm_inv (b_topics (sys_broker (th_system sample_threads)))"
  "th_heartbeat sample_threads = Asleep" "ts_running (sys_server (th_system sample_threads))"
  "heartbeat_enabled (ts_config (sys_server (th_system sample_threads)))"
  by (simp_all add: sample_threads_def sample_subscribed_ok sample_subscribed_view)

theorem round_reaches_idle_witness:
  "\<exists>t'. turns_run (map THeartbeat [21000000000, 0] @ TRead 2 [Recv_Block] 21000000000 # map THeartbeat [0, 0, 0])
      sample_threads = Some ([], t') \<and> 1 \<notin> set (ts_connections (sys_server (th_system t'))) \<and>
    (''a'', 1) \<notin> set (view (b_topics (sys_broker (th_system t'))) ''t'' [])"
proof -
  let ?xs = "[THeartbeat 0, TRead 2 [Recv_Block] 21000000000, THeartbeat 0, THeartbeat 0, THeartbeat 0]"
  obtain t' where run: "turns_run (THeartbeat 21000000000 # ?xs) sample_threads = Some ([], t')" and "th_heartbeat t' = Asleep"
    using sample_threads_ready by (auto simp: sample_threads_def sample_idle split_beta Let_def)
  from round_reaches_idle [OF sample_threads_ready _ _ _ run this(2), of 1 default_Frame "[]"]
  have "1 \<notin> set (ts_connections (sys_server (th_system t'))) \<and> (\<forall>tp g i. (i, 1) \<notin> set (view (b_topics (sys_broker (th_system t'))) tp g))"
    by (simp add: sample_threads_def sample_idle)
  with run show ?thesis by (intro exI [of _ t']) simp
qed

text \<open>
  The frame of connection 1 arrives after the scan: it keeps the connection from being idle, but the scan
  has its identifier already. \<open>sample_late\<close> is the state after the report.
\<close>

definition late_frame :: Frame where
  "late_frame = frame_of FMT_Subscribe []"

definition sample_late :: Threads where
  "sample_late = snd (the (turns_run [THeartbeat 21000000000, TRead 1 [Data (Encode late_frame), Recv_Block] 21000000000,
     THeartbeat 0, THeartbeat 0] sample_threads))"

lemma sample_object: "ts_objects (sys_server sample_subscribed) 1 = Some (conn_new 1 (Some default_BrokerConfig) 0)"
  by (simp add: sample_subscribed_def accept_conn_def Start_def ts_new_def Let_def)

lemma late_read:
  "OnRead [Data (Encode late_frame), Recv_Block] now (conn_new 1 cfg 0) =
     ([late_frame], UpdateLastActiveTime now (conn_new 1 cfg 0))"
proof -
  have wf: "list_all wf_frame [late_frame]" and "decoded late_frame = late_frame" and full: "Encode late_frame \<noteq> []"
    by (simp_all add: late_frame_def frame_of_def wf_frame_def decoded_def default_Frame_def Encode_header frame_header_def be_bytes_4)
  then have "feed sc_init (Encode late_frame) = ([late_frame], sc_init)"
    using sc_drain_frames [OF wf] by (simp add: feed_def AppendData_def at_frame_start_def)
  then show ?thesis
    using OnRead_data [of "[Encode late_frame]" "conn_new 1 cfg 0" now] full
    by (simp add: conn_new_def UpdateLastActiveTime_def)
qed

lemma sample_late_run:
  "turns_run [THeartbeat 21000000000, TRead 1 [Data (Encode late_frame), Recv_Block] 21000000000, THeartbeat 0, THeartbeat 0]
     sample_threads = Some ([], sample_late)"
  "th_heartbeat sample_late = Closing [1]" "th_reader sample_late = 1" "th_frames sample_late = [late_frame]"
  "ts_connections (sys_server (th_system sample_late)) = [1, 2]"
  "sys_broker (th_system sample_late) = OnConnectionClosed 1 (sys_broker sample_subscribed)"
  "srv_ok (sys_server (th_system sample_late))"
proof -
  let ?s = "sys_server sample_subscribed"
  obtain fs srv where ev: "on_event 1 [Data (Encode late_frame), Recv_Block] 21000000000 ?s = (fs, srv)" by force
  have "\<not> c_closed (UpdateLastActiveTime 21000000000 (conn_new 1 (Some default_BrokerConfig) 0))"
    "\<not> c_closed (conn_new 1 (Some default_BrokerConfig) 0)"
    by (simp_all add: UpdateLastActiveTime_def conn_new_def)
  then have "fs = [late_frame]" and conns: "ts_connections srv = [1, 2]"
    using ev by (auto simp: on_event_def sample_subscribed_view sample_object late_read Let_def)
  moreover have "srv_ok srv" by (rule srv_ok_on_event [OF sample_subscribed_ok(1) ev])
  moreover have "turns_run [THeartbeat 21000000000, TRead 1 [Data (Encode late_frame), Recv_Block] 21000000000, THeartbeat 0, THeartbeat 0]
      sample_threads = Some ([], \<lparr>th_system = \<lparr>sys_server = srv, sys_broker = OnConnectionClosed 1 (sys_broker sample_subscribed)\<rparr>,
        th_heartbeat = Closing [1], th_reader = 1, th_frames = fs\<rparr>)"
    using ev by (simp add: sample_threads_def sample_idle sample_subscribed_view Let_def)
  ultimately show "turns_run [THeartbeat 21000000000, TRead 1 [Data (Encode late_frame), Recv_Block] 21000000000, THeartbeat 0, THeartbeat 0]
     sample_threads = Some ([], sample_late)"
  "th_heartbeat sample_late = Closing [1]" "th_reader sample_late = 1" "th_frames sample_late = [late_frame]"
  "ts_connections (sys_server (th_system sample_late)) = [1, 2]"
  "sys_broker (th_system sample_late) = OnConnectionClosed 1 (sys_broker sample_subscribed)"
  "srv_ok (sys_server (th_system sample_late))"
    by (simp_all add: sample_late_def del: turns_run.simps)
qed

lemma sample_late_topics:
  "tm_inv (b_topics (sys_broker (th_system sample_late)))"
  "view (b_topics (sys_broker (th_system sample_late))) ''t'' [] = [(''b'', 2)]"
  using OnConnectionClosed_silent(2) [OF sample_subscribed_ok(2), of 1 1] OnConnectionClosed_view [OF sample_subscribed_ok(2), of 1 "''t''" "[]"]
  by (simp_all add: sample_late_run sample_subscribed_view)

lemma sample_late_frame: "turn_exec (TFrame sample_env (\<lambda>_. [])) sample_late \<noteq> None"
proof -
  let ?b = "sys_broker (th_system sample_late)"
  obtain conn where conn: "ts_objects (sys_server (th_system sample_late)) 1 = Some conn"
    using sample_late_run(5,7) by (fastforce simp: srv_ok_def)
  have "b_store ?b = ms_new 64 3 5000"
    by (simp add: sample_late_run OnConnectionClosed_def sample_subscribed_def broker_new_def)
  then have "store_inv (\<lambda>_. {}) 0 (b_store ?b)"
    using store_inv_new [of 64 3 5000] by simp
  then obtain ok store where "CreateTopic ''t'' (b_store ?b) = Some (ok, store)"
    by (rule CreateTopic_good)
  then have "\<exists>b' r. OnFrameReceived sample_env late_frame ?b conn = Some ((b', conn), [Reply r])"
    by (simp add: OnFrameReceived_def FMT_defs late_frame_def HandleSubscribe_def sample_env_def sample_pb_def
        SendResponse_code_def Let_def split_beta frame_of_def)
  then obtain b' r where "OnFrameReceived sample_env late_frame ?b conn = Some ((b', conn), [Reply r])" by blast
  then show ?thesis
    using conn by (simp add: sample_late_run(3,4) handle_frame_def Let_def split_beta)
qed

theorem late_subscribe_stranded_witness:
  "\<exists>t'. turns_run ([THeartbeat 21000000000, TRead 1 [Data (Encode late_frame), Recv_Block] 21000000000, THeartbeat 0, THeartbeat 0] @
      TFrame sample_env (\<lambda>_. []) # THeartbeat 0 # map THeartbeat [0, 90000000000, 0, 0]) sample_threads \<noteq> None \<and>
    turns_run (TFrame sample_env (\<lambda>_. []) # THeartbeat 0 # map THeartbeat [0, 90000000000, 0, 0]) sample_late = Some t' \<and>
    1 \<notin> set (ts_connections (sys_server (th_system (snd t')))) \<and>
    (''s'', 1) \<in> set (view (b_topics (sys_broker (th_system (snd t')))) ''t'' [])"
proof -
  let ?req = "\<lparr>subr_topic = ''t'', subr_subscriber_id = ''s'', subr_group_id = []\<rparr> :: SubscribeRequest"
  let ?xs = "TFrame sample_env (\<lambda>_. []) # THeartbeat 0 # map THeartbeat [0, 90000000000, 0, 0]"
  obtain o1 t1 where f: "turn_exec (TFrame sample_env (\<lambda>_. [])) sample_late = Some (o1, t1)"
    using sample_late_frame by auto
  obtain t' where "turns_run (map THeartbeat [0, 0, 90000000000, 0, 0]) t1 = Some ([], t')"
    using heartbeat_turns_total by blast
  with f have run: "turns_run ?xs sample_late = Some (o1, t')"
    by (simp del: turn_exec.simps)
  have late: "th_heartbeat sample_late = Closing (th_reader sample_late # [])"
    "th_reader sample_late \<in> set (ts_connections (sys_server (th_system sample_late)))"
    "msg_type late_frame = FMT_Subscribe" "parse_subscribe (e_pb sample_env) (payload late_frame) = Some ?req"
    "subr_subscriber_id ?req \<notin> fst ` set (view (b_topics (sys_broker (th_system sample_late))) (subr_topic ?req) (subr_group_id ?req))"
    by (simp_all add: sample_late_run(2,3,5) late_frame_def frame_of_def sample_env_def sample_pb_def sample_late_topics)
  from late_subscribe_stranded [OF sample_late_run(7) sample_late_topics(1) late(1,2) sample_late_run(4) late(3-5) run]
  have "1 \<notin> set (ts_connections (sys_server (th_system t')))" "(''s'', 1) \<in> set (view (b_topics (sys_broker (th_system t'))) ''t'' [])"
    by (simp_all add: sample_late_run(3))
  then show ?thesis
    using turns_run_append [OF sample_late_run(1) run] run by (intro exI [of _ "(o1, t')"]) (simp del: turns_run.simps)
qed

end
