(* ===== verification/Config_File.thy ===== *)
theory Config_File
  imports Config Messages
begin

text \<open>
  Reading and writing the configuration file (\<^verbatim>\<open>common/config.cpp\<close>): the helpers of the simplified
  JSON reader, \<open>LoadFromFile\<close> and \<open>SaveToFile\<close>. The contents of a file are an argument or a result,
  \<open>None\<close> a file that cannot be opened. An \<open>out\<close> parameter that a failing parser leaves alone is the
  result \<open>None\<close>. \<open>unsigned long\<close> and \<open>size_t\<close> have 64 bits.
\<close>

subsection \<open>Searching a \<open>std::string\<close>\<close>

fun find_at :: "string \<Rightarrow> string \<Rightarrow> nat option" where
  "find_at needle [] = (if needle = [] then Some 0 else None)"
| "find_at needle (c # cs) =
     (if take (length needle) (c # cs) = needle then Some 0 else map_option Suc (find_at needle cs))"

definition str_find :: "string \<Rightarrow> string \<Rightarrow> nat \<Rightarrow> nat option" where
  "str_find s needle pos =
     (if pos > length s then None else map_option ((+) pos) (find_at needle (drop pos s)))"

definition substr :: "string \<Rightarrow> nat \<Rightarrow> nat \<Rightarrow> string" where
  "substr s pos n = take n (drop pos s)"

fun first_index :: "('a \<Rightarrow> bool) \<Rightarrow> 'a list \<Rightarrow> nat option" where
  "first_index P [] = None"
| "first_index P (x # xs) = (if P x then Some 0 else map_option Suc (first_index P xs))"

fun last_index :: "('a \<Rightarrow> bool) \<Rightarrow> 'a list \<Rightarrow> nat option" where
  "last_index P [] = None"
| "last_index P (x # xs) =
     (case last_index P xs of Some i \<Rightarrow> Some (Suc i) | None \<Rightarrow> if P x then Some 0 else None)"

abbreviation quote :: char where "quote \<equiv> CHR 0x22"

abbreviation backslash :: char where "backslash \<equiv> CHR 0x5C"

abbreviation newline :: char where "newline \<equiv> CHR 0x0A"

definition trimmed :: "char \<Rightarrow> bool" where
  "trimmed c \<longleftrightarrow> c \<in> {CHR '' '', CHR 0x09, CHR 0x0D, newline}"

definition Trim :: "string \<Rightarrow> string" where
  "Trim s =
     (case first_index (\<lambda>c. \<not> trimmed c) s of
        None \<Rightarrow> []
      | Some start \<Rightarrow>
          (case last_index (\<lambda>c. \<not> trimmed c) s of
             None \<Rightarrow> []
           | Some end_pos \<Rightarrow> substr s start (end_pos - start + 1)))"

subsection \<open>Values\<close>

definition ParseBool :: "string \<Rightarrow> bool option" where
  "ParseBool value =
     (let v = Trim value in
      if v = ''true'' \<or> v = ''1'' then Some True
      else if v = ''false'' \<or> v = ''0'' then Some False
      else None)"

text \<open>
  \<open>std::stoul\<close> and \<open>std::stoull\<close>: leading space and one sign are skipped, the longest run of digits is
  read, and what follows is ignored; \<open>None\<close> is the exception for no digits or for a number out of
  range. A minus sign negates modulo \<open>2 ^ 64\<close>.
\<close>

definition is_space :: "char \<Rightarrow> bool" where
  "is_space c \<longleftrightarrow> c = CHR '' '' \<or> (9 \<le> (of_char c :: nat) \<and> (of_char c :: nat) \<le> 13)"

definition is_digit :: "char \<Rightarrow> bool" where
  "is_digit c \<longleftrightarrow> 48 \<le> (of_char c :: nat) \<and> (of_char c :: nat) \<le> 57"

definition digits_value :: "string \<Rightarrow> nat" where
  "digits_value ds = foldl (\<lambda>n c. 10 * n + (of_char c - 48)) 0 ds"

definition stoul :: "string \<Rightarrow> u64 option" where
  "stoul s =
     (let s1 = dropWhile is_space s;
          negative = (s1 \<noteq> [] \<and> hd s1 = CHR ''-'');
          s2 = (if s1 \<noteq> [] \<and> hd s1 \<in> {CHR ''-'', CHR ''+''} then tl s1 else s1);
          ds = takeWhile is_digit s2
      in if ds = [] \<or> digits_value ds \<ge> 2 ^ 64 then None
         else Some (if negative then - of_nat (digits_value ds) else of_nat (digits_value ds)))"

definition ParseUint32 :: "string \<Rightarrow> u32 option" where
  "ParseUint32 value = map_option ucast (stoul (Trim value))"

definition ParseSizeT :: "string \<Rightarrow> u64 option" where
  "ParseSizeT value = stoul (Trim value)"

definition ParseUint16 :: "string \<Rightarrow> u16 option" where
  "ParseUint16 value = map_option ucast (stoul (Trim value))"

definition ExtractValue :: "string \<Rightarrow> string \<Rightarrow> string" where
  "ExtractValue line key =
     (case str_find line ([quote] @ key @ [quote]) 0 of
        None \<Rightarrow> []
      | Some pos0 \<Rightarrow>
          (case str_find line '':'' pos0 of
             None \<Rightarrow> []
           | Some pos \<Rightarrow>
               let comma = (case str_find line '','' pos of
                     Some i \<Rightarrow> i
                   | None \<Rightarrow> (case str_find line ''}'' pos of Some i \<Rightarrow> i | None \<Rightarrow> length line))
               in Trim (substr line (pos + 1) (comma - pos - 1))))"

subsection \<open>Loading\<close>

text \<open>
  The loop that removes line comments; \<open>prev\<close> is the character before. The end of line that stops a
  comment is dropped with it.
\<close>

function strip_comments :: "bool \<Rightarrow> char option \<Rightarrow> string \<Rightarrow> string" where
  "strip_comments in_string prev [] = []"
| "strip_comments in_string prev (c # cs) =
     (let in_string' = (if c = quote \<and> prev \<noteq> Some backslash then \<not> in_string else in_string) in
      if \<not> in_string' \<and> c = CHR ''/'' \<and> cs \<noteq> [] \<and> hd cs = CHR ''/'' then
        strip_comments in_string' (Some newline) (tl (dropWhile (\<lambda>x. x \<noteq> newline) cs))
      else c # strip_comments in_string' (Some c) cs)"
  by pat_completeness auto

termination
proof (relation "measure (\<lambda>(i, p, s). length s)")
  have "length (tl (dropWhile P xs)) \<le> length xs" for P and xs :: string
    using length_dropWhile_le [of P xs] by (simp add: le_diff_conv)
  then show "((i, Some newline, tl (dropWhile (\<lambda>x. x \<noteq> newline) cs)), b, p, c # cs) \<in> measure (\<lambda>(i, p, s). length s)"
    for i b and p :: "char option" and c cs
    by (simp add: less_Suc_eq_le)
qed simp_all

definition GetVal :: "string \<Rightarrow> string \<Rightarrow> (string \<Rightarrow> 'a option) \<Rightarrow> 'a option" where
  "GetVal json key parser = (let val = ExtractValue json key in if val = [] then None else parser val)"

text \<open>A field that a value was read for is set, the others keep what they have.\<close>

definition set_field :: "'a option \<Rightarrow> ('a \<Rightarrow> BrokerConfig \<Rightarrow> BrokerConfig) \<Rightarrow> BrokerConfig \<Rightarrow> BrokerConfig" where
  "set_field v upd c = (case v of None \<Rightarrow> c | Some x \<Rightarrow> upd x c)"

definition load_fields :: "string \<Rightarrow> BrokerConfig \<Rightarrow> BrokerConfig" where
  "load_fields json c =
     (let b = (\<lambda>key. ParseBool (ExtractValue json key));
          n = (\<lambda>key. GetVal json key ParseUint32);
          z = (\<lambda>key. GetVal json key ParseSizeT);
          c = set_field (GetVal json ''port'' ParseUint16) (\<lambda>v c. c\<lparr>port := v\<rparr>) c;
          c = set_field (b ''batch_publish_enabled'') (\<lambda>v c. c\<lparr>batch_publish_enabled := v\<rparr>) c;
          c = set_field (b ''batch_push_enabled'') (\<lambda>v c. c\<lparr>batch_push_enabled := v\<rparr>) c;
          c = set_field (n ''max_batch_size'') (\<lambda>v c. c\<lparr>max_batch_size := v\<rparr>) c;
          c = set_field (b ''heartbeat_enabled'') (\<lambda>v c. c\<lparr>heartbeat_enabled := v\<rparr>) c;
          c = set_field (n ''heartbeat_interval_ms'') (\<lambda>v c. c\<lparr>heartbeat_interval_ms := v\<rparr>) c;
          c = set_field (n ''heartbeat_timeout_ms'') (\<lambda>v c. c\<lparr>heartbeat_timeout_ms := v\<rparr>) c;
          c = set_field (n ''heartbeat_check_interval_ms'') (\<lambda>v c. c\<lparr>heartbeat_check_interval_ms := v\<rparr>) c;
          c = set_field (b ''rate_limit_enabled'') (\<lambda>v c. c\<lparr>rate_limit_enabled := v\<rparr>) c;
          c = set_field (n ''global_publish_rate'') (\<lambda>v c. c\<lparr>global_publish_rate := v\<rparr>) c;
          c = set_field (n ''conn_publish_rate'') (\<lambda>v c. c\<lparr>conn_publish_rate := v\<rparr>) c;
          c = set_field (n ''rate_limit_burst'') (\<lambda>v c. c\<lparr>rate_limit_burst := v\<rparr>) c;
          c = set_field (z ''max_write_buffer_size'') (\<lambda>v c. c\<lparr>max_write_buffer_size := v\<rparr>) c;
          c = set_field (b ''ttl_enabled'') (\<lambda>v c. c\<lparr>ttl_enabled := v\<rparr>) c;
          c = set_field (n ''default_ttl_ms'') (\<lambda>v c. c\<lparr>default_ttl_ms := v\<rparr>) c;
          c = set_field (n ''expiration_check_interval_ms'') (\<lambda>v c. c\<lparr>expiration_check_interval_ms := v\<rparr>) c;
          c = set_field (b ''compression_enabled'') (\<lambda>v c. c\<lparr>compression_enabled := v\<rparr>) c;
          c = set_field (n ''compression_threshold_bytes'') (\<lambda>v c. c\<lparr>compression_threshold_bytes := v\<rparr>) c;
          c = set_field (b ''zero_copy_enabled'') (\<lambda>v c. c\<lparr>zero_copy_enabled := v\<rparr>) c;
          c = set_field (b ''dedup_enabled'') (\<lambda>v c. c\<lparr>dedup_enabled := v\<rparr>) c;
          c = set_field (z ''dedup_window_size'') (\<lambda>v c. c\<lparr>dedup_window_size := v\<rparr>) c;
          c = set_field (z ''default_ring_buffer_size'') (\<lambda>v c. c\<lparr>default_ring_buffer_size := v\<rparr>) c;
          c = set_field (n ''max_retry_count'') (\<lambda>v c. c\<lparr>max_retry_count := v\<rparr>) c;
          c = set_field (n ''pending_timeout_ms'') (\<lambda>v c. c\<lparr>pending_timeout_ms := v\<rparr>) c;
          c = set_field (n ''retry_interval_ms'') (\<lambda>v c. c\<lparr>retry_interval_ms := v\<rparr>) c
      in c)"

definition LoadFromFile :: "string option \<Rightarrow> BrokerConfig \<Rightarrow> bool \<times> BrokerConfig" where
  "LoadFromFile file c =
     (case file of
        None \<Rightarrow> (False, c)
      | Some content \<Rightarrow> (True, load_fields (strip_comments False None content) c))"

subsection \<open>Saving\<close>

definition line_of :: "string \<Rightarrow> string \<Rightarrow> string" where
  "line_of key value = ''  \"'' @ key @ ''\": '' @ value"

definition bool_str :: "bool \<Rightarrow> string" where
  "bool_str b = (if b then ''true'' else ''false'')"

definition num_str :: "'w::len word \<Rightarrow> string" where
  "num_str w = to_string (unat w)"

definition save_content :: "BrokerConfig \<Rightarrow> string" where
  "save_content c =
     ''{'' @ [newline] @
     line_of ''port'' (num_str (port c)) @ '','' @ [newline] @
     line_of ''batch_publish_enabled'' (bool_str (batch_publish_enabled c)) @ '','' @ [newline] @
     line_of ''batch_push_enabled'' (bool_str (batch_push_enabled c)) @ '','' @ [newline] @
     line_of ''max_batch_size'' (num_str (max_batch_size c)) @ '','' @ [newline] @
     line_of ''heartbeat_enabled'' (bool_str (heartbeat_enabled c)) @ '','' @ [newline] @
     line_of ''heartbeat_interval_ms'' (num_str (heartbeat_interval_ms c)) @ '','' @ [newline] @
     line_of ''heartbeat_timeout_ms'' (num_str (heartbeat_timeout_ms c)) @ '','' @ [newline] @
     line_of ''heartbeat_check_interval_ms'' (num_str (heartbeat_check_interval_ms c)) @ '','' @ [newline] @
     line_of ''rate_limit_enabled'' (bool_str (rate_limit_enabled c)) @ '','' @ [newline] @
     line_of ''global_publish_rate'' (num_str (global_publish_rate c)) @ '','' @ [newline] @
     line_of ''conn_publish_rate'' (num_str (conn_publish_rate c)) @ '','' @ [newline] @
     line_of ''rate_limit_burst'' (num_str (rate_limit_burst c)) @ '','' @ [newline] @
     line_of ''max_write_buffer_size'' (num_str (max_write_buffer_size c)) @ '','' @ [newline] @
     line_of ''ttl_enabled'' (bool_str (ttl_enabled c)) @ '','' @ [newline] @
     line_of ''default_ttl_ms'' (num_str (default_ttl_ms c)) @ '','' @ [newline] @
     line_of ''expiration_check_interval_ms'' (num_str (expiration_check_interval_ms c)) @ '','' @ [newline] @
     line_of ''compression_enabled'' (bool_str (compression_enabled c)) @ '','' @ [newline] @
     line_of ''compression_threshold_bytes'' (num_str (compression_threshold_bytes c)) @ '','' @ [newline] @
     line_of ''zero_copy_enabled'' (bool_str (zero_copy_enabled c)) @ '','' @ [newline] @
     line_of ''dedup_enabled'' (bool_str (dedup_enabled c)) @ '','' @ [newline] @
     line_of ''dedup_window_size'' (num_str (dedup_window_size c)) @ '','' @ [newline] @
     line_of ''default_ring_buffer_size'' (num_str (default_ring_buffer_size c)) @ '','' @ [newline] @
     line_of ''max_retry_count'' (num_str (max_retry_count c)) @ '','' @ [newline] @
     line_of ''pending_timeout_ms'' (num_str (pending_timeout_ms c)) @ '','' @ [newline] @
     line_of ''retry_interval_ms'' (num_str (retry_interval_ms c)) @ [newline] @
     ''}'' @ [newline]"

definition SaveToFile :: "bool \<Rightarrow> BrokerConfig \<Rightarrow> bool \<times> string option" where
  "SaveToFile opened c = (if \<not> opened then (False, None) else (True, Some (save_content c)))"

subsection \<open>Finding characters and keys\<close>

lemma find_at_char: "x \<notin> set pre \<Longrightarrow> find_at [x] (pre @ x # r) = Some (length pre)"
  by (induction pre) auto

lemma find_at_none: "x \<notin> set s \<Longrightarrow> find_at (x # n) s = None"
  by (induction s) auto

lemma find_at_skip:
  "x \<notin> set pre \<Longrightarrow> find_at (x # n) (pre @ s) = map_option ((+) (length pre)) (find_at (x # n) s)"
proof (induction pre)
  case Nil
  then show ?case by (cases "find_at (x # n) s") auto
next
  case (Cons a pre)
  then show ?case by (auto simp: option.map_comp comp_def)
qed

lemma str_find_char:
  "x \<notin> set mid \<Longrightarrow> str_find (pre @ mid @ x # r) [x] (length pre) = Some (length pre + length mid)"
  by (simp add: str_find_def find_at_char)

lemma str_find_char_none: "x \<notin> set s \<Longrightarrow> str_find (pre @ s) [x] (length pre) = None"
  by (simp add: str_find_def find_at_none)

lemma quoted_key_eq:
  "quote \<notin> set k \<Longrightarrow> quote \<notin> set key \<Longrightarrow> take (Suc (length key)) (k @ quote # X) = key @ [quote] \<Longrightarrow> k = key"
proof (induction key arbitrary: k)
  case Nil
  then show ?case by (cases k) auto
next
  case (Cons a key)
  then show ?case by (cases k) auto
qed

text \<open>What keys and values of a written file consist of.\<close>

definition clean_key :: "string \<Rightarrow> bool" where
  "clean_key k \<longleftrightarrow> k \<noteq> [] \<and> quote \<notin> set k \<and> CHR '':'' \<notin> set k \<and> CHR ''/'' \<notin> set k"

definition clean_value :: "string \<Rightarrow> bool" where
  "clean_value v \<longleftrightarrow> v \<noteq> [] \<and>
     (\<forall>x \<in> set v. x \<notin> {quote, CHR '','', CHR '':'', CHR ''}'', CHR ''/''} \<and> \<not> trimmed x)"

lemma find_key_other:
  assumes "clean_key k" and "clean_key key" and "k \<noteq> key" and "quote \<notin> set v"
  shows "find_at (quote # key @ [quote]) (line_of k v @ s) =
    map_option ((+) (length (line_of k v))) (find_at (quote # key @ [quote]) s)"
proof -
  let ?q = "quote # key @ [quote]"
  have no1: "take (length ?q) (quote # k @ quote # X) \<noteq> ?q" for X
    using quoted_key_eq [of k key X] assms by (auto simp: clean_key_def)
  have no2: "take (length ?q) (quote # CHR '':'' # X) \<noteq> ?q" for X
    using assms(2) by (cases key) (auto simp: clean_key_def)
  have skip: "find_at ?q (k @ t) = map_option ((+) (length k)) (find_at ?q t)"
    "find_at ?q (v @ t) = map_option ((+) (length v)) (find_at ?q t)" for t
    using assms(1,4) by (simp_all add: find_at_skip clean_key_def)
  have step: "take (length ?q) (x # t) \<noteq> ?q \<Longrightarrow> find_at ?q (x # t) = map_option Suc (find_at ?q t)" for x t
    unfolding find_at.simps(2) [of ?q x t] by (rule if_not_P)
  have "find_at ?q (quote # CHR '':'' # CHR '' '' # v @ s) = map_option (\<lambda>i. Suc (Suc (Suc (length v + i)))) (find_at ?q s)"
    using no2 skip(2) by (simp add: option.map_comp comp_def)
  moreover have "find_at ?q (quote # k @ quote # t) = map_option (\<lambda>i. Suc (length k + i)) (find_at ?q (quote # t))" for t
    using step [OF no1] skip(1) by (simp add: option.map_comp comp_def del: find_at.simps(2))
  moreover have "find_at ?q (CHR '' '' # CHR '' '' # t) = map_option (\<lambda>i. Suc (Suc i)) (find_at ?q t)" for t
    by (simp add: option.map_comp comp_def)
  ultimately show ?thesis
    by (simp add: line_of_def option.map_comp comp_def del: find_at.simps(2)) (rule option.map_cong; simp)
qed

lemma find_key_here:
  assumes "clean_key key"
  shows "find_at (quote # key @ [quote]) (line_of key v @ s) = Some 2"
  by (simp add: line_of_def)

subsection \<open>Extracting the values of a written file\<close>

lemma first_index_none: "first_index P xs = None \<longleftrightarrow> (\<forall>x \<in> set xs. \<not> P x)"
  by (induction xs) auto

lemma last_index_none: "last_index P xs = None \<longleftrightarrow> (\<forall>x \<in> set xs. \<not> P x)"
  by (induction xs) (auto split: option.splits)

lemma last_index_append: "last_index P (xs @ [x]) = (if P x then Some (length xs) else last_index P xs)"
  by (induction xs) (auto split: option.splits)

lemma Trim_around:
  assumes "v \<noteq> []" and "\<forall>x \<in> set v. \<not> trimmed x" and "\<forall>x \<in> set after. trimmed x"
  shows "Trim (CHR '' '' # v @ after) = v"
proof -
  have "last_index (\<lambda>c. \<not> trimmed c) (CHR '' '' # v @ after) = Some (length v)"
    using assms(3)
  proof (induction after rule: rev_induct)
    case Nil
    then show ?case
      using assms(1,2) last_index_append [of "\<lambda>c. \<not> trimmed c" "CHR '' '' # butlast v" "last v"] by auto
  next
    case (snoc a after)
    then show ?case
      using last_index_append [of "\<lambda>c. \<not> trimmed c" "CHR '' '' # v @ after" a] by simp
  qed
  moreover have "first_index (\<lambda>c. \<not> trimmed c) (CHR '' '' # v @ after) = Some 1"
    using assms(1,2) by (cases v) (auto simp: trimmed_def)
  ultimately show ?thesis
    using assms(1) by (simp add: Trim_def substr_def)
qed

fun render :: "(string \<times> string) list \<Rightarrow> string" where
  "render [] = []"
| "render [(k, v)] = line_of k v @ [newline] @ ''}'' @ [newline]"
| "render ((k, v) # e # es) = line_of k v @ '','' @ [newline] @ render (e # es)"

definition clean_entries :: "(string \<times> string) list \<Rightarrow> bool" where
  "clean_entries es \<longleftrightarrow> (\<forall>(k, v) \<in> set es. clean_key k \<and> clean_value v)"

text \<open>Where the entry of a key stands.\<close>

lemma find_key_render:
  assumes "clean_entries es" and "clean_key key" and "map_of es key = Some v"
  shows "\<exists>pre tail. render es = pre @ line_of key v @ tail \<and>
    find_at (quote # key @ [quote]) (render es) = Some (length pre + 2) \<and>
    ((\<exists>r. tail = CHR '','' # r) \<or> tail = [newline, CHR ''}'', newline])"
  using assms(1,3)
proof (induction es rule: render.induct)
  case (2 k w)
  then have "k = key" "w = v" by (auto split: if_splits)
  then show ?case
    using find_key_here [OF assms(2)] by (intro exI [of _ "[]"] exI [of _ "[newline, CHR ''}'', newline]"]) simp
next
  case (3 k w e es)
  show ?case
  proof (cases "k = key")
    case True
    then have "w = v" using 3 by simp
    then show ?thesis
      using True find_key_here [OF assms(2)]
      by (intro exI [of _ "[]"] exI [of _ "CHR '','' # newline # render (e # es)"]) simp
  next
    case False
    then obtain pre tail where IH: "render (e # es) = pre @ line_of key v @ tail"
      "find_at (quote # key @ [quote]) (render (e # es)) = Some (length pre + 2)"
      "(\<exists>r. tail = CHR '','' # r) \<or> tail = [newline, CHR ''}'', newline]"
      using 3 by (auto simp: clean_entries_def)
    have "clean_key k" "quote \<notin> set w"
      using 3(2) by (auto simp: clean_entries_def clean_value_def)
    from find_key_other [OF this(1) assms(2) False this(2)] IH(2)
    have "find_at (quote # key @ [quote]) (render ((k, w) # e # es)) =
        Some (length (line_of k w @ '','' @ [newline] @ pre) + 2)"
      by simp
    then show ?thesis
      using IH(1,3) by (intro exI [of _ "line_of k w @ '','' @ [newline] @ pre"] exI [of _ tail]) simp
  qed
qed simp

text \<open>The value that stands between the colon of a key and the end of its entry.\<close>

lemma value_after_colon:
  assumes line: "line = front @ (CHR '':'' # CHR '' '' # v) @ tail" "length front = pos" and ok: "clean_value v"
    and tail: "(\<exists>r. tail = CHR '','' # r) \<or> tail = [newline, CHR ''}'', newline]"
    and comma_def: "comma = (case str_find line '','' pos of
      Some i \<Rightarrow> i
    | None \<Rightarrow> (case str_find line ''}'' pos of Some i \<Rightarrow> i | None \<Rightarrow> length line))"
  shows "Trim (substr line (pos + 1) (comma - pos - 1)) = v"
proof -
  have v: "CHR '','' \<notin> set v" "CHR ''}'' \<notin> set v" "\<forall>x \<in> set v. \<not> trimmed x" "v \<noteq> []"
    using ok by (auto simp: clean_value_def)
  show ?thesis
  proof (cases "\<exists>r. tail = CHR '','' # r")
    case True
    then obtain t where t: "tail = CHR '','' # t" by blast
    have "comma = pos + (length v + 2)"
      using str_find_char [of "CHR '',''" "CHR '':'' # CHR '' '' # v" front t] v(1) line
      by (simp add: comma_def t)
    then have "substr line (pos + 1) (comma - pos - 1) = CHR '' '' # v @ []"
      using line by (simp add: substr_def t)
    then show ?thesis using Trim_around [OF v(4,3), of "[]"] by simp
  next
    case False
    then have t: "tail = [newline, CHR ''}'', newline]" using tail by blast
    have "str_find line '','' pos = None"
      using str_find_char_none [of "CHR '',''" "CHR '':'' # CHR '' '' # v @ tail" front] v(1) line by (simp add: t)
    moreover have "str_find line ''}'' pos = Some (pos + (length v + 3))"
      using str_find_char [of "CHR ''}''" "CHR '':'' # CHR '' '' # v @ [newline]" front "[newline]"] v(2) line
      by (simp add: t)
    ultimately have "substr line (pos + 1) (comma - pos - 1) = CHR '' '' # v @ [newline]"
      using line by (simp add: substr_def comma_def t)
    then show ?thesis using Trim_around [OF v(4,3), of "[newline]"] by (simp add: trimmed_def)
  qed
qed

lemma ExtractValue_render:
  assumes "clean_entries es" and "map_of es key = Some v"
  shows "ExtractValue (CHR ''{'' # newline # render es) key = v"
proof -
  have ok: "clean_key key" "clean_value v"
    using assms map_of_SomeD [OF assms(2)] by (auto simp: clean_entries_def)
  obtain pre tail where r: "render es = pre @ line_of key v @ tail"
    and at: "find_at (quote # key @ [quote]) (render es) = Some (length pre + 2)"
    and tail: "(\<exists>r. tail = CHR '','' # r) \<or> tail = [newline, CHR ''}'', newline]"
    using find_key_render [OF assms(1) ok(1) assms(2)] by blast
  define line where "line = CHR ''{'' # newline # render es"
  define before where "before = [CHR ''{'', newline] @ pre @ ''  ''"
  have split: "line = before @ (quote # key @ [quote]) @ CHR '':'' # CHR '' '' # v @ tail"
    by (simp add: line_def before_def r line_of_def)
  have "str_find line (quote # key @ [quote]) 0 = Some (length before)"
    using at by (simp add: str_find_def line_def before_def)
  moreover have colon: "str_find line '':'' (length before) = Some (length before + (length key + 2))"
    using str_find_char [of "CHR '':''" "quote # key @ [quote]" before "CHR '' '' # v @ tail"] ok(1)
    by (simp add: split clean_key_def)
  define pos where "pos = Suc (Suc (length before + length key))"
  define front where "front = before @ (quote # key @ [quote])"
  have line: "line = front @ (CHR '':'' # CHR '' '' # v) @ tail" "length front = pos"
    by (simp_all add: split front_def pos_def)
  define comma where "comma = (case str_find line '','' pos of
                     Some i \<Rightarrow> i
                   | None \<Rightarrow> (case str_find line ''}'' pos of Some i \<Rightarrow> i | None \<Rightarrow> length line))"
  have "Trim (substr line (pos + 1) (comma - pos - 1)) = v"
    by (rule value_after_colon [OF line ok(2) tail comma_def])
  ultimately show ?thesis
    using colon unfolding comma_def pos_def ExtractValue_def line_def [symmetric] by simp
qed

subsection \<open>Values that are written and read\<close>

lemma is_digit_char: "d < 10 \<Longrightarrow> is_digit (char_of (d + 48)) \<and> (of_char (char_of (d + 48)) :: nat) = d + 48"
  by (simp add: is_digit_def)

lemma digits_value_append: "digits_value (ds @ [c]) = 10 * digits_value ds + (of_char c - 48)"
  by (simp add: digits_value_def)

lemma to_string_digits:
  "to_string n \<noteq> [] \<and> (\<forall>c \<in> set (to_string n). is_digit c) \<and> digits_value (to_string n) = n"
proof (induction n rule: to_string.induct)
  case (1 n)
  show ?case
  proof (cases "n < 10")
    case True
    then show ?thesis
      using is_digit_char [of n] by (simp add: to_string.simps [of n] digits_value_def)
  next
    case False
    then show ?thesis
      using 1 is_digit_char [of "n mod 10"] by (simp add: to_string.simps [of n] digits_value_append)
  qed
qed

lemma digit_not_special:
  assumes "is_digit c"
  shows "c \<notin> {quote, CHR '','', CHR '':'', CHR ''}'', CHR ''/'', CHR ''-'', CHR ''+''}" "\<not> trimmed c" "\<not> is_space c"
  using assms by (auto simp: is_digit_def trimmed_def is_space_def)

lemma Trim_id:
  assumes "\<forall>x \<in> set v. \<not> trimmed x"
  shows "Trim v = v"
proof (cases v)
  case Nil
  then show ?thesis by (simp add: Trim_def)
next
  case (Cons a w)
  then have "v \<noteq> []" by simp
  then have "last_index (\<lambda>c. \<not> trimmed c) v = Some (length v - 1)"
    using assms last_index_append [of "\<lambda>c. \<not> trimmed c" "butlast v" "last v"] by simp
  moreover have "first_index (\<lambda>c. \<not> trimmed c) v = Some 0"
    using assms Cons by simp
  ultimately show ?thesis using Cons by (simp add: Trim_def substr_def)
qed

lemma stoul_to_string: "n < 2 ^ 64 \<Longrightarrow> stoul (Trim (to_string n)) = Some (of_nat n)"
proof -
  assume n: "n < 2 ^ 64"
  let ?s = "to_string n"
  note d = to_string_digits [of n]
  have t: "Trim ?s = ?s" using d digit_not_special(2) by (intro Trim_id) blast
  obtain c cs where cons: "?s = c # cs" using d by (cases ?s) auto
  then have c: "is_digit c" using d by simp
  have "takeWhile is_digit ?s = ?s" using d by simp
  moreover have "dropWhile is_space ?s = ?s" "hd ?s \<notin> {CHR ''-'', CHR ''+''}"
    using digit_not_special [OF c] by (simp_all add: cons)
  ultimately show "stoul (Trim ?s) = Some (of_nat n)"
    using n d unfolding t by (simp add: stoul_def Let_def del: takeWhile_eq_all_conv)
qed

lemma ucast_widened:
  "ucast (ucast (w16 :: u16) :: u64) = w16" "ucast (ucast (w32 :: u32) :: u64) = w32"
  by (rule bit_word_eqI; auto simp: bit_simps dest: bit_imp_le_length)+

lemma num_str_read:
  "ParseUint16 (num_str (w16 :: u16)) = Some w16"
  "ParseUint32 (num_str (w32 :: u32)) = Some w32"
  "ParseSizeT (num_str (w64 :: u64)) = Some w64"
proof -
  have "unat w16 < 2 ^ LENGTH(16)" "unat w32 < 2 ^ LENGTH(32)" "unat w64 < 2 ^ LENGTH(64)"
    by (rule unsigned_less)+
  then have "unat w16 < 2 ^ 64" "unat w32 < 2 ^ 64" "unat w64 < 2 ^ 64"
    by simp_all
  then show "ParseUint16 (num_str w16) = Some w16" "ParseUint32 (num_str w32) = Some w32"
    "ParseSizeT (num_str w64) = Some w64"
    by (simp_all add: ParseUint16_def ParseUint32_def ParseSizeT_def num_str_def stoul_to_string ucast_widened)
qed

lemma bool_str_read: "ParseBool (bool_str b) = Some b"
  by (cases b) (simp_all add: ParseBool_def bool_str_def Trim_id trimmed_def)

lemma clean_num_str: "clean_value (num_str w)"
  using to_string_digits [of "unat w"] digit_not_special
  by (fastforce simp: clean_value_def num_str_def)

lemma clean_bool_str: "clean_value (bool_str b)"
  by (simp add: clean_value_def bool_str_def trimmed_def)

subsection \<open>The written file\<close>

definition entries :: "BrokerConfig \<Rightarrow> (string \<times> string) list" where
  "entries c =
     [(''port'', num_str (port c)),
      (''batch_publish_enabled'', bool_str (batch_publish_enabled c)),
      (''batch_push_enabled'', bool_str (batch_push_enabled c)),
      (''max_batch_size'', num_str (max_batch_size c)),
      (''heartbeat_enabled'', bool_str (heartbeat_enabled c)),
      (''heartbeat_interval_ms'', num_str (heartbeat_interval_ms c)),
      (''heartbeat_timeout_ms'', num_str (heartbeat_timeout_ms c)),
      (''heartbeat_check_interval_ms'', num_str (heartbeat_check_interval_ms c)),
      (''rate_limit_enabled'', bool_str (rate_limit_enabled c)),
      (''global_publish_rate'', num_str (global_publish_rate c)),
      (''conn_publish_rate'', num_str (conn_publish_rate c)),
      (''rate_limit_burst'', num_str (rate_limit_burst c)),
      (''max_write_buffer_size'', num_str (max_write_buffer_size c)),
      (''ttl_enabled'', bool_str (ttl_enabled c)),
      (''default_ttl_ms'', num_str (default_ttl_ms c)),
      (''expiration_check_interval_ms'', num_str (expiration_check_interval_ms c)),
      (''compression_enabled'', bool_str (compression_enabled c)),
      (''compression_threshold_bytes'', num_str (compression_threshold_bytes c)),
      (''zero_copy_enabled'', bool_str (zero_copy_enabled c)),
      (''dedup_enabled'', bool_str (dedup_enabled c)),
      (''dedup_window_size'', num_str (dedup_window_size c)),
      (''default_ring_buffer_size'', num_str (default_ring_buffer_size c)),
      (''max_retry_count'', num_str (max_retry_count c)),
      (''pending_timeout_ms'', num_str (pending_timeout_ms c)),
      (''retry_interval_ms'', num_str (retry_interval_ms c))]"

lemma save_content_render: "save_content c = CHR ''{'' # newline # render (entries c)"
  by (simp add: save_content_def entries_def)

lemma clean_entries_entries: "clean_entries (entries c)"
  by (simp add: clean_entries_def entries_def clean_key_def clean_num_str clean_bool_str)

lemma strip_comments_id: "CHR ''/'' \<notin> set s \<Longrightarrow> strip_comments i p s = s"
proof (induction s arbitrary: i p)
  case (Cons a s)
  then have "a \<noteq> CHR ''/''" by auto
  then show ?case using Cons by (simp add: Let_def)
qed simp

lemma no_comment_render: "clean_entries es \<Longrightarrow> CHR ''/'' \<notin> set (render es)"
  by (induction es rule: render.induct) (auto simp: clean_entries_def clean_key_def clean_value_def line_of_def)

lemma strip_save: "strip_comments False None (save_content c) = save_content c"
  using no_comment_render [OF clean_entries_entries, of c]
  by (intro strip_comments_id) (simp add: save_content_render)

lemma ExtractValue_save: "map_of (entries c) key = Some v \<Longrightarrow> ExtractValue (save_content c) key = v"
  unfolding save_content_render by (rule ExtractValue_render [OF clean_entries_entries])

lemma read_field:
  "map_of (entries c) key = Some (bool_str b) \<Longrightarrow> ParseBool (ExtractValue (save_content c) key) = Some b"
  "map_of (entries c) key = Some (num_str (w16 :: u16)) \<Longrightarrow> GetVal (save_content c) key ParseUint16 = Some w16"
  "map_of (entries c) key = Some (num_str (w32 :: u32)) \<Longrightarrow> GetVal (save_content c) key ParseUint32 = Some w32"
  "map_of (entries c) key = Some (num_str (w64 :: u64)) \<Longrightarrow> GetVal (save_content c) key ParseSizeT = Some w64"
  using to_string_digits
  by (simp_all add: GetVal_def Let_def ExtractValue_save bool_str_read num_str_read) (simp_all add: num_str_def)

lemma load_saved: "LoadFromFile (snd (SaveToFile True c)) c0 = (True, c)"
proof -
  have "load_fields (save_content c) c0 = c"
    unfolding load_fields_def Let_def
    by (simp add: read_field entries_def set_field_def)
  then show ?thesis
    by (simp add: LoadFromFile_def SaveToFile_def strip_save)
qed

subsection \<open>Properties\<close>

text \<open>
  C37: Saving and loading a configuration gives it back: whatever configuration the file that
  \<open>SaveToFile\<close> wrote is loaded into, afterwards every one of the 25 fields has the value that was
  saved, at its full width.
\<close>

theorem Load_Save:
  "LoadFromFile (snd (SaveToFile True c)) c0 = (True, c)"
  by (rule load_saved)

text \<open>Keys that a file does not have.\<close>

lemma find_key_missing:
  "clean_entries es \<Longrightarrow> clean_key key \<Longrightarrow> map_of es key = None \<Longrightarrow> find_at (quote # key @ [quote]) (render es) = None"
proof (induction es rule: render.induct)
  case (2 k v)
  then show ?case
    using find_key_other [of k key v "[newline, CHR ''}'', newline]"]
    by (auto simp: clean_entries_def clean_value_def split: if_splits)
next
  case (3 k v e es)
  then show ?case
    using find_key_other [of k key v "CHR '','' # newline # render (e # es)"]
    by (auto simp: clean_entries_def clean_value_def split: if_splits)
qed simp

lemma ExtractValue_missing:
  "clean_entries es \<Longrightarrow> clean_key key \<Longrightarrow> map_of es key = None \<Longrightarrow> ExtractValue (CHR ''{'' # newline # render es) key = []"
  by (simp add: ExtractValue_def str_find_def find_key_missing)

lemma ParseBool_empty: "ParseBool [] = None"
  by (simp add: ParseBool_def Trim_def)

lemma set_strip_comments: "set (strip_comments i p s) \<subseteq> set s"
proof (induction i p s rule: strip_comments.induct)
  case (2 i p c cs)
  have sub: "x \<in> set (tl (dropWhile P xs)) \<Longrightarrow> x \<in> set xs" for x P and xs :: string
    using set_dropWhileD by (metis list.set_sel(2) list.sel(2))
  show ?case
    using 2 by (auto simp: Let_def dest: sub dest!: subsetD)
qed simp

text \<open>
  A port number in a configuration file is not checked against its range: any number below
  \<open>2 ^ 64\<close> is accepted and stored modulo \<open>2 ^ 16\<close>, the other fields keep their values, and loading
  reports success.
\<close>

theorem config_port_wraps:
  assumes "n < 2 ^ 64"
  shows "LoadFromFile (Some (''{'' @ [newline] @ line_of ''port'' (to_string n) @ [newline] @ ''}'' @ [newline])) c =
    (True, c\<lparr>port := of_nat n\<rparr>)"
proof -
  let ?es = "[(''port'', to_string n)]"
  let ?json = "CHR ''{'' # newline # render ?es"
  have d: "to_string n \<noteq> []" "\<forall>x \<in> set (to_string n). is_digit x"
    using to_string_digits by simp_all
  have clean: "clean_entries ?es"
    using d digit_not_special by (fastforce simp: clean_entries_def clean_key_def clean_value_def)
  have port: "GetVal ?json ''port'' ParseUint16 = Some (of_nat n)"
    using ExtractValue_render [OF clean, of "''port''"] d(1) assms
    by (simp add: GetVal_def ParseUint16_def stoul_to_string unsigned_of_nat take_bit_nat_eq_self del: render.simps)
  have rest: "ExtractValue ?json key = []" if "clean_key key" "key \<noteq> ''port''" for key
    using ExtractValue_missing [OF clean that(1)] that(2) by (simp del: render.simps)
  have "load_fields ?json c = c\<lparr>port := of_nat n\<rparr>"
    unfolding load_fields_def Let_def
    by (simp add: port [unfolded GetVal_def Let_def] Let_def rest ParseBool_empty GetVal_def clean_key_def set_field_def del: render.simps)
  moreover have "strip_comments False None ?json = ?json"
    using no_comment_render [OF clean] by (intro strip_comments_id) simp
  ultimately show ?thesis
    by (simp add: LoadFromFile_def)
qed

theorem config_port_wraps_witness:
  "port (snd (LoadFromFile (Some (''{'' @ [newline] @ line_of ''port'' (to_string 70000) @ [newline] @ ''}'' @ [newline]))
     default_BrokerConfig)) = 4464"
  using config_port_wraps [of 70000 default_BrokerConfig] by simp

text \<open>
  Loading fails only when the file cannot be opened, and then changes nothing. A file without any
  quoted key, such as an empty one, is loaded successfully and changes nothing either: malformed
  text is not reported.
\<close>

theorem Load_errors:
  "LoadFromFile None c = (False, c) \<and> (\<exists>c'. LoadFromFile (Some content) c = (True, c')) \<and>
   (quote \<notin> set content \<longrightarrow> LoadFromFile (Some content) c = (True, c))"
proof -
  have "load_fields (strip_comments False None content) c = c" if "quote \<notin> set content"
  proof -
    have "quote \<notin> set (strip_comments False None content)"
      using that set_strip_comments by blast
    then have "ExtractValue (strip_comments False None content) key = []" for key
      by (simp add: ExtractValue_def str_find_def find_at_none)
    then show ?thesis
      unfolding load_fields_def Let_def by (simp add: GetVal_def ParseBool_empty set_field_def)
  qed
  then show ?thesis by (simp add: LoadFromFile_def)
qed

theorem Load_errors_witness:
  "LoadFromFile (Some ''not a configuration'') default_BrokerConfig = (True, default_BrokerConfig)"
  using Load_errors [of default_BrokerConfig "''not a configuration''"] by simp

end
