(* ===== verification/Tcp_Client.thy ===== *)
theory Tcp_Client
  imports Broker_System
begin

text \<open>
  \<^verbatim>\<open>network/tcp_client.h\<close> and \<^verbatim>\<open>.cpp\<close>: the client end of a connection. The results of system calls,
  random numbers and readings of the clock are arguments; the two threads are their rounds.
  \<open>cl_read_thread\<close> and \<open>cl_ping_thread\<close> say whether the thread object is joinable: it is until
  \<open>Disconnect\<close> joins it, also after its loop has ended. Assigning to a joinable thread object calls
  \<open>std::terminate\<close>, the result \<open>None\<close> of \<open>Connect\<close>.
\<close>

subsection \<open>The producer identifier\<close>

definition hex_digit :: "nat \<Rightarrow> char" where
  "hex_digit d = ''0123456789abcdef'' ! d"

fun to_hex :: "nat \<Rightarrow> string" where
  "to_hex n = (if n < 16 then [] else to_hex (n div 16)) @ [hex_digit (n mod 16)]"

declare to_hex.simps [simp del]

text \<open>\<open>oss << std::setw(w) << n\<close> with fill character 0 and base 16.\<close>

definition hex_field :: "nat \<Rightarrow> u64 \<Rightarrow> string" where
  "hex_field w n = replicate (w - length (to_hex (unat n))) (CHR ''0'') @ to_hex (unat n)"

definition GenerateProducerId :: "u64 \<Rightarrow> u64 \<Rightarrow> string" where
  "GenerateProducerId p1 p2 =
     hex_field 8 (drop_bit 32 p1) @
     hex_field 4 (drop_bit 16 p1 AND 0xFFFF) @
     hex_field 4 (p1 AND 0xFFFF) @
     hex_field 4 (drop_bit 48 p2 AND 0xFFFF) @
     hex_field 12 (p2 AND 0xFFFFFFFFFFFF)"

subsection \<open>State and operations\<close>

record TcpClient =
  cl_host :: string
  cl_port :: u16
  cl_config :: "BrokerConfig option"
  cl_connection :: "Connection option"
  cl_connected :: bool
  cl_read_thread :: bool
  cl_ping_thread :: bool
  cl_ping_timeout :: u32
  cl_producer_id :: string
  cl_next_sequence_id :: u64
  cl_last_pong_time_ms :: u64

definition cl_new :: TcpClient where
  "cl_new = \<lparr>cl_host = [], cl_port = 0, cl_config = None, cl_connection = None, cl_connected = False,
     cl_read_thread = False, cl_ping_thread = False, cl_ping_timeout = 0, cl_producer_id = [], cl_next_sequence_id = 1,
     cl_last_pong_time_ms = 0\<rparr>"

record connect_env =
  ce_p1 :: u64
  ce_p2 :: u64
  ce_socket_ok :: bool
  ce_address_ok :: bool
  ce_connect_ok :: bool
  ce_created :: time_point
  ce_now :: time_point

definition cl_heartbeat :: "BrokerConfig option \<Rightarrow> bool" where
  "cl_heartbeat cfg = (case cfg of Some c \<Rightarrow> heartbeat_enabled c | None \<Rightarrow> True)"

text \<open>The timeout that \<open>PingLoop\<close> reads once when its thread starts.\<close>

definition ping_timeout :: "BrokerConfig option \<Rightarrow> u32" where
  "ping_timeout cfg = (case cfg of Some c \<Rightarrow> heartbeat_timeout_ms c | None \<Rightarrow> 15000)"

definition Connect :: "connect_env \<Rightarrow> string \<Rightarrow> u16 \<Rightarrow> BrokerConfig option \<Rightarrow> TcpClient \<Rightarrow> (bool \<times> TcpClient) option" where
  "Connect ce host prt cfg cl =
     (let cl1 = cl\<lparr>cl_host := host, cl_port := prt, cl_config := cfg,
            cl_producer_id := GenerateProducerId (ce_p1 ce) (ce_p2 ce), cl_next_sequence_id := 1\<rparr> in
      if \<not> ce_socket_ok ce then Some (False, cl1)
      else if \<not> ce_address_ok ce then Some (False, cl1)
      else if \<not> ce_connect_ok ce then Some (False, cl1)
      else
        let cl2 = cl1\<lparr>cl_connection := Some (conn_new 1 cfg (ce_created ce)),
              cl_last_pong_time_ms := ms_of (ce_now ce), cl_connected := True\<rparr> in
        if cl_read_thread cl2 then None
        else
          let cl3 = cl2\<lparr>cl_read_thread := True\<rparr> in
          if cl_heartbeat cfg then
            if cl_ping_thread cl3 then None else Some (True, cl3\<lparr>cl_ping_thread := True, cl_ping_timeout := ping_timeout cfg\<rparr>)
          else Some (True, cl3))"

definition Disconnect :: "TcpClient \<Rightarrow> TcpClient" where
  "Disconnect cl = cl\<lparr>cl_connected := False, cl_connection := None, cl_read_thread := False, cl_ping_thread := False\<rparr>"

text \<open>Sending gives the result, the bytes that went out, and the client.\<close>

definition cl_SendFrame :: "Frame \<Rightarrow> send_result list \<Rightarrow> TcpClient \<Rightarrow> bool \<times> byte list \<times> TcpClient" where
  "cl_SendFrame frame rs cl =
     (if \<not> cl_connected cl then (False, [], cl)
      else case cl_connection cl of
          None \<Rightarrow> (False, [], cl)
        | Some c \<Rightarrow>
            if c_closed c then (False, [], cl)
            else let (ok, out, c') = SendFrame frame rs c in (ok, out, cl\<lparr>cl_connection := Some c'\<rparr>))"

definition IsConnected :: "TcpClient \<Rightarrow> bool" where
  "IsConnected cl =
     (if \<not> cl_connected cl then False
      else case cl_connection cl of None \<Rightarrow> False | Some c \<Rightarrow> \<not> c_closed c)"

definition GetNextSequenceId :: "TcpClient \<Rightarrow> u64 \<times> TcpClient" where
  "GetNextSequenceId cl = (cl_next_sequence_id cl, cl\<lparr>cl_next_sequence_id := cl_next_sequence_id cl + 1\<rparr>)"

text \<open>
  The frame handler of the connection: the frames it passes on to the application's handler, the
  bytes sent, and the client.
\<close>

definition cl_on_frame :: "send_result list \<Rightarrow> time_point \<Rightarrow> Frame \<Rightarrow> TcpClient \<Rightarrow> Frame list \<times> byte list \<times> TcpClient" where
  "cl_on_frame rs now frame cl =
     (if msg_type frame = FMT_Ping then
        let (ok, out, cl') = cl_SendFrame (default_Frame\<lparr>msg_type := FMT_Pong\<rparr>) rs cl in ([], out, cl')
      else if msg_type frame = FMT_Pong then ([frame], [], cl\<lparr>cl_last_pong_time_ms := ms_of now\<rparr>)
      else ([frame], [], cl))"

fun cl_on_frames :: "(nat \<Rightarrow> send_result list) \<Rightarrow> time_point \<Rightarrow> nat \<Rightarrow> Frame list \<Rightarrow> TcpClient
    \<Rightarrow> Frame list \<times> byte list \<times> TcpClient" where
  "cl_on_frames rss now k [] cl = ([], [], cl)"
| "cl_on_frames rss now k (f # fs) cl =
     (let (app1, out1, cl1) = cl_on_frame (rss k) now f cl;
          (app2, out2, cl2) = cl_on_frames rss now (Suc k) fs cl1
      in (app1 @ app2, out1 @ out2, cl2))"

text \<open>
  One round of \<open>ReadLoop\<close>, \<open>None\<close> when the loop ends. One round of \<open>PingLoop\<close> after its sleep: whether
  the loop goes on, the bytes sent, the client.
\<close>

definition ReadLoop_round :: "recv_result list \<Rightarrow> (nat \<Rightarrow> send_result list) \<Rightarrow> time_point \<Rightarrow> TcpClient
    \<Rightarrow> (Frame list \<times> byte list \<times> TcpClient) option" where
  "ReadLoop_round rs rss now cl =
     (if \<not> cl_connected cl then None
      else case cl_connection cl of
          None \<Rightarrow> None
        | Some c \<Rightarrow>
            if c_closed c then None
            else
              let (frames, c') = OnRead rs now c
              in Some (cl_on_frames rss now 0 frames (cl\<lparr>cl_connection := Some c'\<rparr>)))"

definition PingLoop_round :: "send_result list \<Rightarrow> time_point \<Rightarrow> TcpClient \<Rightarrow> bool \<times> byte list \<times> TcpClient" where
  "PingLoop_round rs now cl =
     (if \<not> cl_connected cl then (False, [], cl)
      else
        let (ok, out, cl1) = cl_SendFrame (default_Frame\<lparr>msg_type := FMT_Ping\<rparr>) rs cl in
        if \<not> ok then (False, out, cl1)
        else
          let now_ms = now div 1000000; last_pong = sint (cl_last_pong_time_ms cl1) in
          if now_ms - last_pong > int (unat (cl_ping_timeout cl1))
          then (False, out, cl1\<lparr>cl_connection := map_option Close (cl_connection cl1)\<rparr>)
          else (True, out, cl1))"

subsection \<open>Hexadecimal fields\<close>

definition hex_value :: "string \<Rightarrow> nat" where
  "hex_value s = foldl (\<lambda>n c. 16 * n + (if (of_char c :: nat) < 58 then of_char c - 48 else of_char c - 87)) 0 s"

lemma hex_value_digit: "d < 16 \<Longrightarrow> hex_value (s @ [hex_digit d]) = 16 * hex_value s + d"
proof -
  assume "d < 16"
  then have "d = 0 \<or> d = 1 \<or> d = 2 \<or> d = 3 \<or> d = 4 \<or> d = 5 \<or> d = 6 \<or> d = 7 \<or> d = 8 \<or> d = 9 \<or>
      d = 10 \<or> d = 11 \<or> d = 12 \<or> d = 13 \<or> d = 14 \<or> d = 15"
    by presburger
  then show ?thesis by (auto simp: hex_value_def hex_digit_def)
qed

lemma hex_value_to_hex: "hex_value (to_hex n) = n"
proof (induction n rule: to_hex.induct)
  case (1 n)
  show ?case
  proof (cases "n < 16")
    case True
    then show ?thesis
      using hex_value_digit [of n "[]"] by (simp add: to_hex.simps [of n] hex_value_def)
  next
    case False
    then show ?thesis
      using 1 hex_value_digit [of "n mod 16" "to_hex (n div 16)"] by (simp add: to_hex.simps [of n])
  qed
qed

lemma hex_value_pad: "hex_value (replicate k (CHR ''0'') @ s) = hex_value s"
  by (induction k) (simp_all add: hex_value_def)

lemma to_hex_length: "0 < w \<Longrightarrow> n < 16 ^ w \<Longrightarrow> length (to_hex n) \<le> w"
proof (induction w arbitrary: n rule: nat_induct_non_zero)
  case 1
  then show ?case by (simp add: to_hex.simps [of n])
next
  case (Suc w)
  then have "n div 16 < 16 ^ w" by (simp add: less_mult_imp_div_less mult.commute)
  then show ?case
    using Suc.IH [of "n div 16"] by (simp add: to_hex.simps [of n])
qed

lemma hex_field_length: "0 < w \<Longrightarrow> unat n < 16 ^ w \<Longrightarrow> length (hex_field w n) = w"
  using to_hex_length [of w "unat n"] by (simp add: hex_field_def)

lemma hex_field_inj: "hex_field w n = hex_field w m \<longleftrightarrow> n = m"
proof
  assume "hex_field w n = hex_field w m"
  then have "hex_value (hex_field w n) = hex_value (hex_field w m)" by simp
  then show "n = m" by (simp add: hex_field_def hex_value_pad hex_value_to_hex word_unat_eq_iff)
qed simp

text \<open>The groups of bits that the fields show determine the number.\<close>

lemma masked_unat:
  fixes p :: u64
  shows "unat (p AND 0xFFFF) = unat p mod 2 ^ 16" "unat (p AND 0xFFFFFFFFFFFF) = unat p mod 2 ^ 48"
proof -
  have m: "(0xFFFF :: u64) = mask 16" "(0xFFFFFFFFFFFF :: u64) = mask 48"
    by (simp_all add: mask_eq_exp_minus_1)
  show "unat (p AND 0xFFFF) = unat p mod 2 ^ 16" "unat (p AND 0xFFFFFFFFFFFF) = unat p mod 2 ^ 48"
    unfolding m take_bit_eq_mask [symmetric] unsigned_take_bit_eq by (simp_all add: take_bit_eq_mod)
qed

lemma shifted_unat: "unat (drop_bit n (p :: u64)) = unat p div 2 ^ n"
proof -
  have "unat p < 2 ^ LENGTH(64)" by (rule unsigned_less)
  then show ?thesis
    unfolding unsigned_drop_bit_eq by (simp add: drop_bit_eq_div take_bit_nat_eq_self)
qed

lemma masked_fields:
  fixes p :: u64
  shows "unat (drop_bit 32 p) < 16 ^ 8" "unat (p AND 0xFFFF) < 16 ^ 4" "unat (p AND 0xFFFFFFFFFFFF) < 16 ^ 12"
proof -
  have "unat p < 2 ^ LENGTH(64)" by (rule unsigned_less)
  then show "unat (drop_bit 32 p) < 16 ^ 8"
    by (simp add: shifted_unat less_mult_imp_div_less)
qed (simp_all add: masked_unat)

lemma nat_fields:
  fixes a b :: nat
  shows "a div 2 ^ 32 = b div 2 ^ 32 \<Longrightarrow> (a div 2 ^ 16) mod 2 ^ 16 = (b div 2 ^ 16) mod 2 ^ 16 \<Longrightarrow>
      a mod 2 ^ 16 = b mod 2 ^ 16 \<Longrightarrow> a = b"
    and "(a div 2 ^ 48) mod 2 ^ 16 = (b div 2 ^ 48) mod 2 ^ 16 \<Longrightarrow> a mod 2 ^ 48 = b mod 2 ^ 48 \<Longrightarrow>
      a < 2 ^ 64 \<Longrightarrow> b < 2 ^ 64 \<Longrightarrow> a = b"
proof -
  have split: "n = 2 ^ 32 * (n div 2 ^ 32) + (2 ^ 16 * (n div 2 ^ 16 mod 2 ^ 16) + n mod 2 ^ 16)" for n :: nat
    using mod_mult2_eq [of n "2 ^ 16" "2 ^ 16"] mult_div_mod_eq [of "2 ^ 32" n] by simp
  show "a div 2 ^ 32 = b div 2 ^ 32 \<Longrightarrow> (a div 2 ^ 16) mod 2 ^ 16 = (b div 2 ^ 16) mod 2 ^ 16 \<Longrightarrow>
      a mod 2 ^ 16 = b mod 2 ^ 16 \<Longrightarrow> a = b"
    using split [of a] split [of b] by argo
  have "n div 2 ^ 48 mod 2 ^ 16 = n div 2 ^ 48" if "n < 2 ^ 64" for n :: nat
    using that by (simp add: less_mult_imp_div_less)
  then show "(a div 2 ^ 48) mod 2 ^ 16 = (b div 2 ^ 48) mod 2 ^ 16 \<Longrightarrow> a mod 2 ^ 48 = b mod 2 ^ 48 \<Longrightarrow>
      a < 2 ^ 64 \<Longrightarrow> b < 2 ^ 64 \<Longrightarrow> a = b"
    using mult_div_mod_eq [of "2 ^ 48" a] mult_div_mod_eq [of "2 ^ 48" b] by metis
qed

lemma hex_field_lengths:
  fixes p x :: u64
  shows "length (hex_field 8 (drop_bit 32 p)) = 8" "length (hex_field 4 (x AND 0xFFFF)) = 4"
    "length (hex_field 12 (p AND 0xFFFFFFFFFFFF)) = 12"
  using masked_fields by (auto intro!: hex_field_length)

lemma producer_id_length: "length (GenerateProducerId p1 p2) = 32"
  by (simp add: GenerateProducerId_def hex_field_lengths)

subsection \<open>Properties\<close>

text \<open>
  A producer identifier is the 128 random bits in full: it has 32 characters, and two identifiers
  are equal only if all bits drawn are equal.
\<close>

theorem producer_id_unique:
  "length (GenerateProducerId p1 p2) = 32 \<and> (GenerateProducerId p1 p2 = GenerateProducerId q1 q2 \<longleftrightarrow> p1 = q1 \<and> p2 = q2)"
proof -
  note len = hex_field_lengths
  have "p1 = q1 \<and> p2 = q2" if "GenerateProducerId p1 p2 = GenerateProducerId q1 q2"
  proof -
    from that have
      "drop_bit 32 p1 = drop_bit 32 q1" "drop_bit 16 p1 AND 0xFFFF = drop_bit 16 q1 AND 0xFFFF" "p1 AND 0xFFFF = q1 AND 0xFFFF"
      "drop_bit 48 p2 AND 0xFFFF = drop_bit 48 q2 AND 0xFFFF" "p2 AND 0xFFFFFFFFFFFF = q2 AND 0xFFFFFFFFFFFF"
      by (simp_all add: GenerateProducerId_def len hex_field_inj)
    then have "unat p1 div 2 ^ 32 = unat q1 div 2 ^ 32" "(unat p1 div 2 ^ 16) mod 2 ^ 16 = (unat q1 div 2 ^ 16) mod 2 ^ 16"
      "unat p1 mod 2 ^ 16 = unat q1 mod 2 ^ 16" "(unat p2 div 2 ^ 48) mod 2 ^ 16 = (unat q2 div 2 ^ 48) mod 2 ^ 16"
      "unat p2 mod 2 ^ 48 = unat q2 mod 2 ^ 48"
      using masked_unat shifted_unat by metis+
    moreover have "unat p2 < 2 ^ LENGTH(64)" "unat q2 < 2 ^ LENGTH(64)"
      by (rule unsigned_less)+
    ultimately have "unat p1 = unat q1" "unat p2 = unat q2"
      using nat_fields(1) [of "unat p1" "unat q1"] nat_fields(2) [of "unat p2" "unat q2"] by simp_all
    then show ?thesis by (simp add: word_unat_eq_iff)
  qed
  then show ?thesis by (auto simp: GenerateProducerId_def len)
qed

text \<open>The sequence numbers that \<open>n\<close> calls draw.\<close>

fun draw_ids :: "nat \<Rightarrow> TcpClient \<Rightarrow> u64 list" where
  "draw_ids 0 cl = []"
| "draw_ids (Suc n) cl = (let (s, cl') = GetNextSequenceId cl in s # draw_ids n cl')"

lemma draw_ids_upt:
  "draw_ids n cl = map (\<lambda>i. cl_next_sequence_id cl + of_nat i) [0..<n]"
proof (induction n arbitrary: cl)
  case (Suc n)
  have "map (\<lambda>i. cl_next_sequence_id cl + 1 + of_nat i) [0..<n] = map (\<lambda>i. cl_next_sequence_id cl + of_nat i) [Suc 0..<Suc n]"
    by (simp add: map_Suc_upt [symmetric] del: upt_Suc)
  then show ?case
    using Suc.IH by (simp add: GetNextSequenceId_def upt_conv_Cons del: upt_Suc)
qed simp

lemma Connect_ids:
  "Connect ce host prt cfg cl = Some (ok, cl') \<Longrightarrow>
     cl_next_sequence_id cl' = 1 \<and> cl_producer_id cl' = GenerateProducerId (ce_p1 ce) (ce_p2 ce)"
  by (auto simp: Connect_def Let_def split: if_splits)

lemma drawn_ids:
  assumes "Connect ce host prt cfg cl = Some (ok, cl')" and "n < 2 ^ 64 - 1"
  shows "draw_ids n cl' = map (\<lambda>i. of_nat (i + 1)) [0..<n]"
    and "i < n \<Longrightarrow> j < n \<Longrightarrow> draw_ids n cl' ! i \<le> draw_ids n cl' ! j \<longleftrightarrow> i \<le> j"
    and "distinct (draw_ids n cl')"
proof -
  show ids: "draw_ids n cl' = map (\<lambda>i. of_nat (i + 1)) [0..<n]"
    using Connect_ids [OF assms(1)] by (simp add: draw_ids_upt)
  have u: "unat (of_nat (k + 1) :: u64) = k + 1" if "k < n" for k
    using that assms(2) unfolding unsigned_of_nat by (simp add: take_bit_nat_eq_self)
  have le: "draw_ids n cl' ! i \<le> draw_ids n cl' ! j \<longleftrightarrow> i \<le> j" if "i < n" "j < n" for i j
  proof -
    have nth: "draw_ids n cl' ! k = of_nat (k + 1)" if "k < n" for k
      using that by (simp add: ids)
    show ?thesis
      unfolding nth [OF that(1)] nth [OF that(2)] word_le_nat_alt u [OF that(1)] u [OF that(2)] by simp
  qed
  then show "i < n \<Longrightarrow> j < n \<Longrightarrow> draw_ids n cl' ! i \<le> draw_ids n cl' ! j \<longleftrightarrow> i \<le> j" .
  have len: "length (draw_ids n cl') = n" unfolding ids by simp
  show "distinct (draw_ids n cl')"
    unfolding distinct_conv_nth len
  proof (intro allI impI)
    fix i j assume "i < n" "j < n" "i \<noteq> j"
    then show "draw_ids n cl' ! i \<noteq> draw_ids n cl' ! j" using le [of i j] le [of j i] by auto
  qed
qed

text \<open>
  C35: The numbers a session draws, fewer than 2^64 - 1 of them, are 1, 2, 3 and so on without repetition; published in that order to
  a broker that does not know the producer yet, none of them is taken for a duplicate. Order matters:
  once a number is marked, every number drawn before it is.
\<close>

theorem session_never_duplicate:
  assumes "Connect ce host prt cfg cl = Some (ok, cl')" and "n < 2 ^ 64 - 1"
    and "\<forall>s. \<not> IsDuplicate w (cl_producer_id cl') s"
  shows "draw_ids n cl' = map (\<lambda>i. of_nat (i + 1)) [0..<n] \<and> distinct (draw_ids n cl') \<and>
    (\<forall>i < n. \<not> IsDuplicate (dw.marks (map (\<lambda>s. (cl_producer_id cl', s, now s)) (take i (draw_ids n cl'))) w)
       (cl_producer_id cl') (draw_ids n cl' ! i)) \<and>
    (\<forall>i j. i \<le> j \<and> j < n \<longrightarrow>
       IsDuplicate (MarkProcessed (cl_producer_id cl') (draw_ids n cl' ! j) t w) (cl_producer_id cl') (draw_ids n cl' ! i))"
proof -
  let ?p = "cl_producer_id cl'" and ?ids = "draw_ids n cl'"
  note ids = drawn_ids [OF assms(1,2)]
  have len: "length ?ids = n" by (simp add: ids(1))
  have "length ?p = 32" using Connect_ids [OF assms(1)] producer_id_length by simp
  then have "?p \<noteq> []" by auto
  then have later: "IsDuplicate (MarkProcessed ?p (?ids ! j) t w) ?p (?ids ! i)" if "i \<le> j" "j < n" for i j
    using that ids(2) by (simp add: dw.dup_mark_iff)
  have "\<not> IsDuplicate (dw.marks (map (\<lambda>s. (?p, s, now s)) (take i ?ids)) w) ?p (?ids ! i)" if i: "i < n" for i
  proof -
    have "\<not> ?ids ! i \<le> s" if "s \<in> set (take i ?ids)" for s
      using that i ids(2) [OF i] len by (auto simp: in_set_conv_nth)
    then show ?thesis
      using assms(3) by (auto simp: dw.dup_marks)
  qed
  then show ?thesis using ids(1,3) later by blast
qed

definition sample_connect :: connect_env where
  "sample_connect = \<lparr>ce_p1 = 0x0123456789abcdef, ce_p2 = 42, ce_socket_ok = True, ce_address_ok = True,
     ce_connect_ok = True, ce_created = 0, ce_now = 0\<rparr>"

definition sample_client :: TcpClient where
  "sample_client = snd (the (Connect sample_connect ''127.0.0.1'' 9090 None cl_new))"

lemma sample_client: "Connect sample_connect ''127.0.0.1'' 9090 None cl_new = Some (True, sample_client)"
  by (simp add: sample_client_def Connect_def sample_connect_def cl_new_def cl_heartbeat_def Let_def)

theorem session_never_duplicate_witness:
  "draw_ids 3 sample_client = [1, 2, 3] \<and>
   \<not> IsDuplicate (dw.marks (map (\<lambda>s. (cl_producer_id sample_client, s, 0)) (take 2 (draw_ids 3 sample_client))) (dw_new 10))
     (cl_producer_id sample_client) (draw_ids 3 sample_client ! 2)"
proof -
  have "\<forall>s. \<not> IsDuplicate (dw_new 10) (cl_producer_id sample_client) s"
    by (simp add: IsDuplicate_def dw_new_def um_find_def)
  moreover have "(3 :: nat) < 2 ^ 64 - 1" by simp
  ultimately have "draw_ids 3 sample_client = map (\<lambda>i. of_nat (i + 1)) [0..<3]" and
    "\<forall>i < 3. \<not> IsDuplicate (dw.marks (map (\<lambda>s. (cl_producer_id sample_client, s, 0)) (take i (draw_ids 3 sample_client))) (dw_new 10))
       (cl_producer_id sample_client) (draw_ids 3 sample_client ! i)"
    using session_never_duplicate [OF sample_client, where n = 3 and w = "dw_new 10" and now = "\<lambda>_. 0" and t = 0]
    by blast+
  moreover have "(2 :: nat) < 3" by simp
  ultimately have "draw_ids 3 sample_client = map (\<lambda>i. of_nat (i + 1)) [0..<3]" and
    "\<not> IsDuplicate (dw.marks (map (\<lambda>s. (cl_producer_id sample_client, s, 0)) (take 2 (draw_ids 3 sample_client))) (dw_new 10))
       (cl_producer_id sample_client) (draw_ids 3 sample_client ! 2)"
    by blast+
  then show ?thesis by (auto simp: upt_rec)
qed

subsection \<open>Executions of the client\<close>

text \<open>The operations of the application and the rounds of the two threads, in any order.\<close>

datatype cl_op =
    ClConnect connect_env string u16 "BrokerConfig option"
  | ClDisconnect
  | ClSend Frame "send_result list"
  | ClNextId
  | ClRead "recv_result list" "nat \<Rightarrow> send_result list" time_point
  | ClPing "send_result list" time_point

fun cl_exec :: "cl_op \<Rightarrow> TcpClient \<Rightarrow> TcpClient option" where
  "cl_exec (ClConnect ce host prt cfg) cl = map_option snd (Connect ce host prt cfg cl)"
| "cl_exec ClDisconnect cl = Some (Disconnect cl)"
| "cl_exec (ClSend f rs) cl = Some (snd (snd (cl_SendFrame f rs cl)))"
| "cl_exec ClNextId cl = Some (snd (GetNextSequenceId cl))"
| "cl_exec (ClRead rs rss now) cl =
     (case ReadLoop_round rs rss now cl of None \<Rightarrow> Some cl | Some (app, out, cl') \<Rightarrow> Some cl')"
| "cl_exec (ClPing rs now) cl = Some (snd (snd (PingLoop_round rs now cl)))"

inductive cl_reachable :: "TcpClient \<Rightarrow> bool" where
  cl_start: "cl_reachable cl_new"
| cl_step: "cl_reachable cl \<Longrightarrow> cl_exec x cl = Some cl' \<Longrightarrow> cl_reachable cl'"

text \<open>
  \<open>client_ok\<close>: there is a connection object, of identifier 1, and a reader thread to join exactly while
  the client is connected, a ping thread only together with the reader, and an identifier is either
  missing or complete.
\<close>

definition client_ok :: "TcpClient \<Rightarrow> bool" where
  "client_ok cl \<longleftrightarrow>
     (cl_connected cl \<longleftrightarrow> cl_connection cl \<noteq> None) \<and> (cl_read_thread cl \<longleftrightarrow> cl_connected cl) \<and>
     (cl_ping_thread cl \<longrightarrow> cl_read_thread cl) \<and>
     (\<forall>c. cl_connection cl = Some c \<longrightarrow> c_id c = 1) \<and>
     length (cl_producer_id cl) \<in> {0, 32}"

lemma client_ok_conn:
  "client_ok cl \<Longrightarrow> cl_connection cl = Some c \<Longrightarrow> c_id c' = c_id c \<Longrightarrow> client_ok (cl\<lparr>cl_connection := Some c'\<rparr>)"
  by (simp add: client_ok_def)

lemma cl_SendFrame_ok:
  assumes "client_ok cl" and "cl_SendFrame f rs cl = (ok, out, cl')"
  shows "client_ok cl'"
proof (cases "\<exists>c. cl_connection cl = Some c \<and> cl_connected cl \<and> \<not> c_closed c")
  case True
  then obtain c where c: "cl_connection cl = Some c" "cl_connected cl" "\<not> c_closed c" by blast
  obtain ok' out' c' where r: "SendFrame f rs c = (ok', out', c')" by (cases "SendFrame f rs c")
  show ?thesis
    using assms(2) c r client_ok_conn [OF assms(1) c(1) SendFrame_id [OF r]] by (simp add: cl_SendFrame_def)
next
  case False
  then show ?thesis using assms by (auto simp: cl_SendFrame_def split: if_splits option.splits)
qed

lemma cl_on_frame_ok:
  assumes "client_ok cl" and "cl_on_frame rs now f cl = (app, out, cl')"
  shows "client_ok cl'"
proof (cases "msg_type f = FMT_Ping")
  case True
  obtain ok o1 cl1 where r: "cl_SendFrame (default_Frame\<lparr>msg_type := FMT_Pong\<rparr>) rs cl = (ok, o1, cl1)"
    by (metis prod_cases3)
  then show ?thesis using assms(2) True cl_SendFrame_ok [OF assms(1) r] by (simp add: cl_on_frame_def)
next
  case False
  then show ?thesis using assms by (auto simp: cl_on_frame_def client_ok_def split: if_splits)
qed

lemma cl_on_frames_ok: "client_ok cl \<Longrightarrow> cl_on_frames rss now k fs cl = (app, out, cl') \<Longrightarrow> client_ok cl'"
proof (induction fs arbitrary: k cl app out cl')
  case (Cons f fs)
  obtain a1 o1 cl1 where r: "cl_on_frame (rss k) now f cl = (a1, o1, cl1)" by (metis prod_cases3)
  obtain a2 o2 cl2 where rs: "cl_on_frames rss now (Suc k) fs cl1 = (a2, o2, cl2)" by (metis prod_cases3)
  show ?case
    using Cons.IH [OF cl_on_frame_ok [OF Cons.prems(1) r] rs] Cons.prems(2) r rs by simp
qed simp

lemma ReadLoop_round_ok:
  assumes "client_ok cl" and "ReadLoop_round rs rss now cl = Some (app, out, cl')"
  shows "client_ok cl'"
proof -
  obtain c where c: "cl_connection cl = Some c"
    using assms(2) by (auto simp: ReadLoop_round_def split: if_splits option.splits)
  obtain fs c' where r: "OnRead rs now c = (fs, c')" by (cases "OnRead rs now c")
  have "cl_on_frames rss now 0 fs (cl\<lparr>cl_connection := Some c'\<rparr>) = (app, out, cl')"
    using assms(2) c r by (auto simp: ReadLoop_round_def split: if_splits)
  then show ?thesis
    by (rule cl_on_frames_ok [OF client_ok_conn [OF assms(1) c OnRead_id [OF r]]])
qed

lemma Close_id [simp]: "c_id (Close c) = c_id c"
  by (simp add: Close_def)

lemma PingLoop_round_ok:
  assumes "client_ok cl" and "PingLoop_round rs now cl = (go_on, out, cl')"
  shows "client_ok cl'"
proof -
  obtain ok o1 cl1 where r: "cl_SendFrame (default_Frame\<lparr>msg_type := FMT_Ping\<rparr>) rs cl = (ok, o1, cl1)"
    by (metis prod_cases3)
  have "client_ok cl1" by (rule cl_SendFrame_ok [OF assms(1) r])
  moreover have "client_ok (cl1\<lparr>cl_connection := map_option Close (cl_connection cl1)\<rparr>)"
    using calculation by (auto simp: client_ok_def)
  ultimately show ?thesis
    using assms r by (auto simp: PingLoop_round_def Let_def split: if_splits)
qed

lemma Connect_ok:
  assumes "client_ok cl" and "Connect ce host prt cfg cl = Some (ok, cl')"
  shows "client_ok cl'"
  using assms by (auto simp: Connect_def Let_def client_ok_def producer_id_length conn_new_def split: if_splits)

lemma cl_exec_ok: "client_ok cl \<Longrightarrow> cl_exec x cl = Some cl' \<Longrightarrow> client_ok cl'"
proof (cases x)
  case (ClSend f rs)
  then show "client_ok cl \<Longrightarrow> cl_exec x cl = Some cl' \<Longrightarrow> client_ok cl'"
    using cl_SendFrame_ok by (metis cl_exec.simps(3) option.sel prod.collapse)
next
  case (ClPing rs now)
  then show "client_ok cl \<Longrightarrow> cl_exec x cl = Some cl' \<Longrightarrow> client_ok cl'"
    using PingLoop_round_ok by (metis cl_exec.simps(6) option.sel prod.collapse)
next
  case ClDisconnect
  then show "client_ok cl \<Longrightarrow> cl_exec x cl = Some cl' \<Longrightarrow> client_ok cl'"
    by (auto simp: client_ok_def Disconnect_def)
next
  case ClNextId
  then show "client_ok cl \<Longrightarrow> cl_exec x cl = Some cl' \<Longrightarrow> client_ok cl'"
    by (auto simp: client_ok_def GetNextSequenceId_def)
qed (auto dest: Connect_ok ReadLoop_round_ok split: option.splits)

lemma reachable_ok: "cl_reachable cl \<Longrightarrow> client_ok cl"
proof (induction rule: cl_reachable.induct)
  case cl_start
  then show ?case by (simp add: client_ok_def cl_new_def)
next
  case (cl_step cl x cl')
  then show ?case using cl_exec_ok by blast
qed

text \<open>
  C33: The state of a client stays consistent: in every state that operations and rounds of the
  threads can reach, there is a connection object and a reader thread exactly between \<open>Connect\<close> and
  \<open>Disconnect\<close>, a ping thread only with a reader, and a producer identifier of 32 characters or none.
\<close>

theorem client_well_formed:
  assumes "cl_reachable cl"
  shows "(cl_connected cl \<longleftrightarrow> cl_connection cl \<noteq> None) \<and> (cl_read_thread cl \<longleftrightarrow> cl_connected cl) \<and>
    (cl_ping_thread cl \<longrightarrow> cl_read_thread cl) \<and> length (cl_producer_id cl) \<in> {0, 32} \<and>
    (IsConnected cl \<longrightarrow> cl_connected cl)"
  using reachable_ok [OF assms] by (auto simp: client_ok_def IsConnected_def)

lemma sample_client_fields:
  "cl_connected sample_client" "cl_read_thread sample_client" "cl_connection sample_client = Some (conn_new 1 None 0)"
  "cl_ping_timeout sample_client = 15000" "cl_last_pong_time_ms sample_client = 0"
  by (simp_all add: sample_client_def Connect_def sample_connect_def cl_heartbeat_def cl_new_def ms_of_def ping_timeout_def Let_def)

lemma sample_client_reachable: "cl_reachable sample_client"
  by (rule cl_step [OF cl_start, where x = "ClConnect sample_connect ''127.0.0.1'' 9090 None"]) (simp add: sample_client)

theorem client_well_formed_witness:
  "cl_read_thread sample_client \<and> cl_connection sample_client \<noteq> None \<and> cl_connected sample_client"
  using client_well_formed [OF sample_client_reachable] sample_client_fields(1) by blast

text \<open>
  C34: Reconnecting needs a \<open>Disconnect\<close> first: in a reachable state \<open>Connect\<close> ends the process exactly
  if it gets a new connection while the client still counts as connected; after \<open>Disconnect\<close> it
  never does. A client that lost its connection is in the dangerous state: when the peer closes,
  \<open>IsConnected\<close> is false but a successful \<open>Connect\<close> ends the process.
\<close>

theorem reconnect_terminates:
  assumes "cl_reachable cl"
  shows "(Connect ce host prt cfg cl = None \<longleftrightarrow>
      ce_socket_ok ce \<and> ce_address_ok ce \<and> ce_connect_ok ce \<and> cl_connected cl) \<and>
    Connect ce host prt cfg (Disconnect cl) \<noteq> None \<and>
    (\<forall>rss now app out cl'. ReadLoop_round [Peer_Closed] rss now cl = Some (app, out, cl') \<longrightarrow>
       \<not> IsConnected cl' \<and>
       (ce_socket_ok ce \<and> ce_address_ok ce \<and> ce_connect_ok ce \<longrightarrow> Connect ce host prt cfg cl' = None))"
proof -
  have none: "Connect ce host prt cfg cl = None \<longleftrightarrow>
      ce_socket_ok ce \<and> ce_address_ok ce \<and> ce_connect_ok ce \<and> cl_connected cl" if "client_ok cl" for cl
    using that by (auto simp: Connect_def Let_def client_ok_def)
  have ok: "client_ok cl" by (rule reachable_ok [OF assms])
  have "\<not> cl_connected (Disconnect cl)" "client_ok (Disconnect cl)"
    using ok by (auto simp: client_ok_def Disconnect_def)
  moreover have "\<not> IsConnected cl' \<and> cl_connected cl'"
    if r: "ReadLoop_round [Peer_Closed] rss now cl = Some (app, out, cl')" for rss now app out cl'
    using r by (auto simp: ReadLoop_round_def OnRead_def Close_def IsConnected_def split: if_splits option.splits)
  ultimately show ?thesis
    using none ok ReadLoop_round_ok [OF ok] by blast
qed

theorem reconnect_terminates_witness:
  "\<exists>cl'. ReadLoop_round [Peer_Closed] (\<lambda>_. []) 1 sample_client = Some ([], [], cl') \<and> \<not> IsConnected cl' \<and>
    Connect sample_connect ''127.0.0.1'' 9090 None cl' = None"
proof -
  have "ReadLoop_round [Peer_Closed] (\<lambda>_. []) 1 sample_client =
      Some ([], [], sample_client\<lparr>cl_connection := Some (Close (conn_new 1 None 0))\<rparr>)"
    by (simp add: ReadLoop_round_def sample_client_fields conn_new_def OnRead_def)
  with reconnect_terminates [OF sample_client_reachable, of sample_connect "''127.0.0.1''" 9090 None] show ?thesis
    by (simp add: sample_connect_def)
qed

subsection \<open>Heartbeats between client and broker\<close>

definition ping :: Frame where
  "ping = default_Frame\<lparr>msg_type := FMT_Ping\<rparr>"

text \<open>The frames that a handler sends back on the connection itself.\<close>

definition replies :: "action list \<Rightarrow> Frame list" where
  "replies acts = concat (map (\<lambda>a. case a of Reply f \<Rightarrow> [f] | Send_To c f \<Rightarrow> []) acts)"

lemma SendFrame_true_open: "SendFrame f rs c = (True, out, c') \<Longrightarrow> \<not> c_closed c'"
  by (auto simp: SendFrame_def Let_def split: if_splits prod.splits send_result.splits list.splits)

lemma cl_SendFrame_keeps:
  "cl_SendFrame f rs cl = (ok, out, cl') \<Longrightarrow>
     cl_last_pong_time_ms cl' = cl_last_pong_time_ms cl \<and> cl_ping_timeout cl' = cl_ping_timeout cl \<and> cl_connected cl' = cl_connected cl"
  by (auto simp: cl_SendFrame_def split: if_splits option.splits prod.splits)

lemma cl_SendFrame_true: "cl_SendFrame f rs cl = (True, out, cl') \<Longrightarrow> IsConnected cl'"
  by (auto simp: cl_SendFrame_def IsConnected_def dest: SendFrame_true_open split: if_splits option.splits prod.splits)

lemma PingLoop_round_result:
  assumes "cl_SendFrame ping rs cl = (True, out, cl1)"
  shows "PingLoop_round rs now cl =
    (if now div 1000000 - sint (cl_last_pong_time_ms cl) > int (unat (cl_ping_timeout cl))
     then (False, out, cl1\<lparr>cl_connection := map_option Close (cl_connection cl1)\<rparr>) else (True, out, cl1))"
proof -
  have "cl_connected cl" using assms by (auto simp: cl_SendFrame_def split: if_splits)
  then show ?thesis
    using assms cl_SendFrame_keeps [OF assms] by (simp add: PingLoop_round_def ping_def Let_def)
qed

lemma not_connected_closed: "\<not> IsConnected (cl\<lparr>cl_connection := map_option Close (cl_connection cl)\<rparr>)"
  by (auto simp: IsConnected_def Close_def split: option.splits)

lemma sint_ms_of: "0 \<le> t \<Longrightarrow> t < 2 ^ 63 \<Longrightarrow> sint (ms_of t) = t div 1000000"
proof -
  assume t: "0 \<le> t" "t < 2 ^ 63"
  then have "t div 1000000 < 2 ^ 63" "0 \<le> t div 1000000"
    by (auto intro: le_less_trans [of _ t])
  then show ?thesis
    by (simp add: ms_of_def signed_of_int signed_take_bit_int_eq_self)
qed

lemma broker_ping:
  "OnFrameReceived e ping b conn = Some ((b, conn),
     if heartbeat_enabled (cm_global_config (b_config b)) then [Reply (default_Frame\<lparr>msg_type := FMT_Pong\<rparr>)] else [])"
  by (simp add: OnFrameReceived_def ping_def HandlePing_def Let_def FMT_defs)

text \<open>
  Heartbeats work when both ends enable them: the broker answers a ping with a pong if its
  heartbeats are enabled, changing nothing else, and after the client has read the answer at
  \<open>t\<close>, its next ping that can be sent keeps the connection exactly if it comes no later than the timeout
  after \<open>t\<close>. A broker with heartbeats disabled stays silent, so the client closes a healthy connection
  at the first ping later than the timeout after the last pong it saw.
\<close>

theorem heartbeat_agreement:
  assumes "OnFrameReceived e ping b conn = Some ((b', conn'), acts)" and "0 \<le> t" and "t < 2 ^ 63"
    and "cl_on_frames rss t 0 (replies acts) cl = (app, out0, cl1)"
    and "cl_SendFrame ping rs cl1 = (True, out, cl2)"
    and "alive = (now div 1000000 - (if heartbeat_enabled (cm_global_config (b_config b)) then t div 1000000
        else sint (cl_last_pong_time_ms cl)) \<le> int (unat (cl_ping_timeout cl)))"
  shows "b' = b \<and> conn' = conn \<and>
    fst (PingLoop_round rs now cl1) = alive \<and> IsConnected (snd (snd (PingLoop_round rs now cl1))) = alive"
proof -
  let ?on = "heartbeat_enabled (cm_global_config (b_config b))"
  have acts: "b' = b" "conn' = conn" "acts = (if ?on then [Reply (default_Frame\<lparr>msg_type := FMT_Pong\<rparr>)] else [])"
    using assms(1) unfolding broker_ping by auto
  then have cl1: "cl1 = (if ?on then cl\<lparr>cl_last_pong_time_ms := ms_of t\<rparr> else cl)"
    using assms(4) by (auto simp: replies_def cl_on_frame_def FMT_defs split: if_splits)
  then have "alive \<longleftrightarrow> \<not> now div 1000000 - sint (cl_last_pong_time_ms cl1) > int (unat (cl_ping_timeout cl1))"
    using assms(6) sint_ms_of [OF assms(2,3)] by auto
  then show ?thesis
    using acts cl_SendFrame_true [OF assms(5)] not_connected_closed
    unfolding PingLoop_round_result [OF assms(5)] by simp
qed

theorem heartbeat_agreement_witness:
  "\<exists>cl1. snd (snd (cl_on_frames (\<lambda>_. []) 1000000 0 (replies [Reply (default_Frame\<lparr>msg_type := FMT_Pong\<rparr>)]) sample_client)) = cl1 \<and>
    fst (PingLoop_round [] 15000000000 cl1) \<and> \<not> IsConnected (snd (snd (PingLoop_round [] 15002000000 cl1)))"
proof -
  let ?acts = "[Reply (default_Frame\<lparr>msg_type := FMT_Pong\<rparr>)]"
  let ?cl1 = "sample_client\<lparr>cl_last_pong_time_ms := ms_of 1000000\<rparr>"
  have on: "heartbeat_enabled (cm_global_config (b_config sample_broker))"
    by (simp add: sample_defs)
  then have b: "OnFrameReceived sample_env ping sample_broker sample_conn = Some ((sample_broker, sample_conn), ?acts)"
    by (simp add: broker_ping)
  have f: "cl_on_frames (\<lambda>_. []) 1000000 0 (replies ?acts) sample_client =
      ([default_Frame\<lparr>msg_type := FMT_Pong\<rparr>], [], ?cl1)"
    by (simp add: replies_def cl_on_frame_def FMT_defs)
  obtain out cl2 where s: "cl_SendFrame ping [] ?cl1 = (True, out, cl2)"
    by (simp add: cl_SendFrame_def sample_client_fields SendFrame_def conn_new_def zero_copy_def header_bytes Let_def)
  have "fst (PingLoop_round [] 15000000000 ?cl1) = True"
    using heartbeat_agreement [OF b _ _ f s, of True 15000000000] on
    by (simp add: sample_client_fields)
  moreover have "IsConnected (snd (snd (PingLoop_round [] 15002000000 ?cl1))) = False"
    using heartbeat_agreement [OF b _ _ f s, of False 15002000000] on
    by (simp add: sample_client_fields)
  ultimately show ?thesis using f by simp
qed

end
