(* ===== verification/Programs.thy ===== *)
theory Programs
  imports Tcp_Client Config_File
begin

text \<open>
  The two programs, \<^verbatim>\<open>main/server_main.cpp\<close> and \<^verbatim>\<open>main/client_main.cpp\<close>: their arguments without the
  name of the program, the configuration the server runs with, the request the client sends and the
  lines it prints. Console messages about usage and progress are left out.
\<close>

subsection \<open>\<open>std::atoi\<close>\<close>

text \<open>
  As glibc has it: \<open>strtol\<close> with its clamping to 64 bits, truncated to 32 bits. The standard leaves
  numbers that are out of range undefined.
\<close>

definition strtol :: "string \<Rightarrow> int" where
  "strtol s =
     (let s1 = dropWhile is_space s;
          negative = (s1 \<noteq> [] \<and> hd s1 = CHR ''-'');
          s2 = (if s1 \<noteq> [] \<and> hd s1 \<in> {CHR ''-'', CHR ''+''} then tl s1 else s1);
          n = int (digits_value (takeWhile is_digit s2))
      in max (- (2 ^ 63)) (min (2 ^ 63 - 1) (if negative then - n else n)))"

definition atoi :: "string \<Rightarrow> int" where
  "atoi s = sint (of_int (strtol s) :: 32 word)"

subsection \<open>The server\<close>

text \<open>
  The loop over the arguments: \<open>Inl\<close> when the program ends, with its exit code and the file it wrote,
  \<open>Inr\<close> with the configuration so far and the name of the configuration file. \<open>can_write\<close> says which
  files can be opened for writing.
\<close>

function parse_args :: "(string \<Rightarrow> bool) \<Rightarrow> string list \<Rightarrow> BrokerConfig \<Rightarrow> string
    \<Rightarrow> (int \<times> (string \<times> string) option) + (BrokerConfig \<times> string)" where
  "parse_args can_write [] config config_file = Inr (config, config_file)"
| "parse_args can_write (arg # args) config config_file =
     (if arg = ''--port'' \<and> args \<noteq> [] then
        parse_args can_write (tl args) (config\<lparr>port := of_int (atoi (hd args))\<rparr>) config_file
      else if arg = ''--config'' \<and> args \<noteq> [] then
        parse_args can_write (tl args) config (hd args)
      else if arg = ''--save-config'' \<and> args \<noteq> [] then
        let (ok, content) = SaveToFile (can_write (hd args)) default_BrokerConfig
        in Inl (if ok then 0 else 1, map_option (Pair (hd args)) content)
      else if arg = ''--help'' \<or> arg = ''-h'' then Inl (0, None)
      else parse_args can_write args config config_file)"
  by pat_completeness auto

termination
  by (relation "measure (\<lambda>(w, args, c, f). length args)") auto

text \<open>
  \<open>main\<close>: what the program does before it serves, given the contents of the files it can open and
  whether \<open>Broker::Start\<close> succeeds.
\<close>

datatype server_run =
    Exits int "(string \<times> string) option"
  | Serves BrokerConfig System

definition server_main :: "(string \<Rightarrow> bool) \<Rightarrow> (string \<Rightarrow> string option) \<Rightarrow> bool \<Rightarrow> time_point \<Rightarrow> string list \<Rightarrow> server_run" where
  "server_main can_write files start_ok now args =
     (case parse_args can_write args default_BrokerConfig [] of
        Inl (code, written) \<Rightarrow> Exits code written
      | Inr (config, config_file) \<Rightarrow>
          let (loaded, config) =
                (if config_file \<noteq> [] then LoadFromFile (files config_file) config else (True, config))
          in if \<not> loaded then Exits 1 None
             else
               let store = ms_new (unat (default_ring_buffer_size config)) (max_retry_count config) (pending_timeout_ms config)
               in if \<not> start_ok then Exits 1 None else Serves config (sys_new store config now))"

text \<open>The lines the server prints when it has started.\<close>

definition on_off :: "bool \<Rightarrow> string" where
  "on_off b = (if b then ''on'' else ''off'')"

definition server_banner :: "BrokerConfig \<Rightarrow> string list" where
  "server_banner config =
     [''PMQ Broker started on port '' @ to_string (unat (port config)),
      ''Features: batch='' @ on_off (batch_publish_enabled config) @ '' heartbeat='' @ on_off (heartbeat_enabled config) @
      '' rate_limit='' @ on_off (rate_limit_enabled config) @ '' ttl='' @ on_off (ttl_enabled config) @
      '' compression='' @ on_off (compression_enabled config),
      ''Press Ctrl+C to stop.'']"

subsection \<open>The client\<close>

text \<open>The generated message classes as the client uses them.\<close>

record client_pb =
  ser_publish :: "PublishRequest \<Rightarrow> byte list"
  ser_batch_publish :: "BatchPublishRequest \<Rightarrow> byte list"
  ser_subscribe :: "SubscribeRequest \<Rightarrow> byte list"
  ser_unsubscribe :: "UnsubscribeRequest \<Rightarrow> byte list"
  ser_pull :: "PullRequest \<Rightarrow> byte list"
  ser_ack :: "AckRequest \<Rightarrow> byte list"
  ser_admin_request :: "AdminRequest \<Rightarrow> byte list"
  parse_response :: "byte list \<Rightarrow> Response option"
  parse_push :: "byte list \<Rightarrow> PushMessage option"
  parse_batch_push :: "byte list \<Rightarrow> BatchPushMessage option"
  parse_admin_response :: "byte list \<Rightarrow> AdminResponse option"

text \<open>Conversions between a \<open>std::string\<close> and its bytes.\<close>

definition bytes_of :: "string \<Rightarrow> byte list" where
  "bytes_of s = map (\<lambda>c. of_nat (of_char c)) s"

definition text_of :: "byte list \<Rightarrow> string" where
  "text_of bs = map (\<lambda>b. char_of (unat b)) bs"

text \<open>\<open>argv\<close> holds the arguments from the host on, so \<open>argv ! i\<close> is \<open>argv[i + 1]\<close> of the source.\<close>

definition publish_request :: "string list \<Rightarrow> TcpClient \<Rightarrow> PublishRequest \<times> TcpClient" where
  "publish_request argv cl =
     (let (s, cl') = GetNextSequenceId cl in
      (\<lparr>pub_topic = argv ! 3, pub_payload = bytes_of (argv ! 4),
        pub_ttl_ms = (if length argv \<ge> 6 then of_int (atoi (argv ! 5)) else 0), pub_compressed = False,
        pub_producer_id = cl_producer_id cl, pub_sequence_id = s\<rparr>, cl'))"

fun batch_requests :: "string \<Rightarrow> string list \<Rightarrow> TcpClient \<Rightarrow> BatchPublishRequest \<times> TcpClient" where
  "batch_requests topic [] cl = ([], cl)"
| "batch_requests topic (m # ms) cl =
     (let (s, cl1) = GetNextSequenceId cl;
          (rs, cl2) = batch_requests topic ms cl1
      in (\<lparr>pub_topic = topic, pub_payload = bytes_of m, pub_ttl_ms = 0, pub_compressed = False,
           pub_producer_id = cl_producer_id cl, pub_sequence_id = s\<rparr> # rs, cl2))"

definition group_arg :: "string list \<Rightarrow> nat \<Rightarrow> string" where
  "group_arg argv i = (if length argv > i then argv ! i else [])"

definition admin_request :: "string list \<Rightarrow> AdminRequest option" where
  "admin_request argv =
     (let cmd = argv ! 3;
          req = (\<lambda>c. \<lparr>admin_command = c, admin_topic = [], admin_max_messages = 0\<rparr>);
          with_topic = (\<lambda>c. (req c)\<lparr>admin_topic := group_arg argv 4\<rparr>)
      in if cmd = ''list_topics'' then Some (req ADMIN_LIST_TOPICS)
         else if cmd = ''get_topic_info'' then Some (with_topic ADMIN_GET_TOPIC_INFO)
         else if cmd = ''delete_topic'' then Some (with_topic ADMIN_DELETE_TOPIC)
         else if cmd = ''get_stats'' then Some (req ADMIN_GET_STATS)
         else if cmd = ''get_connections'' then Some (req ADMIN_GET_CONNECTIONS)
         else if cmd = ''cleanup_topic'' then Some (with_topic ADMIN_CLEANUP_TOPIC)
         else None)"

text \<open>
  The frame of the command: \<open>Usage\<close> is the exit with code 1, \<open>Uncaught\<close> the exception of \<open>stoull\<close>
  that nothing catches.
\<close>

datatype client_outcome = Request Frame TcpClient | Usage | Uncaught

definition client_request :: "client_pb \<Rightarrow> string list \<Rightarrow> TcpClient \<Rightarrow> client_outcome" where
  "client_request pb argv cl =
     (let argc = length argv + 1; cmd = argv ! 2 in
      if cmd = ''publish'' \<and> argc \<ge> 6 then
        let (req, cl') = publish_request argv cl in Request (frame_of FMT_Publish (ser_publish pb req)) cl'
      else if cmd = ''batch_publish'' \<and> argc \<ge> 6 then
        let (req, cl') = batch_requests (argv ! 3) (drop 4 argv) cl
        in Request (frame_of FMT_BatchPublish (ser_batch_publish pb req)) cl'
      else if cmd = ''subscribe'' \<and> argc \<ge> 6 then
        Request (frame_of FMT_Subscribe (ser_subscribe pb
          \<lparr>subr_topic = argv ! 3, subr_subscriber_id = argv ! 4, subr_group_id = group_arg argv 5\<rparr>)) cl
      else if cmd = ''unsubscribe'' \<and> argc \<ge> 6 then
        Request (frame_of FMT_Unsubscribe (ser_unsubscribe pb
          \<lparr>unsub_topic = argv ! 3, unsub_subscriber_id = argv ! 4, unsub_group_id = group_arg argv 5\<rparr>)) cl
      else if cmd = ''pull'' \<and> argc \<ge> 6 then
        Request (frame_of FMT_Pull (ser_pull pb
          \<lparr>pull_topic_name = argv ! 3, pull_subscriber_id = argv ! 4, pull_group_id = group_arg argv 5,
           pull_max_messages = (if argc \<ge> 8 then of_int (atoi (argv ! 6)) else 10)\<rparr>)) cl
      else if cmd = ''ack'' \<and> argc \<ge> 7 then
        (case stoul (argv ! 5) of
           None \<Rightarrow> Uncaught
         | Some mid \<Rightarrow>
             Request (frame_of FMT_Ack (ser_ack pb
               \<lparr>ack_topic = argv ! 3, ack_subscriber_id = argv ! 4, ack_group_id = group_arg argv 6,
                ack_message_id = mid\<rparr>)) cl)
      else if cmd = ''admin'' \<and> argc \<ge> 5 then
        (case admin_request argv of
           None \<Rightarrow> Usage
         | Some req \<Rightarrow> Request (frame_of FMT_Admin (ser_admin_request pb req)) cl)
      else Usage)"

text \<open>The lines that the frame handler prints.\<close>

definition show_bool :: "bool \<Rightarrow> string" where
  "show_bool b = (if b then ''1'' else ''0'')"

definition show_payload :: "inflate_fn \<Rightarrow> PushMessage \<Rightarrow> string" where
  "show_payload unc push =
     (if push_compressed push then
        let d = Decompress unc (push_payload push) in
        if d \<noteq> [] then text_of d else ''[decompress_failed]''
      else text_of (push_payload push))"

definition show_push :: "inflate_fn \<Rightarrow> string \<Rightarrow> PushMessage \<Rightarrow> string" where
  "show_push unc tag push =
     tag @ '' topic='' @ push_topic push @ '' msg_id='' @ to_string (unat (push_message_id push)) @
     '' retry='' @ to_string (unat (push_retry_count push)) @
     '' compressed='' @ show_bool (push_compressed push) @
     '' payload='' @ show_payload unc push"

definition client_show :: "client_pb \<Rightarrow> inflate_fn \<Rightarrow> Frame \<Rightarrow> string list" where
  "client_show pb unc frame =
     (if msg_type frame = FMT_Response then
        (case parse_response pb (payload frame) of
           None \<Rightarrow> []
         | Some resp \<Rightarrow>
             [''Response: success='' @ show_bool (resp_success resp) @
              '' msg_id='' @ to_string (unat (resp_message_id resp)) @
              (if resp_error_msg resp \<noteq> [] then '' error='' @ resp_error_msg resp else [])])
      else if msg_type frame = FMT_Push then
        (case parse_push pb (payload frame) of
           None \<Rightarrow> []
         | Some push \<Rightarrow> [show_push unc ''[PUSH]'' push])
      else if msg_type frame = FMT_Admin then
        (case parse_admin_response pb (payload frame) of
           None \<Rightarrow> []
         | Some resp \<Rightarrow>
             [''[ADMIN] success='' @ show_bool (ares_success resp) @
              (if ares_error_msg resp \<noteq> [] then '' error='' @ ares_error_msg resp else []) @
              (if ares_json_result resp \<noteq> [] then '' result='' @ ares_json_result resp else [])])
      else if msg_type frame = FMT_BatchPush then
        (case parse_batch_push pb (payload frame) of
           None \<Rightarrow> []
         | Some pushes \<Rightarrow> map (show_push unc ''[BATCH_PUSH]'') pushes)
      else [])"

text \<open>
  \<open>main\<close>: the client connects before it looks at the command. The result is the exit code and the
  bytes sent, or an abort by \<open>std::terminate\<close>.
\<close>

datatype client_run = Client_Exits int "byte list" | Client_Aborts

definition client_main :: "client_pb \<Rightarrow> connect_env \<Rightarrow> send_result list \<Rightarrow> string list \<Rightarrow> client_run" where
  "client_main pb ce rs argv =
     (if length argv < 4 then Client_Exits 1 []
      else case Connect ce (argv ! 0) (of_int (atoi (argv ! 1))) None cl_new of
          None \<Rightarrow> Client_Aborts
        | Some (ok, cl) \<Rightarrow>
            if \<not> ok then Client_Exits 1 []
            else case client_request pb argv cl of
                Usage \<Rightarrow> Client_Exits 1 []
              | Uncaught \<Rightarrow> Client_Aborts
              | Request frame cl' \<Rightarrow> (case cl_SendFrame frame rs cl' of (sent, out, cl2) \<Rightarrow> Client_Exits 0 out))"

subsection \<open>Properties\<close>

lemma text_bytes: "text_of (bytes_of s) = s"
proof -
  have "unat (of_nat (of_char c) :: byte) = of_char c" for c :: char
    unfolding unsigned_of_nat by (simp add: take_bit_nat_eq_self nat_of_char_less_256)
  then show ?thesis by (simp add: text_of_def bytes_of_def comp_def)
qed

text \<open>What the subscribers of a single publish are sent.\<close>

lemma HandlePublish_pushes:
  assumes "HandlePublish e f b conn = Some ((b', conn'), acts)" and "Send_To c g \<in> set acts"
    and "parse_publish (e_pb e) (payload f) = Some req"
  shows "\<exists>mid k. g = push_frame e (publish_push e req mid (broker_payload e b req) k)"
  using assms(1)
proof (cases rule: HandlePublish_cases)
  case (admitted req' b1 conn1)
  have eqs: "req' = req" "broker_payload e b1 req = broker_payload e b req"
    using admitted(1) assms(3) broker_payload_same [OF admitted(3)] by simp_all
  from admitted(5) [symmetric] show ?thesis
  proof (cases rule: publish_admitted_SomeE)
    case (1 mid store)
    then show ?thesis using assms(2) by (simp add: SendResponse_code_def)
  next
    case (2 mid store gp tm)
    then have "Send_To c g \<in> set gp \<or> g = push_frame e (publish_push e req mid (broker_payload e b req) 0)"
      using assms(2) eqs by (auto simp: SendResponse_def)
    then show ?thesis
      using conjunct2 [OF push_groups_effect [OF 2(2)]] eqs by fastforce
  qed
qed (use assms in \<open>auto simp: SendResponse_def SendResponse_code_def\<close>)

text \<open>The payload that the client shows is the one that was published, compressed by the broker or not.\<close>

lemma show_broker_payload:
  assumes "zlib_ok (e_compress2 e) unc" and "length (pub_payload req) < 2 ^ 52" and "\<not> pub_compressed req"
    and "broker_payload e b req = (p, z)" and "push_payload m = p" and "push_compressed m = z"
  shows "show_payload unc m = text_of (pub_payload req)"
proof (cases z)
  case False
  then show ?thesis
    using assms(3-6) by (auto simp: show_payload_def broker_payload_def Let_def split: if_splits)
next
  case True
  let ?d = "pub_payload req"
  have p: "p = Compress (e_compress2 e) ?d" "p \<noteq> []" "length p < length ?d"
    using assms(3,4) True by (auto simp: broker_payload_def Let_def split: if_splits)
  then have d: "?d \<noteq> []" "e_compress2 e ?d = Some p"
    by (auto simp: Compress_def split: if_splits option.splits)
  then have "Decompress unc p = ?d"
    using decompress_restores [OF assms(1) d] p assms(2) by simp
  then show ?thesis
    using True assms(5,6) d(1) by (simp add: show_payload_def)
qed

text \<open>
  C16: What is typed is what is shown: when the broker handles the frame that the command \<open>publish\<close> of the
  client program made, then every other client that is pushed the message prints one line with the
  topic and the text of the command line, whether the broker compressed the payload or not. Relied on: parsing what was serialised gives the message back,
  \<open>uncompress\<close> inverts \<open>compress2\<close>, and the text has fewer than 2^52 bytes.
\<close>

theorem published_text_is_shown:
  assumes "client_request pb argv cl = Request f cl'" and "argv ! 2 = ''publish''"
    and "\<forall>r. parse_publish (e_pb e) (ser_publish pb r) = Some r"
    and "\<forall>m. parse_push pb (ser_push (e_pb e) m) = Some m"
    and "zlib_ok (e_compress2 e) unc" and "length (argv ! 4) < 2 ^ 52"
    and "OnFrameReceived e f b conn = Some ((b', conn'), acts)" and "Send_To c g \<in> set acts"
  shows "\<exists>mid z. client_show pb unc g =
    [''[PUSH] topic='' @ argv ! 3 @ '' msg_id='' @ to_string (unat (mid :: u64)) @
     '' retry=0 compressed='' @ show_bool z @ '' payload='' @ argv ! 4]"
proof -
  obtain req where req: "publish_request argv cl = (req, cl')" "f = frame_of FMT_Publish (ser_publish pb req)"
    using assms(1,2) by (auto simp: client_request_def Let_def split: if_splits prod.splits)
  then have fields: "pub_topic req = argv ! 3" "pub_payload req = bytes_of (argv ! 4)" "\<not> pub_compressed req"
    by (auto simp: publish_request_def Let_def split: prod.splits)
  have parsed: "parse_publish (e_pb e) (payload f) = Some req"
    using req(2) assms(3) by (simp add: frame_of_def)
  have "HandlePublish e f b conn = Some ((b', conn'), acts)"
    using assms(7) req(2) by (simp add: OnFrameReceived_def frame_of_def)
  from HandlePublish_pushes [OF this assms(8) parsed] obtain mid k where
    g: "g = push_frame e (publish_push e req mid (broker_payload e b req) k)" by blast
  let ?m = "publish_push e req mid (broker_payload e b req) k"
  have "client_show pb unc g = [show_push unc ''[PUSH]'' ?m]"
    using assms(4) by (simp add: g client_show_def push_frame_def frame_of_def FMT_defs)
  moreover have "show_payload unc ?m = argv ! 4"
    using show_broker_payload [OF assms(5), of req b "fst (broker_payload e b req)" "snd (broker_payload e b req)" ?m]
      assms(6) fields by (simp add: publish_push_def bytes_of_def text_bytes [unfolded bytes_of_def])
  moreover have "to_string 0 = ''0''" by (simp add: to_string.simps [of 0] char_of_def bit_Suc_0_iff)
  ultimately show ?thesis
    using fields(1) by (intro exI [of _ mid] exI [of _ "push_compressed ?m"]) (simp add: show_push_def publish_push_def)
qed

subsection \<open>A sample run\<close>

text \<open>
  A serialisation that the parsers undo, in place of the generated one: numbers in unary, byte
  strings after their length.
\<close>

definition enc_n :: "nat \<Rightarrow> byte list" where
  "enc_n n = replicate n 1 @ [0]"

definition dec_n :: "byte list \<Rightarrow> nat \<times> byte list" where
  "dec_n bs = (length (takeWhile (\<lambda>b. b = 1) bs), tl (dropWhile (\<lambda>b. b = 1) bs))"

definition enc_b :: "byte list \<Rightarrow> byte list" where
  "enc_b b = enc_n (length b) @ b"

definition dec_b :: "byte list \<Rightarrow> byte list \<times> byte list" where
  "dec_b bs = (let (n, r) = dec_n bs in (take n r, drop n r))"

lemma dec_enc: "dec_n (enc_n n @ r) = (n, r)" "dec_b (enc_b b @ r) = (b, r)"
proof -
  show n: "dec_n (enc_n n @ r) = (n, r)" for n r
  proof -
    have "takeWhile (\<lambda>b. b = 1) (replicate n 1 @ 0 # r) = replicate n (1 :: byte)"
      "dropWhile (\<lambda>b. b = 1) (replicate n 1 @ 0 # r) = (0 :: byte) # r"
      by (induction n) simp_all
    then show ?thesis by (simp add: dec_n_def enc_n_def)
  qed
  show "dec_b (enc_b b @ r) = (b, r)"
    by (simp add: dec_b_def enc_b_def n)
qed

lemma dec_enc_end: "dec_n (enc_n n) = (n, [])"
  using dec_enc(1) [of n "[]"] by simp

definition enc_publish :: "PublishRequest \<Rightarrow> byte list" where
  "enc_publish r = enc_b (bytes_of (pub_topic r)) @ enc_b (pub_payload r) @ enc_n (unat (pub_ttl_ms r)) @
     enc_n (of_bool (pub_compressed r)) @ enc_b (bytes_of (pub_producer_id r)) @ enc_n (unat (pub_sequence_id r))"

definition dec_publish :: "byte list \<Rightarrow> PublishRequest option" where
  "dec_publish bs =
     (let (t, bs) = dec_b bs; (p, bs) = dec_b bs; (ttl, bs) = dec_n bs; (z, bs) = dec_n bs;
          (i, bs) = dec_b bs; (s, bs) = dec_n bs
      in Some \<lparr>pub_topic = text_of t, pub_payload = p, pub_ttl_ms = of_nat ttl, pub_compressed = (z = 1),
           pub_producer_id = text_of i, pub_sequence_id = of_nat s\<rparr>)"

definition enc_push :: "PushMessage \<Rightarrow> byte list" where
  "enc_push m = enc_n (unat (push_message_id m)) @ enc_b (bytes_of (push_topic m)) @ enc_b (push_payload m) @
     enc_n (unat (push_timestamp m)) @ enc_n (unat (push_retry_count m)) @ enc_n (of_bool (push_compressed m))"

definition dec_push :: "byte list \<Rightarrow> PushMessage option" where
  "dec_push bs =
     (let (i, bs) = dec_n bs; (t, bs) = dec_b bs; (p, bs) = dec_b bs; (ts, bs) = dec_n bs;
          (r, bs) = dec_n bs; (z, bs) = dec_n bs
      in Some \<lparr>push_message_id = of_nat i, push_topic = text_of t, push_payload = p,
           push_timestamp = of_nat ts, push_retry_count = of_nat r, push_compressed = (z = 1)\<rparr>)"

lemma dec_publish: "dec_publish (enc_publish r) = Some r"
  by (simp add: dec_publish_def enc_publish_def dec_enc dec_enc_end text_bytes)

lemma dec_push: "dec_push (enc_push m) = Some m"
  by (simp add: dec_push_def enc_push_def dec_enc dec_enc_end text_bytes)

definition sample_client_pb :: client_pb where
  "sample_client_pb = \<lparr>ser_publish = enc_publish, ser_batch_publish = (\<lambda>_. []), ser_subscribe = (\<lambda>_. []),
     ser_unsubscribe = (\<lambda>_. []), ser_pull = (\<lambda>_. []), ser_ack = (\<lambda>_. []), ser_admin_request = (\<lambda>_. []),
     parse_response = (\<lambda>_. None), parse_push = dec_push, parse_batch_push = (\<lambda>_. None),
     parse_admin_response = (\<lambda>_. None)\<rparr>"

definition sample_wire_env :: env where
  "sample_wire_env = sample_env\<lparr>e_pb := sample_pb\<lparr>protobuf.parse_publish := dec_publish, ser_push := enc_push\<rparr>\<rparr>"

text \<open>A broker with one subscriber of topic \<open>t\<close>, on connection 2.\<close>

definition sample_audience :: Broker where
  "sample_audience = sample_broker\<lparr>b_topics := tm_exec (OpSubscribe ''t'' \<lparr>si_id = ''s'', si_conn_id = 2\<rparr> []) tm_new\<rparr>"

lemma sample_audience_publish:
  assumes "parse_publish (e_pb e) (payload f) = Some req" and "msg_type f = FMT_Publish"
    and "pub_topic req = ''t''" and "pub_payload req = [x]" and "pub_ttl_ms req = 0" and "\<not> pub_compressed req"
  shows "\<exists>b' conn' acts g. OnFrameReceived e f sample_audience sample_conn = Some ((b', conn'), acts) \<and> Send_To 2 g \<in> set acts"
proof -
  have pz: "broker_payload e sample_audience req = ([x], False)"
    using assms(4,6) by (simp add: broker_payload_def ShouldCompress_def sample_audience_def sample_defs)
  obtain s' where p: "Publish ''t'' [x] 0 (e_system e 0) (e_system e 1) (ms_new 64 3 5000) = Some ((True, 1), s')"
    using sample_publish by blast
  have subs: "GetSubscribers (b_topics sample_audience) ''t'' = [\<lparr>si_id = ''s'', si_conn_id = 2\<rparr>]"
    "GetConsumerGroups (b_topics sample_audience) ''t'' = []"
    by (simp_all add: sample_audience_def tm_new_def Subscribe_def GetSubscribers_def GetConsumerGroups_def
        Let_def um_at_def um_find_def um_put_def)
  have store: "b_store sample_audience = ms_new 64 3 5000"
    by (simp add: sample_audience_def sample_broker_def broker_new_def)
  have "\<exists>b' acts g. publish_admitted e req sample_audience sample_conn = Some ((b', sample_conn), acts) \<and> Send_To 2 g \<in> set acts"
    unfolding publish_admitted_def pz using p by (auto simp: assms(3,5) ttl_of_def store subs)
  moreover have "OnFrameReceived e f sample_audience sample_conn = publish_admitted e req sample_audience sample_conn"
    using HandlePublish_admitted [OF assms(1), of sample_audience sample_conn sample_conn sample_audience] assms(2)
    by (simp add: OnFrameReceived_def Let_def sample_audience_def sample_defs dup_request_def IsDuplicate_def
        acquire_conn_def acquire_global_def)
  ultimately show ?thesis by auto
qed

theorem published_text_is_shown_witness:
  "\<exists>f cl b conn acts g mid z. client_request sample_client_pb [''h'', ''1'', ''publish'', ''t'', ''x''] sample_client = Request f cl \<and>
    OnFrameReceived sample_wire_env f sample_audience sample_conn = Some ((b, conn), acts) \<and> Send_To 2 g \<in> set acts \<and>
    client_show sample_client_pb (\<lambda>_ _. Z_OTHER) g =
      [''[PUSH] topic='' @ ''t'' @ '' msg_id='' @ to_string (unat (mid :: u64)) @ '' retry=0 compressed='' @ show_bool z @
       '' payload='' @ ''x'']"
proof -
  let ?argv = "[''h'', ''1'', ''publish'', ''t'', ''x'']"
  obtain req cl where req: "publish_request ?argv sample_client = (req, cl)" by force
  let ?f = "frame_of FMT_Publish (enc_publish req)"
  have fields: "pub_topic req = ''t''" "pub_payload req = [120]" "pub_ttl_ms req = 0" "\<not> pub_compressed req"
    using req by (auto simp: publish_request_def bytes_of_def Let_def split: prod.splits)
  have f: "client_request sample_client_pb ?argv sample_client = Request ?f cl"
    using req by (simp add: client_request_def sample_client_pb_def)
  have pb: "\<forall>r. parse_publish (e_pb sample_wire_env) (ser_publish sample_client_pb r) = Some r"
    "\<forall>m. parse_push sample_client_pb (ser_push (e_pb sample_wire_env) m) = Some m"
    by (simp_all add: sample_wire_env_def sample_client_pb_def dec_publish dec_push)
  have "parse_publish (e_pb sample_wire_env) (payload ?f) = Some req"
    by (simp add: sample_wire_env_def frame_of_def dec_publish)
  from sample_audience_publish [OF this _ fields] obtain b conn acts g where
    r: "OnFrameReceived sample_wire_env ?f sample_audience sample_conn = Some ((b, conn), acts)" "Send_To 2 g \<in> set acts"
    by (auto simp: frame_of_def)
  have "zlib_ok (e_compress2 sample_wire_env) (\<lambda>_ _. Z_OTHER)"
    by (simp add: zlib_ok_def sample_wire_env_def sample_env_def)
  from published_text_is_shown [OF f _ pb this _ r] f r show ?thesis by fastforce
qed

text \<open>
  The configuration file of the server decides: if it holds a saved configuration, the server
  runs with exactly that configuration, on a new broker and an empty store of its sizes; a port on
  the command line has no effect, before or after the option \<open>--config\<close>.
\<close>

theorem server_config_file_wins:
  assumes "files f = snd (SaveToFile True c)" and "f \<noteq> []"
    and "args \<in> {[''--config'', f], [''--config'', f, ''--port'', p], [''--port'', p, ''--config'', f]}"
  shows "server_main can_write files True now args =
    Serves c (sys_new (ms_new (unat (default_ring_buffer_size c)) (max_retry_count c) (pending_timeout_ms c)) c now)"
proof -
  have "\<exists>c0. parse_args can_write args default_BrokerConfig [] = Inr (c0, f)"
    using assms(3) by auto
  then show ?thesis
    using assms(1,2) load_saved [of c] by (auto simp: server_main_def)
qed

theorem server_config_file_wins_witness:
  "server_main (\<lambda>_. True) (\<lambda>_. snd (SaveToFile True (default_BrokerConfig\<lparr>port := 5000\<rparr>))) True 0
     [''--config'', ''pmq.json'', ''--port'', ''6000''] =
   Serves (default_BrokerConfig\<lparr>port := 5000\<rparr>) (sys_new (ms_new 1048576 3 5000) (default_BrokerConfig\<lparr>port := 5000\<rparr>) 0)"
  using server_config_file_wins [of "\<lambda>_. snd (SaveToFile True (default_BrokerConfig\<lparr>port := 5000\<rparr>))" "''pmq.json''"
      "default_BrokerConfig\<lparr>port := 5000\<rparr>" "[''--config'', ''pmq.json'', ''--port'', ''6000'']" "''6000''" "\<lambda>_. True" 0]
  by (simp add: default_BrokerConfig_def)

end
